(* ===== verification/XPrelude.thy ===== *)
theory XPrelude
  imports Main "HOL-Library.Word"
begin

text \<open>
  Prelude of the development: the machine types of the C++ code, the congruence
  \<open>modeq\<close> used by every arithmetic proof, ceiling division, and generic facts on
  words and lists. Nothing here models a particular function of the repository.
\<close>

unbundle bit_operations_syntax

named_theorems modeq_intros "congruence rules for modeq"
named_theorems unat_simps "reading word operations as natural numbers"

section \<open>Machine types\<close>

type_synonym u8 = "8 word"
type_synonym u32 = "32 word"
type_synonym u64 = "64 word"
type_synonym u128 = "128 word"

section \<open>Words as natural numbers\<close>

text \<open>Every proof reads words with \<^const>\<open>unat\<close>; \<open>uint\<close> is not introduced behind its back.\<close>

declare of_nat_unat [simp del]


lemma unat_lt_64 [simp]: "unat (x :: u64) < 18446744073709551616"
  using unsigned_less [of x] by simp

lemma unat_le_64: "unat (x :: u64) \<le> 18446744073709551615"
  using unat_lt_64 [of x] by linarith

lemma unat_ucast_128 [simp, unat_simps]: "unat (ucast (x :: u64) :: u128) = unat x"
proof -
  have "unat x < 2 ^ 128"
    using unat_lt_64 [of x] by (rule less_trans) simp
  then show ?thesis
    by (simp add: unsigned_ucast_eq take_bit_nat_eq_self)
qed

lemma unat_mult_no_overflow:
  "unat (x :: 'a::len word) * unat y < 2 ^ LENGTH('a) \<Longrightarrow> unat (x * y) = unat x * unat y"
  by (simp add: unat_word_ariths)

lemma unat_add_no_overflow:
  "unat (x :: 'a::len word) + unat y < 2 ^ LENGTH('a) \<Longrightarrow> unat (x + y) = unat x + unat y"
  by (simp add: unat_word_ariths)

lemma unat_sub_no_underflow:
  "unat (y :: 'a::len word) \<le> unat x \<Longrightarrow> unat (x - y) = unat x - unat y"
  by (simp add: unat_sub word_le_nat_alt)

lemma mult_u64_lt: "unat (x :: u64) * unat (y :: u64) < 2 ^ 128"
proof -
  have "unat x * unat y < 2 ^ 64 * 2 ^ 64"
    by (rule mult_strict_mono) simp_all
  then show ?thesis by simp
qed

lemma unat_wide_mult:
  "unat ((ucast (x :: u64) :: u128) * ucast (y :: u64)) = unat x * unat y"
  using mult_u64_lt [of x y] by (subst unat_mult_no_overflow) simp_all

lemma unat_narrow [unat_simps]: "unat (ucast (x :: u128) :: u64) = unat x mod 2 ^ 64"
  by (simp add: unsigned_ucast_eq take_bit_eq_mod)

text \<open>The value of a word as an integer.\<close>

abbreviation ival :: "'a::len word \<Rightarrow> int" where
  "ival x \<equiv> int (unat x)"

section \<open>Congruence modulo p\<close>

definition modeq :: "int \<Rightarrow> int \<Rightarrow> int \<Rightarrow> bool" where
  "modeq p a b \<longleftrightarrow> a mod p = b mod p"

lemma modeq_refl [simp, modeq_intros]: "modeq p a a"
  by (simp add: modeq_def)

lemma modeq_sym: "modeq p a b \<Longrightarrow> modeq p b a"
  by (simp add: modeq_def)

lemma modeq_trans [trans]: "modeq p a b \<Longrightarrow> modeq p b c \<Longrightarrow> modeq p a c"
  by (simp add: modeq_def)

lemma modeq_add [modeq_intros]: "modeq p a b \<Longrightarrow> modeq p c d \<Longrightarrow> modeq p (a + c) (b + d)"
  unfolding modeq_def by (rule mod_add_cong)

lemma modeq_diff [modeq_intros]: "modeq p a b \<Longrightarrow> modeq p c d \<Longrightarrow> modeq p (a - c) (b - d)"
  unfolding modeq_def by (rule mod_diff_cong)

lemma modeq_mult [modeq_intros]: "modeq p a b \<Longrightarrow> modeq p c d \<Longrightarrow> modeq p (a * c) (b * d)"
  unfolding modeq_def by (rule mod_mult_cong)

lemma modeq_minus [modeq_intros]: "modeq p a b \<Longrightarrow> modeq p (- a) (- b)"
  using modeq_diff [of p 0 0 a b] by simp

lemma modeq_power [modeq_intros]: "modeq p a b \<Longrightarrow> modeq p (a ^ n) (b ^ n)"
  unfolding modeq_def by (metis power_mod)

lemma modeq_sum [modeq_intros]:
  "(\<And>i. i \<in> A \<Longrightarrow> modeq p (f i) (g i)) \<Longrightarrow> modeq p (sum f A) (sum g A)"
  by (induction A rule: infinite_finite_induct) (auto intro: modeq_add)

lemma modeq_mod [simp]: "modeq p (a mod p) a" "modeq p a (a mod p)"
  by (simp_all add: modeq_def)

lemma modeq_add_self [simp]: "modeq p (a + p) a" "modeq p (a - p) a" "modeq p (p + a) a"
  by (simp_all add: modeq_def)

lemma modeq_0_dvd: "modeq p a 0 \<longleftrightarrow> p dvd a"
  by (simp add: modeq_def mod_eq_0_iff_dvd)

lemma modeq_dvd_diff: "modeq p a b \<longleftrightarrow> p dvd (a - b)"
  by (simp add: modeq_def mod_eq_dvd_iff)

lemma modeq_mult_self [simp]: "modeq p (a * p) 0" "modeq p (p * a) 0"
  by (simp_all add: modeq_0_dvd)

lemma modeq_eqI:
  "modeq p a b \<Longrightarrow> 0 \<le> a \<Longrightarrow> a < p \<Longrightarrow> 0 \<le> b \<Longrightarrow> b < p \<Longrightarrow> a = b"
  by (simp add: modeq_def)

lemma modeq_weaken: "modeq (p * q) a b \<Longrightarrow> modeq p a b"
  by (auto simp: modeq_dvd_diff dest: dvd_mult_left)

lemma modeq_nat_iff: "modeq (int p) (int a) (int b) \<longleftrightarrow> a mod p = b mod p"
  by (simp add: modeq_def flip: of_nat_mod)

lemma modeq_natI: "modeq (int p) (int a) (int b) \<Longrightarrow> a < p \<Longrightarrow> a = b mod p"
  by (simp add: modeq_nat_iff)

lemma modeq_nat_mod: "modeq (int p) (int (a mod p)) (int a)"
  by (simp add: modeq_def zmod_int)

lemma modeq_int_diff: "b \<le> a \<Longrightarrow> modeq p (int a - int b) c \<Longrightarrow> modeq p (int (a - b)) c"
  by (simp add: of_nat_diff)

section \<open>Ceiling division\<close>

text \<open>The exact value of \<open>ceil((double)a / b)\<close>.\<close>

definition ceil_div :: "nat \<Rightarrow> nat \<Rightarrow> nat" where
  "ceil_div a b = (a + b - 1) div b"

lemma ceil_div_0 [simp]: "0 < b \<Longrightarrow> ceil_div 0 b = 0"
  by (simp add: ceil_div_def)

lemma ceil_div_1 [simp]: "ceil_div a (Suc 0) = a"
  by (simp add: ceil_div_def)

lemma ceil_div_le_iff: "0 < b \<Longrightarrow> ceil_div a b \<le> n \<longleftrightarrow> a \<le> n * b"
proof -
  assume b: "0 < b"
  have "ceil_div a b \<le> n \<longleftrightarrow> (a + b - 1) div b < Suc n"
    by (simp add: ceil_div_def less_Suc_eq_le)
  also have "\<dots> \<longleftrightarrow> a + b - 1 < Suc n * b"
    using b by (simp add: div_less_iff_less_mult)
  also have "\<dots> \<longleftrightarrow> a \<le> n * b"
    using b by auto
  finally show ?thesis .
qed

lemma ceil_div_mult_ge: "0 < b \<Longrightarrow> a \<le> ceil_div a b * b"
  using ceil_div_le_iff [of b a "ceil_div a b"] by simp

lemma less_ceil_div_iff: "0 < b \<Longrightarrow> n < ceil_div a b \<longleftrightarrow> n * b < a"
  using ceil_div_le_iff [of b a n] by linarith

lemma ceil_div_mono: "0 < b \<Longrightarrow> a \<le> a' \<Longrightarrow> ceil_div a b \<le> ceil_div a' b"
  by (meson ceil_div_le_iff ceil_div_mult_ge le_trans)

lemma ceil_div_pos: "0 < b \<Longrightarrow> 0 < ceil_div a b \<longleftrightarrow> 0 < a"
  by (simp add: less_ceil_div_iff)

lemma ceil_div_cancel:
  assumes "0 < c" "0 < b"
  shows "ceil_div (c * a) (c * b) = ceil_div a b"
proof -
  have "ceil_div (c * a) (c * b) \<le> n \<longleftrightarrow> ceil_div a b \<le> n" for n
    using assms by (simp add: ceil_div_le_iff mult.left_commute)
  then show ?thesis by (metis le_antisym le_refl)
qed

lemma ceil_div_mult [simp]: "0 < b \<Longrightarrow> ceil_div (n * b) b = n"
  by (metis ceil_div_le_iff ceil_div_mult_ge le_antisym le_refl mult_le_cancel2)

section \<open>Lists\<close>

lemma nth_append_left [simp]: "i < length xs \<Longrightarrow> (xs @ ys) ! i = xs ! i"
  by (simp add: nth_append)

lemma nth_map_upt [simp]: "i < n \<Longrightarrow> map f [0..<n] ! i = f i"
  by simp

lemma fold_upt_Suc: "fold f [0..<Suc n] s = f n (fold f [0..<n] s)"
  by simp

text \<open>A loop that rewrites the cells \<open>base\<close>, \<open>base + 1\<close>, \<dots> each from its own old value.\<close>

lemma length_fold_upd [simp]:
  "(\<And>i xs. length (f i xs) = length xs) \<Longrightarrow> length (fold f is xs) = length xs"
  by (induction "is" arbitrary: xs) auto

lemma nth_fold_upd:
  assumes "base + m \<le> length xs" "j < length xs"
  shows "fold (\<lambda>i xs. xs[base + i := g i (xs ! (base + i))]) [0..<m] xs ! j =
    (if base \<le> j \<and> j < base + m then g (j - base) (xs ! j) else xs ! j)"
  using assms
proof (induction m arbitrary: j)
  case 0
  then show ?case by auto
next
  case (Suc m)
  let ?ys = "fold (\<lambda>i xs. xs[base + i := g i (xs ! (base + i))]) [0..<m] xs"
  have len: "length ?ys = length xs" by (rule length_fold_upd) simp
  have IH: "\<And>j. j < length xs \<Longrightarrow> ?ys ! j =
      (if base \<le> j \<and> j < base + m then g (j - base) (xs ! j) else xs ! j)"
    using Suc.prems by (intro Suc.IH) auto
  show ?case
    using Suc.prems IH [of j] IH [of "base + m"]
    by (auto simp: fold_upt_Suc len nth_list_update simp del: upt_Suc)
qed

lemma sum_lessThan_double:
  fixes f :: "nat \<Rightarrow> 'a::comm_monoid_add"
  shows "(\<Sum>t < 2 * m. f t) = (\<Sum>t < m. f (2 * t)) + (\<Sum>t < m. f (2 * t + 1))"
  by (induction m) (simp_all add: algebra_simps)

text \<open>Lists of lists of the same length.\<close>

lemma length_concat_const: "\<forall>xs \<in> set xss. length xs = c \<Longrightarrow> length (concat xss) = length xss * c"
  by (induction xss) auto

lemma nth_concat_const:
  assumes "\<And>i. i < length xss \<Longrightarrow> length (xss ! i) = c" "i < length xss" "w < c"
  shows "concat xss ! (i * c + w) = xss ! i ! w \<and> length (concat xss) = length xss * c"
  using assms
proof (induction xss arbitrary: i)
  case (Cons xs xss)
  have l: "length xs = c" using Cons.prems(1) [of 0] by simp
  have ls: "length (xss ! i) = c" if "i < length xss" for i using Cons.prems(1) [of "Suc i"] that by simp
  then have lc: "length (concat xss) = length xss * c"
    by (intro length_concat_const) (auto simp: in_set_conv_nth)
  show ?case
  proof (cases i)
    case 0
    then show ?thesis using Cons.prems l lc by (simp add: nth_append)
  next
    case (Suc i')
    then have i': "i' < length xss" using Cons.prems by simp
    have "concat xss ! (i' * c + w) = xss ! i' ! w" using Cons.IH [OF ls i' Cons.prems(3)] by blast
    then show ?thesis using Suc l lc by (simp add: nth_append)
  qed
qed simp

end
