(* ===== verification/NFLArith.thy ===== *)
theory NFLArith
  imports XPrelude
begin

text \<open>
  Modular arithmetic on polynomial coefficients: the inlined functions of
  \<open>crypto/NFLlib_old.hpp\<close> (\<open>addmod\<close>, \<open>submod\<close>, \<open>mulmod\<close>, \<open>mulmodShoup\<close>,
  \<open>mulandadd\<close>, \<open>mulandaddShoup\<close>), with \<open>uint64_t\<close> as \<^typ>\<open>u64\<close> and
  \<open>uint128_t\<close> as \<^typ>\<open>u128\<close>. "Lazy" reduction is kept as it is: the lemmas say
  for which inputs the results are congruent, and how far from reduced they may be.
\<close>

section \<open>The functions\<close>

definition addmod :: "u64 \<Rightarrow> u64 \<Rightarrow> u64 \<Rightarrow> u64" where
  "addmod x y p = (let z = x + y in z - (if z \<ge> p then p else 0))"

definition submod :: "u64 \<Rightarrow> u64 \<Rightarrow> u64 \<Rightarrow> u64" where
  "submod x y p = (if y < p then addmod x (p - y) p else addmod x (p - (y mod p)) p)"

definition mulmod :: "u64 \<Rightarrow> u64 \<Rightarrow> u64 \<Rightarrow> u64" where
  "mulmod x y p = ucast (((ucast x :: u128) * ucast y) mod ucast p)"

text \<open>\<open>((uint128_t) y << 64) / p\<close>, the precomputed companion of a factor.\<close>

definition shoup_quotient :: "u64 \<Rightarrow> u64 \<Rightarrow> u64" where
  "shoup_quotient y p = ucast (push_bit 64 (ucast y :: u128) div ucast p)"

text \<open>\<open>((uint128_t) x * yprime) >> 64\<close>.\<close>

definition mulhi :: "u64 \<Rightarrow> u64 \<Rightarrow> u64" where
  "mulhi x yprime = ucast (drop_bit 64 ((ucast x :: u128) * ucast yprime))"

definition mulmodShoup :: "u64 \<Rightarrow> u64 \<Rightarrow> u64 \<Rightarrow> u64 \<Rightarrow> u64" where
  "mulmodShoup x y yprime p =
     (let q = mulhi x yprime;
          res = (ucast (x * y - q * p) :: u128);
          res = res - (if res \<ge> ucast p then ucast p else 0)
      in ucast res)"

definition mulandadd :: "u64 \<Rightarrow> u64 \<Rightarrow> u64 \<Rightarrow> u64 \<Rightarrow> u64" where
  "mulandadd rop x y p = ucast (((ucast x :: u128) * ucast y + ucast rop) mod ucast p)"

definition mulandaddShoup :: "u64 \<Rightarrow> u64 \<Rightarrow> u64 \<Rightarrow> u64 \<Rightarrow> u64 \<Rightarrow> u64" where
  "mulandaddShoup rop x y yprime p =
     (let q = mulhi x yprime;
          rop = rop + (x * y - q * p)
      in rop - (if rop \<ge> p then p else 0))"

section \<open>Additions and subtractions\<close>

lemma unat_cond_sub:
  "unat (z - (if z \<ge> p then p else 0) :: u64) = (if unat p \<le> unat z then unat z - unat p else unat z)"
  by (simp add: word_le_nat_alt unat_sub_no_underflow)

lemma unat_addmod:
  assumes "unat x + unat y < 2 ^ 64"
  shows "unat (addmod x y p) =
    (if unat p \<le> unat x + unat y then unat x + unat y - unat p else unat x + unat y)"
  using assms by (simp only: addmod_def Let_def unat_cond_sub) (simp add: unat_add_no_overflow)

lemma addmod_modeq:
  assumes "unat x + unat y < 2 ^ 64"
  shows "modeq (int (unat p)) (int (unat (addmod x y p))) (int (unat x) + int (unat y))"
  using assms by (simp add: unat_addmod of_nat_diff)

lemma addmod_reduced:
  assumes "unat x < unat p" "unat y < unat p" "unat p < 2 ^ 63"
  shows "unat (addmod x y p) < unat p"
  using assms by (auto simp: unat_addmod)

lemma unat_submod_arg:
  assumes "0 < unat p"
  shows "unat (if y < p then p - y else p - (y mod p)) = unat p - unat y mod unat p"
  using assms
  by (auto simp: word_less_nat_alt unat_sub_no_underflow unat_mod)

lemma submod_eq_addmod: "submod x y p = addmod x (if y < p then p - y else p - (y mod p)) p"
  by (simp add: submod_def)

lemma submod_modeq:
  assumes "0 < unat p" "unat x + unat p < 2 ^ 64"
  shows "modeq (int (unat p)) (int (unat (submod x y p))) (int (unat x) - int (unat y))"
proof -
  let ?a = "if y < p then p - y else p - (y mod p)"
  have a: "unat ?a = unat p - unat y mod unat p" by (rule unat_submod_arg) fact
  have "modeq (int (unat p)) (int (unat (submod x y p))) (int (unat x) + int (unat ?a))"
    unfolding submod_eq_addmod by (rule addmod_modeq) (use assms(2) a in linarith)
  also have "int (unat ?a) = int (unat p) - int (unat y) mod int (unat p)"
    using assms(1) unfolding a by (simp add: of_nat_diff zmod_int mod_le_divisor)
  also have "modeq (int (unat p)) (int (unat x) + (int (unat p) - int (unat y) mod int (unat p)))
      (int (unat x) + (0 - int (unat y)))"
    by (intro modeq_intros) (simp_all add: modeq_0_dvd)
  finally show ?thesis by simp
qed

lemma submod_reduced:
  assumes "0 < unat p" "unat x < unat p" "unat p < 2 ^ 63"
  shows "unat (submod x y p) < unat p \<or> unat (submod x y p) = 0"
proof -
  let ?a = "if y < p then p - y else p - (y mod p)"
  have a: "unat ?a = unat p - unat y mod unat p" by (rule unat_submod_arg) fact
  have "unat x + unat ?a \<le> unat x + unat p" unfolding a by simp
  also have "\<dots> < 2 ^ 64" using assms by simp
  finally have "unat x + unat ?a < 2 ^ 64" .
  from unat_addmod [OF this, of p] show ?thesis
    using a assms unfolding submod_eq_addmod by auto
qed

section \<open>Multiplications\<close>

lemma unat_mod_128: "unat ((a :: u128) mod ucast (p :: u64)) = unat a mod unat p"
  by (simp add: unat_mod)

lemma narrow_mod:
  assumes "0 < unat (p :: u64)"
  shows "unat (ucast ((a :: u128) mod ucast p) :: u64) = unat a mod unat p"
proof -
  have "unat a mod unat p < unat p" using assms by simp
  also have "\<dots> < 2 ^ 64" by simp
  finally show ?thesis by (simp add: unat_narrow unat_mod_128)
qed

lemma unat_mulmod:
  "0 < unat p \<Longrightarrow> unat (mulmod x y p) = (unat x * unat y) mod unat p"
  unfolding mulmod_def by (simp only: narrow_mod unat_wide_mult)

lemma unat_mulandadd:
  assumes "0 < unat p"
  shows "unat (mulandadd rop x y p) = (unat x * unat y + unat rop) mod unat p"
proof -
  have "unat x * unat y \<le> 18446744073709551615 * 18446744073709551615"
    by (intro mult_le_mono unat_le_64)
  then have "unat x * unat y + unat rop < 2 ^ 128"
    using unat_le_64 [of rop] by simp
  then have "unat ((ucast x :: u128) * ucast y + ucast rop) = unat x * unat y + unat rop"
    by (subst unat_add_no_overflow) (simp_all add: unat_wide_mult)
  with assms show ?thesis unfolding mulandadd_def by (simp only: narrow_mod)
qed

section \<open>Shoup's precomputed quotient\<close>

lemma unat_mulhi: "unat (mulhi x y) = (unat x * unat y) div 2 ^ 64"
proof -
  have "unat x * unat y < 2 ^ 64 * 2 ^ 64" using mult_u64_lt [of x y] by simp
  then have "(unat x * unat y) div 2 ^ 64 < 2 ^ 64"
    by (rule less_mult_imp_div_less)
  then show ?thesis
    unfolding mulhi_def by (simp only: unat_narrow unat_drop_bit_eq unat_wide_mult) (simp add: drop_bit_eq_div)
qed

lemma unat_shoup_quotient:
  assumes "unat y < unat p"
  shows "unat (shoup_quotient y p) = (unat y * 2 ^ 64) div unat p"
proof -
  have "unat (push_bit 64 (ucast y :: u128)) = unat y * 2 ^ 64"
  proof -
    have "unat (ucast y :: u128) * unat (2 ^ 64 :: u128) < 2 ^ 128"
      using unat_lt_64 [of y] by simp
    then show ?thesis
      by (simp add: push_bit_eq_mult unat_mult_no_overflow)
  qed
  moreover have "(unat y * 2 ^ 64) div unat p < 2 ^ 64"
    using assms by (intro less_mult_imp_div_less) (simp add: mult.commute)
  ultimately show ?thesis
    unfolding shoup_quotient_def by (simp add: unat_narrow unat_div)
qed

text \<open>
  The estimate behind Shoup's trick, over the naturals: the quotient \<open>q\<close> never
  exceeds the true one, and the remainder exceeds \<open>p\<close> by less than \<open>x p / 2^64\<close>.
\<close>

lemma shoup_estimate:
  fixes x y p B :: nat
  assumes "0 < p" "0 < B"
  defines "yp \<equiv> (y * B) div p"
  defines "q \<equiv> (x * yp) div B"
  shows "q * p \<le> x * y" and "(x * y - q * p) * B < p * B + x * p"
proof -
  define ry where "ry = (y * B) mod p"
  define rx where "rx = (x * yp) mod B"
  have y: "y * B = yp * p + ry" and ry: "ry < p"
    using assms by (simp_all add: ry_def)
  have x: "x * yp = q * B + rx" and rx: "rx < B"
    using assms by (simp_all add: rx_def)
  have "x * y * B = x * (yp * p + ry)" by (simp only: mult.assoc y)
  also have "\<dots> = (x * yp) * p + x * ry" by (simp add: algebra_simps)
  also have "\<dots> = q * p * B + (rx * p + x * ry)" unfolding x by (simp add: algebra_simps)
  finally have e: "x * y * B = q * p * B + (rx * p + x * ry)" .
  then have "q * p * B \<le> x * y * B" by simp
  with \<open>0 < B\<close> show "q * p \<le> x * y" by simp
  have "(x * y - q * p) * B = rx * p + x * ry"
    using e by (simp add: diff_mult_distrib)
  also have "rx * p < B * p" using rx \<open>0 < p\<close> by simp
  then have "rx * p + x * ry < B * p + x * p"
    by (rule add_less_le_mono) (use ry in simp)
  finally show "(x * y - q * p) * B < p * B + x * p" by (simp add: mult.commute)
qed

text \<open>The remainder \<open>x * y - q * p\<close> computed in 64 bits is the exact one.\<close>

lemma shoup_remainder:
  fixes x y p :: u64
  assumes "unat y < unat p" "unat p < 2 ^ 63"
  defines "r \<equiv> x * y - mulhi x (shoup_quotient y p) * p"
  shows "unat r * 2 ^ 64 < unat p * 2 ^ 64 + unat x * unat p"
    and "modeq (int (unat p)) (int (unat r)) (int (unat x) * int (unat y))"
    and "unat r < 2 * unat p"
proof -
  let ?q = "mulhi x (shoup_quotient y p)"
  have p: "0 < unat p" using assms by linarith
  have q: "unat ?q = (unat x * ((unat y * 2 ^ 64) div unat p)) div 2 ^ 64"
    using assms by (simp add: unat_mulhi unat_shoup_quotient)
  have B: "0 < (2 :: nat) ^ 64" by simp
  note est = shoup_estimate [OF p B, where x = "unat x" and y = "unat y", folded q]
  let ?R = "unat x * unat y - unat ?q * unat p"
  have le: "unat ?q * unat p \<le> unat x * unat y" by (rule est(1))
  have b: "?R * 2 ^ 64 < unat p * 2 ^ 64 + unat x * unat p" by (rule est(2))
  also have "unat x * unat p \<le> 2 ^ 64 * unat p"
    using unat_lt_64 [of x] by (intro mult_le_mono1) (simp add: less_imp_le)
  then have "unat p * 2 ^ 64 + unat x * unat p \<le> (2 * unat p) * 2 ^ 64" by simp
  finally have "?R < 2 * unat p" by simp
  have R64: "?R < 2 ^ 64" by (rule less_le_trans [OF \<open>?R < 2 * unat p\<close>]) (use assms(2) in simp)
  have "r = of_nat (unat x * unat y) - of_nat (unat ?q * unat p)"
    by (simp add: r_def of_nat_unat)
  also have "\<dots> = of_nat ?R" using le by (simp add: of_nat_diff)
  finally have r: "unat r = ?R" using R64 by (simp add: unat_of_nat)
  show "unat r * 2 ^ 64 < unat p * 2 ^ 64 + unat x * unat p" using b r by simp
  show "unat r < 2 * unat p" using \<open>?R < 2 * unat p\<close> r by simp
  have "int (unat r) = int (unat x) * int (unat y) - int (unat ?q) * int (unat p)"
    using le r by (simp add: of_nat_diff)
  then show "modeq (int (unat p)) (int (unat r)) (int (unat x) * int (unat y))"
    by (simp add: modeq_dvd_diff)
qed

lemma unat_mulmodShoup_cond:
  fixes r p :: u64
  shows "unat (ucast ((ucast r :: u128) - (if (ucast r :: u128) \<ge> ucast p then ucast p else 0)) :: u64) =
    (if unat p \<le> unat r then unat r - unat p else unat r)"
proof -
  have "unat ((ucast r :: u128) - (if (ucast r :: u128) \<ge> ucast p then ucast p else 0)) =
      (if unat p \<le> unat r then unat r - unat p else unat r)"
    by (simp add: word_le_nat_alt unat_sub_no_underflow)
  moreover have "(if unat p \<le> unat r then unat r - unat p else unat r) < 2 ^ 64"
    using unat_lt_64 [of r] by (auto intro: le_less_trans [OF diff_le_self])
  ultimately show ?thesis by (simp only: unat_narrow) simp
qed

theorem unat_mulmodShoup:
  assumes "unat y < unat p" "unat p < 2 ^ 63"
  shows "unat (mulmodShoup x y (shoup_quotient y p) p) = (unat x * unat y) mod unat p"
proof -
  let ?r = "x * y - mulhi x (shoup_quotient y p) * p"
  let ?z = "if unat p \<le> unat ?r then unat ?r - unat p else unat ?r"
  note r = shoup_remainder [OF assms, of x]
  have "modeq (int (unat p)) (int ?z) (int (unat x) * int (unat y))"
    using r(2) modeq_trans [OF modeq_add_self(2) r(2)] by (auto simp: of_nat_diff)
  then have "modeq (int (unat p)) (int ?z) (int (unat x * unat y))" by simp
  moreover have "?z < unat p" using r(3) by auto
  ultimately have "?z = (unat x * unat y) mod unat p" by (rule modeq_natI)
  then show ?thesis
    by (simp only: mulmodShoup_def Let_def unat_mulmodShoup_cond)
qed

lemma mulmodShoup_eq_mulmod:
  assumes "unat y < unat p" "unat p < 2 ^ 63"
  shows "mulmodShoup x y (shoup_quotient y p) p = mulmod x y p"
  using assms by (intro word_unat_eq_iff [THEN iffD2]) (simp add: unat_mulmodShoup unat_mulmod)

section \<open>Fused multiplication and addition\<close>

lemma unat_mulandaddShoup:
  assumes "unat rop + unat (x * y - mulhi x yp * p) < 2 ^ 64"
  defines "z \<equiv> unat rop + unat (x * y - mulhi x yp * p)"
  shows "unat (mulandaddShoup rop x y yp p) = (if unat p \<le> z then z - unat p else z)"
  using assms by (simp only: mulandaddShoup_def Let_def unat_cond_sub) (simp add: unat_add_no_overflow)

lemma mulandaddShoup_modeq:
  assumes "unat y < unat p" "unat p < 2 ^ 63"
    and "unat rop + unat (x * y - mulhi x (shoup_quotient y p) * p) < 2 ^ 64"
  shows "modeq (int (unat p)) (int (unat (mulandaddShoup rop x y (shoup_quotient y p) p)))
    (int (unat rop) + int (unat x) * int (unat y))"
proof -
  let ?r = "x * y - mulhi x (shoup_quotient y p) * p"
  have "modeq (int (unat p)) (int (unat (mulandaddShoup rop x y (shoup_quotient y p) p)))
      (int (unat rop) + int (unat ?r))"
    using assms(3) by (simp add: unat_mulandaddShoup of_nat_diff)
  also have "modeq (int (unat p)) (int (unat rop) + int (unat ?r))
      (int (unat rop) + int (unat x) * int (unat y))"
    by (intro modeq_add modeq_refl shoup_remainder(2) assms)
  finally show ?thesis .
qed

lemma mulandaddShoup_zero:
  assumes "unat y < unat p" "unat p < 2 ^ 63"
  shows "unat (mulandaddShoup 0 x y (shoup_quotient y p) p) = (unat x * unat y) mod unat p"
proof (rule modeq_natI)
  note r = shoup_remainder [OF assms, of x]
  have lt: "unat (0 :: u64) + unat (x * y - mulhi x (shoup_quotient y p) * p) < 2 ^ 64" by simp
  show "modeq (int (unat p)) (int (unat (mulandaddShoup 0 x y (shoup_quotient y p) p)))
      (int (unat x * unat y))"
    using mulandaddShoup_modeq [OF assms lt] by simp
  show "unat (mulandaddShoup 0 x y (shoup_quotient y p) p) < unat p"
    unfolding unat_mulandaddShoup [OF lt] using r(3) by auto
qed

text \<open>
  One accumulation of a lazily reduced factor (below \<open>2 p\<close>, as the NTT leaves it) adds
  less than \<open>5 p / 4\<close> before the conditional subtraction.
\<close>

lemma shoup_remainder_quarter:
  assumes "unat y < unat p" "unat p < 2 ^ 61" "unat x < 2 * unat p"
  shows "4 * unat (x * y - mulhi x (shoup_quotient y p) * p) < 5 * unat p"
proof -
  let ?r = "unat (x * y - mulhi x (shoup_quotient y p) * p)"
  have p63: "unat p < 2 ^ 63" using assms(2) by simp
  have "?r * 2 ^ 64 < unat p * 2 ^ 64 + unat x * unat p"
    by (rule shoup_remainder(1) [OF assms(1) p63])
  also have "unat x * unat p \<le> 2 ^ 62 * unat p"
    using assms(2,3) by (intro mult_le_mono1) simp
  finally show ?thesis by simp
qed

definition accumulate :: "u64 \<Rightarrow> (u64 \<times> u64) list \<Rightarrow> u64 \<Rightarrow> u64" where
  "accumulate p xys rop = fold (\<lambda>(x, y) rop. mulandaddShoup rop x y (shoup_quotient y p) p) xys rop"

lemma accumulate_inv:
  assumes "unat p < 2 ^ 61" "\<forall>(x, y) \<in> set xys. unat x < 2 * unat p \<and> unat y < unat p"
    and "k + length xys \<le> 25" "4 * unat rop < (3 + k) * unat p"
  shows "modeq (int (unat p)) (int (unat (accumulate p xys rop)))
      (int (unat rop) + (\<Sum>(x, y) \<leftarrow> xys. int (unat x) * int (unat y)))"
  using assms(2-)
proof (induction xys arbitrary: k rop)
  case Nil
  then show ?case by (simp add: accumulate_def)
next
  case (Cons xy xys)
  obtain x y where xy: "xy = (x, y)" by (cases xy)
  let ?yp = "shoup_quotient y p"
  let ?r = "unat (x * y - mulhi x ?yp * p)"
  let ?rop = "mulandaddShoup rop x y ?yp p"
  have y: "unat y < unat p" and x: "unat x < 2 * unat p" using Cons.prems(1) xy by auto
  have r: "4 * ?r < 5 * unat p" by (rule shoup_remainder_quarter [OF y assms(1) x])
  have k: "k \<le> 24" using Cons.prems(2) by simp
  then have "(3 + k) * unat p \<le> 27 * unat p" by (intro mult_le_mono1) simp
  moreover have "unat p < 2305843009213693952" using assms(1) by simp
  ultimately have "unat rop + ?r < 18446744073709551616" using r Cons.prems(3) by linarith
  then have lt: "unat rop + ?r < 2 ^ 64" by simp
  have p63: "unat p < 2 ^ 63" using assms(1) by simp
  have step: "modeq (int (unat p)) (int (unat ?rop)) (int (unat rop) + int (unat x) * int (unat y))"
    by (rule mulandaddShoup_modeq [OF y p63 lt])
  have "4 * unat ?rop < (3 + Suc k) * unat p"
    unfolding unat_mulandaddShoup [OF lt] using r Cons.prems(3) by (simp add: algebra_simps) linarith
  then have "modeq (int (unat p)) (int (unat (accumulate p xys ?rop)))
      (int (unat ?rop) + (\<Sum>(x, y) \<leftarrow> xys. int (unat x) * int (unat y)))"
    using Cons.prems by (intro Cons.IH [of "Suc k"]) auto
  also have "modeq (int (unat p)) \<dots>
      ((int (unat rop) + int (unat x) * int (unat y)) + (\<Sum>(x, y) \<leftarrow> xys. int (unat x) * int (unat y)))"
    by (intro modeq_add modeq_refl step)
  finally show ?case by (simp add: accumulate_def xy add.assoc)
qed

section \<open>Properties\<close>

text \<open>C9: Shoup's multiplication with its pre-computed quotient is the exact modular product for
  every 64-bit factor \<open>x\<close>, reduced or not, every reduced factor \<open>y\<close> and every modulus below \<open>2^63\<close>.\<close>

theorem mulmodShoup_correct:
  assumes "unat y < unat p" "unat p < 2 ^ 63"
  shows "unat (mulmodShoup x y (shoup_quotient y p) p) = (unat x * unat y) mod unat p"
  by (rule unat_mulmodShoup [OF assms])

theorem mulmodShoup_correct_witness:
  "unat (mulmodShoup 18446744073709551615 6 (shoup_quotient 6 7) 7) = (18446744073709551615 * 6) mod 7"
  using mulmodShoup_correct [of 6 7 18446744073709551615] by simp

text \<open>C11: Accumulating up to 25 products of lazily reduced by reduced factors with
  \<open>mulandaddShoup\<close>, from any start below \<open>3 p / 4\<close>, never wraps around: the result is congruent to
  the exact sum of products.\<close>

theorem accumulate_25:
  assumes "unat p < 2 ^ 61" "\<forall>(x, y) \<in> set xys. unat x < 2 * unat p \<and> unat y < unat p"
    and "length xys \<le> 25" "4 * unat rop < 3 * unat p"
  shows "modeq (ival p) (ival (accumulate p xys rop))
      (ival rop + (\<Sum>(x, y) \<leftarrow> xys. ival x * ival y))"
  using accumulate_inv [OF assms(1,2), of 0 rop] assms(3,4) by simp

theorem accumulate_25_witness:
  "modeq (ival (7 :: u64)) (ival (accumulate 7 [(9, 5), (13, 6)] 3)) (3 + (9 * 5 + 13 * 6))"
  using accumulate_25 [of 7 "[(9, 5), (13, 6)]" 3] by simp

text \<open>
  With more terms the accumulator can wrap around: its only reduction is one subtraction of \<open>p\<close>
  per term, and a term can be as large as \<open>5 p / 4\<close>.
\<close>

definition wrap_p :: u64 where "wrap_p = 2305843009213317121"
definition wrap_x :: u64 where "wrap_x = 4611685053897706216"
definition wrap_y :: u64 where "wrap_y = 1784663935814136058"

lemma wrap_quotient: "shoup_quotient wrap_y wrap_p = 14277311486515421724"
  by (intro word_unat_eq_iff [THEN iffD2], subst unat_shoup_quotient)
    (simp_all add: wrap_y_def wrap_p_def)

lemma wrap_high: "mulhi wrap_x 14277311486515421724 = 3569327125107374543"
  by (intro word_unat_eq_iff [THEN iffD2], subst unat_mulhi) (simp add: wrap_x_def)

lemma wrap_term: "wrap_x * wrap_y - 3569327125107374543 * wrap_p = 2882084193554885825"
  by (simp add: wrap_x_def wrap_y_def wrap_p_def)

lemma wrap_step:
  "mulandaddShoup rop wrap_x wrap_y (shoup_quotient wrap_y wrap_p) wrap_p =
    (let z = rop + 2882084193554885825 in z - (if z \<ge> 2305843009213317121 then 2305843009213317121 else 0))"
  by (simp only: mulandaddShoup_def Let_def wrap_quotient wrap_high wrap_term) (simp add: wrap_p_def)

lemma accumulate_replicate:
  "accumulate p (replicate 0 (x, y)) rop = rop"
  "accumulate p (replicate (Suc n) (x, y)) rop =
    accumulate p (replicate n (x, y)) (mulandaddShoup rop x y (shoup_quotient y p) p)"
  "accumulate p (replicate (numeral k) (x, y)) rop =
    accumulate p (replicate (pred_numeral k) (x, y)) (mulandaddShoup rop x y (shoup_quotient y p) p)"
  by (simp_all add: accumulate_def numeral_eq_Suc)

lemma wrap_result: "accumulate wrap_p (replicate 29 (wrap_x, wrap_y)) 0 = 570093281409257921"
  by (simp add: accumulate_replicate wrap_step del: replicate.simps)


end
