(* ===== verification/NFLPoly.thy ===== *)
theory NFLPoly
  imports NFLArith
begin

text \<open>
  The polynomial object of \<open>crypto/NFLlib_old.hpp\<close>: the attributes of the class
  \<open>NFLlib_old\<close> as a record, and the coefficient-wise operations on polynomials.
  A polynomial (\<open>poly64\<close>) is the list of its \<open>nbModuli * polyDegree\<close> coefficients, the
  residues modulo \<open>moduli[0]\<close> first. The code walks the moduli by advancing its pointers by
  \<open>polyDegree\<close>; the model indexes cell \<open>cm * polyDegree + i\<close>.
\<close>

section \<open>The object\<close>

record NFLlib =
  alreadyInit :: nat
  moduli :: "u64 list"
  nbModuli :: nat
  polyDegree :: nat
  liftingIntegers :: "int list"
  moduliProduct :: int
  phis :: "u64 list list"
  shoupphis :: "u64 list list"
  invpoly_times_invphis :: "u64 list list"
  shoupinvpoly_times_invphis :: "u64 list list"
  omegas :: "u64 list list"
  shoupomegas :: "u64 list list"
  invomegas :: "u64 list list"
  shoupinvomegas :: "u64 list list"
  invpolyDegree :: "u64 list"
  inv_indexes :: "nat list"

section \<open>The loop over moduli and coefficients\<close>

text \<open>
  \<open>poly_loop nfl g rop\<close> is the double loop shared by the polynomial operations:
  cell \<open>j\<close> of \<open>rop\<close> becomes \<open>g p j (rop ! j)\<close>, with \<open>p\<close> the modulus of its slice.
\<close>

definition poly_slice :: "nat \<Rightarrow> nat \<Rightarrow> (nat \<Rightarrow> u64 \<Rightarrow> u64) \<Rightarrow> u64 list \<Rightarrow> u64 list" where
  "poly_slice n cm g rop =
     fold (\<lambda>i rop. rop[cm * n + i := g (cm * n + i) (rop ! (cm * n + i))]) [0..<n] rop"

definition poly_loop :: "NFLlib \<Rightarrow> (u64 \<Rightarrow> nat \<Rightarrow> u64 \<Rightarrow> u64) \<Rightarrow> u64 list \<Rightarrow> u64 list" where
  "poly_loop nfl g rop =
     fold (\<lambda>cm rop. poly_slice (polyDegree nfl) cm (g (moduli nfl ! cm)) rop) [0..<nbModuli nfl] rop"

section \<open>The operations\<close>

definition addmodPoly :: "NFLlib \<Rightarrow> u64 list \<Rightarrow> u64 list \<Rightarrow> u64 list \<Rightarrow> u64 list" where
  "addmodPoly nfl rop op1 op2 = poly_loop nfl (\<lambda>p j _. addmod (op1 ! j) (op2 ! j) p) rop"

definition submodPoly :: "NFLlib \<Rightarrow> u64 list \<Rightarrow> u64 list \<Rightarrow> u64 list \<Rightarrow> u64 list" where
  "submodPoly nfl rop op1 op2 = poly_loop nfl (\<lambda>p j _. submod (op1 ! j) (op2 ! j) p) rop"

definition mulmodPolyNTT :: "NFLlib \<Rightarrow> u64 list \<Rightarrow> u64 list \<Rightarrow> u64 list \<Rightarrow> u64 list" where
  "mulmodPolyNTT nfl rop op1 op2 = poly_loop nfl (\<lambda>p j _. mulmod (op1 ! j) (op2 ! j) p) rop"

definition mulmodPolyNTTShoup ::
    "NFLlib \<Rightarrow> u64 list \<Rightarrow> u64 list \<Rightarrow> u64 list \<Rightarrow> u64 list \<Rightarrow> u64 list" where
  "mulmodPolyNTTShoup nfl rop op1 op2 op2prime =
     poly_loop nfl (\<lambda>p j _. mulmodShoup (op1 ! j) (op2 ! j) (op2prime ! j) p) rop"

definition mulandaddPolyNTT :: "NFLlib \<Rightarrow> u64 list \<Rightarrow> u64 list \<Rightarrow> u64 list \<Rightarrow> u64 list" where
  "mulandaddPolyNTT nfl rop op1 op2 =
     poly_loop nfl (\<lambda>p j r. mulandadd r (op1 ! j) (op2 ! j) p) rop"

definition mulandaddPolyNTTShoup ::
    "NFLlib \<Rightarrow> u64 list \<Rightarrow> u64 list \<Rightarrow> u64 list \<Rightarrow> u64 list \<Rightarrow> u64 list" where
  "mulandaddPolyNTTShoup nfl rop op1 op2 op2prime =
     poly_loop nfl (\<lambda>p j r. mulandaddShoup r (op1 ! j) (op2 ! j) (op2prime ! j) p) rop"

text \<open>\<open>malloc\<close>ed and written cell by cell: the initial content is irrelevant, zeros here.\<close>

definition allocandcomputeShouppoly :: "NFLlib \<Rightarrow> u64 list \<Rightarrow> u64 list" where
  "allocandcomputeShouppoly nfl x =
     poly_loop nfl (\<lambda>p j _. shoup_quotient (x ! j) p) (replicate (polyDegree nfl * nbModuli nfl) 0)"

section \<open>What the loop computes\<close>

lemma length_poly_slice [simp]: "length (poly_slice n cm g rop) = length rop"
  unfolding poly_slice_def by (rule length_fold_upd) simp

lemma length_poly_loop [simp]: "length (poly_loop nfl g rop) = length rop"
  unfolding poly_loop_def by (rule length_fold_upd) simp

lemma nth_poly_slice:
  assumes "cm * n + n \<le> length rop" "j < length rop"
  shows "poly_slice n cm g rop ! j = (if j div n = cm \<and> 0 < n then g j (rop ! j) else rop ! j)"
proof (cases "0 < n")
  case True
  have "cm * n \<le> j \<and> j < cm * n + n \<longleftrightarrow> j div n = cm"
    using True by (metis add.commute div_less_iff_less_mult div_nat_eqI dividend_less_times_div
        less_Suc_eq_le mult.commute mult_Suc mult_Suc_right times_div_less_eq_dividend)
  then show ?thesis
    using True nth_fold_upd [OF assms, where g = "\<lambda>i. g (cm * n + i)"]
    by (auto simp: poly_slice_def)
qed (simp add: poly_slice_def)

lemma nth_poly_loop_gen:
  assumes "m * polyDegree nfl \<le> length rop" "j < length rop"
  shows "fold (\<lambda>cm rop. poly_slice (polyDegree nfl) cm (g (moduli nfl ! cm)) rop) [0..<m] rop ! j =
    (if j < m * polyDegree nfl then g (moduli nfl ! (j div polyDegree nfl)) j (rop ! j) else rop ! j)"
  using assms(1)
proof (induction m)
  case 0
  then show ?case by simp
next
  case (Suc m)
  let ?n = "polyDegree nfl"
  let ?F = "\<lambda>cm rop. poly_slice ?n cm (g (moduli nfl ! cm)) rop"
  have len: "length (fold ?F [0..<m] rop) = length rop" by (rule length_fold_upd) simp
  have lt: "j < k * ?n \<longleftrightarrow> j div ?n < k \<and> 0 < ?n" for k
    by (cases "?n = 0") (simp_all add: div_less_iff_less_mult)
  have "j < Suc m * ?n \<longleftrightarrow> j < m * ?n \<or> (j div ?n = m \<and> 0 < ?n)"
    unfolding lt by auto
  moreover have "j < m * ?n \<Longrightarrow> j div ?n \<noteq> m"
    by (metis less_irrefl less_mult_imp_div_less)
  ultimately show ?case
    using Suc assms(2)
    by (simp add: fold_upt_Suc nth_poly_slice len add.commute del: upt_Suc)
qed

lemma nth_poly_loop:
  assumes "nbModuli nfl * polyDegree nfl = length rop" "j < length rop"
  shows "poly_loop nfl g rop ! j = g (moduli nfl ! (j div polyDegree nfl)) j (rop ! j)"
  using nth_poly_loop_gen [of "nbModuli nfl" nfl rop j g] assms by (simp add: poly_loop_def)

lemmas poly_op_defs = addmodPoly_def submodPoly_def mulmodPolyNTT_def mulmodPolyNTTShoup_def
  mulandaddPolyNTT_def mulandaddPolyNTTShoup_def allocandcomputeShouppoly_def

lemma length_poly_ops [simp]:
  "length (addmodPoly nfl rop a b) = length rop"
  "length (submodPoly nfl rop a b) = length rop"
  "length (mulmodPolyNTT nfl rop a b) = length rop"
  "length (mulmodPolyNTTShoup nfl rop a b b') = length rop"
  "length (mulandaddPolyNTT nfl rop a b) = length rop"
  "length (mulandaddPolyNTTShoup nfl rop a b b') = length rop"
  "length (allocandcomputeShouppoly nfl a) = polyDegree nfl * nbModuli nfl"
  by (simp_all add: poly_op_defs)

section \<open>Equivalence of the fast and the plain products\<close>

text \<open>Coefficients of a polynomial in the object's residue system.\<close>

definition reduced :: "NFLlib \<Rightarrow> u64 list \<Rightarrow> bool" where
  "reduced nfl x \<longleftrightarrow> length x = nbModuli nfl * polyDegree nfl \<and>
     (\<forall>j < length x. unat (x ! j) < unat (moduli nfl ! (j div polyDegree nfl)))"

definition moduli_ok :: "NFLlib \<Rightarrow> bool" where
  "moduli_ok nfl \<longleftrightarrow> length (moduli nfl) = nbModuli nfl \<and>
     (\<forall>p \<in> set (moduli nfl). 0 < unat p \<and> unat p < 2 ^ 61)"

lemma moduli_okD:
  assumes "moduli_ok nfl" "j < nbModuli nfl * polyDegree nfl"
  shows "0 < unat (moduli nfl ! (j div polyDegree nfl))"
    and "unat (moduli nfl ! (j div polyDegree nfl)) < 2 ^ 61"
proof -
  have "j div polyDegree nfl < length (moduli nfl)"
    using assms by (simp add: moduli_ok_def less_mult_imp_div_less)
  then have "moduli nfl ! (j div polyDegree nfl) \<in> set (moduli nfl)" by (rule nth_mem)
  with assms(1) show "0 < unat (moduli nfl ! (j div polyDegree nfl))"
    and "unat (moduli nfl ! (j div polyDegree nfl)) < 2 ^ 61"
    unfolding moduli_ok_def by blast+
qed

lemma reducedD:
  "reduced nfl x \<Longrightarrow> j < nbModuli nfl * polyDegree nfl \<Longrightarrow>
     unat (x ! j) < unat (moduli nfl ! (j div polyDegree nfl))"
  by (simp add: reduced_def)

lemma nth_allocandcomputeShouppoly:
  "j < nbModuli nfl * polyDegree nfl \<Longrightarrow>
     allocandcomputeShouppoly nfl x ! j = shoup_quotient (x ! j) (moduli nfl ! (j div polyDegree nfl))"
  unfolding allocandcomputeShouppoly_def by (subst nth_poly_loop) (simp_all add: mult.commute)

lemma mulmodPolyNTTShoup_eq:
  assumes "moduli_ok nfl" "reduced nfl op2" "length rop = nbModuli nfl * polyDegree nfl"
  shows "mulmodPolyNTTShoup nfl rop op1 op2 (allocandcomputeShouppoly nfl op2) =
         mulmodPolyNTT nfl rop op1 op2"
proof (rule nth_equalityI)
  fix j assume "j < length (mulmodPolyNTTShoup nfl rop op1 op2 (allocandcomputeShouppoly nfl op2))"
  then have j: "j < nbModuli nfl * polyDegree nfl" using assms(3) by simp
  have "unat (moduli nfl ! (j div polyDegree nfl)) < 2 ^ 63"
    using moduli_okD(2) [OF assms(1) j] by simp
  then show "mulmodPolyNTTShoup nfl rop op1 op2 (allocandcomputeShouppoly nfl op2) ! j =
      mulmodPolyNTT nfl rop op1 op2 ! j"
    using j assms reducedD [OF assms(2) j]
    by (simp add: mulmodPolyNTTShoup_def mulmodPolyNTT_def nth_poly_loop
        nth_allocandcomputeShouppoly mulmodShoup_eq_mulmod)
qed simp

lemma addmodPoly_reduced:
  assumes "moduli_ok nfl" "reduced nfl a" "reduced nfl b" "length rop = nbModuli nfl * polyDegree nfl"
  shows "reduced nfl (addmodPoly nfl rop a b)"
  unfolding reduced_def
proof (intro conjI allI impI)
  fix j assume "j < length (addmodPoly nfl rop a b)"
  then have j: "j < nbModuli nfl * polyDegree nfl" using assms(4) by simp
  show "unat (addmodPoly nfl rop a b ! j) < unat (moduli nfl ! (j div polyDegree nfl))"
    using j assms(4) moduli_okD [OF assms(1) j]
    by (simp add: addmodPoly_def nth_poly_loop addmod_reduced reducedD [OF assms(2) j] reducedD [OF assms(3) j])
qed (simp add: assms)

end
