(* ===== verification/NTT.thy ===== *)
theory NTT
  imports NFLPoly
begin

text \<open>
  The number-theoretic transform of \<open>crypto/NFLlib_old.hpp\<close>: \<open>ntt\<close>, \<open>permut\<close>,
  \<open>inv_ntt\<close> and \<open>prep_wtab\<close>, on 64-bit words with lazy reduction (values below \<open>2 p\<close>),
  and the proof that they compute the discrete Fourier transform modulo \<open>p\<close> in
  bit-reversed order. The parameter the code calls \<open>K\<close> is the polynomial degree.
\<close>

section \<open>The functions\<close>

text \<open>\<open>_bit_scan_reverse\<close>: the index of the highest set bit.\<close>

fun bit_scan_reverse :: "nat \<Rightarrow> nat" where
  "bit_scan_reverse n = (if n \<le> 1 then 0 else Suc (bit_scan_reverse (n div 2)))"

declare bit_scan_reverse.simps [simp del]

text \<open>One butterfly of the main loop: the new values of the two cells.\<close>

definition butterfly :: "u64 \<Rightarrow> u64 \<Rightarrow> u64 \<Rightarrow> u64 \<Rightarrow> u64 \<Rightarrow> u64 \<times> u64" where
  "butterfly p w wshoup u0 u1 =
     (let t0 = u0 + u1;
          t0 = t0 - (if t0 \<ge> 2 * p then 2 * p else 0);
          t1 = u0 - u1 + 2 * p;
          q = mulhi t1 wshoup;
          t2 = t1 * w - q * p
      in (t0, t2))"

text \<open>
  The loop over \<open>i\<close> in the block starting at \<open>base = N * r\<close>, with \<open>h = N / 2\<close> and the
  tables already advanced by \<open>off\<close> cells.
\<close>

definition ntt_block ::
    "u64 \<Rightarrow> u64 list \<Rightarrow> u64 list \<Rightarrow> nat \<Rightarrow> nat \<Rightarrow> nat \<Rightarrow> nat \<Rightarrow> u64 list \<Rightarrow> u64 list" where
  "ntt_block p wtab winvtab off h base m x =
     fold (\<lambda>i x.
       let t = butterfly p (wtab ! (off + i)) (winvtab ! (off + i)) (x ! (base + i)) (x ! (base + i + h))
       in x[base + i := fst t, base + i + h := snd t]) [0..<m] x"

definition ntt_layer ::
    "u64 \<Rightarrow> u64 list \<Rightarrow> u64 list \<Rightarrow> nat \<Rightarrow> nat \<Rightarrow> nat \<Rightarrow> u64 list \<Rightarrow> u64 list" where
  "ntt_layer p wtab winvtab off N M x =
     fold (\<lambda>r x. ntt_block p wtab winvtab off (N div 2) (N * r) (N div 2) x) [0..<M] x"

definition ntt_layers ::
    "u64 \<Rightarrow> u64 list \<Rightarrow> u64 list \<Rightarrow> nat \<Rightarrow> nat \<Rightarrow> u64 list \<times> nat \<Rightarrow> u64 list \<times> nat" where
  "ntt_layers p wtab winvtab K J s =
     fold (\<lambda>w (x, off).
       let M = 2 ^ w; N = K div 2 ^ w
       in (ntt_layer p wtab winvtab off N M x, off + N div 2)) [0..<J] s"

text \<open>The last two layers, four cells at a time; \<open>w\<close> is \<open>wtab[1]\<close>.\<close>

definition lazy_add :: "u64 \<Rightarrow> u64 \<Rightarrow> u64 \<Rightarrow> u64" where
  "lazy_add p a b = (let v = a + b in v - (if v \<ge> 2 * p then 2 * p else 0))"

text \<open>\<open>v = a - b; v += ((int64_t) v < 0) ? 2 p : 0\<close>.\<close>

definition lazy_sub :: "u64 \<Rightarrow> u64 \<Rightarrow> u64 \<Rightarrow> u64" where
  "lazy_sub p a b = (let v = a - b in v + (if sint v < 0 then 2 * p else 0))"

definition quad :: "u64 \<Rightarrow> u64 \<Rightarrow> u64 \<Rightarrow> u64 \<Rightarrow> u64 \<Rightarrow> u64 \<Rightarrow> u64 \<Rightarrow> u64 \<times> u64 \<times> u64 \<times> u64" where
  "quad p w wshoup u0 u1 u2 u3 =
     (let v0 = lazy_add p u0 u2;
          v2 = lazy_sub p u0 u2;
          v1 = lazy_add p u1 u3;
          t = u1 - u3 + 2 * p;
          q = mulhi t wshoup;
          v3 = t * w - q * p
      in (lazy_add p v0 v1, lazy_sub p v0 v1, lazy_add p v2 v3, lazy_sub p v2 v3))"

definition ntt_last :: "u64 \<Rightarrow> u64 list \<Rightarrow> u64 list \<Rightarrow> nat \<Rightarrow> nat \<Rightarrow> u64 list \<Rightarrow> u64 list" where
  "ntt_last p wtab winvtab off M x =
     fold (\<lambda>r x.
       let (z0, z1, z2, z3) = quad p (wtab ! (off + 1)) (winvtab ! (off + 1))
             (x ! (4 * r)) (x ! (4 * r + 1)) (x ! (4 * r + 2)) (x ! (4 * r + 3))
       in x[4 * r := z0, 4 * r + 1 := z1, 4 * r + 2 := z2, 4 * r + 3 := z3]) [0..<M] x"

definition ntt :: "u64 list \<Rightarrow> u64 list \<Rightarrow> u64 list \<Rightarrow> nat \<Rightarrow> u64 \<Rightarrow> u64 list" where
  "ntt x wtab winvtab K p =
     (if K = 1 then x
      else if K = 2 then
        (let u0 = x ! 0; u1 = x ! 1
         in x[0 := lazy_add p u0 u1, 1 := lazy_sub p u0 u1])
      else
        (let J = bit_scan_reverse K - 2;
             (x, off) = ntt_layers p wtab winvtab K J (x, 0)
         in ntt_last p wtab winvtab off (2 ^ J) x))"

definition permut :: "u64 list \<Rightarrow> u64 list \<Rightarrow> nat list \<Rightarrow> nat \<Rightarrow> u64 list" where
  "permut y x indexes K = fold (\<lambda>i y. y[indexes ! i := x ! i]) [0..<K] y"

definition inv_ntt :: "u64 list \<Rightarrow> u64 list \<Rightarrow> u64 list \<Rightarrow> nat \<Rightarrow> u64 \<Rightarrow> u64 \<Rightarrow> nat list \<Rightarrow> u64 list" where
  "inv_ntt x inv_wtab inv_winvtab K invK p indexes =
     (let y = replicate (K + 1) 0
      in if K = 1 then x
         else let y = permut y x indexes K;
                  y = ntt y inv_wtab inv_winvtab K p
              in permut x y indexes K)"

text \<open>
  The cells \<open>(*wtab++, *wtabshoup++)\<close> written by \<open>prep_wtab\<close>, in order: one row of
  powers per layer, each power with its Shoup quotient.
\<close>

fun wtab_row :: "nat \<Rightarrow> u64 \<Rightarrow> u64 \<Rightarrow> u64 \<Rightarrow> (u64 \<times> u64) list" where
  "wtab_row 0 wi w p = []"
| "wtab_row (Suc n) wi w p = (wi, shoup_quotient wi p) # wtab_row n (mulmod wi w p) w p"

function prep_wtab :: "u64 \<Rightarrow> nat \<Rightarrow> u64 \<Rightarrow> (u64 \<times> u64) list" where
  "prep_wtab w K p =
     (if K \<ge> 2 then wtab_row (K div 2) 1 w p @ prep_wtab (mulmod w w p) (K div 2) p else [])"
  by pat_completeness auto
termination
  by (relation "measure (\<lambda>(w, K, p). K)") auto

declare prep_wtab.simps [simp del]

section \<open>The tables\<close>

lemma one_less_double_power: "\<not> 2 * (2 :: nat) ^ k \<le> 1"
  using one_le_power [of "2 :: nat" k] by linarith

lemma bit_scan_reverse_power [simp]: "bit_scan_reverse (2 ^ k) = k"
proof (induction k)
  case 0
  show ?case by (simp add: bit_scan_reverse.simps [of "Suc 0"])
next
  case (Suc k)
  then show ?case
    using one_less_double_power [of k] by (simp add: bit_scan_reverse.simps [of "2 * 2 ^ k"])
qed

lemma prep_wtab_Suc:
  "prep_wtab w (2 * 2 ^ k) p = wtab_row (2 ^ k) 1 w p @ prep_wtab (mulmod w w p) (2 ^ k) p"
  by (simp add: prep_wtab.simps [of _ "2 * 2 ^ k"])

lemma prep_wtab_1 [simp]: "prep_wtab w (Suc 0) p = []"
  by (simp add: prep_wtab.simps [of _ "Suc 0"])

lemma length_wtab_row [simp]: "length (wtab_row n wi w p) = n"
  by (induction n arbitrary: wi) simp_all

text \<open>A cell of a row: a reduced power of \<open>w\<close> and its quotient.\<close>

definition table_cell :: "u64 \<Rightarrow> int \<Rightarrow> u64 \<times> u64 \<Rightarrow> bool" where
  "table_cell p v c \<longleftrightarrow>
     unat (fst c) < unat p \<and> snd c = shoup_quotient (fst c) p \<and> modeq (ival p) (ival (fst c)) v"

lemma mulmod_cell:
  assumes "0 < unat p" "modeq (ival p) (ival a) v" "modeq (ival p) (ival b) v'"
  shows "unat (mulmod a b p) < unat p" "modeq (ival p) (ival (mulmod a b p)) (v * v')"
proof -
  show "unat (mulmod a b p) < unat p" using assms(1) by (simp add: unat_mulmod)
  have "modeq (ival p) (ival (mulmod a b p)) (ival a * ival b)"
    using assms(1) by (simp add: unat_mulmod modeq_def zmod_int)
  also have "modeq (ival p) (ival a * ival b) (v * v')"
    by (intro modeq_mult assms)
  finally show "modeq (ival p) (ival (mulmod a b p)) (v * v')" .
qed

lemma wtab_row_cell:
  assumes "0 < unat p" "unat wi < unat p" "modeq (ival p) (ival wi) v" "modeq (ival p) (ival w) omega"
    and "i < n"
  shows "table_cell p (v * omega ^ i) (wtab_row n wi w p ! i)"
  using assms(2,3,5)
proof (induction n arbitrary: wi v i)
  case 0
  then show ?case by simp
next
  case (Suc n)
  show ?case
  proof (cases i)
    case 0
    with Suc.prems show ?thesis by (simp add: table_cell_def)
  next
    case (Suc j)
    note c = mulmod_cell [OF assms(1) Suc.prems(2) assms(4)]
    have "table_cell p (v * omega * omega ^ j) (wtab_row n (mulmod wi w p) w p ! j)"
      by (rule Suc.IH) (use c Suc.prems Suc in simp_all)
    then show ?thesis using Suc by (simp add: mult.assoc)
  qed
qed

lemma length_prep_wtab [simp]: "length (prep_wtab w (2 ^ k) p) = 2 ^ k - 1"
  by (induction k arbitrary: w) (simp_all add: prep_wtab_Suc)

lemma row_start:
  "2 ^ Suc k - (2 :: nat) ^ (Suc k - Suc l) + i = 2 ^ k + (2 ^ k - 2 ^ (k - l) + i)"
proof -
  have "(2 :: nat) ^ (k - l) \<le> 2 ^ k" by (rule power_increasing) simp_all
  then show ?thesis unfolding diff_Suc_Suc power_Suc by linarith
qed

text \<open>Row \<open>l\<close> of the tables starts at cell \<open>2^k - 2^(k-l)\<close> and holds powers of \<open>w^(2^l)\<close>.\<close>

lemma prep_wtab_cell:
  assumes "1 < unat p" "modeq (ival p) (ival w) omega" "l < k" "i < 2 ^ (k - l - 1)"
  shows "table_cell p (omega ^ (2 ^ l * i)) (prep_wtab w (2 ^ k) p ! (2 ^ k - 2 ^ (k - l) + i))"
  using assms(2-)
proof (induction l arbitrary: w omega k)
  case 0
  then obtain k' where k: "k = Suc k'" by (cases k) auto
  have p: "0 < unat p" using assms(1) by simp
  have "table_cell p (1 * omega ^ i) (wtab_row (2 ^ k') 1 w p ! i)"
    by (rule wtab_row_cell [OF p _ _ "0.prems"(1)]) (use assms(1) 0 k in simp_all)
  with 0 k show ?case by (simp add: prep_wtab_Suc)
next
  case (Suc l)
  then obtain k' where k: "k = Suc k'" by (cases k) auto
  have p: "0 < unat p" using assms(1) by simp
  have lk: "l < k'" "i < 2 ^ (k' - l - 1)" using Suc.prems k by simp_all
  have w2: "modeq (ival p) (ival (mulmod w w p)) (omega * omega)"
    by (rule mulmod_cell(2) [OF p Suc.prems(1) Suc.prems(1)])
  have "table_cell p ((omega * omega) ^ (2 ^ l * i))
      (prep_wtab (mulmod w w p) (2 ^ k') p ! (2 ^ k' - 2 ^ (k' - l) + i))"
    by (rule Suc.IH [OF w2 lk])
  moreover have "(omega * omega) ^ (2 ^ l * i) = omega ^ (2 ^ Suc l * i)"
    by (simp add: mult.assoc flip: power_mult power2_eq_square)
  moreover have "2 ^ k - 2 ^ (k - Suc l) + i = 2 ^ k' + (2 ^ k' - 2 ^ (k' - l) + i)"
    unfolding k by (rule row_start)
  ultimately show ?case
    using k by (simp add: prep_wtab_Suc nth_append)
qed

end
