(* ===== verification/NTTCorrect.thy ===== *)
theory NTTCorrect
  imports NTT
begin

text \<open>
  Correctness of the transform of theory \<open>NTT\<close>: the butterflies stay below \<open>2 p\<close> and compute
  the decimation-in-frequency step, the layers compute partial transforms
  (\<open>dft\<close>), and \<open>ntt\<close> computes the discrete Fourier transform in bit-reversed order for every
  power of two, with no overflow for moduli below \<open>2^61\<close>.
\<close>

section \<open>Butterflies\<close>

definition lazy :: "u64 \<Rightarrow> u64 \<Rightarrow> bool" where
  "lazy p x \<longleftrightarrow> unat x < 2 * unat p"

lemma unat_double:
  "unat (p :: u64) < 2 ^ 61 \<Longrightarrow> unat (2 * p) = 2 * unat p"
  by (subst unat_mult_no_overflow) simp_all

lemma unat_lazy_add:
  assumes "unat p < 2 ^ 61" "lazy p a" "lazy p b"
  shows "unat (lazy_add p a b) =
    (if 2 * unat p \<le> unat a + unat b then unat a + unat b - 2 * unat p else unat a + unat b)"
proof -
  have "unat a + unat b < 2 ^ 64" using assms by (simp add: lazy_def)
  then have "unat (a + b) = unat a + unat b" by (simp add: unat_add_no_overflow)
  then show ?thesis
    unfolding lazy_add_def Let_def unat_cond_sub unat_double [OF assms(1)] by simp
qed

lemma lazy_add_modeq:
  assumes "unat p < 2 ^ 61" "lazy p a" "lazy p b"
  shows "lazy p (lazy_add p a b)" "modeq (ival p) (ival (lazy_add p a b)) (ival a + ival b)"
proof -
  show "lazy p (lazy_add p a b)"
    using assms(2,3) unfolding lazy_def unat_lazy_add [OF assms] by auto
  have "modeq (ival p) (ival a + ival b - 2 * ival p) (ival a + ival b - 0)"
    by (intro modeq_diff modeq_refl) simp
  then show "modeq (ival p) (ival (lazy_add p a b)) (ival a + ival b)"
    unfolding unat_lazy_add [OF assms] by (simp add: of_nat_diff)
qed

lemma sint_diff_neg:
  assumes "unat (a :: u64) < 2 ^ 62" "unat b < 2 ^ 62"
  shows "sint (a - b) < 0 \<longleftrightarrow> unat a < unat b"
proof -
  have small: "sint x = ival x" if "unat x < 2 ^ 62" for x :: u64
  proof -
    have u: "uint x = ival x" by (simp add: of_nat_unat)
    have "ival x < 2 ^ 62" using that by simp
    then show ?thesis
      unfolding sint_uint u by (simp add: signed_take_bit_int_eq_self)
  qed
  have "sint (a - b) = signed_take_bit 63 (sint a - sint b)"
    by (simp add: sint_word_ariths)
  also have "\<dots> = ival a - ival b"
    using assms by (simp add: small signed_take_bit_int_eq_self)
  finally show ?thesis by simp
qed

lemma unat_lazy_sub:
  assumes "unat p < 2 ^ 61" "lazy p a" "lazy p b"
  shows "unat (lazy_sub p a b) =
    (if unat a < unat b then unat a + 2 * unat p - unat b else unat a - unat b)"
proof -
  have bnd: "unat a < 2 ^ 62" "unat b < 2 ^ 62" using assms by (simp_all add: lazy_def)
  note neg = sint_diff_neg [OF bnd]
  show ?thesis
  proof (cases "unat a < unat b")
    case True
    have "a - b + 2 * p = (a + 2 * p) - b" by simp
    moreover have "unat (a + 2 * p) = unat a + 2 * unat p"
      using assms bnd by (subst unat_add_no_overflow) (simp_all add: unat_double)
    moreover have "unat ((a + 2 * p) - b) = unat (a + 2 * p) - unat b"
      using assms(3) calculation(2) by (intro unat_sub_no_underflow) (simp add: lazy_def)
    ultimately show ?thesis
      using True by (simp only: lazy_sub_def Let_def neg if_True)
  next
    case False
    then show ?thesis
      by (simp add: lazy_sub_def Let_def neg unat_sub_no_underflow)
  qed
qed

lemma lazy_sub_modeq:
  assumes "unat p < 2 ^ 61" "lazy p a" "lazy p b"
  shows "lazy p (lazy_sub p a b)" "modeq (ival p) (ival (lazy_sub p a b)) (ival a - ival b)"
proof -
  show "lazy p (lazy_sub p a b)"
    using assms(2,3) unfolding lazy_def unat_lazy_sub [OF assms] by auto
  have "modeq (ival p) (ival a - ival b + 2 * ival p) (ival a - ival b + 0)"
    by (intro modeq_add modeq_refl) simp
  moreover have "ival (lazy_sub p a b) =
      (if unat a < unat b then ival a - ival b + 2 * ival p else ival a - ival b)"
    using assms(2,3) unfolding unat_lazy_sub [OF assms] by (auto simp: lazy_def of_nat_diff)
  ultimately show "modeq (ival p) (ival (lazy_sub p a b)) (ival a - ival b)" by simp
qed

text \<open>The difference times a twiddle factor, without reducing the difference first.\<close>

lemma twiddle:
  assumes "unat p < 2 ^ 61" "lazy p a" "lazy p b" "unat w < unat p"
  defines "t \<equiv> a - b + 2 * p"
  defines "t2 \<equiv> t * w - mulhi t (shoup_quotient w p) * p"
  shows "lazy p t2" "modeq (ival p) (ival t2) ((ival a - ival b) * ival w)"
proof -
  have p63: "unat p < 2 ^ 63" using assms(1) by simp
  have t: "t = a + 2 * p - b" by (simp add: t_def)
  have a2: "unat (a + 2 * p) = unat a + 2 * unat p"
    using assms by (subst unat_add_no_overflow) (simp_all add: unat_double lazy_def)
  have ut: "unat t = unat a + 2 * unat p - unat b"
    unfolding t using assms(3) a2 by (subst unat_sub_no_underflow) (simp_all add: lazy_def)
  note r = shoup_remainder [OF assms(4) p63, of t]
  show "lazy p t2" using r(3) by (simp add: lazy_def t2_def)
  have "modeq (ival p) (ival t2) (ival t * ival w)" using r(2) by (simp add: t2_def)
  also have "modeq (ival p) (ival t * ival w) ((ival a - ival b) * ival w)"
  proof (intro modeq_mult modeq_refl)
    have "ival t = ival a - ival b + 2 * ival p"
      using assms(3) by (simp add: ut of_nat_diff lazy_def)
    moreover have "modeq (ival p) (ival a - ival b + 2 * ival p) (ival a - ival b + 0)"
      by (intro modeq_add modeq_refl) simp
    ultimately show "modeq (ival p) (ival t) (ival a - ival b)" by simp
  qed
  finally show "modeq (ival p) (ival t2) ((ival a - ival b) * ival w)" .
qed

lemma butterfly_eq:
  "butterfly p w wshoup a b =
     (lazy_add p a b, (a - b + 2 * p) * w - mulhi (a - b + 2 * p) wshoup * p)"
  by (simp add: butterfly_def lazy_add_def Let_def)

lemma butterfly_correct:
  assumes "unat p < 2 ^ 61" "lazy p a" "lazy p b" "table_cell p v (w, wshoup)"
  shows "lazy p (fst (butterfly p w wshoup a b))"
    and "lazy p (snd (butterfly p w wshoup a b))"
    and "modeq (ival p) (ival (fst (butterfly p w wshoup a b))) (ival a + ival b)"
    and "modeq (ival p) (ival (snd (butterfly p w wshoup a b))) ((ival a - ival b) * v)"
proof -
  have c: "unat w < unat p" "wshoup = shoup_quotient w p" "modeq (ival p) (ival w) v"
    using assms(4) by (simp_all add: table_cell_def)
  note t = twiddle [OF assms(1-3) c(1)]
  show "lazy p (fst (butterfly p w wshoup a b))"
    "modeq (ival p) (ival (fst (butterfly p w wshoup a b))) (ival a + ival b)"
    using lazy_add_modeq [OF assms(1-3)] by (simp_all add: butterfly_eq)
  show "lazy p (snd (butterfly p w wshoup a b))"
    using t(1) by (simp add: butterfly_eq c(2))
  have "modeq (ival p) (ival (snd (butterfly p w wshoup a b))) ((ival a - ival b) * ival w)"
    using t(2) by (simp add: butterfly_eq c(2))
  also have "modeq (ival p) \<dots> ((ival a - ival b) * v)"
    by (intro modeq_mult modeq_refl c(3))
  finally show "modeq (ival p) (ival (snd (butterfly p w wshoup a b))) ((ival a - ival b) * v)" .
qed

section \<open>Partial transforms\<close>

text \<open>\<open>rev_bits w r\<close> reverses the lowest \<open>w\<close> bits of \<open>r\<close>.\<close>

fun rev_bits :: "nat \<Rightarrow> nat \<Rightarrow> nat" where
  "rev_bits 0 r = 0"
| "rev_bits (Suc w) r = (r mod 2) * 2 ^ w + rev_bits w (r div 2)"

text \<open>
  What cell \<open>N * r + i\<close> holds after \<open>w\<close> layers, with \<open>N\<close> the block length: the terms
  \<open>x0(i), x0(i + N), \<dots>\<close> of the transform at the point of index \<open>rev_bits w r\<close>.
\<close>

definition dft_part :: "(nat \<Rightarrow> int) \<Rightarrow> int \<Rightarrow> nat \<Rightarrow> nat \<Rightarrow> nat \<Rightarrow> nat \<Rightarrow> int" where
  "dft_part x0 om w N r i =
     (\<Sum>t < 2 ^ w. x0 (i + N * t) * om ^ (rev_bits w r * (i + N * t)))"

text \<open>The discrete Fourier transform itself.\<close>

definition dft :: "(nat \<Rightarrow> int) \<Rightarrow> int \<Rightarrow> nat \<Rightarrow> nat \<Rightarrow> int" where
  "dft x0 om K j = (\<Sum>t < K. x0 t * om ^ (j * t))"

lemma dft_part_0 [simp]: "dft_part x0 om 0 N r i = x0 i"
  by (simp add: dft_part_def)

lemma dft_part_full: "dft_part x0 om w 1 r 0 = dft x0 om (2 ^ w) (rev_bits w r)"
  by (simp add: dft_part_def dft_def)

lemma dft_part_even:
  "dft_part x0 om (Suc w) h (2 * r) i = dft_part x0 om w (2 * h) r i + dft_part x0 om w (2 * h) r (i + h)"
  unfolding dft_part_def power_Suc sum_lessThan_double by (simp add: algebra_simps)

lemma dft_part_odd:
  assumes "modeq p (om ^ (2 ^ w * h)) (- 1)"
  shows "modeq p (dft_part x0 om (Suc w) h (2 * r + 1) i)
    ((dft_part x0 om w (2 * h) r i - dft_part x0 om w (2 * h) r (i + h)) * om ^ (2 ^ w * i))"
proof -
  define e where "e = rev_bits w r"
  define A where "A = 2 ^ w * h"
  have A: "modeq p (om ^ (A * n)) ((- 1) ^ n)" for n
    using modeq_power [OF assms, of n] by (simp add: A_def power_mult)
  have eq: "om ^ ((2 ^ w + e) * (i + h * s)) = om ^ (e * (i + h * s)) * om ^ (2 ^ w * i) * om ^ (A * s)"
    for s unfolding A_def by (simp add: algebra_simps flip: power_add)
  have tm: "modeq p (x0 (i + h * s) * om ^ ((2 ^ w + e) * (i + h * s)))
      (x0 (i + h * s) * (om ^ (e * (i + h * s)) * om ^ (2 ^ w * i) * (- 1) ^ s))" for s
    unfolding eq by (intro modeq_mult modeq_refl A)
  have ev: "modeq p (x0 (i + h * (2 * t)) * om ^ ((2 ^ w + e) * (i + h * (2 * t))))
        (x0 (i + 2 * h * t) * om ^ (e * (i + 2 * h * t)) * om ^ (2 ^ w * i))" for t
    using tm [of "2 * t"] by (simp add: mult.assoc mult.left_commute)
  have od: "modeq p (x0 (i + h * (2 * t + 1)) * om ^ ((2 ^ w + e) * (i + h * (2 * t + 1))))
        (- (x0 (i + h + 2 * h * t) * om ^ (e * (i + h + 2 * h * t)) * om ^ (2 ^ w * i)))" for t
    using tm [of "2 * t + 1"] by (simp add: algebra_simps)
  have rev: "rev_bits (Suc w) (2 * r + 1) = 2 ^ w + e" by (simp add: e_def)
  have "modeq p (dft_part x0 om (Suc w) h (2 * r + 1) i)
      ((\<Sum>t < 2 ^ w. x0 (i + 2 * h * t) * om ^ (e * (i + 2 * h * t)) * om ^ (2 ^ w * i)) +
       (\<Sum>t < 2 ^ w. - (x0 (i + h + 2 * h * t) * om ^ (e * (i + h + 2 * h * t)) * om ^ (2 ^ w * i))))"
    unfolding dft_part_def rev power_Suc sum_lessThan_double
    by (intro modeq_add modeq_sum ev od)
  then show ?thesis
    unfolding dft_part_def e_def
    by (simp only: sum_negf left_diff_distrib sum_distrib_right diff_conv_add_uminus [symmetric])
qed

text \<open>The state of the buffer after \<open>w\<close> layers.\<close>

definition ntt_state :: "u64 \<Rightarrow> (nat \<Rightarrow> int) \<Rightarrow> int \<Rightarrow> nat \<Rightarrow> nat \<Rightarrow> u64 list \<Rightarrow> bool" where
  "ntt_state p x0 om w N x \<longleftrightarrow> 2 ^ w * N \<le> length x \<and>
     (\<forall>r < 2 ^ w. \<forall>i < N. lazy p (x ! (N * r + i)) \<and>
        modeq (ival p) (ival (x ! (N * r + i))) (dft_part x0 om w N r i))"

text \<open>One layer: each pair of cells at distance \<open>h\<close> goes through a butterfly.\<close>

definition layer_step :: "u64 \<Rightarrow> int \<Rightarrow> nat \<Rightarrow> nat \<Rightarrow> u64 list \<Rightarrow> u64 list \<Rightarrow> bool" where
  "layer_step p om w h x x' \<longleftrightarrow> length x' = length x \<and>
     (\<forall>r < 2 ^ w. \<forall>i < h.
        let a = x ! (2 * h * r + i); b = x ! (2 * h * r + i + h);
            a' = x' ! (2 * h * r + i); b' = x' ! (2 * h * r + i + h)
        in lazy p a \<longrightarrow> lazy p b \<longrightarrow>
           lazy p a' \<and> lazy p b' \<and> modeq (ival p) (ival a') (ival a + ival b) \<and>
           modeq (ival p) (ival b') ((ival a - ival b) * om ^ (2 ^ w * i)))"

lemma ntt_state_step:
  assumes st: "ntt_state p x0 om w (2 * h) x" and ls: "layer_step p om w h x x'"
    and om: "modeq (ival p) (om ^ (2 ^ w * h)) (- 1)"
  shows "ntt_state p x0 om (Suc w) h x'"
  unfolding ntt_state_def
proof (intro conjI allI impI)
  show "2 ^ Suc w * h \<le> length x'" using st ls by (simp add: ntt_state_def layer_step_def)
  fix r' i :: nat assume r': "r' < 2 ^ Suc w" and i: "i < h"
  define r where "r = r' div 2"
  have r: "r < 2 ^ w" using r' by (simp add: r_def less_mult_imp_div_less mult.commute)
  let ?a = "x ! (2 * h * r + i)" and ?b = "x ! (2 * h * r + i + h)"
  let ?a' = "x' ! (2 * h * r + i)" and ?b' = "x' ! (2 * h * r + i + h)"
  have a: "lazy p ?a" "modeq (ival p) (ival ?a) (dft_part x0 om w (2 * h) r i)"
    using st r i by (simp_all add: ntt_state_def)
  have ih: "i + h < 2 * h" using i by simp
  have b: "lazy p ?b" "modeq (ival p) (ival ?b) (dft_part x0 om w (2 * h) r (i + h))"
    using st r ih unfolding ntt_state_def by (simp_all add: add.assoc)
  have "lazy p ?a' \<and> lazy p ?b' \<and> modeq (ival p) (ival ?a') (ival ?a + ival ?b) \<and>
      modeq (ival p) (ival ?b') ((ival ?a - ival ?b) * om ^ (2 ^ w * i))"
    using ls r i a(1) b(1) unfolding layer_step_def Let_def by blast
  then have l': "lazy p ?a'" "lazy p ?b'" and a': "modeq (ival p) (ival ?a') (ival ?a + ival ?b)"
    and b': "modeq (ival p) (ival ?b') ((ival ?a - ival ?b) * om ^ (2 ^ w * i))" by simp_all
  have ev: "modeq (ival p) (ival ?a') (dft_part x0 om (Suc w) h (2 * r) i)"
    unfolding dft_part_even by (rule modeq_trans [OF a']) (intro modeq_add a(2) b(2))
  have "modeq (ival p) (ival ?b')
      ((dft_part x0 om w (2 * h) r i - dft_part x0 om w (2 * h) r (i + h)) * om ^ (2 ^ w * i))"
    by (rule modeq_trans [OF b']) (intro modeq_mult modeq_diff modeq_refl a(2) b(2))
  then have od: "modeq (ival p) (ival ?b') (dft_part x0 om (Suc w) h (2 * r + 1) i)"
    by (rule modeq_trans) (rule modeq_sym, rule dft_part_odd, rule om)
  consider "r' = 2 * r" | "r' = 2 * r + 1" unfolding r_def by linarith
  then show "lazy p (x' ! (h * r' + i))"
    and "modeq (ival p) (ival (x' ! (h * r' + i))) (dft_part x0 om (Suc w) h r' i)"
    using l' ev od by (cases; simp add: algebra_simps)+
qed

section \<open>Loops over disjoint blocks\<close>

lemma block_index:
  "i < N \<Longrightarrow> (N * r + i) div N = r" "i < N \<Longrightarrow> (N * r + i) mod N = i"
  for i N r :: nat by simp_all

lemma block_bound: "r < M \<Longrightarrow> i < N \<Longrightarrow> N * r + i < M * (N :: nat)"
  by (metis add.commute less_mult_imp_div_less mult.commute block_index(1) div_less_iff_less_mult
      gr_zeroI less_nat_zero_code)

lemma block_range:
  assumes "0 < (N :: nat)"
  shows "k div N = r \<longleftrightarrow> N * r \<le> k \<and> k < N * r + N"
proof
  assume r: "k div N = r"
  have "N * (k div N) + k mod N = k" "k mod N < N" using assms by simp_all
  then show "N * r \<le> k \<and> k < N * r + N" unfolding r by (intro conjI) linarith+
next
  assume k: "N * r \<le> k \<and> k < N * r + N"
  then have "k - N * r < N" by linarith
  from block_index(1) [OF this, of r] show "k div N = r" using k by simp
qed

text \<open>
  A loop whose step \<open>r\<close> rewrites block \<open>r\<close> only, from the cells of block \<open>r\<close>: block by block
  the result is that of one step on the initial buffer.
\<close>

lemma nth_fold_blocks:
  assumes step: "\<And>r x j. length x = L \<Longrightarrow> r < M \<Longrightarrow> j < L \<Longrightarrow>
      length (F r x) = L \<and> F r x ! j = (if j div N = r then G x j else x ! j)"
    and cong: "\<And>x y j. length x = L \<Longrightarrow> length y = L \<Longrightarrow> j < L \<Longrightarrow> j div N < M \<Longrightarrow>
      (\<And>c. c < L \<Longrightarrow> c div N = j div N \<Longrightarrow> x ! c = y ! c) \<Longrightarrow> G x j = G y j"
    and L: "length x = L" "j < L" and "m \<le> M"
  shows "length (fold F [0..<m] x) = L \<and>
    fold F [0..<m] x ! j = (if j div N < m then G x j else x ! j)"
  using assms(5,4)
proof (induction m arbitrary: j)
  case 0
  then show ?case using L by simp
next
  case (Suc m)
  let ?y = "fold F [0..<m] x"
  have IH: "length ?y = L" "\<And>j. j < L \<Longrightarrow> ?y ! j = (if j div N < m then G x j else x ! j)"
    using Suc.IH Suc.prems by (simp_all add: Suc_le_eq)
  have st: "length (F m ?y) = L" "F m ?y ! j = (if j div N = m then G ?y j else ?y ! j)"
    using step [OF IH(1), of m j] Suc.prems by simp_all
  have "G ?y j = G x j" if "j div N = m"
    by (rule cong) (use that IH L Suc.prems in simp_all)
  then show ?case
    using st IH(2) [of j] Suc.prems by (auto simp: less_Suc_eq)
qed

section \<open>The layers of the code\<close>

lemma nth_ntt_block:
  assumes "base + 2 * h \<le> length x" "m \<le> h" "j < length x"
  shows "length (ntt_block p wtab winvtab off h base m x) = length x \<and>
    ntt_block p wtab winvtab off h base m x ! j =
    (if base \<le> j \<and> j < base + m
     then fst (butterfly p (wtab ! (off + (j - base))) (winvtab ! (off + (j - base))) (x ! j) (x ! (j + h)))
     else if base + h \<le> j \<and> j < base + h + m
     then snd (butterfly p (wtab ! (off + (j - base - h))) (winvtab ! (off + (j - base - h)))
       (x ! (j - h)) (x ! j))
     else x ! j)"
  using assms(2,3)
proof (induction m arbitrary: j)
  case 0
  then show ?case by (auto simp: ntt_block_def)
next
  case (Suc m)
  let ?y = "ntt_block p wtab winvtab off h base m x"
  have len: "length ?y = length x" using Suc.IH Suc.prems by simp
  have keep: "?y ! (base + m) = x ! (base + m)" "?y ! (base + m + h) = x ! (base + m + h)"
    using Suc.IH [of "base + m"] Suc.IH [of "base + m + h"] Suc.prems(1) assms(1) by auto
  have eq: "ntt_block p wtab winvtab off h base (Suc m) x =
      (let t = butterfly p (wtab ! (off + m)) (winvtab ! (off + m)) (x ! (base + m)) (x ! (base + m + h))
       in ?y[base + m := fst t, base + m + h := snd t])"
    using keep by (simp add: ntt_block_def)
  have IH: "?y ! j = (if base \<le> j \<and> j < base + m
     then fst (butterfly p (wtab ! (off + (j - base))) (winvtab ! (off + (j - base))) (x ! j) (x ! (j + h)))
     else if base + h \<le> j \<and> j < base + h + m
     then snd (butterfly p (wtab ! (off + (j - base - h))) (winvtab ! (off + (j - base - h)))
       (x ! (j - h)) (x ! j))
     else x ! j)"
    using Suc.IH [of j] Suc.prems by simp
  consider "j = base + m" | "j = base + m + h" | "j \<noteq> base + m" "j \<noteq> base + m + h" by blast
  then show ?case
  proof cases
    case 1
    then show ?thesis using Suc.prems assms(1) by (simp add: eq Let_def len nth_list_update)
  next
    case 2
    then show ?thesis using Suc.prems assms(1) by (simp add: eq Let_def len nth_list_update)
  next
    case 3
    then have "base \<le> j \<and> j < base + Suc m \<longleftrightarrow> base \<le> j \<and> j < base + m"
      "base + h \<le> j \<and> j < base + h + Suc m \<longleftrightarrow> base + h \<le> j \<and> j < base + h + m" by auto
    with 3 IH show ?thesis by (simp add: eq Let_def len nth_list_update)
  qed
qed

lemma length_ntt_block [simp]: "length (ntt_block p wtab winvtab off h base m x) = length x"
  unfolding ntt_block_def by (rule length_fold_upd) (simp add: Let_def)

text \<open>The tables hold, from cell \<open>off\<close>, the powers of \<open>om^(2^w)\<close>.\<close>

definition table_row :: "u64 \<Rightarrow> int \<Rightarrow> nat \<Rightarrow> nat \<Rightarrow> nat \<Rightarrow> u64 list \<Rightarrow> u64 list \<Rightarrow> bool" where
  "table_row p om w off h wtab winvtab \<longleftrightarrow>
     (\<forall>i < h. table_cell p (om ^ (2 ^ w * i)) (wtab ! (off + i), winvtab ! (off + i)))"

lemma nth_ntt_layer:
  assumes L: "2 * h * M \<le> length x" and j: "j < 2 * h * M" and h: "0 < h"
  shows "length (ntt_layer p wtab winvtab off (2 * h) M x) = length x \<and>
    ntt_layer p wtab winvtab off (2 * h) M x ! j =
    (if j mod (2 * h) < h
     then fst (butterfly p (wtab ! (off + j mod (2 * h))) (winvtab ! (off + j mod (2 * h))) (x ! j) (x ! (j + h)))
     else snd (butterfly p (wtab ! (off + (j mod (2 * h) - h))) (winvtab ! (off + (j mod (2 * h) - h)))
       (x ! (j - h)) (x ! j)))" (is "_ \<and> _ = ?G x j")
proof -
  let ?F = "\<lambda>r x. ntt_block p wtab winvtab off h (2 * h * r) h x"
  have jM: "j div (2 * h) < M" using j h by (simp add: less_mult_imp_div_less mult.commute)
  have "length (fold ?F [0..<M] x) = length x \<and>
      fold ?F [0..<M] x ! j = (if j div (2 * h) < M then ?G x j else x ! j)"
  proof (rule nth_fold_blocks [where M = M])
    fix r k and y :: "u64 list" assume y: "length y = length x" and r: "r < M" and k: "k < length x"
    have "2 * h * r + 2 * h \<le> length y"
      using r mult_le_mono2 [of "Suc r" M "2 * h"] L by (simp add: y Suc_leI)
    from nth_ntt_block [OF this le_refl, of k p wtab winvtab off]
    have b: "?F r y ! k = (if 2 * h * r \<le> k \<and> k < 2 * h * r + h
       then fst (butterfly p (wtab ! (off + (k - 2 * h * r))) (winvtab ! (off + (k - 2 * h * r))) (y ! k) (y ! (k + h)))
       else if 2 * h * r + h \<le> k \<and> k < 2 * h * r + h + h
       then snd (butterfly p (wtab ! (off + (k - 2 * h * r - h))) (winvtab ! (off + (k - 2 * h * r - h)))
         (y ! (k - h)) (y ! k))
       else y ! k)" using k y by simp
    have "?F r y ! k = (if k div (2 * h) = r then ?G y k else y ! k)"
    proof (cases "k div (2 * h) = r")
      case True
      then have rng: "2 * h * r \<le> k" "k < 2 * h * r + h + h"
        using h block_range [of "2 * h" k r] by simp_all
      then have md: "k mod (2 * h) = k - 2 * h * r"
        using block_index(2) [of "k - 2 * h * r" "2 * h" r] by simp
      have "k < 2 * h * r + h \<longleftrightarrow> k - 2 * h * r < h" "2 * h * r + h \<le> k \<longleftrightarrow> \<not> k - 2 * h * r < h"
        using rng by linarith+
      then show ?thesis using True rng unfolding b md by simp
    next
      case False
      then have "\<not> (2 * h * r \<le> k \<and> k < 2 * h * r + 2 * h)"
        using h by (subst block_range [symmetric]) simp_all
      then have "\<not> (2 * h * r \<le> k \<and> k < 2 * h * r + h)"
        "\<not> (2 * h * r + h \<le> k \<and> k < 2 * h * r + h + h)" by linarith+
      then show ?thesis using False unfolding b by (simp only: if_False)
    qed
    then show "length (?F r y) = length x \<and>
        ?F r y ! k = (if k div (2 * h) = r then ?G y k else y ! k)"
      using y by simp
  next
    fix y z :: "u64 list" and k assume yz: "length y = length x" "length z = length x" and k: "k < length x" and kM: "k div (2 * h) < M"
      and eq: "\<And>c. c < length x \<Longrightarrow> c div (2 * h) = k div (2 * h) \<Longrightarrow> y ! c = z ! c"
    have dm: "k = 2 * h * (k div (2 * h)) + k mod (2 * h)" by simp
    have m: "k mod (2 * h) < 2 * h" using h by simp
    show "?G y k = ?G z k"
    proof (cases "k mod (2 * h) < h")
      case True
      then have mh: "k mod (2 * h) + h < 2 * h" by simp
      have kh: "k + h = 2 * h * (k div (2 * h)) + (k mod (2 * h) + h)" using dm by linarith
      have "(k + h) div (2 * h) = k div (2 * h)"
        using block_index(1) [OF mh, of "k div (2 * h)"] kh by (simp only:)
      moreover have "k + h < length x"
        using block_bound [OF kM mh] kh L by (simp only: mult.commute [of M])
      ultimately show ?thesis using True eq k by simp
    next
      case False
      have mh: "k mod (2 * h) - h < 2 * h" using m by simp
      have "k - h = 2 * h * (k div (2 * h)) + (k mod (2 * h) - h)" using dm False by linarith
      then have "(k - h) div (2 * h) = k div (2 * h)"
        using block_index(1) [OF mh, of "k div (2 * h)"] by (simp only:)
      then show ?thesis using False eq k by simp
    qed
  qed (use j L in simp_all)
  then show ?thesis using jM by (simp add: ntt_layer_def)
qed

lemma ntt_layer_step:
  assumes p: "unat p < 2 ^ 61" and L: "2 ^ w * (2 * h) \<le> length x" and h: "0 < h"
    and tab: "table_row p om w off h wtab winvtab"
  shows "layer_step p om w h x (ntt_layer p wtab winvtab off (2 * h) (2 ^ w) x)"
    (is "layer_step p om w h x ?y")
  unfolding layer_step_def Let_def
proof (intro conjI allI impI)
  have L': "2 * h * 2 ^ w \<le> length x" using L by (simp add: mult.commute)
  note nth = nth_ntt_layer [OF L' _ h, where wtab = wtab and winvtab = winvtab and off = off and p = p]
  show "length ?y = length x" using nth [of 0] h by simp
  fix r i :: nat assume r: "r < 2 ^ w" and i: "i < h"
  let ?k = "2 * h * r + i"
  have i2: "i < 2 * h" and ih2: "i + h < 2 * h" using i by simp_all
  have k: "?k < 2 * h * 2 ^ w" "?k + h < 2 * h * 2 ^ w"
    using block_bound [OF r i2] block_bound [OF r ih2] by (simp_all add: mult.commute add.assoc)
  have m: "?k mod (2 * h) = i" "(?k + h) mod (2 * h) = i + h"
    using block_index(2) [OF i2] block_index(2) [OF ih2] by (simp_all add: add.assoc)
  have y: "?y ! ?k = fst (butterfly p (wtab ! (off + i)) (winvtab ! (off + i)) (x ! ?k) (x ! (?k + h)))"
    "?y ! (?k + h) = snd (butterfly p (wtab ! (off + i)) (winvtab ! (off + i)) (x ! ?k) (x ! (?k + h)))"
    using nth [OF k(1)] nth [OF k(2)] i unfolding m by simp_all
  have c: "table_cell p (om ^ (2 ^ w * i)) (wtab ! (off + i), winvtab ! (off + i))"
    using tab i by (simp add: table_row_def)
  assume ab: "lazy p (x ! ?k)" "lazy p (x ! (?k + h))"
  note bf = butterfly_correct [OF p ab c]
  show "lazy p (?y ! ?k)" "lazy p (?y ! (?k + h))"
    "modeq (ival p) (ival (?y ! ?k)) (ival (x ! ?k) + ival (x ! (?k + h)))"
    "modeq (ival p) (ival (?y ! (?k + h))) ((ival (x ! ?k) - ival (x ! (?k + h))) * om ^ (2 ^ w * i))"
    using bf unfolding y by simp_all
qed

text \<open>All the tables of a transform of degree \<open>2 ^ k\<close>, as \<open>prep_wtab\<close> lays them out.\<close>

definition tables_ok :: "u64 \<Rightarrow> int \<Rightarrow> nat \<Rightarrow> u64 list \<Rightarrow> u64 list \<Rightarrow> bool" where
  "tables_ok p om k wtab winvtab \<longleftrightarrow>
     (\<forall>w < k. table_row p om w (2 ^ k - 2 ^ (k - w)) (2 ^ (k - w - 1)) wtab winvtab)"

lemma row_offset: "Suc w \<le> k \<Longrightarrow>
    (2 ^ k - 2 ^ (k - w)) + 2 ^ (k - w - 1) = 2 ^ k - (2 :: nat) ^ (k - Suc w)"
proof -
  assume "Suc w \<le> k"
  then obtain n where n: "k - w = Suc n" "k - w - 1 = n" "k - Suc w = n"
    using Suc_diff_Suc [of w k] by auto
  have "(2 :: nat) ^ Suc n \<le> 2 ^ k" by (rule power_increasing) (use n in linarith, simp)
  then show ?thesis unfolding n by simp
qed

lemma ntt_layers_state:
  assumes p: "unat p < 2 ^ 61" and om: "modeq (ival p) (om ^ (2 ^ (k - 1))) (- 1)"
    and tab: "tables_ok p om k wtab winvtab"
    and x: "ntt_state p x0 om 0 (2 ^ k) x" and "w \<le> k - 2" "2 \<le> k"
  shows "ntt_state p x0 om w (2 ^ (k - w)) (fst (ntt_layers p wtab winvtab (2 ^ k) w (x, 0))) \<and>
    snd (ntt_layers p wtab winvtab (2 ^ k) w (x, 0)) = 2 ^ k - 2 ^ (k - w)"
  using assms(5)
proof (induction w)
  case 0
  then show ?case using x by (simp add: ntt_layers_def)
next
  case (Suc w)
  define n where "n = k - w - 1"
  have n: "k - w = Suc n" "k - w - 1 = n" "k - Suc w = n" "w + n = k - 1"
    using Suc.prems assms(6) by (simp_all add: n_def)
  let ?s = "ntt_layers p wtab winvtab (2 ^ k) w (x, 0)"
  let ?y = "fst ?s" and ?off = "2 ^ k - 2 ^ (k - w)"
  have IH: "ntt_state p x0 om w (2 * 2 ^ n) ?y" "snd ?s = ?off"
    using Suc.IH Suc.prems by (simp_all add: n)
  have half: "(2 :: nat) ^ k div 2 ^ w = 2 * 2 ^ n"
    using Suc.prems assms(6) n(1) by (simp add: power_diff [symmetric] flip: power_Suc)
  have step: "ntt_layers p wtab winvtab (2 ^ k) (Suc w) (x, 0) =
      (ntt_layer p wtab winvtab ?off (2 * 2 ^ n) (2 ^ w) ?y, ?off + 2 ^ n)"
    using IH(2) half by (simp add: ntt_layers_def split_beta Let_def)
  have "layer_step p om w (2 ^ n) ?y (ntt_layer p wtab winvtab ?off (2 * 2 ^ n) (2 ^ w) ?y)"
  proof (rule ntt_layer_step [OF p])
    show "2 ^ w * (2 * 2 ^ n) \<le> length ?y" using IH(1) by (simp add: ntt_state_def)
    have "w < k" using n(1) by simp
    with tab show "table_row p om w ?off (2 ^ n) wtab winvtab"
      unfolding tables_ok_def using n by auto
  qed simp
  then have "ntt_state p x0 om (Suc w) (2 ^ n) (ntt_layer p wtab winvtab ?off (2 * 2 ^ n) (2 ^ w) ?y)"
    by (rule ntt_state_step [OF IH(1)]) (use om in \<open>simp add: n flip: power_add\<close>)
  then show ?case
    using row_offset [of w k] n Suc.prems unfolding step by simp
qed

text \<open>The last two layers, as two steps of the general shape.\<close>

definition quad_half :: "u64 \<Rightarrow> u64 \<Rightarrow> u64 \<Rightarrow> u64 list \<Rightarrow> nat \<Rightarrow> u64 list" where
  "quad_half p w wshoup x b =
     [lazy_add p (x ! b) (x ! (b + 2)),
      lazy_add p (x ! (b + 1)) (x ! (b + 3)),
      lazy_sub p (x ! b) (x ! (b + 2)),
      (x ! (b + 1) - x ! (b + 3) + 2 * p) * w - mulhi (x ! (b + 1) - x ! (b + 3) + 2 * p) wshoup * p]"

definition quad_cells :: "u64 \<Rightarrow> u64 \<Rightarrow> u64 \<Rightarrow> u64 list \<Rightarrow> nat \<Rightarrow> u64 list" where
  "quad_cells p w wshoup x b =
     (let v = quad_half p w wshoup x b
      in [lazy_add p (v ! 0) (v ! 1), lazy_sub p (v ! 0) (v ! 1),
          lazy_add p (v ! 2) (v ! 3), lazy_sub p (v ! 2) (v ! 3)])"

lemma less_4_cases: "(i :: nat) < 4 \<Longrightarrow> i = 0 \<or> i = 1 \<or> i = 2 \<or> i = 3"
  by auto

lemma nth_ntt_last:
  assumes L: "4 * M \<le> length x" and j: "j < 4 * M"
  shows "length (ntt_last p wtab winvtab off M x) = length x \<and>
    ntt_last p wtab winvtab off M x ! j =
      quad_cells p (wtab ! (off + 1)) (winvtab ! (off + 1)) x (4 * (j div 4)) ! (j mod 4)"
    (is "_ \<and> _ = ?G x j")
proof -
  let ?Q = "quad_cells p (wtab ! (off + 1)) (winvtab ! (off + 1))"
  let ?F = "\<lambda>r x. let v = ?Q x (4 * r)
      in x[4 * r := v ! 0, 4 * r + 1 := v ! 1, 4 * r + 2 := v ! 2, 4 * r + 3 := v ! 3]"
  have F: "ntt_last p wtab winvtab off M x = fold ?F [0..<M] x"
    by (simp add: ntt_last_def quad_def quad_cells_def quad_half_def Let_def)
  have jM: "j div 4 < M" using j by (simp add: less_mult_imp_div_less mult.commute)
  have "length (fold ?F [0..<M] x) = length x \<and>
      fold ?F [0..<M] x ! j = (if j div 4 < M then ?G x j else x ! j)"
  proof (rule nth_fold_blocks [where M = M])
    fix r k and y :: "u64 list" assume y: "length y = length x" and r: "r < M" and k: "k < length x"
    have len: "4 * r + 3 < length y" using y r L by simp
    have ks: "k = 4 * r \<and> k mod 4 = 0 \<or> k = 4 * r + 1 \<and> k mod 4 = 1 \<or>
        k = 4 * r + 2 \<and> k mod 4 = 2 \<or> k = 4 * r + 3 \<and> k mod 4 = 3" if "k div 4 = r"
      using that by presburger
    show "length (?F r y) = length x \<and> ?F r y ! k = (if k div 4 = r then ?G y k else y ! k)"
    proof (cases "k div 4 = r")
      case True
      with ks [OF True] len show ?thesis
        by (elim disjE conjE) (simp_all add: Let_def nth_list_update y)
    next
      case False
      then have "k \<noteq> 4 * r" "k \<noteq> 4 * r + 1" "k \<noteq> 4 * r + 2" "k \<noteq> 4 * r + 3" by auto
      with False show ?thesis by (simp add: Let_def y)
    qed
  next
    fix y z :: "u64 list" and k assume "length y = length x" "length z = length x" and k: "k < length x"
      and kM: "k div 4 < M"
      and eq: "\<And>c. c < length x \<Longrightarrow> c div 4 = k div 4 \<Longrightarrow> y ! c = z ! c"
    have "y ! (4 * (k div 4) + i) = z ! (4 * (k div 4) + i)" if "i < 4" for i
      by (rule eq) (use that kM L in simp_all)
    from this [of 0] this [of 1] this [of 2] this [of 3] show "?G y k = ?G z k"
      by (simp add: quad_cells_def quad_half_def)
  qed (use j L in simp_all)
  then show ?thesis using jM by (simp add: F)
qed

lemma ntt_last_state:
  assumes p: "unat p < 2 ^ 61" and k: "2 \<le> k" and om: "modeq (ival p) (om ^ (2 ^ (k - 1))) (- 1)"
    and tab: "tables_ok p om k wtab winvtab" and x: "ntt_state p x0 om (k - 2) 4 x"
  shows "ntt_state p x0 om k 1 (ntt_last p wtab winvtab (2 ^ k - 4) (2 ^ (k - 2)) x)"
proof -
  obtain w where w: "k = w + 2" using k by (metis add.commute le_Suc_ex)
  define W where "W = wtab ! (2 ^ k - 4 + 1)"
  define S where "S = winvtab ! (2 ^ k - 4 + 1)"
  define y where "y = map (\<lambda>j. quad_half p W S x (4 * (j div 4)) ! (j mod 4)) [0..<length x]"
  let ?z = "ntt_last p wtab winvtab (2 ^ k - 4) (2 ^ w) x"
  have L: "4 * 2 ^ w \<le> length x" using x by (simp add: ntt_state_def w)
  have c: "table_cell p (om ^ 2 ^ w) (W, S)"
  proof -
    have "w < k" "k - w = 2" "k - w - 1 = 1" using w by simp_all
    then have "table_row p om w (2 ^ k - 4) 2 wtab winvtab"
      using tab [unfolded tables_ok_def, rule_format, of w] by simp
    from this [unfolded table_row_def, rule_format, of 1] show ?thesis
      unfolding W_def S_def by simp
  qed
  have W: "unat W < unat p" "S = shoup_quotient W p" "modeq (ival p) (ival W) (om ^ 2 ^ w)"
    using c by (simp_all add: table_cell_def)
  have y: "y ! (4 * r + i) = quad_half p W S x (4 * r) ! i" if "r < 2 ^ w" "i < 4" for r i
    using that L by (simp add: y_def)
  have z: "?z ! (4 * r + i) = quad_cells p W S x (4 * r) ! i" if "r < 2 ^ w" "i < 4" for r i
    using nth_ntt_last [OF L, of "4 * r + i"] that L by (simp add: W_def S_def)
  have "layer_step p om w 2 x y"
    unfolding layer_step_def Let_def
  proof (intro conjI allI impI)
    show "length y = length x" by (simp add: y_def)
    fix r i :: nat assume r: "r < 2 ^ w" and i: "i < 2"
    assume ab: "lazy p (x ! (2 * 2 * r + i))" "lazy p (x ! (2 * 2 * r + i + 2))"
    note yi = y [OF r, of i] y [OF r, of "i + 2"]
    have i': "i = 0 \<or> i = 1" using i by auto
    note la = lazy_add_modeq [OF p ab]
    show "lazy p (y ! (2 * 2 * r + i))"
      "modeq (ival p) (ival (y ! (2 * 2 * r + i))) (ival (x ! (2 * 2 * r + i)) + ival (x ! (2 * 2 * r + i + 2)))"
      using la yi i' by (auto simp: quad_half_def add.assoc numeral_3_eq_3)
    have "lazy p (y ! (2 * 2 * r + i + 2)) \<and> modeq (ival p) (ival (y ! (2 * 2 * r + i + 2)))
          ((ival (x ! (2 * 2 * r + i)) - ival (x ! (2 * 2 * r + i + 2))) * om ^ (2 ^ w * i))"
    proof (cases "i = 0")
      case True
      then show ?thesis using lazy_sub_modeq [OF p ab] yi by (simp add: quad_half_def)
    next
      case False
      then have i1: "i = 1" using i by simp
      note tw = twiddle [OF p ab W(1)]
      have "modeq (ival p) (ival (y ! (2 * 2 * r + i + 2)))
          ((ival (x ! (2 * 2 * r + i)) - ival (x ! (2 * 2 * r + i + 2))) * ival W)"
        using tw(2) yi(2) by (simp add: i1 quad_half_def W(2) add.assoc numeral_3_eq_3)
      also have "modeq (ival p) \<dots>
          ((ival (x ! (2 * 2 * r + i)) - ival (x ! (2 * 2 * r + i + 2))) * om ^ (2 ^ w * i))"
        using W(3) by (intro modeq_mult modeq_refl) (simp add: i1)
      finally show ?thesis
        using tw(1) yi(2) by (simp add: i1 quad_half_def W(2) add.assoc numeral_3_eq_3)
    qed
    then show "lazy p (y ! (2 * 2 * r + i + 2))"
      "modeq (ival p) (ival (y ! (2 * 2 * r + i + 2)))
          ((ival (x ! (2 * 2 * r + i)) - ival (x ! (2 * 2 * r + i + 2))) * om ^ (2 ^ w * i))" by simp_all
  qed
  then have st: "ntt_state p x0 om (Suc w) 2 y"
    by (rule ntt_state_step [rotated]) (use x om in \<open>simp_all add: w mult.commute\<close>)
  have "layer_step p om (Suc w) 1 y ?z"
    unfolding layer_step_def Let_def
  proof (intro conjI allI impI)
    have "length ?z = length x" using nth_ntt_last [OF L, of 0] by simp
    then show "length ?z = length y" by (simp add: y_def)
    fix r' i :: nat assume r': "r' < 2 ^ Suc w" and i: "i < 1"
    define r where "r = r' div 2"
    have r: "r < 2 ^ w" using r' by (simp add: r_def less_mult_imp_div_less mult.commute)
    define b where "b = r' mod 2"
    have r'e: "r' = 2 * r + b" by (simp add: r_def b_def)
    have b: "b = 0 \<or> b = 1" unfolding b_def by auto
    assume ab: "lazy p (y ! (2 * 1 * r' + i))" "lazy p (y ! (2 * 1 * r' + i + 1))"
    have e: "2 * 1 * r' + i = 4 * r + 2 * b" using i by (simp add: r'e)
    have za: "?z ! (4 * r + 2 * b) = lazy_add p (y ! (4 * r + 2 * b)) (y ! (4 * r + 2 * b + 1))"
      and zs: "?z ! (4 * r + 2 * b + 1) = lazy_sub p (y ! (4 * r + 2 * b)) (y ! (4 * r + 2 * b + 1))"
      using b z [OF r, of "2 * b"] z [OF r, of "2 * b + 1"] y [OF r, of "2 * b"] y [OF r, of "2 * b + 1"]
      by (auto simp: quad_cells_def Let_def numeral_3_eq_3)
    note ab' = ab [unfolded e]
    show "lazy p (?z ! (2 * 1 * r' + i))"
      "modeq (ival p) (ival (?z ! (2 * 1 * r' + i))) (ival (y ! (2 * 1 * r' + i)) + ival (y ! (2 * 1 * r' + i + 1)))"
      unfolding e za using lazy_add_modeq [OF p ab'] by simp_all
    show "lazy p (?z ! (2 * 1 * r' + i + 1))"
      "modeq (ival p) (ival (?z ! (2 * 1 * r' + i + 1)))
        ((ival (y ! (2 * 1 * r' + i)) - ival (y ! (2 * 1 * r' + i + 1))) * om ^ (2 ^ Suc w * i))"
      unfolding e zs using lazy_sub_modeq [OF p ab'] i by simp_all
  qed
  then have "ntt_state p x0 om (Suc (Suc w)) 1 ?z"
    by (rule ntt_state_step [rotated]) (use st om in \<open>simp_all add: w\<close>)
  then show ?thesis by (simp add: w)
qed

section \<open>The transform computes the discrete Fourier transform\<close>

definition lazy_poly :: "u64 \<Rightarrow> nat \<Rightarrow> u64 list \<Rightarrow> bool" where
  "lazy_poly p n x \<longleftrightarrow> n \<le> length x \<and> (\<forall>j < n. lazy p (x ! j))"

lemma ntt_state_init: "lazy_poly p (2 ^ k) x \<Longrightarrow> ntt_state p (\<lambda>t. ival (x ! t)) om 0 (2 ^ k) x"
  by (simp add: ntt_state_def lazy_poly_def)

lemma ntt_state_final:
  assumes "ntt_state p x0 om k 1 y"
  shows "lazy_poly p (2 ^ k) y"
    "j < 2 ^ k \<Longrightarrow> modeq (ival p) (ival (y ! j)) (dft x0 om (2 ^ k) (rev_bits k j))"
proof -
  have st: "2 ^ k \<le> length y" "\<And>r. r < 2 ^ k \<Longrightarrow> lazy p (y ! r) \<and>
      modeq (ival p) (ival (y ! r)) (dft x0 om (2 ^ k) (rev_bits k r))"
    using assms unfolding ntt_state_def dft_part_full [symmetric] by auto
  then show "lazy_poly p (2 ^ k) y" by (simp add: lazy_poly_def)
  show "j < 2 ^ k \<Longrightarrow> modeq (ival p) (ival (y ! j)) (dft x0 om (2 ^ k) (rev_bits k j))"
    using st(2) by blast
qed

lemma ntt_two:
  assumes "unat p < 2 ^ 61" "lazy_poly p 2 x" "modeq (ival p) om (- 1)"
  shows "ntt_state p (\<lambda>t. ival (x ! t)) om 1 1 (ntt x wtab winvtab 2 p)"
proof -
  have x: "lazy p (x ! 0)" "lazy p (x ! 1)" "2 \<le> length x" using assms(2) by (simp_all add: lazy_poly_def)
  have l: "0 < length x" "1 < length x" using x(3) by linarith+
  have "layer_step p om 0 1 x (ntt x wtab winvtab 2 p)"
    using lazy_add_modeq [OF assms(1) x(1,2)] lazy_sub_modeq [OF assms(1) x(1,2)] l
    by (simp add: nth_list_update layer_step_def ntt_def Let_def)
  then have "ntt_state p (\<lambda>t. ival (x ! t)) om (Suc 0) 1 (ntt x wtab winvtab 2 p)"
    by (rule ntt_state_step [rotated])
      (use ntt_state_init [of p 1 x om] assms in simp_all)
  then show ?thesis by simp
qed

lemma ntt_state_ntt:
  assumes p: "unat p < 2 ^ 61" and x: "lazy_poly p (2 ^ k) x"
    and tab: "tables_ok p om k wtab winvtab"
    and om: "0 < k \<Longrightarrow> modeq (ival p) (om ^ (2 ^ (k - 1))) (- 1)"
  shows "ntt_state p (\<lambda>t. ival (x ! t)) om k 1 (ntt x wtab winvtab (2 ^ k) p)"
proof -
  consider "k = 0" | "k = 1" | "2 \<le> k" by linarith
  then show ?thesis
  proof cases
    case 1
    then show ?thesis using ntt_state_init [OF x] by (simp add: ntt_def)
  next
    case 2
    then show ?thesis using ntt_two [OF p, of x om] x om by simp
  next
    case 3
    have om': "modeq (ival p) (om ^ (2 ^ (k - 1))) (- 1)" using om 3 by simp
    let ?s = "ntt_layers p wtab winvtab (2 ^ k) (k - 2) (x, 0)"
    have s: "ntt_state p (\<lambda>t. ival (x ! t)) om (k - 2) (2 ^ (k - (k - 2))) (fst ?s)"
      "snd ?s = 2 ^ k - 2 ^ (k - (k - 2))"
      using ntt_layers_state [OF p om' tab ntt_state_init [OF x] le_refl 3] by simp_all
    have k2: "k - (k - 2) = 2" using 3 by simp
    have big: "(2 :: nat) ^ 2 \<le> 2 ^ k" using 3 by (rule power_increasing) simp
    have "ntt x wtab winvtab (2 ^ k) p =
        ntt_last p wtab winvtab (2 ^ k - 4) (2 ^ (k - 2)) (fst ?s)"
      using s(2) big 3 by (simp add: ntt_def Let_def split_beta k2)
    then show ?thesis
      using ntt_last_state [OF p 3 om' tab] s(1) by (simp add: k2)
  qed
qed

theorem ntt_dft:
  assumes "unat p < 2 ^ 61" "lazy_poly p (2 ^ k) x" "tables_ok p om k wtab winvtab"
    and "0 < k \<Longrightarrow> modeq (ival p) (om ^ (2 ^ (k - 1))) (- 1)"
  shows "lazy_poly p (2 ^ k) (ntt x wtab winvtab (2 ^ k) p)"
    and "j < 2 ^ k \<Longrightarrow> modeq (ival p) (ival (ntt x wtab winvtab (2 ^ k) p ! j))
      (dft (\<lambda>t. ival (x ! t)) om (2 ^ k) (rev_bits k j))"
  using ntt_state_final [OF ntt_state_ntt [OF assms]] by blast+

section \<open>Bit reversal\<close>

lemma rev_bits_less [simp]: "rev_bits w r < 2 ^ w"
proof (induction w arbitrary: r)
  case (Suc w)
  have "(r mod 2) * 2 ^ w \<le> 1 * (2 :: nat) ^ w" by (intro mult_le_mono1) simp
  then show ?case using Suc [of "r div 2"] unfolding rev_bits.simps power_Suc by linarith
qed simp

lemma rev_bits_top:
  "s < 2 ^ w \<Longrightarrow> b < 2 \<Longrightarrow> rev_bits (Suc w) (b * 2 ^ w + s) = 2 * rev_bits w s + b"
proof (induction w arbitrary: s)
  case (Suc w)
  have "rev_bits (Suc (Suc w)) (b * 2 ^ Suc w + s) =
      (s mod 2) * 2 ^ Suc w + rev_bits (Suc w) (b * 2 ^ w + s div 2)"
    by (simp add: mult.left_commute [of b 2])
  also have "\<dots> = (s mod 2) * 2 ^ Suc w + (2 * rev_bits w (s div 2) + b)"
    using Suc by (subst Suc.IH) simp_all
  finally show ?case by simp
qed simp

lemma rev_bits_involution: "r < 2 ^ w \<Longrightarrow> rev_bits w (rev_bits w r) = r"
proof (induction w arbitrary: r)
  case (Suc w)
  have "rev_bits (Suc w) (rev_bits (Suc w) r) = 2 * rev_bits w (rev_bits w (r div 2)) + r mod 2"
    unfolding rev_bits.simps(2) [of w r] by (rule rev_bits_top) simp_all
  also have "\<dots> = r" using Suc by simp
  finally show ?case .
qed simp

section \<open>Inverse transform\<close>

lemma geometric_double:
  fixes z :: int
  shows "(\<Sum>j < m + m. z ^ j) = (\<Sum>j < m. z ^ j) * (1 + z ^ m)"
proof -
  have "(\<Sum>j < m + m. z ^ j) = (\<Sum>j < m. z ^ j) + (\<Sum>j < m. z ^ (m + j))"
    by (simp add: lessThan_atLeast0 sum.atLeastLessThan_concat [of 0 m "m + m", symmetric]
        sum.shift_bounds_nat_ivl [of _ 0 m m, simplified] add.commute)
  then show ?thesis by (simp add: power_add algebra_simps sum_distrib_left sum.distrib)
qed

lemma geometric_zero:
  assumes "0 < d" "d < 2 ^ k" "modeq p (om ^ (2 ^ (k - 1))) (- 1)"
  shows "modeq p (\<Sum>j < 2 ^ k. (om ^ d) ^ j) 0"
  using assms
proof (induction k arbitrary: om d)
  case (Suc k)
  let ?S = "\<Sum>j < 2 ^ k. (om ^ d) ^ j"
  have split: "(\<Sum>j < 2 ^ Suc k. (om ^ d) ^ j) = ?S * (1 + (om ^ d) ^ (2 ^ k))"
    using geometric_double [of "om ^ d" "2 ^ k"] by (simp add: mult_2)
  show ?case
  proof (cases "even d")
    case True
    then obtain d' where d: "d = 2 * d'" by blast
    have d': "0 < d'" "d' < 2 ^ k" using Suc.prems d by simp_all
    then have k: "k \<noteq> 0" by (intro notI) simp
    then have "(om ^ 2) ^ (2 ^ (k - 1)) = om ^ (2 ^ k)"
      by (cases k) (simp_all add: power_mult [symmetric])
    then have "modeq p (\<Sum>j < 2 ^ k. ((om ^ 2) ^ d') ^ j) 0"
      using Suc.prems by (intro Suc.IH d') simp
    then have "modeq p ?S 0" by (simp add: d power_mult)
    then show ?thesis unfolding split
      using modeq_mult [OF _ modeq_refl, of p ?S 0 "1 + (om ^ d) ^ (2 ^ k)"] by simp
  next
    case False
    have "modeq p ((om ^ (2 ^ k)) ^ d) ((- 1) ^ d)" by (intro modeq_power) (use Suc.prems in simp)
    then have "modeq p ((om ^ d) ^ (2 ^ k)) (- 1)"
      using False by (simp add: power_mult [symmetric] mult.commute)
    then have "modeq p (1 + (om ^ d) ^ (2 ^ k)) (1 + - 1)" by (intro modeq_add modeq_refl)
    then show ?thesis unfolding split
      using modeq_mult [OF modeq_refl, of p "1 + (om ^ d) ^ (2 ^ k)" 0 ?S] by simp
  qed
qed simp

section \<open>The inverse transform of the code\<close>

lemma length_ntt_layers [simp]: "length (fst (ntt_layers p wtab winvtab K J s)) = length (fst s)"
proof -
  have "length (fst (fold (\<lambda>w (x, off). (ntt_layer p wtab winvtab off (K div 2 ^ w) (2 ^ w) x,
      off + K div 2 ^ w div 2)) ws s)) = length (fst s)" for ws
    by (induction ws arbitrary: s) (simp_all add: split_beta ntt_layer_def)
  then show ?thesis by (simp add: ntt_layers_def Let_def)
qed

lemma length_ntt [simp]: "length (ntt x wtab winvtab K p) = length x"
  by (simp add: ntt_def ntt_last_def Let_def split_beta)

lemma length_permut [simp]: "length (permut y x indexes K) = length y"
  unfolding permut_def by (rule length_fold_upd) simp

lemma nth_permut:
  assumes "K \<le> length y" "\<And>i. i < K \<Longrightarrow> indexes ! i < K" "inj_on ((!) indexes) {..<K}" "i < K"
  shows "permut y x indexes K ! (indexes ! i) = x ! i"
proof -
  have "i < m \<longrightarrow> permut y x indexes m ! (indexes ! i) = x ! i" if "m \<le> K" for m
    using that
  proof (induction m)
    case (Suc m)
    have eq: "permut y x indexes (Suc m) = (permut y x indexes m)[indexes ! m := x ! m]"
      by (simp add: permut_def)
    have "indexes ! i \<noteq> indexes ! m" if "i \<noteq> m"
      using that assms(3,4) Suc.prems by (auto dest: inj_onD)
    then show ?case using Suc assms(1) assms(2) [of m] unfolding eq by (auto simp: nth_list_update less_Suc_eq)
  qed simp
  with assms(4) show ?thesis by blast
qed

text \<open>The index table of the code: bit reversal.\<close>

definition rev_table :: "nat \<Rightarrow> nat list \<Rightarrow> bool" where
  "rev_table k indexes \<longleftrightarrow> (\<forall>i < 2 ^ k. indexes ! i = rev_bits k i)"

lemma nth_permut_rev:
  assumes "rev_table k indexes" "2 ^ k \<le> length y" "j < 2 ^ k"
  shows "permut y x indexes (2 ^ k) ! j = x ! rev_bits k j"
proof -
  have "inj_on ((!) indexes) {..<2 ^ k}"
    by (rule inj_on_inverseI [where g = "rev_bits k"])
      (use assms(1) in \<open>simp add: rev_table_def rev_bits_involution\<close>)
  moreover have "\<And>i. i < 2 ^ k \<Longrightarrow> indexes ! i < 2 ^ k"
    using assms(1) by (simp add: rev_table_def)
  ultimately have "permut y x indexes (2 ^ k) ! (indexes ! (rev_bits k j)) = x ! rev_bits k j"
    by (intro nth_permut assms(2)) simp_all
  then show ?thesis using assms by (simp add: rev_table_def rev_bits_involution)
qed

lemma inv_ntt_dft:
  assumes p: "unat p < 2 ^ 61" and x: "lazy_poly p (2 ^ k) x"
    and tab: "tables_ok p om k wtab winvtab" and rt: "rev_table k indexes"
    and om: "0 < k \<Longrightarrow> modeq (ival p) (om ^ (2 ^ (k - 1))) (- 1)"
  shows "lazy_poly p (2 ^ k) (inv_ntt x wtab winvtab (2 ^ k) invK p indexes)"
    and "j < 2 ^ k \<Longrightarrow>
      modeq (ival p) (ival (inv_ntt x wtab winvtab (2 ^ k) invK p indexes ! j))
        (dft (\<lambda>t. ival (x ! rev_bits k t)) om (2 ^ k) j)"
proof -
  let ?z = "inv_ntt x wtab winvtab (2 ^ k) invK p indexes"
  have "lazy_poly p (2 ^ k) ?z \<and> (\<forall>j < 2 ^ k. modeq (ival p) (ival (?z ! j))
        (dft (\<lambda>t. ival (x ! rev_bits k t)) om (2 ^ k) j))"
  proof (cases "k = 0")
    case True
    then show ?thesis using x by (simp add: inv_ntt_def dft_def)
  next
    case False
    then have K: "2 ^ k \<noteq> (1 :: nat)" by simp
    let ?u = "permut (replicate (2 ^ k + 1) 0) x indexes (2 ^ k)"
    let ?y = "ntt ?u wtab winvtab (2 ^ k) p"
    have z: "?z = permut x ?y indexes (2 ^ k)" using K by (simp add: inv_ntt_def)
    have y0: "?u ! j = x ! rev_bits k j" if "j < 2 ^ k" for j
      using that rt by (intro nth_permut_rev) simp_all
    have ly0: "lazy_poly p (2 ^ k) ?u"
      using x y0 by (simp add: lazy_poly_def)
    have eq: "dft (\<lambda>t. ival (?u ! t)) om (2 ^ k) j = dft (\<lambda>t. ival (x ! rev_bits k t)) om (2 ^ k) j" for j
      unfolding dft_def by (rule sum.cong [OF refl]) (simp only: lessThan_iff y0)
    note d = ntt_dft [OF p ly0 tab om, unfolded eq]
    have "?z ! j = ?y ! rev_bits k j" if "j < 2 ^ k" for j
      unfolding z using x by (intro nth_permut_rev rt that) (simp add: lazy_poly_def)
    moreover have "modeq (ival p) (ival (?y ! rev_bits k j)) (dft (\<lambda>t. ival (x ! rev_bits k t)) om (2 ^ k) j)"
      if "j < 2 ^ k" for j
      using d(2) [where j = "rev_bits k j"] that by (simp add: rev_bits_involution)
    ultimately show ?thesis
      using d(1) x by (simp add: lazy_poly_def) (simp add: z)
  qed
  then show "lazy_poly p (2 ^ k) ?z"
    and "j < 2 ^ k \<Longrightarrow> modeq (ival p) (ival (?z ! j)) (dft (\<lambda>t. ival (x ! rev_bits k t)) om (2 ^ k) j)"
    by blast+
qed

text \<open>\<open>prep_wtab\<close> builds tables the transform can use.\<close>

lemma prep_wtab_tables:
  fixes k :: nat
  assumes "1 < unat p" "modeq (ival p) (ival w) om"
  defines "cells \<equiv> prep_wtab w (2 ^ k) p"
  shows "tables_ok p om k (map fst cells) (map snd cells)"
  unfolding tables_ok_def table_row_def
proof (intro allI impI)
  fix l i assume l: "l < k" and i: "i < (2 :: nat) ^ (k - l - 1)"
  have c: "table_cell p (om ^ (2 ^ l * i)) (cells ! (2 ^ k - 2 ^ (k - l) + i))"
    unfolding cells_def using assms(1,2) l i by (rule prep_wtab_cell)
  have "(2 :: nat) * 2 ^ (k - l - 1) = 2 ^ (k - l)" using l by (simp flip: power_Suc)
  moreover have "(2 :: nat) ^ (k - l) \<le> 2 ^ k" by (rule power_increasing) simp_all
  moreover have "1 \<le> (2 :: nat) ^ (k - l - 1)" by simp
  ultimately have "2 ^ k - 2 ^ (k - l) + i < 2 ^ k - 1" using i by linarith
  then have "2 ^ k - 2 ^ (k - l) + i < length cells" by (simp add: cells_def)
  then show "table_cell p (om ^ (2 ^ l * i)) (map fst cells ! (2 ^ k - 2 ^ (k - l) + i),
      map snd cells ! (2 ^ k - 2 ^ (k - l) + i))"
    using c by simp
qed

end
