(* ===== verification/NFLConfig.thy ===== *)
theory NFLConfig
  imports NTTCorrect
begin

text \<open>
  Parameters and pre-computed tables of \<open>crypto/NFLlib_old.cpp\<close> with the constants of
  \<open>crypto/NFLParams.cpp\<close>: \<open>configureNTT\<close>, \<open>setmodulus\<close>, \<open>setpolyDegree\<close>,
  \<open>setNewParameters\<close>, \<open>freeNTTMemory\<close>, the transforms \<open>nttAndPowPhi\<close> and
  \<open>invnttAndPowInvPhi\<close>, the lifting \<open>poly2mpz\<close> and \<open>setBoundedRandomPoly\<close>.
  GMP's \<open>mpz_invert\<close> is a parameter, specified by the locale \<open>mpz_inversion\<close>.
\<close>

section \<open>Constants\<close>

definition kMaxNbModuli :: nat where "kMaxNbModuli = 17"

definition P64 :: "u64 list" where
  "P64 = [2305843009213317121, 2305843009213120513, 2305843009212694529, 2305843009212399617,
    2305843009211662337, 2305843009211596801, 2305843009211400193, 2305843009210580993,
    2305843009210515457, 2305843009210023937, 2305843009209057281, 2305843009208795137,
    2305843009208713217, 2305843009208123393, 2305843009207468033, 2305843009206976513,
    2305843009206845441]"

definition kModulusBitsize :: nat where "kModulusBitsize = 60"

definition kModulusRepresentationBitsize :: nat where "kModulusRepresentationBitsize = 64"

definition primitive_roots :: "u64 list" where
  "primitive_roots = [1187132827279672845, 753478288701480417, 717492273700781398,
    1965831349000139179, 2188074825493578002, 232964966911499637, 395215708149128273,
    241993652537061162, 370764889455808762, 1598724739621481826, 610870591815427803,
    1880981984715338041, 1389374064030612248, 1508488901479281364, 2111887543055470169,
    2020509703903079203, 1120240637471598814]"

definition invkMaxPolyDegree :: "u64 list" where
  "invkMaxPolyDegree = [2305561534236606511, 2305561534236409927, 2305561534235983995,
    2305561534235689119, 2305561534234951929, 2305561534234886401, 2305561534234689817,
    2305561534233870717, 2305561534233805189, 2305561534233313729, 2305561534232347191,
    2305561534232085079, 2305561534232003169, 2305561534231413417, 2305561534230758137,
    2305561534230266677, 2305561534230135621]"

definition kMinPolyDegree :: nat where "kMinPolyDegree = 512"

definition kMaxPolyDegree :: nat where "kMaxPolyDegree = 8192"

lemmas nfl_constants = kMaxNbModuli_def kModulusBitsize_def kModulusRepresentationBitsize_def
  kMinPolyDegree_def kMaxPolyDegree_def

section \<open>Construction, getters and release\<close>

text \<open>\<open>NFLlib_old()\<close>: the pointers are not yet allocated.\<close>

definition NFLlib_new :: NFLlib where
  "NFLlib_new = \<lparr> alreadyInit = 0, moduli = [], nbModuli = 0, polyDegree = 0, liftingIntegers = [],
     moduliProduct = 0, phis = [], shoupphis = [], invpoly_times_invphis = [],
     shoupinvpoly_times_invphis = [], omegas = [], shoupomegas = [], invomegas = [],
     shoupinvomegas = [], invpolyDegree = [], inv_indexes = [] \<rparr>"

definition getmoduli :: "NFLlib \<Rightarrow> u64 list" where "getmoduli nfl = moduli nfl"
definition getnbModuli :: "NFLlib \<Rightarrow> nat" where "getnbModuli nfl = nbModuli nfl"
definition getpolyDegree :: "NFLlib \<Rightarrow> nat" where "getpolyDegree nfl = polyDegree nfl"
definition copymoduliProduct :: "NFLlib \<Rightarrow> int" where "copymoduliProduct nfl = moduliProduct nfl"

text \<open>The arrays of a configured object are freed; the sizes stay.\<close>

definition freeNTTMemory :: "NFLlib \<Rightarrow> NFLlib" where
  "freeNTTMemory nfl =
     (if alreadyInit nfl = 0 then nfl
      else nfl \<lparr> alreadyInit := 0, moduli := [], liftingIntegers := [], moduliProduct := 0, phis := [],
        shoupphis := [], invpoly_times_invphis := [], shoupinvpoly_times_invphis := [], omegas := [],
        shoupomegas := [], invomegas := [], shoupinvomegas := [], invpolyDegree := [],
        inv_indexes := [] \<rparr>)"

section \<open>configureNTT\<close>

text \<open>\<open>for (i = 0; i < n; i++) x = mulmod(x, w, p)\<close> and the repeated squaring of \<open>phi\<close>.\<close>

fun mulmod_iter :: "nat \<Rightarrow> u64 \<Rightarrow> u64 \<Rightarrow> u64 \<Rightarrow> u64" where
  "mulmod_iter 0 x w p = x"
| "mulmod_iter (Suc n) x w p = mulmod_iter n (mulmod x w p) w p"

fun square_iter :: "nat \<Rightarrow> u64 \<Rightarrow> u64 \<Rightarrow> u64" where
  "square_iter 0 phi p = phi"
| "square_iter (Suc n) phi p = square_iter n (mulmod phi phi p) p"

text \<open>The bit reversal loop: \<open>h\<close> doubles up to \<open>polyDegree\<close>.\<close>

function rev_index_loop :: "nat \<Rightarrow> nat \<Rightarrow> nat \<Rightarrow> nat \<Rightarrow> nat" where
  "rev_index_loop n h ii r =
     (if 0 < h \<and> h < n then rev_index_loop n (h * 2) (ii div 2) (r * 2 + ii mod 2) else r)"
  by pat_completeness auto
termination
  by (relation "measure (\<lambda>(n, h, ii, r). n - h)") auto

declare rev_index_loop.simps [simp del]

definition inv_indexes_tmp :: "nat \<Rightarrow> nat list" where
  "inv_indexes_tmp n = map (\<lambda>i. rev_index_loop n 1 i 0) [0..<n]"

text \<open>The first \<open>j\<close> with \<open>inv_indexes_tmp[j] == i\<close>; a cell with no such \<open>j\<close> stays as allocated.\<close>

definition invert_permutation :: "nat \<Rightarrow> nat list \<Rightarrow> nat list" where
  "invert_permutation n tmp =
     map (\<lambda>i. case List.find (\<lambda>j. tmp ! j = i) [0..<n] of Some j \<Rightarrow> j | None \<Rightarrow> 0) [0..<n]"

text \<open>
  The values computed for one modulus. \<open>i < 13 - log2(polyDegree)\<close> holds for
  \<open>13 - floor(log2(polyDegree))\<close> values of \<open>i\<close>, as \<open>ceil(13 - l) = 13 - floor(l)\<close>.
\<close>

definition ntt_phi :: "u64 \<Rightarrow> u64 \<Rightarrow> nat \<Rightarrow> u64" where
  "ntt_phi p root n = square_iter (13 - bit_scan_reverse n) root p"

definition ntt_invphi :: "u64 \<Rightarrow> u64 \<Rightarrow> nat \<Rightarrow> u64" where
  "ntt_invphi p phi n = mulmod (mulmod_iter n 1 phi p) (mulmod_iter (n - 1) 1 phi p) p"

definition ntt_invdegree :: "u64 \<Rightarrow> u64 \<Rightarrow> nat \<Rightarrow> u64" where
  "ntt_invdegree p invk n = mulmod invk (of_nat (kMaxPolyDegree div n)) p"

text \<open>Inverse CRT constant of modulus \<open>cm\<close>.\<close>

definition lifting_integer :: "(int \<Rightarrow> int \<Rightarrow> int) \<Rightarrow> nat \<Rightarrow> nat \<Rightarrow> int" where
  "lifting_integer mpz_invert nb cm =
     (let prod = fold (\<lambda>i z. if i = cm then z else z * ival (P64 ! i)) [0..<nb] 1
      in prod * mpz_invert prod (ival (P64 ! cm)))"

definition configureNTT :: "(int \<Rightarrow> int \<Rightarrow> int) \<Rightarrow> NFLlib \<Rightarrow> NFLlib" where
  "configureNTT mpz_invert nfl0 =
     (let nfl = freeNTTMemory nfl0;
          nb = nbModuli nfl;
          n = polyDegree nfl;
          md = map (\<lambda>cm. P64 ! cm) [0..<nb];
          phi = (\<lambda>cm. ntt_phi (md ! cm) (primitive_roots ! cm) n);
          phi_cells = (\<lambda>cm. wtab_row n 1 (phi cm) (md ! cm));
          invphi = (\<lambda>cm. ntt_invphi (md ! cm) (phi cm) n);
          invdeg = (\<lambda>cm. ntt_invdegree (md ! cm) (invkMaxPolyDegree ! cm) n);
          inv_cells = (\<lambda>cm. wtab_row n (invdeg cm) (invphi cm) (md ! cm));
          om_cells = (\<lambda>cm. prep_wtab (mulmod (phi cm) (phi cm) (md ! cm)) n (md ! cm));
          invom_cells = (\<lambda>cm. prep_wtab (mulmod (invphi cm) (invphi cm) (md ! cm)) n (md ! cm))
      in nfl \<lparr>
           moduli := md,
           phis := map (\<lambda>cm. map fst (phi_cells cm)) [0..<nb],
           shoupphis := map (\<lambda>cm. map snd (phi_cells cm)) [0..<nb],
           invpolyDegree := map invdeg [0..<nb],
           invpoly_times_invphis := map (\<lambda>cm. map fst (inv_cells cm)) [0..<nb],
           shoupinvpoly_times_invphis := map (\<lambda>cm. map snd (inv_cells cm)) [0..<nb],
           omegas := map (\<lambda>cm. map fst (om_cells cm)) [0..<nb],
           shoupomegas := map (\<lambda>cm. map snd (om_cells cm)) [0..<nb],
           invomegas := map (\<lambda>cm. map fst (invom_cells cm)) [0..<nb],
           shoupinvomegas := map (\<lambda>cm. map snd (invom_cells cm)) [0..<nb],
           liftingIntegers := map (lifting_integer mpz_invert nb) [0..<nb],
           moduliProduct := fold (\<lambda>i z. z * ival (md ! i)) [0..<nb] 1,
           inv_indexes := invert_permutation n (inv_indexes_tmp n),
           alreadyInit := nb \<rparr>)"

section \<open>Setters\<close>

text \<open>\<open>exit(-1)\<close> on a size that is not a multiple of \<open>kModulusBitsize\<close>; \<open>nbModuli\<close> is an
  \<open>unsigned short\<close>.\<close>

datatype nfl_error = ModulusSizeNotMultiple

definition setmodulus :: "(int \<Rightarrow> int \<Rightarrow> int) \<Rightarrow> nat \<Rightarrow> NFLlib \<Rightarrow> nfl_error + NFLlib" where
  "setmodulus mpz_invert sz nfl =
     (if sz mod kModulusBitsize \<noteq> 0 then Inl ModulusSizeNotMultiple
      else Inr (configureNTT mpz_invert (nfl \<lparr> nbModuli := (sz div kModulusBitsize) mod 2 ^ 16 \<rparr>)))"

definition setNewParameters ::
    "(int \<Rightarrow> int \<Rightarrow> int) \<Rightarrow> nat \<Rightarrow> nat \<Rightarrow> NFLlib \<Rightarrow> nfl_error + NFLlib" where
  "setNewParameters mpz_invert degree sz nfl = setmodulus mpz_invert sz (nfl \<lparr> polyDegree := degree \<rparr>)"

definition setpolyDegree :: "(int \<Rightarrow> int \<Rightarrow> int) \<Rightarrow> nat \<Rightarrow> NFLlib \<Rightarrow> NFLlib" where
  "setpolyDegree mpz_invert degree nfl = configureNTT mpz_invert (nfl \<lparr> polyDegree := degree \<rparr>)"

section \<open>Transforms of a polynomial\<close>

text \<open>The slice of modulus \<open>cm\<close> seen through the advanced pointer.\<close>

definition on_slice :: "nat \<Rightarrow> nat \<Rightarrow> (u64 list \<Rightarrow> u64 list) \<Rightarrow> u64 list \<Rightarrow> u64 list" where
  "on_slice n cm f op = take (cm * n) op @ f (take n (drop (cm * n) op)) @ drop (cm * n + n) op"

definition shoup_scale :: "u64 \<Rightarrow> u64 list \<Rightarrow> u64 list \<Rightarrow> nat \<Rightarrow> u64 list \<Rightarrow> u64 list" where
  "shoup_scale p ws ws' n x = fold (\<lambda>i x. x[i := mulmodShoup (x ! i) (ws ! i) (ws' ! i) p]) [0..<n] x"

definition nttAndPowPhi :: "NFLlib \<Rightarrow> u64 list \<Rightarrow> u64 list" where
  "nttAndPowPhi nfl op =
     fold (\<lambda>cm op. on_slice (polyDegree nfl) cm (\<lambda>s.
         ntt (shoup_scale (moduli nfl ! cm) (phis nfl ! cm) (shoupphis nfl ! cm) (polyDegree nfl) s)
           (omegas nfl ! cm) (shoupomegas nfl ! cm) (polyDegree nfl) (moduli nfl ! cm)) op)
       [0..<nbModuli nfl] op"

definition invnttAndPowInvPhi :: "NFLlib \<Rightarrow> u64 list \<Rightarrow> u64 list" where
  "invnttAndPowInvPhi nfl op =
     fold (\<lambda>cm op. on_slice (polyDegree nfl) cm (\<lambda>s.
         shoup_scale (moduli nfl ! cm) (invpoly_times_invphis nfl ! cm)
           (shoupinvpoly_times_invphis nfl ! cm) (polyDegree nfl)
           (inv_ntt s (invomegas nfl ! cm) (shoupinvomegas nfl ! cm) (polyDegree nfl)
             (invpolyDegree nfl ! cm) (moduli nfl ! cm) (inv_indexes nfl))) op)
       [0..<nbModuli nfl] op"

section \<open>Lifting and random polynomials\<close>

definition poly2mpz :: "NFLlib \<Rightarrow> u64 list \<Rightarrow> int list" where
  "poly2mpz nfl p =
     map (\<lambda>i. fold (\<lambda>cm z. z + liftingIntegers nfl ! cm * ival (p ! (i + polyDegree nfl * cm)))
        [0..<nbModuli nfl] 0 mod moduliProduct nfl) [0..<polyDegree nfl]"

text \<open>\<open>(1ULL << ceil(log2(b))) - 1\<close>.\<close>

definition log2_ceil :: "nat \<Rightarrow> nat" where
  "log2_ceil b = (if b \<le> 1 then 0 else Suc (bit_scan_reverse (b - 1)))"

definition bound_mask :: "u64 \<Rightarrow> u64" where
  "bound_mask b = push_bit (log2_ceil (unat b)) 1 - 1"

definition mask_reduce :: "u64 \<Rightarrow> u64 \<Rightarrow> u64" where
  "mask_reduce b r = (let r = r AND bound_mask b in if r \<ge> b then r - b else r)"

text \<open>\<open>rnd\<close> is what \<open>fastrandombytes_old\<close> writes.\<close>

definition setBoundedRandomPoly :: "NFLlib \<Rightarrow> u64 list \<Rightarrow> u64 \<Rightarrow> bool \<Rightarrow> u64 list \<Rightarrow> u64 list" where
  "setBoundedRandomPoly nfl res upperBound uniform rnd =
     (if \<not> uniform
      then fold (\<lambda>i res. fold (\<lambda>cm res. res[polyDegree nfl * cm + i := mask_reduce upperBound (rnd ! i)])
             [0..<nbModuli nfl] res) [0..<polyDegree nfl] res
      else poly_loop nfl (\<lambda>p j _. mask_reduce p (rnd ! j)) res)"

definition allocBoundedRandomPoly :: "NFLlib \<Rightarrow> u64 \<Rightarrow> bool \<Rightarrow> u64 list \<Rightarrow> u64 list" where
  "allocBoundedRandomPoly nfl upperBound uniform rnd =
     setBoundedRandomPoly nfl (replicate (polyDegree nfl * nbModuli nfl) 0) upperBound uniform rnd"

definition allocpoly :: "NFLlib \<Rightarrow> u64 list" where
  "allocpoly nfl = replicate (polyDegree nfl * nbModuli nfl) 0"

end
