(* ===== verification/NFLConstants.thy ===== *)
theory NFLConstants
  imports NFLConfig
begin

text \<open>
  The constants of \<open>crypto/NFLParams.cpp\<close> are what their comments say: the moduli are below
  \<open>2^61\<close>, the roots are primitive \<open>2^14\<close>-th roots of unity (their \<open>2^13\<close>-th power is -1) and
  the inverses are those of \<open>kMaxPolyDegree\<close>.
\<close>

section \<open>The constants\<close>

text \<open>
  Repeated squaring with the quotients given, so that every step is a multiplication; the
  quotients for the thirteen squarings of each root are listed.
\<close>

fun square_chain :: "int \<Rightarrow> int \<Rightarrow> int list \<Rightarrow> int" where
  "square_chain p x [] = x"
| "square_chain p x (q # qs) = square_chain p (x * x - q * p) qs"

lemma square_chain_modeq: "modeq p (square_chain p x qs) (x ^ (2 ^ length qs))"
proof (induction qs arbitrary: x)
  case (Cons q qs)
  have "modeq p (x * x - q * p) (x * x - 0)" by (intro modeq_diff modeq_refl) simp
  then have "modeq p ((x * x - q * p) ^ (2 ^ length qs)) ((x * x) ^ (2 ^ length qs))"
    by (intro modeq_power) simp
  then show ?case
    using modeq_trans [OF Cons [of "x * x - q * p"]]
    by (simp add: power_mult power2_eq_square)
qed simp

definition root_quotients :: "int list list" where
  "root_quotients =
    [[611179661396737558, 76064718875145, 2156715401875972645, 3962467671041143,
      1453765145195012143, 1221463482580322829, 1182873851425571815, 1216990823424759879,
      2872325295197361, 746169317769299202, 1061620742488504780, 1434710876704030076,
      21565952475464905],
     [246213436593956053, 909007304691264469, 217728222042054043, 805289488513351240,
      560760563567224, 566297158301891417, 1685685283806071174, 1737331854032068869,
      1747519846073239328, 401414545706538141, 193301154820451640, 1063232295152463502,
      56447699261623401],
     [223256813566023437, 278459780641878133, 1571879129869988040, 1074367385108710644,
      535424030530155340, 1563224010240010104, 156046884716260, 999130497666753524,
      2107431288287505850, 2172371997761123607, 1664706629884146188, 1650850069487419599,
      27220191151088164],
     [1675956635934070418, 788217118250286, 2121651952104021770, 16543730477277218,
      1625726966138878942, 1843000202923103700, 141242069334092759, 34399017475151060,
      1250119421500286580, 667584423681461759, 399188990662118789, 339107956236549352,
      76013233171228224],
     [2076321511409223941, 11242790116552, 249979665627932, 1202133289846024176,
      425868076071010570, 436906969700307059, 1506950023873352682, 1663570306690286526,
      64900612445585662, 403390408070694597, 325700892303860218, 753018462562546435,
      2074652657344443972],
     [23537021207108450, 1384045908641079091, 1231237183927105188, 721357095602344737,
      181938427355858008, 620743299989882566, 1187480934876100346, 8822164306376174,
      162980536763366693, 64420168544492699, 2037399830503834171, 659069441025429009,
      523882703803936425],
     [67738981077135812, 107639114187598540, 1116158584205814582, 1314895065357304367,
      1552249895683342514, 1087757493325888442, 1931688529458466589, 1260368222275113293,
      362325180497843591, 367240934552859230, 91805943124581303, 836261500146923457,
      970059394271280649],
     [25396754087034124, 1918837099675970007, 616964574710758430, 245602983240445796,
      1969946555609731201, 6022014317214536, 1847860262283416715, 1232910715815368805,
      96634103307976877, 1362401320353467815, 137027911693692433, 1425233686819747,
      325408180590059556],
     [59616635956601617, 1705916326225112990, 49467038334513360, 881169870848875249,
      8444576610097583, 1689866197289993217, 679006140328735269, 77229828937844566,
      1320197191246438294, 1630885612538878041, 2120824676376750330, 1229379787083506784,
      1451280139428392464],
     [1108453950624083011, 330621383263016296, 820124394855571144, 2229377155899257901,
      1620396431901179521, 311314763671775857, 48867599459420697, 329902302810028185,
      740427690227950626, 70211307867723354, 621925157864616246, 3564150707717750,
      1784633612779379140],
     [161833602051222090, 148757773600024697, 676903526568684486, 606122797910302102,
      61127898331449173, 1571877617906019980, 216037637349573, 1160893407097967764,
      67094341566115858, 846104203632354704, 1388779795005277323, 620476049368952928,
      100856990123832241],
     [1534403345194640800, 1865602200644433915, 2087728772694702, 1248029306527110797,
      1121354029487825350, 1271308097666833505, 1465134522342802238, 4899251760380227,
      2190198458702598678, 221497040612650779, 1463517970557526422, 3169602388838730,
      439682027034107940],
     [837160327954579061, 35970995938695317, 44664841850805380, 472930054985017693,
      191108667507819945, 1031110534707259353, 566426356032002455, 1043940531610098544,
      7265985545999384, 1181763140642493252, 559543875830029492, 1206826107343635818,
      309864613535895460],
     [986857629421891349, 83025454596997046, 1314273891327943406, 1651202160954108710,
      517301666684514514, 565488079643726583, 120187240761824018, 927688791066991421,
      870809361339549, 491573251293769031, 53860279925351827, 2135849218774661266,
      1425704612562426564],
     [1934246597319659948, 159016291944981476, 2075538263905420307, 73440341518671897,
      31758590853207868, 901740134362930186, 319167824343451332, 338924105896510177,
      27808642687293218, 291246756079188452, 683718600075186886, 447839196110282291,
      653247634666776289],
     [1770484567798284168, 575722492633031330, 238936977834543360, 1317725303409976340,
      1113269509406326237, 383102376413165972, 1182047549087087022, 2058351459193798530,
      1238341452533517451, 1006931757609884857, 566918117698865262, 698849795222341943,
      9998987037599401],
     [544243073284699878, 1692984313829299689, 29353946030917, 283417543180793788,
      240128814625267587, 479557325776299230, 959808023876127136, 921426575819930473,
      16692479588294603, 1403979412688329502, 1506652061324015406, 1066180764885824055,
      112163006914989060]]"

definition constants_ok :: "u64 \<Rightarrow> u64 \<Rightarrow> u64 \<Rightarrow> int list \<Rightarrow> bool" where
  "constants_ok p r v qs \<longleftrightarrow> 1 < unat p \<and> unat p < 2305843009213693952 \<and>
     length qs = 13 \<and> square_chain (ival p) (ival r) qs = ival p - 1 \<and>
     ival v * 8192 = 8191 * ival p + 1"

lemma constants_checked:
  "list_all (\<lambda>(p, r, v, qs). constants_ok p r v qs)
     (zip P64 (zip primitive_roots (zip invkMaxPolyDegree root_quotients)))"
  by (simp add: constants_ok_def P64_def primitive_roots_def invkMaxPolyDegree_def root_quotients_def)

lemma gcd_step: "gcd (numeral a :: nat) (numeral b) = gcd (numeral b) (numeral a mod numeral b)"
  by (rule gcd_non_0_nat) simp

lemma P64_coprime: "sorted_wrt (\<lambda>p q. gcd (unat p) (unat q) = 1) P64"
  by (simp add: P64_def gcd_step)

lemma P64_coprime_nth:
  assumes "i < 17" "j < 17" "i \<noteq> j"
  shows "coprime (ival (P64 ! i)) (ival (P64 ! j))"
proof -
  have len: "length P64 = 17" by (simp add: P64_def)
  have "gcd (unat (P64 ! i)) (unat (P64 ! j)) = 1" if "i < j" "j < 17" for i j
    using sorted_wrt_nth_less [OF P64_coprime that(1)] that len by simp
  from this [of i j] this [of j i] have "coprime (unat (P64 ! i)) (unat (P64 ! j))"
    using assms by (cases "i < j") (simp_all add: coprime_iff_gcd_eq_1 gcd.commute)
  then show ?thesis by simp
qed

end
