(* ===== verification/NFLTransform.thy ===== *)
theory NFLTransform
  imports NFLConstants
begin

text \<open>
  Correctness of the configured object: \<open>configureNTT\<close> builds tables the transforms can use, and
  the transforms are inverse to each other and turn products into negacyclic convolutions.
\<close>

section \<open>Values at the odd powers of phi\<close>

text \<open>The polynomial \<open>c\<close> of degree below \<open>n\<close> at the \<open>j\<close>-th odd power of \<open>phi\<close>.\<close>

definition eval_at :: "(nat \<Rightarrow> int) \<Rightarrow> int \<Rightarrow> nat \<Rightarrow> nat \<Rightarrow> int" where
  "eval_at c phi n j = (\<Sum>t < n. c t * phi ^ ((2 * j + 1) * t))"

lemma eval_at_modeq:
  "(\<And>t. t < n \<Longrightarrow> modeq p (c t) (d t)) \<Longrightarrow> modeq p (eval_at c phi n j) (eval_at d phi n j)"
  unfolding eval_at_def by (intro modeq_sum modeq_mult modeq_refl) simp

lemma dft_eval_at:
  assumes "\<And>t. t < n \<Longrightarrow> modeq p (x t) (c t * phi ^ t)"
  shows "modeq p (dft x (phi ^ 2) n j) (eval_at c phi n j)"
  unfolding dft_def eval_at_def
proof (rule modeq_sum)
  fix t assume "t \<in> {..<n}"
  then have "modeq p (x t * (phi ^ 2) ^ (j * t)) (c t * phi ^ t * (phi ^ 2) ^ (j * t))"
    by (intro modeq_mult modeq_refl assms) simp
  then show "modeq p (x t * (phi ^ 2) ^ (j * t)) (c t * phi ^ ((2 * j + 1) * t))"
    by (simp add: mult.assoc power_mult [symmetric] power_add [symmetric] add_mult_distrib
        add.commute mult.left_commute)
qed

lemma orthogonal:
  assumes "0 < d" "d < 2 ^ k" "modeq p (phi ^ (2 ^ k)) (- 1)"
  shows "modeq p (\<Sum>j < 2 ^ k. phi ^ ((2 * j + 1) * d)) 0"
proof -
  have "k \<noteq> 0" using assms(1,2) by (intro notI) simp
  then have "(phi ^ 2) ^ (2 ^ (k - 1)) = phi ^ (2 ^ k)"
    by (cases k) (simp_all add: power_mult [symmetric])
  then have "modeq p (\<Sum>j < 2 ^ k. ((phi ^ 2) ^ d) ^ j) 0"
    using assms by (intro geometric_zero) simp_all
  then have "modeq p (phi ^ d * (\<Sum>j < 2 ^ k. ((phi ^ 2) ^ d) ^ j)) (phi ^ d * 0)"
    by (intro modeq_mult modeq_refl)
  moreover have "phi ^ d * (\<Sum>j < 2 ^ k. ((phi ^ 2) ^ d) ^ j) = (\<Sum>j < 2 ^ k. phi ^ ((2 * j + 1) * d))"
    by (simp add: sum_distrib_left power_mult [symmetric] power_add [symmetric] algebra_simps)
  ultimately show ?thesis by simp
qed

text \<open>A power of \<open>phi\<close> against one of its inverse \<open>psi\<close>.\<close>

lemma power_cancel:
  assumes "modeq p (phi * psi) 1"
  shows "t \<le> i \<Longrightarrow> modeq p (phi ^ (m * t) * psi ^ (m * i)) (psi ^ (m * (i - t)))"
    and "i \<le> t \<Longrightarrow> modeq p (phi ^ (m * t) * psi ^ (m * i)) (phi ^ (m * (t - i)))"
proof -
  have one: "modeq p ((phi * psi) ^ s) 1" for s using modeq_power [OF assms, of s] by simp
  show "modeq p (phi ^ (m * t) * psi ^ (m * i)) (psi ^ (m * (i - t)))" if "t \<le> i"
  proof -
    have "m * i = m * t + m * (i - t)" using that by (simp flip: distrib_left)
    then have "phi ^ (m * t) * psi ^ (m * i) = (phi * psi) ^ (m * t) * psi ^ (m * (i - t))"
      by (simp only: power_add power_mult_distrib mult.assoc)
    also have "modeq p \<dots> (1 * psi ^ (m * (i - t)))" by (intro modeq_mult one modeq_refl)
    finally show ?thesis by simp
  qed
  show "modeq p (phi ^ (m * t) * psi ^ (m * i)) (phi ^ (m * (t - i)))" if "i \<le> t"
  proof -
    have "m * t = m * i + m * (t - i)" using that by (simp flip: distrib_left)
    then have "phi ^ (m * t) * psi ^ (m * i) = phi ^ (m * i) * phi ^ (m * (t - i)) * psi ^ (m * i)"
      by (simp only: power_add)
    also have "\<dots> = (phi * psi) ^ (m * i) * phi ^ (m * (t - i))"
      by (simp add: power_mult_distrib)
    also have "modeq p \<dots> (1 * phi ^ (m * (t - i)))" by (intro modeq_mult one modeq_refl)
    finally show ?thesis by simp
  qed
qed

lemma inverse_root:
  assumes "modeq p (phi * psi) 1" "modeq p (phi ^ n) (- 1)"
  shows "modeq p (psi ^ n) (- 1)"
proof -
  have "modeq p (- 1 * psi ^ n) (phi ^ n * psi ^ n)"
    by (intro modeq_mult modeq_refl modeq_sym [OF assms(2)])
  also have "modeq p (phi ^ n * psi ^ n) (1 ^ n)"
    unfolding power_mult_distrib [symmetric] by (intro modeq_power assms(1))
  finally have "modeq p (- (psi ^ n)) 1" by simp
  from modeq_minus [OF this] show ?thesis by simp
qed

text \<open>Interpolation: the inverse transform of the values gives back \<open>n * c\<close>.\<close>

lemma interpolation:
  assumes phi: "modeq p (phi ^ (2 ^ k)) (- 1)" and psi: "modeq p (phi * psi) 1" and i: "i < 2 ^ k"
    and y: "\<And>j. j < 2 ^ k \<Longrightarrow> modeq p (y j) (eval_at c phi (2 ^ k) j)"
  shows "modeq p (dft y (psi ^ 2) (2 ^ k) i * psi ^ i) (2 ^ k * c i)"
proof -
  let ?n = "2 ^ k :: nat"
  define S where "S t = (\<Sum>j < ?n. phi ^ ((2 * j + 1) * t) * psi ^ ((2 * j + 1) * i))" for t
  have S: "modeq p (S t) (if t = i then 2 ^ k else 0)" if t: "t < ?n" for t
  proof -
    consider "t = i" | "t < i" | "i < t" by linarith
    then show ?thesis
    proof cases
      case 1
      have "modeq p (phi ^ (m * i) * psi ^ (m * i)) 1" for m
        using power_cancel(1) [OF psi, of i i m] by simp
      then have "modeq p (S t) (\<Sum>j < ?n. 1)" unfolding S_def 1 by (intro modeq_sum)
      then show ?thesis using 1 by simp
    next
      case 2
      have "modeq p (S t) (\<Sum>j < ?n. psi ^ ((2 * j + 1) * (i - t)))" unfolding S_def
        using 2 by (intro modeq_sum power_cancel(1) [OF psi]) simp
      also have "modeq p \<dots> 0"
        by (rule orthogonal) (use 2 i inverse_root [OF psi phi] in simp_all)
      finally show ?thesis using 2 by simp
    next
      case 3
      have "modeq p (S t) (\<Sum>j < ?n. phi ^ ((2 * j + 1) * (t - i)))" unfolding S_def
        using 3 by (intro modeq_sum power_cancel(2) [OF psi]) simp
      also have "modeq p \<dots> 0"
        by (rule orthogonal) (use 3 t phi in simp_all)
      finally show ?thesis using 3 by simp
    qed
  qed
  have "dft y (psi ^ 2) ?n i * psi ^ i = (\<Sum>j < ?n. y j * psi ^ ((2 * j + 1) * i))"
    unfolding dft_def sum_distrib_right
    by (intro sum.cong refl) (simp add: mult.assoc power_mult [symmetric] power_add [symmetric]
        algebra_simps)
  also have "modeq p \<dots> (\<Sum>j < ?n. eval_at c phi ?n j * psi ^ ((2 * j + 1) * i))"
    by (intro modeq_sum modeq_mult modeq_refl y) simp
  also have "(\<Sum>j < ?n. eval_at c phi ?n j * psi ^ ((2 * j + 1) * i)) = (\<Sum>t < ?n. c t * S t)"
    unfolding eval_at_def S_def sum_distrib_right sum_distrib_left
    by (subst sum.swap) (simp add: mult.assoc)
  also have "modeq p \<dots> (\<Sum>t < ?n. c t * (if t = i then 2 ^ k else 0))"
    by (intro modeq_sum modeq_mult modeq_refl S) simp
  also have "(\<Sum>t < ?n. c t * (if t = i then 2 ^ k else 0)) = 2 ^ k * c i"
    using i by (simp add: sum.delta if_distrib [of "\<lambda>v. c _ * v"] cong: if_cong)
  finally show ?thesis .
qed

section \<open>Negacyclic convolution\<close>

definition negacyclic :: "(nat \<Rightarrow> int) \<Rightarrow> (nat \<Rightarrow> int) \<Rightarrow> nat \<Rightarrow> nat \<Rightarrow> int" where
  "negacyclic a b n i = (\<Sum>j < n. a j * (if j \<le> i then b (i - j) else - b (n + i - j)))"

lemma negacyclic_eval:
  assumes z: "modeq p (z ^ n) (- 1)"
  shows "modeq p (\<Sum>i < n. negacyclic a b n i * z ^ i) ((\<Sum>j < n. a j * z ^ j) * (\<Sum>l < n. b l * z ^ l))"
proof -
  have shift: "modeq p (\<Sum>l < n. b l * z ^ (j + l))
      (\<Sum>i < n. (if j \<le> i then b (i - j) else - b (n + i - j)) * z ^ i)" if j: "j < n" for j
  proof -
    define s where "s i = (if j \<le> i then i - j else n + i - j)" for i
    have "(\<Sum>l < n. b l * z ^ (j + l)) = (\<Sum>i < n. b (s i) * z ^ (j + s i))"
      by (rule sum.reindex_bij_witness [where i = s and j = "\<lambda>l. if j + l < n then j + l else j + l - n"])
        (use j in \<open>auto simp: s_def\<close>)
    also have "modeq p \<dots> (\<Sum>i < n. (if j \<le> i then b (i - j) else - b (n + i - j)) * z ^ i)"
    proof (rule modeq_sum)
      fix i assume "i \<in> {..<n}"
      show "modeq p (b (s i) * z ^ (j + s i)) ((if j \<le> i then b (i - j) else - b (n + i - j)) * z ^ i)"
      proof (cases "j \<le> i")
        case False
        then have "z ^ (j + s i) = z ^ n * z ^ i" using j by (simp add: s_def power_add [symmetric])
        moreover have "modeq p (b (s i) * (z ^ n * z ^ i)) (b (s i) * (- 1 * z ^ i))"
          by (intro modeq_mult modeq_refl z)
        ultimately show ?thesis using False by (simp add: s_def)
      qed (simp add: s_def)
    qed
    finally show ?thesis .
  qed
  have "(\<Sum>i < n. negacyclic a b n i * z ^ i) =
      (\<Sum>j < n. a j * (\<Sum>i < n. (if j \<le> i then b (i - j) else - b (n + i - j)) * z ^ i))"
    unfolding negacyclic_def sum_distrib_right sum_distrib_left
    by (subst sum.swap) (simp add: mult.assoc)
  also have "modeq p \<dots> (\<Sum>j < n. a j * (\<Sum>l < n. b l * z ^ (j + l)))"
    by (intro modeq_sum modeq_mult modeq_refl modeq_sym [OF shift]) simp
  also have "(\<Sum>j < n. a j * (\<Sum>l < n. b l * z ^ (j + l))) = (\<Sum>j < n. a j * z ^ j) * (\<Sum>l < n. b l * z ^ l)"
    by (simp only: sum_product) (simp add: sum_distrib_left power_add mult.assoc mult.left_commute)
  finally show ?thesis .
qed

lemma negacyclic_eval_at:
  assumes "modeq p (phi ^ n) (- 1)"
  shows "modeq p (eval_at (negacyclic a b n) phi n j) (eval_at a phi n j * eval_at b phi n j)"
proof -
  have "modeq p ((phi ^ n) ^ (2 * j + 1)) ((- 1) ^ (2 * j + 1))" by (intro modeq_power assms)
  then have "modeq p ((phi ^ (2 * j + 1)) ^ n) (- 1)"
    by (simp only: power_mult [symmetric] mult.commute) (simp add: mult.commute)
  from negacyclic_eval [OF this, of a b] show ?thesis
    by (simp only: eval_at_def power_mult [symmetric])
qed

section \<open>Slices\<close>

definition slice :: "nat \<Rightarrow> nat \<Rightarrow> u64 list \<Rightarrow> u64 list" where
  "slice n cm x = take n (drop (cm * n) x)"

lemma length_slice: "cm * n + n \<le> length x \<Longrightarrow> length (slice n cm x) = n"
  by (simp add: slice_def)

lemma nth_slice: "cm * n + n \<le> length x \<Longrightarrow> i < n \<Longrightarrow> slice n cm x ! i = x ! (cm * n + i)"
  by (simp add: slice_def)

lemma slice_bound: "cm < m \<Longrightarrow> m * n \<le> L \<Longrightarrow> cm * n + n \<le> (L :: nat)"
  using mult_le_mono1 [of "Suc cm" m n] by simp

lemma on_slice_nth:
  assumes "cm * n + n \<le> length x" "length (f (slice n cm x)) = n" "j < length x" "0 < n"
  shows "length (on_slice n cm f x) = length x \<and>
    on_slice n cm f x ! j = (if j div n = cm then f (slice n cm x) ! (j mod n) else x ! j)"
proof -
  have rng: "j div n = cm \<longleftrightarrow> n * cm \<le> j \<and> j < n * cm + n" by (rule block_range) fact
  have md: "j mod n = j - cm * n" if "j div n = cm"
    using that by (simp add: minus_mult_div_eq_mod [symmetric] mult.commute)
  show ?thesis
    using assms rng md unfolding on_slice_def slice_def [symmetric]
    by (auto simp: nth_append mult.commute)
qed

text \<open>A loop over the moduli that transforms each slice.\<close>

lemma fold_slices:
  assumes f: "\<And>cm s. cm < m \<Longrightarrow> length s = n \<Longrightarrow> length (f cm s) = n"
    and x: "length x = m * n" and n: "0 < n"
  defines "y \<equiv> fold (\<lambda>cm x. on_slice n cm (f cm) x) [0..<m] x"
  shows "length y = length x" and "cm < m \<Longrightarrow> slice n cm y = f cm (slice n cm x)"
proof -
  let ?F = "\<lambda>cm x. on_slice n cm (f cm) x"
  let ?G = "\<lambda>x j. f (j div n) (slice n (j div n) x) ! (j mod n)"
  have res: "length y = length x \<and> y ! j = (if j div n < m then ?G x j else x ! j)"
    if "j < length x" for j
    unfolding y_def
  proof (rule nth_fold_blocks [where M = m and N = n])
    fix r k and z :: "u64 list" assume z: "length z = length x" and r: "r < m" and k: "k < length x"
    have b: "r * n + n \<le> length z" using slice_bound [OF r] z x by simp
    show "length (?F r z) = length x \<and> ?F r z ! k = (if k div n = r then ?G z k else z ! k)"
      using on_slice_nth [OF b, of "f r" k] f [OF r length_slice [OF b]] z k n by auto
  next
    fix z z' :: "u64 list" and k
    assume z: "length z = length x" "length z' = length x" and k: "k < length x" "k div n < m"
      and eq: "\<And>c. c < length x \<Longrightarrow> c div n = k div n \<Longrightarrow> z ! c = z' ! c"
    have b: "k div n * n + n \<le> length x" using slice_bound [OF k(2)] x by simp
    have "slice n (k div n) z = slice n (k div n) z'"
    proof (rule nth_equalityI)
      fix i assume "i < length (slice n (k div n) z)"
      then have i: "i < n" using length_slice b z by simp
      have "z ! (k div n * n + i) = z' ! (k div n * n + i)"
        by (rule eq) (use i b n in simp_all)
      then show "slice n (k div n) z ! i = slice n (k div n) z' ! i"
        using i b z by (simp add: nth_slice)
    qed (use b z length_slice in simp)
    then show "?G z k = ?G z' k" by simp
  qed (use that in simp_all)
  show len: "length y = length x"
    using res [of 0] x n unfolding y_def by (cases "m = 0") simp_all
  assume cm: "cm < m"
  have b: "cm * n + n \<le> length x" using slice_bound [OF cm] x by simp
  have lf: "length (f cm (slice n cm x)) = n" by (rule f [OF cm length_slice [OF b]])
  show "slice n cm y = f cm (slice n cm x)"
  proof (rule nth_equalityI)
    show "length (slice n cm y) = length (f cm (slice n cm x))" using b len lf by (simp add: length_slice)
    fix i assume "i < length (slice n cm y)"
    then have i: "i < n" using b len by (simp add: length_slice)
    have "(cm * n + i) div n = cm" "(cm * n + i) mod n = i" using i by simp_all
    then show "slice n cm y ! i = f cm (slice n cm x) ! i"
      using res [of "cm * n + i"] i b cm len by (simp add: nth_slice)
  qed
qed

lemma slices_eqI:
  assumes "length x = m * n" "length y = m * n" "0 < n" "\<And>cm. cm < m \<Longrightarrow> slice n cm x = slice n cm y"
  shows "x = y"
proof (rule nth_equalityI)
  fix j assume j: "j < length x"
  then have cm: "j div n < m" using assms by (simp add: less_mult_imp_div_less)
  have b: "j div n * n + n \<le> m * n" using slice_bound [OF cm] by simp
  have "j mod n < n" using assms(3) by simp
  then have "slice n (j div n) x ! (j mod n) = x ! j" "slice n (j div n) y ! (j mod n) = y ! j"
    using b assms by (simp_all add: nth_slice)
  then show "x ! j = y ! j" using assms(4) [OF cm] by simp
qed (use assms in simp)

section \<open>The configured object\<close>

text \<open>The tables of modulus \<open>cm\<close>: a root \<open>phi\<close> with \<open>phi^n = -1\<close>, its inverse \<open>psi\<close>, and \<open>1/n\<close>.\<close>

definition slice_tables :: "NFLlib \<Rightarrow> nat \<Rightarrow> nat \<Rightarrow> int \<Rightarrow> int \<Rightarrow> int \<Rightarrow> bool" where
  "slice_tables nfl k cm phi psi ninv \<longleftrightarrow>
     (let p = moduli nfl ! cm in
      1 < unat p \<and> unat p < 2 ^ 61 \<and>
      modeq (ival p) (phi ^ (2 ^ k)) (- 1) \<and> modeq (ival p) (phi * psi) 1 \<and>
      modeq (ival p) (2 ^ k * ninv) 1 \<and>
      (\<forall>i < 2 ^ k. table_cell p (phi ^ i) (phis nfl ! cm ! i, shoupphis nfl ! cm ! i)) \<and>
      (\<forall>i < 2 ^ k. table_cell p (ninv * psi ^ i)
         (invpoly_times_invphis nfl ! cm ! i, shoupinvpoly_times_invphis nfl ! cm ! i)) \<and>
      tables_ok p (phi ^ 2) k (omegas nfl ! cm) (shoupomegas nfl ! cm) \<and>
      tables_ok p (psi ^ 2) k (invomegas nfl ! cm) (shoupinvomegas nfl ! cm))"

definition ntt_ready :: "NFLlib \<Rightarrow> nat \<Rightarrow> bool" where
  "ntt_ready nfl k \<longleftrightarrow> polyDegree nfl = 2 ^ k \<and> length (moduli nfl) = nbModuli nfl \<and>
     rev_table k (inv_indexes nfl) \<and>
     (\<forall>cm < nbModuli nfl. \<exists>phi psi ninv. slice_tables nfl k cm phi psi ninv)"

lemma nth_shoup_scale:
  assumes "n \<le> length x" "j < length x"
  shows "shoup_scale p ws ws' n x ! j = (if j < n then mulmodShoup (x ! j) (ws ! j) (ws' ! j) p else x ! j)"
  using nth_fold_upd [of 0 n x j "\<lambda>i v. mulmodShoup v (ws ! i) (ws' ! i) p"] assms
  by (simp add: shoup_scale_def)

lemma length_shoup_scale [simp]: "length (shoup_scale p ws ws' n x) = length x"
  unfolding shoup_scale_def by (rule length_fold_upd) simp

lemma mulmodShoup_cell:
  assumes "table_cell p v (w, w')" "unat p < 2 ^ 61"
  shows "unat (mulmodShoup x w w' p) < unat p" "modeq (ival p) (ival (mulmodShoup x w w' p)) (ival x * v)"
proof -
  have c: "unat w < unat p" "w' = shoup_quotient w p" "modeq (ival p) (ival w) v"
    using assms(1) by (simp_all add: table_cell_def)
  have p: "unat p < 2 ^ 63" "0 < unat p" using assms(2) c(1) by simp_all
  have u: "unat (mulmodShoup x w w' p) = (unat x * unat w) mod unat p"
    unfolding c(2) by (rule unat_mulmodShoup) (use c(1) p in simp_all)
  show "unat (mulmodShoup x w w' p) < unat p" using p by (simp add: u)
  have "modeq (ival p) (ival (mulmodShoup x w w' p)) (ival x * ival w)"
    using modeq_nat_mod [of "unat p" "unat x * unat w"] by (simp add: u)
  also have "modeq (ival p) (ival x * ival w) (ival x * v)" by (intro modeq_mult modeq_refl c(3))
  finally show "modeq (ival p) (ival (mulmodShoup x w w' p)) (ival x * v)" .
qed

section \<open>One slice, forwards and backwards\<close>

definition forward_slice :: "NFLlib \<Rightarrow> nat \<Rightarrow> u64 list \<Rightarrow> u64 list" where
  "forward_slice nfl cm s =
     ntt (shoup_scale (moduli nfl ! cm) (phis nfl ! cm) (shoupphis nfl ! cm) (polyDegree nfl) s)
       (omegas nfl ! cm) (shoupomegas nfl ! cm) (polyDegree nfl) (moduli nfl ! cm)"

definition backward_slice :: "NFLlib \<Rightarrow> nat \<Rightarrow> u64 list \<Rightarrow> u64 list" where
  "backward_slice nfl cm s =
     shoup_scale (moduli nfl ! cm) (invpoly_times_invphis nfl ! cm)
       (shoupinvpoly_times_invphis nfl ! cm) (polyDegree nfl)
       (inv_ntt s (invomegas nfl ! cm) (shoupinvomegas nfl ! cm) (polyDegree nfl)
         (invpolyDegree nfl ! cm) (moduli nfl ! cm) (inv_indexes nfl))"

lemma root_half: "modeq p (phi ^ (2 ^ k)) (- 1) \<Longrightarrow> 0 < k \<Longrightarrow> modeq p ((phi ^ 2) ^ (2 ^ (k - 1))) (- 1)"
  by (cases k) (simp_all add: power_mult [symmetric])

lemma forward_slice_values:
  assumes r: "ntt_ready nfl k" and tb: "slice_tables nfl k cm phi psi ninv" and s: "length s = 2 ^ k"
  defines "p \<equiv> moduli nfl ! cm"
  shows "length (forward_slice nfl cm s) = 2 ^ k" "lazy_poly p (2 ^ k) (forward_slice nfl cm s)"
    and "j < 2 ^ k \<Longrightarrow> modeq (ival p) (ival (forward_slice nfl cm s ! j))
      (eval_at (\<lambda>t. ival (s ! t)) phi (2 ^ k) (rev_bits k j))"
proof -
  let ?y = "shoup_scale p (phis nfl ! cm) (shoupphis nfl ! cm) (2 ^ k) s"
  have t: "unat p < 2 ^ 61" "modeq (ival p) (phi ^ (2 ^ k)) (- 1)"
    "\<And>i. i < 2 ^ k \<Longrightarrow> table_cell p (phi ^ i) (phis nfl ! cm ! i, shoupphis nfl ! cm ! i)"
    "tables_ok p (phi ^ 2) k (omegas nfl ! cm) (shoupomegas nfl ! cm)"
    using tb by (simp_all add: slice_tables_def Let_def p_def)
  have n: "polyDegree nfl = 2 ^ k" using r by (simp add: ntt_ready_def)
  have eq: "forward_slice nfl cm s = ntt ?y (omegas nfl ! cm) (shoupomegas nfl ! cm) (2 ^ k) p"
    by (simp add: forward_slice_def n p_def)
  show "length (forward_slice nfl cm s) = 2 ^ k" by (simp add: eq s)
  have y: "unat (?y ! i) < unat p" "modeq (ival p) (ival (?y ! i)) (ival (s ! i) * phi ^ i)"
    if "i < 2 ^ k" for i
    using mulmodShoup_cell [OF t(3) [OF that] t(1)] that s by (simp_all add: nth_shoup_scale)
  have "lazy p (?y ! i)" if "i < 2 ^ k" for i using y(1) [OF that] by (simp add: lazy_def)
  then have ly: "lazy_poly p (2 ^ k) ?y" by (simp add: lazy_poly_def s)
  note d = ntt_dft [OF t(1) ly t(4) root_half [OF t(2)]]
  show "lazy_poly p (2 ^ k) (forward_slice nfl cm s)" unfolding eq by (rule d(1))
  assume j: "j < 2 ^ k"
  have "modeq (ival p) (ival (forward_slice nfl cm s ! j))
      (dft (\<lambda>t. ival (?y ! t)) (phi ^ 2) (2 ^ k) (rev_bits k j))"
    unfolding eq by (rule d(2) [OF _ j])
  also have "modeq (ival p) \<dots> (eval_at (\<lambda>t. ival (s ! t)) phi (2 ^ k) (rev_bits k j))"
    by (rule dft_eval_at) (rule y(2))
  finally show "modeq (ival p) (ival (forward_slice nfl cm s ! j))
      (eval_at (\<lambda>t. ival (s ! t)) phi (2 ^ k) (rev_bits k j))" .
qed

lemma backward_slice_values:
  assumes r: "ntt_ready nfl k" and tb: "slice_tables nfl k cm phi psi ninv" and s: "length s = 2 ^ k"
  defines "p \<equiv> moduli nfl ! cm"
  assumes lz: "lazy_poly p (2 ^ k) s"
    and v: "\<And>j. j < 2 ^ k \<Longrightarrow> modeq (ival p) (ival (s ! j)) (eval_at c phi (2 ^ k) (rev_bits k j))"
  shows "length (backward_slice nfl cm s) = 2 ^ k"
    and "i < 2 ^ k \<Longrightarrow> ival (backward_slice nfl cm s ! i) = c i mod ival p"
proof -
  let ?y = "inv_ntt s (invomegas nfl ! cm) (shoupinvomegas nfl ! cm) (2 ^ k)
         (invpolyDegree nfl ! cm) p (inv_indexes nfl)"
  have t: "unat p < 2 ^ 61" "modeq (ival p) (phi ^ (2 ^ k)) (- 1)" "modeq (ival p) (phi * psi) 1"
    "modeq (ival p) (2 ^ k * ninv) 1"
    "\<And>i. i < 2 ^ k \<Longrightarrow> table_cell p (ninv * psi ^ i)
         (invpoly_times_invphis nfl ! cm ! i, shoupinvpoly_times_invphis nfl ! cm ! i)"
    "tables_ok p (psi ^ 2) k (invomegas nfl ! cm) (shoupinvomegas nfl ! cm)"
    using tb by (simp_all add: slice_tables_def Let_def p_def)
  have n: "polyDegree nfl = 2 ^ k" and rt: "rev_table k (inv_indexes nfl)"
    using r by (simp_all add: ntt_ready_def)
  have eq: "backward_slice nfl cm s = shoup_scale p (invpoly_times_invphis nfl ! cm)
      (shoupinvpoly_times_invphis nfl ! cm) (2 ^ k) ?y"
    by (simp add: backward_slice_def n p_def)
  have ly: "length ?y = 2 ^ k" by (simp add: inv_ntt_def Let_def s)
  then show "length (backward_slice nfl cm s) = 2 ^ k" by (simp add: eq)
  have half: "0 < k \<Longrightarrow> modeq (ival p) ((psi ^ 2) ^ (2 ^ (k - 1))) (- 1)"
    using root_half [OF inverse_root [OF t(3,2)]] .
  assume i: "i < 2 ^ k"
  have yi: "modeq (ival p) (ival (?y ! i)) (dft (\<lambda>t. ival (s ! rev_bits k t)) (psi ^ 2) (2 ^ k) i)"
    by (rule inv_ntt_dft(2) [OF t(1) lz t(6) rt _ i]) (erule half)
  have b: "backward_slice nfl cm s ! i = mulmodShoup (?y ! i) (invpoly_times_invphis nfl ! cm ! i)
      (shoupinvpoly_times_invphis nfl ! cm ! i) p"
    using i ly by (simp add: eq nth_shoup_scale)
  note m = mulmodShoup_cell [OF t(5) [OF i] t(1), of "?y ! i"]
  have "modeq (ival p) (ival (backward_slice nfl cm s ! i)) (ival (?y ! i) * (ninv * psi ^ i))"
    unfolding b by (rule m(2))
  also have "modeq (ival p) \<dots> (dft (\<lambda>t. ival (s ! rev_bits k t)) (psi ^ 2) (2 ^ k) i * (ninv * psi ^ i))"
    by (intro modeq_mult modeq_refl yi)
  also have "dft (\<lambda>t. ival (s ! rev_bits k t)) (psi ^ 2) (2 ^ k) i * (ninv * psi ^ i) =
      ninv * (dft (\<lambda>t. ival (s ! rev_bits k t)) (psi ^ 2) (2 ^ k) i * psi ^ i)" by simp
  also have "modeq (ival p) \<dots> (ninv * (2 ^ k * c i))"
  proof (rule modeq_mult [OF modeq_refl interpolation [OF t(2,3) i]])
    fix j :: nat assume "j < 2 ^ k"
    then show "modeq (ival p) (ival (s ! rev_bits k j)) (eval_at c phi (2 ^ k) j)"
      using v [of "rev_bits k j"] by (simp add: rev_bits_involution)
  qed
  also have "ninv * (2 ^ k * c i) = 2 ^ k * ninv * c i" by simp
  also have "modeq (ival p) (2 ^ k * ninv * c i) (1 * c i)" by (intro modeq_mult modeq_refl t(4))
  finally have "ival (backward_slice nfl cm s ! i) mod ival p = c i mod ival p"
    by (simp add: modeq_def)
  moreover have "ival (backward_slice nfl cm s ! i) < ival p" unfolding b using m(1) by simp
  ultimately show "ival (backward_slice nfl cm s ! i) = c i mod ival p" by simp
qed

section \<open>Whole polynomials\<close>

lemma nttAndPowPhi_slices:
  assumes r: "ntt_ready nfl k" and x: "length x = nbModuli nfl * 2 ^ k"
  shows "length (nttAndPowPhi nfl x) = nbModuli nfl * 2 ^ k"
    and "cm < nbModuli nfl \<Longrightarrow>
      slice (2 ^ k) cm (nttAndPowPhi nfl x) = forward_slice nfl cm (slice (2 ^ k) cm x)"
proof -
  have n: "polyDegree nfl = 2 ^ k" using r by (simp add: ntt_ready_def)
  have eq: "nttAndPowPhi nfl x = fold (\<lambda>cm x. on_slice (2 ^ k) cm (forward_slice nfl cm) x) [0..<nbModuli nfl] x"
    by (simp add: nttAndPowPhi_def forward_slice_def [abs_def] n)
  have lf: "length (forward_slice nfl cm s) = length s" for cm s by (simp add: forward_slice_def)
  note fs = fold_slices [where f = "forward_slice nfl" and n = "2 ^ k" and m = "nbModuli nfl" and x = x]
  show "length (nttAndPowPhi nfl x) = nbModuli nfl * 2 ^ k"
    using fs(1) x unfolding eq by (simp add: lf)
  show "cm < nbModuli nfl \<Longrightarrow>
      slice (2 ^ k) cm (nttAndPowPhi nfl x) = forward_slice nfl cm (slice (2 ^ k) cm x)"
    using fs(2) x unfolding eq by (simp add: lf)
qed

lemma length_inv_ntt [simp]: "length (inv_ntt x wtab winvtab K invK p indexes) = length x"
  by (simp add: inv_ntt_def Let_def)

lemma invnttAndPowInvPhi_slices:
  assumes r: "ntt_ready nfl k" and x: "length x = nbModuli nfl * 2 ^ k"
  shows "length (invnttAndPowInvPhi nfl x) = nbModuli nfl * 2 ^ k"
    and "cm < nbModuli nfl \<Longrightarrow>
      slice (2 ^ k) cm (invnttAndPowInvPhi nfl x) = backward_slice nfl cm (slice (2 ^ k) cm x)"
proof -
  have n: "polyDegree nfl = 2 ^ k" using r by (simp add: ntt_ready_def)
  have eq: "invnttAndPowInvPhi nfl x = fold (\<lambda>cm x. on_slice (2 ^ k) cm (backward_slice nfl cm) x) [0..<nbModuli nfl] x"
    by (simp add: invnttAndPowInvPhi_def backward_slice_def [abs_def] n)
  have lf: "length (backward_slice nfl cm s) = length s" for cm s by (simp add: backward_slice_def)
  note fs = fold_slices [where f = "backward_slice nfl" and n = "2 ^ k" and m = "nbModuli nfl" and x = x]
  show "length (invnttAndPowInvPhi nfl x) = nbModuli nfl * 2 ^ k"
    using fs(1) x unfolding eq by (simp add: lf)
  show "cm < nbModuli nfl \<Longrightarrow>
      slice (2 ^ k) cm (invnttAndPowInvPhi nfl x) = backward_slice nfl cm (slice (2 ^ k) cm x)"
    using fs(2) x unfolding eq by (simp add: lf)
qed

text \<open>The invariant of transformed polynomials: every slice holds lazily reduced values.\<close>

definition ntt_form :: "NFLlib \<Rightarrow> u64 list \<Rightarrow> bool" where
  "ntt_form nfl x \<longleftrightarrow> length x = nbModuli nfl * polyDegree nfl \<and>
     (\<forall>j < length x. lazy (moduli nfl ! (j div polyDegree nfl)) (x ! j))"

text \<open>Coefficient \<open>i\<close> modulo modulus \<open>cm\<close>, and the value of a transformed cell.\<close>

definition coeff :: "NFLlib \<Rightarrow> u64 list \<Rightarrow> nat \<Rightarrow> nat \<Rightarrow> int" where
  "coeff nfl x cm i = ival (x ! (cm * polyDegree nfl + i))"

definition represents :: "NFLlib \<Rightarrow> nat \<Rightarrow> u64 list \<Rightarrow> (nat \<Rightarrow> nat \<Rightarrow> int) \<Rightarrow> bool" where
  "represents nfl k x c \<longleftrightarrow>
     ntt_form nfl x \<and>
     (\<forall>cm < nbModuli nfl. \<forall>phi psi ninv. slice_tables nfl k cm phi psi ninv \<longrightarrow>
       (\<forall>j < 2 ^ k. modeq (ival (moduli nfl ! cm)) (coeff nfl x cm j)
          (eval_at (c cm) phi (2 ^ k) (rev_bits k j))))"

lemma represents_ntt:
  assumes r: "ntt_ready nfl k" and x: "length x = nbModuli nfl * 2 ^ k"
  shows "represents nfl k (nttAndPowPhi nfl x) (coeff nfl x)"
proof -
  have n: "polyDegree nfl = 2 ^ k" using r by (simp add: ntt_ready_def)
  let ?y = "nttAndPowPhi nfl x"
  note y = nttAndPowPhi_slices [OF r x]
  have b: "cm * 2 ^ k + 2 ^ k \<le> length x" if "cm < nbModuli nfl" for cm
    using slice_bound [OF that] x by simp
  have cell: "?y ! (cm * 2 ^ k + j) = forward_slice nfl cm (slice (2 ^ k) cm x) ! j"
    if "cm < nbModuli nfl" "j < 2 ^ k" for cm j
    using y that b [OF that(1)] x by (simp add: nth_slice flip: y(2))
  have form: "ntt_form nfl ?y"
    unfolding ntt_form_def n
  proof (intro conjI allI impI)
    show "length ?y = nbModuli nfl * 2 ^ k" by (rule y)
    fix j assume "j < length ?y"
    then have cm: "j div 2 ^ k < nbModuli nfl" using y by (simp add: less_mult_imp_div_less)
    then obtain phi psi ninv where tb: "slice_tables nfl k (j div 2 ^ k) phi psi ninv"
      using r unfolding ntt_ready_def by blast
    have s: "length (slice (2 ^ k) (j div 2 ^ k) x) = 2 ^ k" using b [OF cm] by (rule length_slice)
    have m: "j mod 2 ^ k < 2 ^ k" by simp
    have "lazy (moduli nfl ! (j div 2 ^ k)) (?y ! (j div 2 ^ k * 2 ^ k + j mod 2 ^ k))"
      unfolding cell [OF cm m] using forward_slice_values(2) [OF r tb s] m
      unfolding lazy_poly_def by blast
    then show "lazy (moduli nfl ! (j div 2 ^ k)) (?y ! j)" by (simp only: div_mult_mod_eq)
  qed
  show ?thesis
    unfolding represents_def
  proof (intro conjI allI impI)
    show "ntt_form nfl ?y" by (rule form)
    fix cm phi psi ninv and j :: nat
    assume cm: "cm < nbModuli nfl" and tb: "slice_tables nfl k cm phi psi ninv" and j: "j < 2 ^ k"
    have s: "length (slice (2 ^ k) cm x) = 2 ^ k" using b [OF cm] by (rule length_slice)
    have "modeq (ival (moduli nfl ! cm)) (coeff nfl ?y cm j)
        (eval_at (\<lambda>t. ival (slice (2 ^ k) cm x ! t)) phi (2 ^ k) (rev_bits k j))"
      unfolding coeff_def n cell [OF cm j] by (rule forward_slice_values(3) [OF r tb s j])
    moreover have "eval_at (\<lambda>t. ival (slice (2 ^ k) cm x ! t)) phi (2 ^ k) i = eval_at (coeff nfl x cm) phi (2 ^ k) i" for i
      unfolding eval_at_def using b [OF cm] by (intro sum.cong) (simp_all add: nth_slice coeff_def n)
    ultimately show "modeq (ival (moduli nfl ! cm)) (coeff nfl ?y cm j)
          (eval_at (coeff nfl x cm) phi (2 ^ k) (rev_bits k j))" by simp
  qed
qed

text \<open>The inverse transform returns the reduced coefficients of the polynomial represented.\<close>

lemma invntt_represents:
  assumes r: "ntt_ready nfl k" and rep: "represents nfl k x c" and cm: "cm < nbModuli nfl" and i: "i < 2 ^ k"
  shows "coeff nfl (invnttAndPowInvPhi nfl x) cm i = c cm i mod ival (moduli nfl ! cm)"
proof -
  have n: "polyDegree nfl = 2 ^ k" using r by (simp add: ntt_ready_def)
  have x: "length x = nbModuli nfl * 2 ^ k" using rep by (simp add: represents_def ntt_form_def n)
  have b: "cm * 2 ^ k + 2 ^ k \<le> length x" using slice_bound [OF cm] x by simp
  obtain phi psi ninv where tb: "slice_tables nfl k cm phi psi ninv"
    using r cm unfolding ntt_ready_def by blast
  have s: "length (slice (2 ^ k) cm x) = 2 ^ k" by (rule length_slice) (rule b)
  have lz: "lazy_poly (moduli nfl ! cm) (2 ^ k) (slice (2 ^ k) cm x)"
    unfolding lazy_poly_def
  proof (intro conjI allI impI)
    fix j :: nat assume j: "j < 2 ^ k"
    have jx: "cm * 2 ^ k + j < length x" "(cm * 2 ^ k + j) div 2 ^ k = cm" using b j by simp_all
    have "\<forall>j < length x. lazy (moduli nfl ! (j div 2 ^ k)) (x ! j)"
      using rep by (simp add: represents_def ntt_form_def n)
    from this [rule_format, OF jx(1)] show "lazy (moduli nfl ! cm) (slice (2 ^ k) cm x ! j)"
      using b j by (simp add: jx(2) nth_slice)
  qed (simp add: s)
  have "ival (backward_slice nfl cm (slice (2 ^ k) cm x) ! i) = c cm i mod ival (moduli nfl ! cm)"
  proof (rule backward_slice_values(2) [OF r tb s lz _ i])
    fix j :: nat assume j: "j < 2 ^ k"
    then show "modeq (ival (moduli nfl ! cm)) (ival (slice (2 ^ k) cm x ! j)) (eval_at (c cm) phi (2 ^ k) (rev_bits k j))"
      using rep cm tb b by (auto simp: represents_def nth_slice coeff_def n)
  qed
  moreover have "invnttAndPowInvPhi nfl x ! (cm * 2 ^ k + i) = backward_slice nfl cm (slice (2 ^ k) cm x) ! i"
    using invnttAndPowInvPhi_slices [OF r x] cm b i x by (simp add: nth_slice flip: invnttAndPowInvPhi_slices(2) [OF r x])
  ultimately show ?thesis by (simp add: coeff_def n)
qed

section \<open>Round trip and products\<close>

lemma ntt_form_lazy: "lazy p x \<Longrightarrow> unat x < 2 * unat p"
  by (simp add: lazy_def)

lemma reduced_ntt_form: "reduced nfl x \<Longrightarrow> ntt_form nfl x"
  unfolding reduced_def ntt_form_def lazy_def by (auto intro: less_le_trans)

lemma coeff_split:
  assumes "j < nbModuli nfl * polyDegree nfl"
  shows "ival (x ! j) = coeff nfl x (j div polyDegree nfl) (j mod polyDegree nfl)"
    and "j div polyDegree nfl < nbModuli nfl" and "j mod polyDegree nfl < polyDegree nfl"
proof -
  have "polyDegree nfl \<noteq> 0" using assms by (intro notI) simp
  then show "j mod polyDegree nfl < polyDegree nfl" by simp
  show "ival (x ! j) = coeff nfl x (j div polyDegree nfl) (j mod polyDegree nfl)"
    by (simp add: coeff_def)
  show "j div polyDegree nfl < nbModuli nfl" using assms by (simp add: less_mult_imp_div_less)
qed

lemma ntt_readyD:
  assumes "ntt_ready nfl k"
  shows "polyDegree nfl = 2 ^ k" "length (moduli nfl) = nbModuli nfl"
    and "cm < nbModuli nfl \<Longrightarrow> 1 < unat (moduli nfl ! cm) \<and> unat (moduli nfl ! cm) < 2 ^ 61"
proof -
  show "polyDegree nfl = 2 ^ k" "length (moduli nfl) = nbModuli nfl"
    using assms by (simp_all add: ntt_ready_def)
  assume "cm < nbModuli nfl"
  then obtain phi psi ninv where "slice_tables nfl k cm phi psi ninv"
    using assms unfolding ntt_ready_def by blast
  then show "1 < unat (moduli nfl ! cm) \<and> unat (moduli nfl ! cm) < 2 ^ 61"
    by (simp add: slice_tables_def Let_def)
qed

lemma ntt_ready_moduli_ok:
  assumes "ntt_ready nfl k"
  shows "moduli_ok nfl"
  unfolding moduli_ok_def
proof (intro conjI ballI)
  fix p assume "p \<in> set (moduli nfl)"
  then obtain i where "i < nbModuli nfl" "p = moduli nfl ! i"
    using ntt_readyD(2) [OF assms] by (auto simp: in_set_conv_nth)
  then show "0 < unat p" "unat p < 2 ^ 61" using ntt_readyD(3) [OF assms, of i] by simp_all
qed (rule ntt_readyD(2) [OF assms])

lemma ntt_round_trip:
  assumes r: "ntt_ready nfl k" and x: "reduced nfl x"
  shows "invnttAndPowInvPhi nfl (nttAndPowPhi nfl x) = x"
proof (rule nth_equalityI)
  have n: "polyDegree nfl = 2 ^ k" using r by (simp add: ntt_ready_def)
  have lx: "length x = nbModuli nfl * 2 ^ k" using x by (simp add: reduced_def n)
  have rep: "represents nfl k (nttAndPowPhi nfl x) (coeff nfl x)" by (rule represents_ntt [OF r lx])
  show len: "length (invnttAndPowInvPhi nfl (nttAndPowPhi nfl x)) = length x"
    using lx nttAndPowPhi_slices(1) [OF r lx] invnttAndPowInvPhi_slices(1) [OF r] by simp
  fix j assume "j < length (invnttAndPowInvPhi nfl (nttAndPowPhi nfl x))"
  then have j: "j < nbModuli nfl * polyDegree nfl" using len lx n by simp
  note c = coeff_split [OF j]
  have "ival (invnttAndPowInvPhi nfl (nttAndPowPhi nfl x) ! j) =
      coeff nfl x (j div polyDegree nfl) (j mod polyDegree nfl) mod ival (moduli nfl ! (j div polyDegree nfl))"
    unfolding c(1) by (rule invntt_represents [OF r rep c(2)]) (use c(3) n in simp)
  also have "\<dots> = ival (x ! j)"
    using reducedD [OF x j] by (simp flip: c(1))
  finally show "invnttAndPowInvPhi nfl (nttAndPowPhi nfl x) ! j = x ! j"
    by (simp add: word_unat_eq_iff)
qed

text \<open>Coefficient-wise operations on transformed polynomials, through \<open>represents\<close>.\<close>

lemma represents_loop:
  assumes r: "ntt_ready nfl k" and rop: "length rop = nbModuli nfl * 2 ^ k"
    and lz: "\<And>j. j < length rop \<Longrightarrow>
      lazy (moduli nfl ! (j div 2 ^ k)) (g (moduli nfl ! (j div 2 ^ k)) j (rop ! j))"
    and v: "\<And>cm j phi. cm < nbModuli nfl \<Longrightarrow> j < 2 ^ k \<Longrightarrow>
      modeq (ival (moduli nfl ! cm)) (phi ^ (2 ^ k)) (- 1) \<Longrightarrow> (\<exists>psi ninv. slice_tables nfl k cm phi psi ninv) \<Longrightarrow>
      modeq (ival (moduli nfl ! cm)) (ival (g (moduli nfl ! cm) (cm * 2 ^ k + j) (rop ! (cm * 2 ^ k + j))))
        (eval_at (c cm) phi (2 ^ k) (rev_bits k j))"
  shows "represents nfl k (poly_loop nfl g rop) c"
proof -
  have n: "polyDegree nfl = 2 ^ k" using r by (simp add: ntt_ready_def)
  have nth: "poly_loop nfl g rop ! j = g (moduli nfl ! (j div 2 ^ k)) j (rop ! j)" if "j < length rop" for j
    using nth_poly_loop [of nfl rop j g] that rop n by simp
  show ?thesis
    unfolding represents_def ntt_form_def coeff_def n
  proof (intro conjI allI impI)
    show "length (poly_loop nfl g rop) = nbModuli nfl * 2 ^ k" by (simp add: rop)
    fix j assume "j < length (poly_loop nfl g rop)"
    then have "j < length rop" by simp
    then show "lazy (moduli nfl ! (j div 2 ^ k)) (poly_loop nfl g rop ! j)"
      using lz nth by simp
  next
    fix cm phi psi ninv and j :: nat
    assume cm: "cm < nbModuli nfl" and tb: "slice_tables nfl k cm phi psi ninv" and j: "j < 2 ^ k"
    have "cm * 2 ^ k + 2 ^ k \<le> length rop" using slice_bound [OF cm] rop by simp
    then have jl: "cm * 2 ^ k + j < length rop" and d: "(cm * 2 ^ k + j) div 2 ^ k = cm" using j by simp_all
    have "modeq (ival (moduli nfl ! cm)) (phi ^ (2 ^ k)) (- 1)"
      using tb by (simp add: slice_tables_def Let_def)
    from v [OF cm j this] tb
    show "modeq (ival (moduli nfl ! cm)) (ival (poly_loop nfl g rop ! (cm * 2 ^ k + j)))
        (eval_at (c cm) phi (2 ^ k) (rev_bits k j))"
      unfolding nth [OF jl] d by blast
  qed
qed

lemma represents_modeq:
  assumes "represents nfl k x c" "\<And>cm i. cm < nbModuli nfl \<Longrightarrow> i < 2 ^ k \<Longrightarrow> modeq (ival (moduli nfl ! cm)) (c cm i) (c' cm i)"
  shows "represents nfl k x c'"
  unfolding represents_def
proof (intro conjI allI impI)
  show "ntt_form nfl x" using assms(1) by (simp add: represents_def)
  fix cm phi psi ninv and j :: nat
  assume a: "cm < nbModuli nfl" "slice_tables nfl k cm phi psi ninv" "j < 2 ^ k"
  have "modeq (ival (moduli nfl ! cm)) (coeff nfl x cm j) (eval_at (c cm) phi (2 ^ k) (rev_bits k j))"
    using assms(1) a unfolding represents_def by blast
  then show "modeq (ival (moduli nfl ! cm)) (coeff nfl x cm j) (eval_at (c' cm) phi (2 ^ k) (rev_bits k j))"
    by (rule modeq_trans) (rule eval_at_modeq, rule assms(2) [OF a(1)])
qed

lemma representsD:
  assumes "represents nfl k x c" "slice_tables nfl k cm phi psi ninv" "polyDegree nfl = 2 ^ k"
    "cm < nbModuli nfl" "j < 2 ^ k"
  shows "modeq (ival (moduli nfl ! cm)) (ival (x ! (cm * 2 ^ k + j)))
    (eval_at (c cm) phi (2 ^ k) (rev_bits k j))"
  using assms unfolding represents_def coeff_def by metis

lemma eval_at_add: "eval_at (\<lambda>i. a i + b i) phi n j = eval_at a phi n j + eval_at b phi n j"
  by (simp add: eval_at_def sum.distrib algebra_simps)

lemma mulmod_lazy: "0 < unat p \<Longrightarrow> lazy p (mulmod a b p)"
  using mod_less_divisor [of "unat p" "unat a * unat b"] by (simp add: lazy_def unat_mulmod del: mod_less_divisor)

lemma mulmod_modeq: "0 < unat p \<Longrightarrow> modeq (ival p) (ival (mulmod a b p)) (ival a * ival b)"
  using modeq_nat_mod [of "unat p" "unat a * unat b"] by (simp add: unat_mulmod)

theorem mulmodPolyNTT_represents:
  assumes r: "ntt_ready nfl k" and a: "represents nfl k a ca" and b: "represents nfl k b cb"
    and rop: "length rop = nbModuli nfl * 2 ^ k"
  shows "represents nfl k (mulmodPolyNTT nfl rop a b) (\<lambda>cm. negacyclic (ca cm) (cb cm) (2 ^ k))"
  unfolding mulmodPolyNTT_def
proof (rule represents_loop [OF r rop])
  have n: "polyDegree nfl = 2 ^ k" using r by (simp add: ntt_ready_def)
  fix j assume "j < length rop"
  then have "j div 2 ^ k < nbModuli nfl" using rop by (simp add: less_mult_imp_div_less)
  from ntt_readyD(3) [OF r this]
  show "lazy (moduli nfl ! (j div 2 ^ k)) (mulmod (a ! j) (b ! j) (moduli nfl ! (j div 2 ^ k)))"
    by (intro mulmod_lazy) simp
next
  have n: "polyDegree nfl = 2 ^ k" using r by (simp add: ntt_ready_def)
  fix cm and j :: nat and phi
  let ?j = "cm * 2 ^ k + j" and ?p = "moduli nfl ! cm"
  assume cm: "cm < nbModuli nfl" and j: "j < 2 ^ k"
    and phi: "modeq (ival ?p) (phi ^ (2 ^ k)) (- 1)" and ex: "\<exists>psi ninv. slice_tables nfl k cm phi psi ninv"
  obtain psi ninv where tb: "slice_tables nfl k cm phi psi ninv" using ex by blast
  have "modeq (ival ?p) (ival (mulmod (a ! ?j) (b ! ?j) ?p)) (ival (a ! ?j) * ival (b ! ?j))"
    using ntt_readyD(3) [OF r cm] by (intro mulmod_modeq) simp
  also have "modeq (ival ?p) \<dots>
      (eval_at (ca cm) phi (2 ^ k) (rev_bits k j) * eval_at (cb cm) phi (2 ^ k) (rev_bits k j))"
    by (intro modeq_mult representsD [OF a tb n cm j] representsD [OF b tb n cm j])
  also have "modeq (ival ?p) \<dots> (eval_at (negacyclic (ca cm) (cb cm) (2 ^ k)) phi (2 ^ k) (rev_bits k j))"
    by (rule modeq_sym) (rule negacyclic_eval_at [OF phi])
  finally show "modeq (ival ?p) (ival (mulmod (a ! ?j) (b ! ?j) ?p))
      (eval_at (negacyclic (ca cm) (cb cm) (2 ^ k)) phi (2 ^ k) (rev_bits k j))" .
qed

text \<open>A product computed in transformed form, end to end.\<close>

lemma polynomial_product:
  assumes r: "ntt_ready nfl k" and a: "length a = nbModuli nfl * 2 ^ k" and b: "length b = nbModuli nfl * 2 ^ k"
    and rop: "length rop = nbModuli nfl * 2 ^ k" and cm: "cm < nbModuli nfl" and i: "i < 2 ^ k"
  shows "coeff nfl (invnttAndPowInvPhi nfl
      (mulmodPolyNTT nfl rop (nttAndPowPhi nfl a) (nttAndPowPhi nfl b))) cm i =
    negacyclic (coeff nfl a cm) (coeff nfl b cm) (2 ^ k) i mod ival (moduli nfl ! cm)"
  by (rule invntt_represents [OF r mulmodPolyNTT_represents [OF r represents_ntt [OF r a]
        represents_ntt [OF r b] rop] cm i])

section \<open>configureNTT\<close>

lemma square_iter_modeq:
  assumes "0 < unat p"
  shows "modeq (ival p) (ival (square_iter n x p)) (ival x ^ (2 ^ n))"
proof (induction n arbitrary: x)
  case (Suc n)
  have "modeq (ival p) (ival (mulmod x x p) ^ (2 ^ n)) ((ival x * ival x) ^ (2 ^ n))"
    by (intro modeq_power mulmod_modeq assms)
  from modeq_trans [OF Suc [of "mulmod x x p"] this] show ?case
    by (simp add: power_mult power2_eq_square)
qed simp

lemma mulmod_iter_modeq:
  assumes "0 < unat p"
  shows "modeq (ival p) (ival (mulmod_iter n x w p)) (ival x * ival w ^ n)"
proof (induction n arbitrary: x)
  case (Suc n)
  have "modeq (ival p) (ival (mulmod x w p) * ival w ^ n) (ival x * ival w * ival w ^ n)"
    by (intro modeq_mult modeq_refl mulmod_modeq assms)
  from modeq_trans [OF Suc [of "mulmod x w p"] this] show ?case by (simp add: mult.assoc)
qed simp

lemma constants_nth:
  assumes "cm < 17"
  shows "1 < unat (P64 ! cm)" "unat (P64 ! cm) < 2 ^ 61"
    "modeq (ival (P64 ! cm)) (ival (primitive_roots ! cm) ^ (2 ^ 13)) (- 1)"
    "modeq (ival (P64 ! cm)) (8192 * ival (invkMaxPolyDegree ! cm)) 1"
proof -
  let ?p = "P64 ! cm" and ?r = "primitive_roots ! cm" and ?v = "invkMaxPolyDegree ! cm"
  let ?z = "zip P64 (zip primitive_roots (zip invkMaxPolyDegree root_quotients))"
  have len: "length P64 = 17" "length primitive_roots = 17" "length invkMaxPolyDegree = 17"
    "length root_quotients = 17"
    by (simp_all add: P64_def primitive_roots_def invkMaxPolyDegree_def root_quotients_def)
  have "(\<lambda>(p, r, v, qs). constants_ok p r v qs) (?z ! cm)"
    using constants_checked assms len by (simp add: list_all_length)
  moreover have "?z ! cm = (?p, ?r, ?v, root_quotients ! cm)" using assms len by simp
  ultimately have ok: "constants_ok ?p ?r ?v (root_quotients ! cm)" by simp
  then show "1 < unat ?p" "unat ?p < 2 ^ 61" by (simp_all add: constants_ok_def)
  have "modeq (ival ?p) (square_chain (ival ?p) (ival ?r) (root_quotients ! cm)) (ival ?r ^ (2 ^ 13))"
    using square_chain_modeq [of "ival ?p" "ival ?r" "root_quotients ! cm"] ok
    by (simp only: constants_ok_def)
  then have A: "modeq (ival ?p) (ival ?p - 1) (ival ?r ^ (2 ^ 13))" using ok by (simp add: constants_ok_def)
  have "modeq (ival ?p) (ival ?p - 1) (0 - 1)" by (intro modeq_diff modeq_refl) (simp add: modeq_def)
  from modeq_trans [OF modeq_sym [OF A] this]
  show "modeq (ival ?p) (ival ?r ^ (2 ^ 13)) (- 1)" by (simp only: diff_0)
  have "8192 * ival ?v = 8191 * ival ?p + 1" using ok by (simp add: constants_ok_def mult.commute)
  moreover have "modeq (ival ?p) (8191 * ival ?p + 1) (0 + 1)" by (intro modeq_add modeq_refl) simp
  ultimately show "modeq (ival ?p) (8192 * ival ?v) 1" by simp
qed

lemma rev_index_loop_eq:
  "rev_index_loop (2 ^ (w + m)) (2 ^ w) ii r = r * 2 ^ m + rev_bits m ii"
proof (induction m arbitrary: w ii r)
  case 0
  show ?case by (simp add: rev_index_loop.simps [of "2 ^ w"])
next
  case (Suc m)
  have "(2 :: nat) ^ w < 2 ^ (w + Suc m)" by (rule power_strict_increasing) simp_all
  then have "rev_index_loop (2 ^ (w + Suc m)) (2 ^ w) ii r =
      rev_index_loop (2 ^ (Suc w + m)) (2 ^ Suc w) (ii div 2) (r * 2 + ii mod 2)"
    by (subst rev_index_loop.simps) (simp add: mult.commute)
  also have "\<dots> = (r * 2 + ii mod 2) * 2 ^ m + rev_bits m (ii div 2)" by (rule Suc)
  finally show ?case by (simp add: algebra_simps)
qed

lemma rev_table_configured: "rev_table k (invert_permutation (2 ^ k) (inv_indexes_tmp (2 ^ k)))"
  unfolding rev_table_def
proof (intro allI impI)
  fix i :: nat assume i: "i < 2 ^ k"
  have tmp: "inv_indexes_tmp (2 ^ k) ! j = rev_bits k j" if "j < 2 ^ k" for j
    using that rev_index_loop_eq [of 0 k j 0] by (simp add: inv_indexes_tmp_def)
  let ?f = "List.find (\<lambda>j. inv_indexes_tmp (2 ^ k) ! j = i) [0..<2 ^ k]"
  have "?f = Some (rev_bits k i)"
  proof (cases ?f)
    case None
    then have "inv_indexes_tmp (2 ^ k) ! rev_bits k i \<noteq> i" by (simp add: find_None_iff)
    then show ?thesis using i by (simp add: tmp rev_bits_involution)
  next
    case (Some j)
    then have "j < 2 ^ k" "inv_indexes_tmp (2 ^ k) ! j = i" by (auto simp: find_Some_iff)
    then have "rev_bits k j = i" "j < 2 ^ k" by (simp_all add: tmp)
    then have "j = rev_bits k i" using rev_bits_involution by metis
    then show ?thesis using Some by simp
  qed
  then show "invert_permutation (2 ^ k) (inv_indexes_tmp (2 ^ k)) ! i = rev_bits k i"
    using i by (simp add: invert_permutation_def)
qed

lemma mulmod_less: "0 < unat p \<Longrightarrow> unat (mulmod a b p) < unat p"
  by (simp add: unat_mulmod)

text \<open>The numbers computed for one modulus.\<close>

lemma modulus_numbers:
  assumes cm: "cm < 17" and k: "k \<le> 13"
  defines "p \<equiv> P64 ! cm"
  defines "phi \<equiv> ntt_phi p (primitive_roots ! cm) (2 ^ k)"
  defines "psi \<equiv> ntt_invphi p phi (2 ^ k)"
  defines "nv \<equiv> ntt_invdegree p (invkMaxPolyDegree ! cm) (2 ^ k)"
  shows "modeq (ival p) (ival phi ^ (2 ^ k)) (- 1)" "modeq (ival p) (ival phi * ival psi) 1"
    "modeq (ival p) (2 ^ k * ival nv) 1" "unat nv < unat p"
proof -
  note c = constants_nth [OF cm, folded p_def]
  have p: "0 < unat p" using c(1) by simp
  have "modeq (ival p) (ival phi) (ival (primitive_roots ! cm) ^ (2 ^ (13 - k)))"
    unfolding phi_def ntt_phi_def bit_scan_reverse_power by (rule square_iter_modeq [OF p])
  from modeq_power [OF this, of "2 ^ k"]
  have "modeq (ival p) (ival phi ^ (2 ^ k)) (ival (primitive_roots ! cm) ^ (2 ^ (13 - k) * 2 ^ k))"
    by (simp only: power_mult)
  also have "(2 :: nat) ^ (13 - k) * 2 ^ k = 2 ^ 13" using k by (simp only: power_add [symmetric] le_add_diff_inverse2)
  finally show phik: "modeq (ival p) (ival phi ^ (2 ^ k)) (- 1)" by (rule modeq_trans) (rule c(3))
  have "modeq (ival p) (ival psi) (ival (mulmod_iter (2 ^ k) 1 phi p) * ival (mulmod_iter (2 ^ k - 1) 1 phi p))"
    unfolding psi_def ntt_invphi_def by (rule mulmod_modeq [OF p])
  also have "modeq (ival p) \<dots>
      ((ival (1 :: u64) * ival phi ^ (2 ^ k)) * (ival (1 :: u64) * ival phi ^ (2 ^ k - 1)))"
    by (intro modeq_mult mulmod_iter_modeq p)
  finally have "modeq (ival p) (ival phi * ival psi)
      (ival phi * ((ival (1 :: u64) * ival phi ^ (2 ^ k)) * (ival (1 :: u64) * ival phi ^ (2 ^ k - 1))))"
    by (intro modeq_mult modeq_refl)
  also have "ival phi * ((ival (1 :: u64) * ival phi ^ (2 ^ k)) * (ival (1 :: u64) * ival phi ^ (2 ^ k - 1))) =
      ival phi ^ (2 ^ k) * (ival phi * ival phi ^ (2 ^ k - 1))" by simp
  also have "ival phi * ival phi ^ (2 ^ k - 1) = ival phi ^ (2 ^ k)"
    using power_minus_mult [of "2 ^ k" "ival phi"] by (simp add: mult.commute)
  also have "modeq (ival p) (ival phi ^ (2 ^ k) * ival phi ^ (2 ^ k)) (- 1 * - 1)"
    by (intro modeq_mult phik)
  finally show "modeq (ival p) (ival phi * ival psi) 1" by simp
  have d: "kMaxPolyDegree div 2 ^ k = 2 ^ (13 - k)"
  proof -
    have "kMaxPolyDegree = 2 ^ 13" by (simp add: kMaxPolyDegree_def)
    then show ?thesis using k by (simp only: power_diff [of 2 k 13])
  qed
  have "(2 :: nat) ^ (13 - k) \<le> 2 ^ 13" by (rule power_increasing) simp_all
  then have u: "unat (of_nat (2 ^ (13 - k)) :: u64) = 2 ^ (13 - k)"
    by (subst unat_of_nat) simp
  have "modeq (ival p) (ival nv) (ival (invkMaxPolyDegree ! cm) * ival (of_nat (2 ^ (13 - k)) :: u64))"
    unfolding nv_def ntt_invdegree_def d by (rule mulmod_modeq [OF p])
  then have "modeq (ival p) (2 ^ k * ival nv) (2 ^ k * (ival (invkMaxPolyDegree ! cm) * 2 ^ (13 - k)))"
    unfolding u by (intro modeq_mult modeq_refl) simp
  also have "2 ^ k * (ival (invkMaxPolyDegree ! cm) * 2 ^ (13 - k)) =
      (2 ^ (13 - k) * 2 ^ k) * ival (invkMaxPolyDegree ! cm)" by simp
  also have "(2 :: int) ^ (13 - k) * 2 ^ k = 2 ^ 13" using k by (simp only: power_add [symmetric] le_add_diff_inverse2)
  also have "modeq (ival p) (2 ^ 13 * ival (invkMaxPolyDegree ! cm)) 1" using c(4) by simp
  finally show "modeq (ival p) (2 ^ k * ival nv) 1" .
  show "unat nv < unat p" unfolding nv_def ntt_invdegree_def by (rule mulmod_less [OF p])
qed

lemma configured_simps:
  fixes nfl :: NFLlib and inv :: "int \<Rightarrow> int \<Rightarrow> int"
  defines "c \<equiv> configureNTT inv nfl"
  defines "n \<equiv> polyDegree nfl"
  shows "polyDegree c = polyDegree nfl" "nbModuli c = nbModuli nfl" "alreadyInit c = nbModuli nfl"
    "moduli c = map ((!) P64) [0..<nbModuli nfl]"
    "inv_indexes c = invert_permutation n (inv_indexes_tmp n)"
    "liftingIntegers c = map (lifting_integer inv (nbModuli nfl)) [0..<nbModuli nfl]"
    "moduliProduct c = fold (\<lambda>i z. z * ival (map ((!) P64) [0..<nbModuli nfl] ! i)) [0..<nbModuli nfl] 1"
  by (simp_all add: c_def n_def configureNTT_def Let_def freeNTTMemory_def)

lemma configured_tables:
  fixes nfl :: NFLlib and inv :: "int \<Rightarrow> int \<Rightarrow> int"
  defines "c \<equiv> configureNTT inv nfl"
  defines "n \<equiv> polyDegree nfl"
  assumes cm: "cm < nbModuli nfl"
  defines "p \<equiv> P64 ! cm"
  defines "phi \<equiv> ntt_phi p (primitive_roots ! cm) n"
  defines "psi \<equiv> ntt_invphi p phi n"
  defines "nv \<equiv> ntt_invdegree p (invkMaxPolyDegree ! cm) n"
  shows "phis c ! cm = map fst (wtab_row n 1 phi p)" "shoupphis c ! cm = map snd (wtab_row n 1 phi p)"
    "invpoly_times_invphis c ! cm = map fst (wtab_row n nv psi p)"
    "shoupinvpoly_times_invphis c ! cm = map snd (wtab_row n nv psi p)"
    "omegas c ! cm = map fst (prep_wtab (mulmod phi phi p) n p)"
    "shoupomegas c ! cm = map snd (prep_wtab (mulmod phi phi p) n p)"
    "invomegas c ! cm = map fst (prep_wtab (mulmod psi psi p) n p)"
    "shoupinvomegas c ! cm = map snd (prep_wtab (mulmod psi psi p) n p)"
  using cm by (simp_all add: c_def n_def configureNTT_def Let_def freeNTTMemory_def p_def phi_def psi_def nv_def)

theorem configureNTT_ready:
  assumes n: "polyDegree nfl = 2 ^ k" and k: "k \<le> 13" and nb: "nbModuli nfl \<le> 17"
  shows "ntt_ready (configureNTT mpz_invert nfl) k"
  unfolding ntt_ready_def
proof (intro conjI allI impI)
  let ?c = "configureNTT mpz_invert nfl"
  show "polyDegree ?c = 2 ^ k" "length (moduli ?c) = nbModuli ?c"
    using n by (simp_all add: configured_simps)
  show "rev_table k (inv_indexes ?c)" using n by (simp add: configured_simps rev_table_configured)
  fix cm assume "cm < nbModuli ?c"
  then have cm: "cm < nbModuli nfl" "cm < 17" using nb by (simp_all add: configured_simps)
  define p where "p = P64 ! cm"
  define phi where "phi = ntt_phi p (primitive_roots ! cm) (2 ^ k)"
  define psi where "psi = ntt_invphi p phi (2 ^ k)"
  define nv where "nv = ntt_invdegree p (invkMaxPolyDegree ! cm) (2 ^ k)"
  have p: "1 < unat p" "unat p < 2 ^ 61" using constants_nth [OF cm(2)] by (simp_all add: p_def)
  then have p0: "0 < unat p" by simp
  have m: "moduli ?c ! cm = p" using cm by (simp add: configured_simps p_def)
  note num = modulus_numbers [OF cm(2) k, folded p_def, folded phi_def, folded psi_def nv_def]
  note tb = configured_tables [OF cm(1), of mpz_invert, unfolded n, folded p_def, folded phi_def, folded psi_def nv_def]
  have one: "unat (1 :: u64) < unat p" "modeq (ival p) (ival (1 :: u64)) 1" using p by simp_all
  have sq: "modeq (ival p) (ival (mulmod a a p)) ((ival a)\<^sup>2)" for a
    using mulmod_modeq [OF p0, of a a] by (simp add: power2_eq_square)
  have "slice_tables ?c k cm (ival phi) (ival psi) (ival nv)"
    unfolding slice_tables_def Let_def m
  proof (intro conjI allI impI)
    fix i :: nat assume i: "i < 2 ^ k"
    show "table_cell p (ival phi ^ i) (phis ?c ! cm ! i, shoupphis ?c ! cm ! i)"
      using wtab_row_cell [OF p0 one(1) one(2) modeq_refl i, of phi] i by (simp add: tb)
    show "table_cell p (ival nv * ival psi ^ i)
        (invpoly_times_invphis ?c ! cm ! i, shoupinvpoly_times_invphis ?c ! cm ! i)"
      using wtab_row_cell [OF p0 num(4) modeq_refl modeq_refl i, of psi] i by (simp add: tb)
  next
    show "tables_ok p ((ival phi)\<^sup>2) k (omegas ?c ! cm) (shoupomegas ?c ! cm)"
      unfolding tb by (rule prep_wtab_tables [OF p(1) sq])
    show "tables_ok p ((ival psi)\<^sup>2) k (invomegas ?c ! cm) (shoupinvomegas ?c ! cm)"
      unfolding tb by (rule prep_wtab_tables [OF p(1) sq])
  qed (use p num in simp_all)
  then show "\<exists>phi psi ninv. slice_tables ?c k cm phi psi ninv" by blast
qed

end
