(* ===== verification/NFLCrt.thy ===== *)
theory NFLCrt
  imports NFLTransform
begin

text \<open>
  Lifting out of the residue number system (\<open>poly2mpz\<close> of \<open>crypto/NFLlib_old.cpp\<close>): with
  GMP's \<open>mpz_invert\<close> as documented (locale \<open>mpz_inversion\<close>), the constants computed by
  \<open>configureNTT\<close> lift the residues of an integer below the product of the moduli to that
  integer. The locale is interpreted on the extended Euclidean algorithm.
\<close>

section \<open>Chinese remaindering\<close>

text \<open>Products over the moduli, as the loops of the code build them.\<close>

lemma fold_mult_prod:
  fixes f :: "nat \<Rightarrow> int"
  shows "fold (\<lambda>i z. z * f i) [0..<n] 1 = (\<Prod>i < n. f i)"
  by (induction n) (simp_all add: lessThan_Suc mult.commute)

lemma fold_mult_prod_except:
  fixes f :: "nat \<Rightarrow> int"
  shows "fold (\<lambda>i z. if i = cm then z else z * f i) [0..<n] 1 = (\<Prod>i \<in> {..<n} - {cm}. f i)"
proof (induction n)
  case (Suc n)
  have "{..<Suc n} - {cm} = (if n = cm then {..<n} - {cm} else insert n ({..<n} - {cm}))" by auto
  moreover have "{..<cm} - {cm} = {..<cm}" by auto
  ultimately show ?case using Suc by (cases "n = cm") (simp_all add: mult.commute)
qed simp

lemma fold_add_sum:
  fixes f :: "nat \<Rightarrow> int"
  shows "fold (\<lambda>i z. z + f i) [0..<n] 0 = (\<Sum>i < n. f i)"
  by (induction n) simp_all

lemma prod_dvd_coprime:
  fixes p :: "nat \<Rightarrow> int"
  assumes "finite A" "\<And>i j. i \<in> A \<Longrightarrow> j \<in> A \<Longrightarrow> i \<noteq> j \<Longrightarrow> coprime (p i) (p j)" "\<And>i. i \<in> A \<Longrightarrow> p i dvd x"
  shows "(\<Prod>i \<in> A. p i) dvd x"
  using assms
proof (induction A rule: finite_induct)
  case (insert a A)
  then have "coprime (p a) (\<Prod>i \<in> A. p i)" by (intro prod_coprime_right) auto
  then show ?case using insert by (simp add: divides_mult)
qed simp

lemma crt_unique:
  fixes p :: "nat \<Rightarrow> int"
  assumes "\<And>i j. i < n \<Longrightarrow> j < n \<Longrightarrow> i \<noteq> j \<Longrightarrow> coprime (p i) (p j)"
    and "\<And>i. i < n \<Longrightarrow> modeq (p i) x y"
  shows "modeq (\<Prod>i < n. p i) x y"
  using assms unfolding modeq_dvd_diff by (intro prod_dvd_coprime) auto

text \<open>An integer that is 1 modulo \<open>p cm\<close> and 0 modulo the others.\<close>

lemma crt_sum:
  fixes p L x :: "nat \<Rightarrow> int"
  assumes "\<And>i. i < n \<Longrightarrow> modeq (p i) (L i) 1" "\<And>i j. i < n \<Longrightarrow> j < n \<Longrightarrow> i \<noteq> j \<Longrightarrow> modeq (p i) (L j) 0"
    and "i < n"
  shows "modeq (p i) (\<Sum>j < n. L j * x j) (x i)"
proof -
  have "modeq (p i) (\<Sum>j < n. L j * x j) (\<Sum>j < n. (if j = i then 1 else 0) * x j)"
    using assms by (intro modeq_sum modeq_mult modeq_refl) auto
  also have "(\<Sum>j < n. (if j = i then 1 else 0) * x j) = x i"
    using assms(3) by (simp add: sum.delta if_distrib [of "\<lambda>v. v * _"] cong: if_cong)
  finally show ?thesis .
qed

section \<open>The interface of mpz_invert\<close>

text \<open>
  The GMP manual: \<open>mpz_invert (rop, op1, op2)\<close> computes the inverse of \<open>op1\<close> modulo \<open>op2\<close>;
  when it exists, \<open>0 < rop < |op2|\<close>.
\<close>

locale mpz_inversion =
  fixes mpz_invert :: "int \<Rightarrow> int \<Rightarrow> int"
  assumes mpz_invert_correct: "coprime a m \<Longrightarrow> 1 < m \<Longrightarrow> modeq m (a * mpz_invert a m) 1"
    and mpz_invert_range: "coprime a m \<Longrightarrow> 1 < m \<Longrightarrow> 0 < mpz_invert a m \<and> mpz_invert a m < m"
begin

lemma lifting_integer_self:
  assumes "nb \<le> 17" "cm < nb"
  shows "modeq (ival (P64 ! cm)) (lifting_integer mpz_invert nb cm) 1"
proof -
  have c: "1 < ival (P64 ! cm)" using constants_nth(1) [of cm] assms by simp
  let ?P = "\<Prod>i \<in> {..<nb} - {cm}. ival (P64 ! i)"
  have "coprime ?P (ival (P64 ! cm))"
    using assms by (intro prod_coprime_left P64_coprime_nth) auto
  from mpz_invert_correct [OF this c] show ?thesis
    by (simp add: lifting_integer_def Let_def fold_mult_prod_except)
qed

lemma lifting_integer_other:
  assumes "i < nb" "i \<noteq> cm"
  shows "modeq (ival (P64 ! i)) (lifting_integer mpz_invert nb cm) 0"
proof -
  have "ival (P64 ! i) dvd (\<Prod>i \<in> {..<nb} - {cm}. ival (P64 ! i))"
    using assms by (intro dvd_prodI) auto
  then show ?thesis
    by (simp add: lifting_integer_def Let_def fold_mult_prod_except modeq_0_dvd)
qed

lemma poly2mpz_correct:
  assumes nb: "nbModuli nfl \<le> 17" and i: "i < polyDegree nfl"
    and X: "\<And>cm. cm < nbModuli nfl \<Longrightarrow>
      modeq (ival (P64 ! cm)) (ival (x ! (i + polyDegree nfl * cm))) X"
  shows "poly2mpz (configureNTT mpz_invert nfl) x ! i = X mod (\<Prod>cm < nbModuli nfl. ival (P64 ! cm))"
proof -
  let ?n = "nbModuli nfl" and ?p = "\<lambda>cm. ival (P64 ! cm)" and ?L = "lifting_integer mpz_invert (nbModuli nfl)"
  let ?x = "\<lambda>cm. ival (x ! (i + polyDegree nfl * cm))"
  let ?S = "\<Sum>cm < ?n. ?L cm * ?x cm"
  have M: "moduliProduct (configureNTT mpz_invert nfl) = (\<Prod>cm < ?n. ?p cm)"
    unfolding configured_simps fold_mult_prod by (intro prod.cong) simp_all
  have S: "fold (\<lambda>cm z. z + liftingIntegers (configureNTT mpz_invert nfl) ! cm * ?x cm) [0..<?n] 0 = ?S"
    unfolding fold_add_sum configured_simps by (intro sum.cong) simp_all
  have "poly2mpz (configureNTT mpz_invert nfl) x ! i = ?S mod (\<Prod>cm < ?n. ?p cm)"
    using i S unfolding poly2mpz_def M by (simp add: configured_simps)
  moreover have "modeq (\<Prod>cm < ?n. ?p cm) ?S X"
  proof (rule crt_unique)
    show "coprime (?p i) (?p j)" if "i < ?n" "j < ?n" "i \<noteq> j" for i j
      using that nb by (intro P64_coprime_nth) simp_all
    fix cm assume cm: "cm < ?n"
    have "modeq (?p cm) ?S (?x cm)"
      by (rule crt_sum [OF _ _ cm])
        (simp_all add: lifting_integer_self [OF nb] lifting_integer_other)
    then show "modeq (?p cm) ?S X" using X [OF cm] by (rule modeq_trans)
  qed
  ultimately show ?thesis by (simp add: modeq_def)
qed

end

text \<open>The extended Euclidean algorithm: \<open>bezout a b = (x, y)\<close> with \<open>a * x + b * y = gcd a b\<close>.\<close>

function bezout :: "nat \<Rightarrow> nat \<Rightarrow> int \<times> int" where
  "bezout a b = (if b = 0 then (1, 0)
     else (let (x, y) = bezout b (a mod b) in (y, x - int (a div b) * y)))"
  by pat_completeness auto
termination
  by (relation "measure snd") auto

declare bezout.simps [simp del]

lemma bezout_gcd: "int a * fst (bezout a b) + int b * snd (bezout a b) = int (gcd a b)"
proof (induction a b rule: bezout.induct)
  case (1 a b)
  show ?case
  proof (cases "b = 0")
    case False
    obtain x y where xy: "bezout b (a mod b) = (x, y)" by (cases "bezout b (a mod b)")
    have "int b * x + int (a mod b) * y = int (gcd b (a mod b))" using 1 [OF False] xy by simp
    moreover have "int (a mod b) = int a - int b * int (a div b)"
      by (simp add: minus_mult_div_eq_mod [symmetric] of_nat_diff)
    moreover have "gcd b (a mod b) = gcd a b" using False by (simp add: gcd_non_0_nat)
    ultimately show ?thesis
      using False xy by (simp add: bezout.simps [of a b] algebra_simps)
  qed (simp add: bezout.simps [of a 0])
qed

definition euclid_invert :: "int \<Rightarrow> int \<Rightarrow> int" where
  "euclid_invert a m = fst (bezout (nat (a mod m)) (nat m)) mod m"

lemma euclid_invert_modeq:
  assumes "coprime a m" "1 < m"
  shows "modeq m (a * euclid_invert a m) 1"
proof -
  let ?a = "nat (a mod m)" and ?m = "nat m"
  have am: "int ?a = a mod m" "int ?m = m" using assms(2) by simp_all
  have "coprime (int ?a) (int ?m)" using assms by (simp add: am coprime_commute)
  then have "coprime ?a ?m" by (simp only: coprime_int_iff)
  then have g: "gcd ?a ?m = 1" by (simp only: coprime_iff_gcd_eq_1)
  have b: "(a mod m) * fst (bezout ?a ?m) + m * snd (bezout ?a ?m) = 1"
    using bezout_gcd [of ?a ?m] by (simp only: am g of_nat_1)
  have "modeq m (a * euclid_invert a m) ((a mod m) * fst (bezout ?a ?m))"
    unfolding euclid_invert_def by (intro modeq_mult) simp_all
  also have "(a mod m) * fst (bezout ?a ?m) = 1 - m * snd (bezout ?a ?m)" using b by linarith
  also have "modeq m (1 - m * snd (bezout ?a ?m)) (1 - 0)" by (intro modeq_diff modeq_refl) simp
  finally show ?thesis by simp
qed

interpretation gmp: mpz_inversion euclid_invert
proof
  fix a m :: int assume c: "coprime a m" and m: "1 < m"
  show e: "modeq m (a * euclid_invert a m) 1" by (rule euclid_invert_modeq [OF c m])
  have "0 \<le> euclid_invert a m" "euclid_invert a m < m" using m by (simp_all add: euclid_invert_def)
  moreover have "euclid_invert a m \<noteq> 0" using e m by (auto simp: modeq_def)
  ultimately show "0 < euclid_invert a m \<and> euclid_invert a m < m" by simp
qed

section \<open>Properties\<close>

lemma reduced_code:
  "reduced nfl x \<longleftrightarrow> length x = nbModuli nfl * polyDegree nfl \<and>
     list_all (\<lambda>j. unat (x ! j) < unat (moduli nfl ! (j div polyDegree nfl))) [0..<length x]"
  by (auto simp: reduced_def list_all_iff)

text \<open>A small object for the examples: two moduli, degree four.\<close>

definition example_nfl :: NFLlib where
  "example_nfl = NFLlib_new \<lparr> polyDegree := 4, nbModuli := 2 \<rparr>"

lemma example_nfl_simps [simp]:
  "polyDegree example_nfl = 4" "nbModuli example_nfl = 2" "alreadyInit example_nfl = 0"
  by (simp_all add: example_nfl_def NFLlib_new_def)

lemma example_reduced:
  "reduced (configureNTT euclid_invert example_nfl) [1, 2, 3, 4, 5, 6, 7, 8]"
  by (simp add: reduced_code configured_simps P64_def upt_rec)

text \<open>C7: For every supported degree (a power of two up to 8192) and up to 17 moduli, the
  inverse transform undoes the forward transform on the object configured by \<open>configureNTT\<close>:
  every reduced polynomial comes back unchanged, coefficient by coefficient.\<close>

theorem transforms_round_trip:
  fixes mpz_invert :: "int \<Rightarrow> int \<Rightarrow> int"
  assumes "polyDegree nfl = 2 ^ k" "k \<le> 13" "nbModuli nfl \<le> 17"
    and "reduced (configureNTT mpz_invert nfl) x"
  defines "c \<equiv> configureNTT mpz_invert nfl"
  shows "invnttAndPowInvPhi c (nttAndPowPhi c x) = x"
  unfolding c_def by (rule ntt_round_trip [OF configureNTT_ready [OF assms(1-3)] assms(4)])

theorem transforms_round_trip_witness:
  "invnttAndPowInvPhi (configureNTT euclid_invert example_nfl)
     (nttAndPowPhi (configureNTT euclid_invert example_nfl) [1, 2, 3, 4, 5, 6, 7, 8]) =
   [1, 2, 3, 4, 5, 6, 7, 8]"
  by (rule transforms_round_trip [of example_nfl 2, OF _ _ _ example_reduced]) simp_all

text \<open>C8: Multiplying transformed polynomials coefficient by coefficient and transforming back
  gives, modulo each of the moduli, the product of the polynomials modulo \<open>X^n + 1\<close>
  (\<open>negacyclic\<close>), fully reduced.\<close>

theorem ntt_product_negacyclic:
  fixes mpz_invert :: "int \<Rightarrow> int \<Rightarrow> int"
  assumes "polyDegree nfl = 2 ^ k" "k \<le> 13" "nbModuli nfl \<le> 17"
    and "length a = nbModuli nfl * 2 ^ k" "length b = nbModuli nfl * 2 ^ k"
      "length rop = nbModuli nfl * 2 ^ k" "cm < nbModuli nfl" "i < 2 ^ k"
  defines "c \<equiv> configureNTT mpz_invert nfl"
  shows "coeff c (invnttAndPowInvPhi c (mulmodPolyNTT c rop (nttAndPowPhi c a) (nttAndPowPhi c b))) cm i =
    negacyclic (coeff c a cm) (coeff c b cm) (2 ^ k) i mod ival (P64 ! cm)"
proof -
  have m: "moduli c ! cm = P64 ! cm" "nbModuli c = nbModuli nfl"
    using assms(7) by (simp_all add: c_def configured_simps)
  have r: "ntt_ready c k" unfolding c_def by (rule configureNTT_ready [OF assms(1-3)])
  show ?thesis unfolding m(1) [symmetric]
    by (rule polynomial_product [OF r]) (use assms(4-8) m(2) in simp_all)
qed

theorem ntt_product_negacyclic_witness:
  "let c = configureNTT euclid_invert example_nfl;
       a = [1, 2, 3, 4, 5, 6, 7, 8]; b = [5, 0, 1, 0, 0, 0, 0, 9]
   in coeff c (invnttAndPowInvPhi c (mulmodPolyNTT c (replicate 8 0) (nttAndPowPhi c a) (nttAndPowPhi c b))) 1 3 =
     negacyclic (coeff c a 1) (coeff c b 1) 4 3 mod ival (P64 ! 1)"
  unfolding Let_def
  using ntt_product_negacyclic [of example_nfl 2 "[1, 2, 3, 4, 5, 6, 7, 8]" "[5, 0, 1, 0, 0, 0, 0, 9]"
      "replicate 8 0" 1 3 euclid_invert] by simp

text \<open>C10: With GMP's modular inverse, \<open>poly2mpz\<close> lifts the residues of an integer \<open>X\<close> to \<open>X\<close>
  itself when \<open>0 <= X\<close> is below the product of the moduli, and to \<open>X\<close> modulo that product in
  general.\<close>

theorem poly2mpz_lifts:
  assumes "nbModuli nfl \<le> 17" "i < polyDegree nfl"
    and "\<forall>cm < nbModuli nfl. modeq (ival (P64 ! cm)) (ival (x ! (i + polyDegree nfl * cm))) X"
  shows "poly2mpz (configureNTT euclid_invert nfl) x ! i = X mod (\<Prod>cm < nbModuli nfl. ival (P64 ! cm))"
  by (rule gmp.poly2mpz_correct [OF assms(1,2)]) (use assms(3) in blast)

theorem poly2mpz_lifts_witness:
  "poly2mpz (configureNTT euclid_invert example_nfl) [1, 2, 3, 2305843009213317120, 1, 6, 7, 2305843009213120512] ! 3 =
   (- 1) mod (\<Prod>cm < 2. ival (P64 ! cm))"
  using poly2mpz_lifts [of example_nfl 3 "[1, 2, 3, 2305843009213317120, 1, 6, 7, 2305843009213120512]" "- 1"]
  by (force simp: less_2_cases_iff modeq_dvd_diff P64_def)

lemma setNewParameters_ready:
  assumes "k \<le> 13" "sz mod 60 = 0" "sz div 60 \<le> 17"
  shows "\<exists>c. setNewParameters mpz_invert (2 ^ k) sz nfl = Inr c \<and> ntt_ready c k \<and>
    nbModuli c = sz div 60 \<and> alreadyInit c = sz div 60 \<and> polyDegree c = 2 ^ k \<and> moduli c = take (sz div 60) P64"
proof -
  let ?n = "nfl\<lparr>polyDegree := 2 ^ k, nbModuli := sz div 60 mod 2 ^ 16\<rparr>"
  have nb: "sz div 60 mod 2 ^ 16 = sz div 60" using assms(3) by simp
  have "map ((!) P64) [0..<sz div 60] = take (sz div 60) P64"
    using assms(3) by (intro nth_equalityI) (simp_all add: P64_def)
  then show ?thesis
    using assms configureNTT_ready [of ?n k mpz_invert]
    by (simp add: setNewParameters_def setmodulus_def kModulusBitsize_def configured_simps nb)
qed

text \<open>C13: \<open>setmodulus\<close> accepts exactly the multiples of 60 bits; the configured object then has
  one modulus per 60 bits (as an \<open>unsigned short\<close>), and tables ready for the transforms.\<close>

theorem setNewParameters_configures:
  assumes "k \<le> 13" "sz mod 60 = 0" "sz div 60 \<le> 17"
  shows "\<exists>c. setNewParameters mpz_invert (2 ^ k) sz nfl = Inr c \<and> ntt_ready c k \<and>
    nbModuli c = sz div 60 \<and> alreadyInit c = sz div 60 \<and> polyDegree c = 2 ^ k \<and> moduli c = take (sz div 60) P64"
  by (rule setNewParameters_ready [OF assms])

theorem setNewParameters_configures_witness:
  "\<exists>c. setNewParameters euclid_invert (2 ^ 12) 120 NFLlib_new = Inr c \<and> ntt_ready c 12 \<and>
    nbModuli c = 120 div 60 \<and> alreadyInit c = 120 div 60 \<and> polyDegree c = 2 ^ 12 \<and> moduli c = take (120 div 60) P64"
  by (rule setNewParameters_configures) simp_all

end
