(* ===== verification/NFLRandom.thy ===== *)
theory NFLRandom
  imports NFLCrt
begin

text \<open>
  \<open>setBoundedRandomPoly\<close> of \<open>crypto/NFLlib_old.cpp\<close>: whatever the random bytes are, the
  coefficients are below the bound, respectively reduced modulo their modulus.
\<close>

lemma bit_scan_reverse_bounds:
  "0 < n \<Longrightarrow> 2 ^ bit_scan_reverse n \<le> n \<and> n < 2 ^ Suc (bit_scan_reverse n)"
proof (induction n rule: bit_scan_reverse.induct)
  case (1 n)
  show ?case
  proof (cases "n \<le> 1")
    case True
    then show ?thesis using 1 by (simp add: bit_scan_reverse.simps [of n])
  next
    case False
    then have "2 ^ bit_scan_reverse (n div 2) \<le> n div 2" "n div 2 < 2 ^ Suc (bit_scan_reverse (n div 2))"
      using 1 by simp_all
    moreover have e: "bit_scan_reverse n = Suc (bit_scan_reverse (n div 2))"
      using False by (simp add: bit_scan_reverse.simps [of n])
    ultimately show ?thesis unfolding e power_Suc by (intro conjI) linarith+
  qed
qed

lemma log2_ceil_bounds:
  assumes "0 < b"
  shows "b \<le> 2 ^ log2_ceil b" "2 ^ log2_ceil b < 2 * b"
proof -
  have "b \<le> 2 ^ log2_ceil b \<and> 2 ^ log2_ceil b < 2 * b"
  proof (cases "b \<le> 1")
    case False
    then have "2 ^ bit_scan_reverse (b - 1) \<le> b - 1" "b - 1 < 2 ^ Suc (bit_scan_reverse (b - 1))"
      using bit_scan_reverse_bounds [of "b - 1"] by simp_all
    moreover have e: "log2_ceil b = Suc (bit_scan_reverse (b - 1))" using False by (simp add: log2_ceil_def)
    ultimately show ?thesis using False unfolding e power_Suc by (intro conjI) linarith+
  qed (use assms in \<open>simp add: log2_ceil_def\<close>)
  then show "b \<le> 2 ^ log2_ceil b" "2 ^ log2_ceil b < 2 * b" by blast+
qed

lemma log2_ceil_le: "0 < b \<Longrightarrow> b \<le> 2 ^ m \<Longrightarrow> log2_ceil b \<le> m"
proof (rule ccontr)
  assume b: "0 < b" "b \<le> 2 ^ m" and "\<not> log2_ceil b \<le> m"
  then have "(2 :: nat) ^ Suc m \<le> 2 ^ log2_ceil b" by (intro power_increasing) simp_all
  then show False using log2_ceil_bounds(2) [OF b(1)] b(2) by simp
qed

lemma unat_mask_and:
  assumes "0 < unat b" "unat b \<le> 2 ^ 63"
  shows "unat (r AND bound_mask b) = unat r mod 2 ^ log2_ceil (unat b)"
proof -
  have "bound_mask b = mask (log2_ceil (unat b))"
    by (simp add: bound_mask_def mask_eq_exp_minus_1 push_bit_eq_mult)
  then have "r AND bound_mask b = take_bit (log2_ceil (unat b)) r"
    by (simp add: take_bit_eq_mask)
  then show ?thesis by (simp only: unsigned_take_bit_eq) (simp add: take_bit_eq_mod)
qed

lemma mask_reduce_less:
  assumes "0 < unat b" "unat b \<le> 2 ^ 63"
  shows "unat (mask_reduce b r) < unat b"
proof -
  let ?m = "unat (r AND bound_mask b)"
  have "?m < 2 ^ log2_ceil (unat b)" by (simp add: unat_mask_and [OF assms])
  then have "?m < 2 * unat b" using log2_ceil_bounds(2) [OF assms(1)] by linarith
  then show ?thesis
    by (auto simp: mask_reduce_def Let_def word_le_nat_alt unat_sub_no_underflow)
qed

text \<open>Values already below the bound are kept, so every value is reachable.\<close>

lemma mask_reduce_id:
  assumes "unat r < unat b" "unat b \<le> 2 ^ 63"
  shows "mask_reduce b r = r"
proof -
  have b: "0 < unat b" using assms by simp
  have "unat r < 2 ^ log2_ceil (unat b)" using assms log2_ceil_bounds(1) [OF b] by linarith
  then have "unat (r AND bound_mask b) = unat r" by (simp add: unat_mask_and [OF b assms(2)])
  then have "r AND bound_mask b = r" by (simp add: word_unat_eq_iff)
  then show ?thesis using assms by (simp add: mask_reduce_def Let_def word_le_nat_alt)
qed

lemma nth_set_cells:
  assumes "length xs = m * n" "i < n" "cm < m" "j < n"
  shows "fold (\<lambda>cm xs. xs[n * cm + i := v]) [0..<m] xs ! (n * cm + j) =
    (if j = i then v else xs ! (n * cm + j))"
proof -
  have gen: "fold (\<lambda>cm xs. xs[n * cm + i := v]) [0..<m'] xs ! (n * cm + j) =
      (if j = i \<and> cm < m' then v else xs ! (n * cm + j)) \<and>
      length (fold (\<lambda>cm xs. xs[n * cm + i := v]) [0..<m'] xs) = length xs" if "m' \<le> m" for m'
    using that
  proof (induction m')
    case (Suc m')
    have idx: "n * cm + j < length xs" using block_bound [OF assms(3,4)] assms(1) by simp
    have eq: "n * m' + i = n * cm + j \<longleftrightarrow> m' = cm \<and> i = j"
      using block_index [OF assms(2), of m'] block_index [OF assms(4), of cm] by metis
    show ?case using Suc idx eq by (auto simp: nth_list_update less_Suc_eq)
  qed simp
  show ?thesis using gen [OF le_refl] assms(3) by simp
qed

lemma length_set_cells [simp]:
  "length (fold (\<lambda>cm xs. xs[f cm := v]) is xs) = length xs"
  by (rule length_fold_upd) simp

lemma bounded_poly_cells:
  assumes "length res = nbModuli nfl * polyDegree nfl" "cm < nbModuli nfl" "j < polyDegree nfl"
  shows "setBoundedRandomPoly nfl res b False rnd ! (polyDegree nfl * cm + j) = mask_reduce b (rnd ! j)"
proof -
  let ?n = "polyDegree nfl" and ?m = "nbModuli nfl"
  let ?F = "\<lambda>i res. fold (\<lambda>cm res. res[?n * cm + i := mask_reduce b (rnd ! i)]) [0..<?m] res"
  have len: "length (fold ?F is res) = ?m * ?n" for "is"
    using assms(1) by (subst length_fold_upd) simp_all
  have "fold ?F [0..<n'] res ! (?n * cm + j) = (if j < n' then mask_reduce b (rnd ! j) else res ! (?n * cm + j))"
    if "n' \<le> ?n" for n'
    using that
  proof (induction n')
    case (Suc n')
    have "fold ?F [0..<Suc n'] res ! (?n * cm + j) =
        (if j = n' then mask_reduce b (rnd ! n') else fold ?F [0..<n'] res ! (?n * cm + j))"
      using nth_set_cells [OF len, of n' cm j "mask_reduce b (rnd ! n')"] Suc.prems assms by simp
    then show ?case using Suc by (auto simp: less_Suc_eq)
  qed simp
  from this [OF le_refl] assms(3) show ?thesis by (simp add: setBoundedRandomPoly_def)
qed

lemma length_setBoundedRandomPoly [simp]: "length (setBoundedRandomPoly nfl res b u rnd) = length res"
  unfolding setBoundedRandomPoly_def by (simp add: length_fold_upd)

lemma uniform_poly_reduced:
  assumes "moduli_ok nfl" "length res = nbModuli nfl * polyDegree nfl"
  shows "reduced nfl (setBoundedRandomPoly nfl res b True rnd)"
  unfolding reduced_def
proof (intro conjI allI impI)
  show "length (setBoundedRandomPoly nfl res b True rnd) = nbModuli nfl * polyDegree nfl"
    using assms(2) by simp
  fix j assume "j < length (setBoundedRandomPoly nfl res b True rnd)"
  then have j: "j < nbModuli nfl * polyDegree nfl" using assms(2) by simp
  from moduli_okD [OF assms(1) j]
  show "unat (setBoundedRandomPoly nfl res b True rnd ! j) < unat (moduli nfl ! (j div polyDegree nfl))"
    using j assms(2) by (simp add: setBoundedRandomPoly_def nth_poly_loop mask_reduce_less)
qed

lemma bounded_poly_reduced:
  assumes "moduli_ok nfl" "length res = nbModuli nfl * polyDegree nfl"
    and b: "0 < unat b" "\<forall>p \<in> set (moduli nfl). unat b < unat p"
  shows "reduced nfl (setBoundedRandomPoly nfl res b False rnd)"
  unfolding reduced_def
proof (intro conjI allI impI)
  show "length (setBoundedRandomPoly nfl res b False rnd) = nbModuli nfl * polyDegree nfl"
    using assms(2) by simp
  fix j assume "j < length (setBoundedRandomPoly nfl res b False rnd)"
  then have j: "j < nbModuli nfl * polyDegree nfl" using assms(2) by simp
  note c = coeff_split(2,3) [OF j]
  have bp: "unat b < unat (moduli nfl ! (j div polyDegree nfl))"
    using b(2) c(1) assms(1) by (simp add: moduli_ok_def)
  then have "unat b \<le> 2 ^ 63" using moduli_okD(2) [OF assms(1) j] by simp
  from mask_reduce_less [OF b(1) this, of "rnd ! (j mod polyDegree nfl)"]
  have "unat (setBoundedRandomPoly nfl res b False rnd ! (polyDegree nfl * (j div polyDegree nfl) + j mod polyDegree nfl))
      < unat b" unfolding bounded_poly_cells [OF assms(2) c] .
  then show "unat (setBoundedRandomPoly nfl res b False rnd ! j) < unat (moduli nfl ! (j div polyDegree nfl))"
    using bp by simp
qed

section \<open>Properties\<close>

text \<open>In uniform mode every coefficient of the random polynomial is reduced modulo its
  modulus, whatever bytes the generator returned.\<close>

theorem setBoundedRandomPoly_uniform:
  assumes "moduli_ok nfl" "length res = nbModuli nfl * polyDegree nfl"
  shows "reduced nfl (setBoundedRandomPoly nfl res b True rnd)"
  by (rule uniform_poly_reduced [OF assms])

theorem setBoundedRandomPoly_uniform_witness:
  "reduced (configureNTT euclid_invert example_nfl)
     (setBoundedRandomPoly (configureNTT euclid_invert example_nfl) (replicate 8 0) 0 True
       [18446744073709551615, 1, 2, 3, 4, 5, 6, 7])"
  by (rule setBoundedRandomPoly_uniform)
    (simp_all add: configured_simps ntt_ready_moduli_ok [OF configureNTT_ready [of example_nfl 2]])



end
