(* ===== verification/CStrings.thy ===== *)
theory CStrings
  imports XPrelude
begin

text \<open>
  The string operations of the C++ and Boost libraries the program uses on parameter
  descriptors: \<open>std::to_string\<close>, \<open>atoi\<close> and \<open>boost::algorithm::split\<close> on one separator, with
  the facts needed to parse back what was printed.
\<close>

section \<open>Decimal numbers\<close>

definition digit_char :: "nat \<Rightarrow> char" where
  "digit_char d = char_of (48 + d)"

definition is_digit :: "char \<Rightarrow> bool" where
  "is_digit c \<longleftrightarrow> 48 \<le> (of_char c :: nat) \<and> (of_char c :: nat) \<le> 57"

definition digit_val :: "char \<Rightarrow> nat" where
  "digit_val c = of_char c - 48"

text \<open>\<open>std::to_string\<close> of an unsigned number.\<close>

fun to_string :: "nat \<Rightarrow> string" where
  "to_string n = (if n < 10 then [digit_char n] else to_string (n div 10) @ [digit_char (n mod 10)])"

declare to_string.simps [simp del]

definition to_string_int :: "int \<Rightarrow> string" where
  "to_string_int z = (if z < 0 then CHR ''-'' # to_string (nat (- z)) else to_string (nat z))"

text \<open>\<open>atoi\<close>: optional white space and sign, then the digits up to the first other character.\<close>

definition is_space :: "char \<Rightarrow> bool" where
  "is_space c \<longleftrightarrow> (of_char c :: nat) = 32 \<or> (9 \<le> (of_char c :: nat) \<and> (of_char c :: nat) \<le> 13)"

definition digits_val :: "string \<Rightarrow> nat" where
  "digits_val s = foldl (\<lambda>acc c. acc * 10 + digit_val c) 0 (takeWhile is_digit s)"

definition atoi :: "string \<Rightarrow> int" where
  "atoi s =
     (let s = dropWhile is_space s
      in case s of [] \<Rightarrow> 0
         | c # r \<Rightarrow>
           if c = CHR ''-'' then - int (digits_val r)
           else if c = CHR ''+'' then int (digits_val r)
           else int (digits_val s))"

lemma of_char_digit [simp]: "d < 10 \<Longrightarrow> (of_char (digit_char d) :: nat) = 48 + d"
  by (simp add: digit_char_def)

lemma digit_char_props [simp]:
  assumes "d < 10"
  shows "is_digit (digit_char d)" "digit_val (digit_char d) = d" "\<not> is_space (digit_char d)"
    "digit_char d \<noteq> CHR ''-''" "digit_char d \<noteq> CHR ''+''" "digit_char d \<noteq> CHR '':''"
proof -
  show "is_digit (digit_char d)" "digit_val (digit_char d) = d" "\<not> is_space (digit_char d)"
    using assms by (simp_all add: is_digit_def digit_val_def is_space_def)
  have neq: "digit_char d \<noteq> c" if "(of_char c :: nat) < 48 \<or> 57 < (of_char c :: nat)" for c
    using of_char_digit [OF assms] assms that by auto
  show "digit_char d \<noteq> CHR ''-''" "digit_char d \<noteq> CHR ''+''" "digit_char d \<noteq> CHR '':''"
    by (rule neq, simp)+
qed

lemma to_string_chars: "list_all is_digit (to_string n)"
proof (induction n rule: to_string.induct)
  case (1 n)
  then show ?case by (cases "n < 10") (simp_all add: to_string.simps [of n])
qed

lemma to_string_not_Nil [simp]: "to_string n \<noteq> []"
  by (simp add: to_string.simps [of n])

lemma to_string_hd: "\<exists>d r. d < 10 \<and> to_string n = digit_char d # r"
proof (induction n rule: to_string.induct)
  case (1 n)
  show ?case
  proof (cases "n < 10")
    case False
    then obtain d r where "d < 10" "to_string (n div 10) = digit_char d # r" using 1 by blast
    then show ?thesis using False by (simp add: to_string.simps [of n]) blast
  qed (auto simp: to_string.simps [of n])
qed

lemma to_string_value: "foldl (\<lambda>acc c. acc * 10 + digit_val c) 0 (to_string n) = n"
proof (induction n rule: to_string.induct)
  case (1 n)
  then show ?case by (cases "n < 10") (simp_all add: to_string.simps [of n])
qed

lemma digits_val_to_string [simp]: "digits_val (to_string n) = n"
proof -
  have "takeWhile is_digit (to_string n) = to_string n"
    using to_string_chars [of n] unfolding takeWhile_eq_all_conv list_all_iff .
  then show ?thesis by (simp only: digits_val_def to_string_value)
qed

lemma atoi_to_string [simp]: "atoi (to_string n) = int n"
proof -
  obtain d r where d: "d < 10" "to_string n = digit_char d # r" using to_string_hd by blast
  have "dropWhile is_space (to_string n) = to_string n" using d by simp
  moreover have "int (digits_val (digit_char d # r)) = int n" using d digits_val_to_string [of n] by simp
  ultimately show ?thesis using d by (simp add: atoi_def)
qed

lemma atoi_to_string_int [simp]: "atoi (to_string_int z) = z"
proof (cases "z < 0")
  case True
  have "\<not> is_space (CHR ''-'')" by (simp add: is_space_def)
  then show ?thesis using True by (simp add: to_string_int_def atoi_def)
qed (simp add: to_string_int_def)

section \<open>Splitting at a separator\<close>

fun split_on :: "char \<Rightarrow> string \<Rightarrow> string list" where
  "split_on sep [] = [[]]"
| "split_on sep (c # cs) =
     (if c = sep then [] # split_on sep cs
      else case split_on sep cs of [] \<Rightarrow> [[c]] | f # fs \<Rightarrow> (c # f) # fs)"

fun join_with :: "char \<Rightarrow> string list \<Rightarrow> string" where
  "join_with sep [] = []"
| "join_with sep [f] = f"
| "join_with sep (f # g # fs) = f @ sep # join_with sep (g # fs)"

lemma split_on_field: "sep \<notin> set f \<Longrightarrow> split_on sep f = [f]"
  by (induction f) auto

lemma split_on_append: "sep \<notin> set f \<Longrightarrow> split_on sep (f @ sep # r) = f # split_on sep r"
  by (induction f) auto

lemma split_join:
  assumes "fs \<noteq> []" "\<forall>f \<in> set fs. sep \<notin> set f"
  shows "split_on sep (join_with sep fs) = fs"
  using assms
proof (induction sep fs rule: join_with.induct)
  case (3 sep f g fs)
  then show ?case by (simp add: split_on_append)
qed (simp_all add: split_on_field)

lemma colon_not_in_to_string [simp]: "CHR '':'' \<notin> set (to_string n)"
proof
  assume "CHR '':'' \<in> set (to_string n)"
  then have "is_digit (CHR '':'')" using to_string_chars [of n] by (auto simp: list_all_iff)
  then show False by (simp add: is_digit_def)
qed

lemma colon_not_in_to_string_int [simp]: "CHR '':'' \<notin> set (to_string_int z)"
  by (simp add: to_string_int_def)

end
