(* ===== verification/NFLLWE.thy ===== *)
theory NFLLWE
  imports NFLRandom CStrings
begin

text \<open>
  The LWE cryptosystem of \<open>crypto/NFLLWE.cpp\<close> with its public parameters
  (\<open>crypto/NFLLWEPublicParameters.cpp\<close>): parameterisation, encryption, decryption and the
  homomorphic operations on ciphertexts. The public parameter object delegates to the
  cryptosystem (\<open>crypto_container\<close>); both are one record here. Random bytes are arguments.
\<close>

section \<open>State\<close>

record lwe =
  nflInstance :: NFLlib
  oldNbModuli :: nat
  lwe_nbModuli :: nat
  lwe_polyDegree :: nat
  lwe_moduli :: "u64 list"
  secretKey :: "u64 list list"
  secretKeyShoup :: "u64 list list"
  Abit_mod :: "u64 list"
  Abit_mod_shoup :: "u64 list"
  securityBits :: nat
  noise_ub :: u64
  absPerCoordinateBitsize :: int

record lwe_cipher =
  cipher_a :: "u64 list"
  cipher_b :: "u64 list"

text \<open>\<open>lwe_in_data\<close>: the polynomials of one database element.\<close>

type_synonym lwe_in_data = "u64 list list"

definition NFLLWE_new :: lwe where
  "NFLLWE_new = \<lparr> nflInstance = NFLlib_new, oldNbModuli = 0, lwe_nbModuli = 0, lwe_polyDegree = 0,
     lwe_moduli = [], secretKey = [], secretKeyShoup = [], Abit_mod = [], Abit_mod_shoup = [],
     securityBits = 0, noise_ub = 0, absPerCoordinateBitsize = - 1 \<rparr>"

section \<open>Public parameters\<close>

definition getmodulusBitsize :: "lwe \<Rightarrow> nat" where
  "getmodulusBitsize L = lwe_nbModuli L * kModulusBitsize"

definition getModulusRepresentationBitsize :: "lwe \<Rightarrow> nat" where
  "getModulusRepresentationBitsize L =
     ceil_div (getmodulusBitsize L) kModulusRepresentationBitsize * kModulusRepresentationBitsize"

definition getSerializedModulusBitsize :: "lwe \<Rightarrow> nat" where
  "getSerializedModulusBitsize L = getModulusRepresentationBitsize L"

definition getAbsorptionBitsize :: "lwe \<Rightarrow> nat" where
  "getAbsorptionBitsize L =
     (if absPerCoordinateBitsize L < 0 then 0 else lwe_polyDegree L * nat (absPerCoordinateBitsize L))"

definition getCiphertextSize :: "lwe \<Rightarrow> nat" where
  "getCiphertextSize L = lwe_polyDegree L * 64 * 2 * lwe_nbModuli L"

definition getCiphertextBitsize :: "lwe \<Rightarrow> nat" where
  "getCiphertextBitsize L = getModulusRepresentationBitsize L * lwe_polyDegree L * 2"

definition getCiphBitsizeFromRecLvl :: "lwe \<Rightarrow> nat \<Rightarrow> nat" where
  "getCiphBitsizeFromRecLvl L d = getCiphertextBitsize L"

definition getQuerySizeFromRecLvl :: "lwe \<Rightarrow> nat \<Rightarrow> nat" where
  "getQuerySizeFromRecLvl L d = getCiphertextBitsize L"

definition getSerializedParams :: "lwe \<Rightarrow> bool \<Rightarrow> string" where
  "getSerializedParams L shortversion =
     ''LWE'' @ '':'' @ to_string (securityBits L) @ '':'' @ to_string (lwe_polyDegree L) @ '':'' @
     to_string (getmodulusBitsize L) @
     (if shortversion then []
      else if absPerCoordinateBitsize L = - 1 then '':?''
      else '':'' @ to_string_int (absPerCoordinateBitsize L))"

section \<open>Parameterisation\<close>

text \<open>\<open>A_bits\<close>: the plaintext bits of one coefficient.\<close>

definition A_bits :: "lwe \<Rightarrow> nat" where
  "A_bits L = getAbsorptionBitsize L div lwe_polyDegree L"

text \<open>
  \<open>recomputeNoiseAmplifiers\<close>: the loop over the moduli threads the two big integers
  \<open>tmpz1\<close> (initially 0) and \<open>tmpz2\<close> as the code does.
\<close>

definition recomputeNoiseAmplifiers :: "lwe \<Rightarrow> lwe" where
  "recomputeNoiseAmplifiers L =
     (let bits = A_bits L;
          (tmpz1, tmpz2, am, ams) =
            fold (\<lambda>cm (tmpz1 :: nat, tmpz2 :: nat, am, ams).
              let tmpz2 = (2 :: nat) ^ bits;
                  tmpz2 = unat (lwe_moduli L ! cm);
                  tmpz1 = tmpz1 mod tmpz2;
                  a = (of_nat tmpz1 :: u64)
              in (tmpz1, tmpz2, am[cm := a], ams[cm := shoup_quotient a (lwe_moduli L ! cm)]))
              [0..<lwe_nbModuli L]
              (0, 0, Abit_mod L, Abit_mod_shoup L)
      in L \<lparr> Abit_mod := am, Abit_mod_shoup := ams \<rparr>)"

definition clearSecretKeys :: "lwe \<Rightarrow> lwe" where
  "clearSecretKeys L =
     (if oldNbModuli L = 0 then L
      else L \<lparr> Abit_mod := [], Abit_mod_shoup := [], secretKey := [], secretKeyShoup := [],
               oldNbModuli := 0 \<rparr>)"

text \<open>\<open>rnd\<close> are the random words of the secret key.\<close>

definition lwe_setNewParameters ::
    "(int \<Rightarrow> int \<Rightarrow> int) \<Rightarrow> u64 list \<Rightarrow> nat \<Rightarrow> nat \<Rightarrow> int \<Rightarrow> lwe \<Rightarrow> nfl_error + lwe" where
  "lwe_setNewParameters mpz_invert rnd degree modulusBits absPC L =
     (let L = L \<lparr> absPerCoordinateBitsize := absPC,
                  noise_ub := of_nat (5 * securityBits L div 2),
                  lwe_polyDegree := degree \<rparr>
      in case setNewParameters mpz_invert degree modulusBits (nflInstance L) of
           Inl e \<Rightarrow> Inl e
         | Inr nfl \<Rightarrow>
             (let L = clearSecretKeys (L \<lparr> nflInstance := nfl \<rparr>);
                  nb = getnbModuli nfl;
                  md = getmoduli nfl;
                  key = allocBoundedRandomPoly nfl 0 True rnd;
                  sk = map (\<lambda>cm. slice degree cm key) [0..<nb];
                  sks = map (\<lambda>cm. map (\<lambda>i. shoup_quotient (sk ! cm ! i) (md ! cm)) [0..<degree]) [0..<nb]
              in Inr (recomputeNoiseAmplifiers
                   (L \<lparr> lwe_nbModuli := nb, oldNbModuli := nb, lwe_moduli := md,
                        secretKey := sk, secretKeyShoup := sks,
                        Abit_mod := replicate nb 0, Abit_mod_shoup := replicate nb 0 \<rparr>))))"

text \<open>The descriptor \<open>name:k:polyDegree:modulusBitsize[:absorption]\<close>.\<close>

definition lwe_setNewParameters_str ::
    "(int \<Rightarrow> int \<Rightarrow> int) \<Rightarrow> u64 list \<Rightarrow> string \<Rightarrow> lwe \<Rightarrow> nfl_error + lwe" where
  "lwe_setNewParameters_str mpz_invert rnd descriptor L =
     (let fields = split_on (CHR '':'') descriptor;
          L = L \<lparr> securityBits := nat (atoi (fields ! 1)) \<rparr>;
          degree = nat (atoi (fields ! 2));
          bits = nat (atoi (fields ! 3));
          absPC = (if length fields \<ge> 5 then atoi (fields ! 4) else - 1)
      in lwe_setNewParameters mpz_invert rnd degree bits absPC L)"

text \<open>
  \<open>setandgetAbsBitPerCiphertext\<close>: \<open>floor((p - 1 - log2(s) - log2(B) - log2(n)) / 2)\<close> is the
  greatest \<open>k\<close> with \<open>4^k s B n <= 2^(p-1)\<close>; the code computes it in \<open>double\<close>s, the model exactly.
\<close>

definition abs_bits :: "nat \<Rightarrow> nat \<Rightarrow> int" where
  "abs_bits p_size t =
     (if t \<le> 2 ^ (p_size - 1) then int (bit_scan_reverse (2 ^ (p_size - 1) div t) div 2)
      else - int ((log2_ceil (ceil_div t (2 ^ (p_size - 1))) + 1) div 2))"

definition setandgetAbsBitPerCiphertext :: "nat \<Rightarrow> lwe \<Rightarrow> int \<times> lwe" where
  "setandgetAbsBitPerCiphertext elt_nbr L =
     (let nbr_bit = abs_bits (getmodulusBitsize L) (elt_nbr * unat (noise_ub L) * lwe_polyDegree L);
          L = recomputeNoiseAmplifiers (L \<lparr> absPerCoordinateBitsize := nbr_bit \<rparr>)
      in (nbr_bit, L))"

definition lwe_setpolyDegree :: "(int \<Rightarrow> int \<Rightarrow> int) \<Rightarrow> nat \<Rightarrow> lwe \<Rightarrow> lwe" where
  "lwe_setpolyDegree mpz_invert degree L =
     L \<lparr> lwe_polyDegree := degree, nflInstance := setpolyDegree mpz_invert degree (nflInstance L) \<rparr>"

section \<open>Operations on ciphertexts\<close>

definition lwe_add :: "lwe \<Rightarrow> lwe_cipher \<Rightarrow> lwe_cipher \<Rightarrow> lwe_cipher \<Rightarrow> lwe_cipher" where
  "lwe_add L rop op1 op2 =
     \<lparr> cipher_a = addmodPoly (nflInstance L) (cipher_a rop) (cipher_a op1) (cipher_a op2),
       cipher_b = addmodPoly (nflInstance L) (cipher_b rop) (cipher_b op1) (cipher_b op2) \<rparr>"

definition lwe_sub :: "lwe \<Rightarrow> lwe_cipher \<Rightarrow> lwe_cipher \<Rightarrow> lwe_cipher \<Rightarrow> lwe_cipher" where
  "lwe_sub L rop op1 op2 =
     \<lparr> cipher_a = submodPoly (nflInstance L) (cipher_a rop) (cipher_a op1) (cipher_a op2),
       cipher_b = submodPoly (nflInstance L) (cipher_b rop) (cipher_b op1) (cipher_b op2) \<rparr>"

text \<open>The loops over the object's own \<open>nbModuli\<close>, \<open>polyDegree\<close> and \<open>moduli\<close>.\<close>

definition lwe_shape :: "lwe \<Rightarrow> NFLlib" where
  "lwe_shape L = (nflInstance L) \<lparr> nbModuli := lwe_nbModuli L, polyDegree := lwe_polyDegree L,
     moduli := lwe_moduli L \<rparr>"

text \<open>The Shoup version of \<open>mulandadd\<close>: \<open>op2prime\<close> holds the pre-computed quotients of \<open>op2\<close>.\<close>

definition lwe_mulandadd_shoup ::
    "lwe \<Rightarrow> lwe_cipher \<Rightarrow> lwe_in_data \<Rightarrow> lwe_cipher \<Rightarrow> lwe_cipher \<Rightarrow> nat \<Rightarrow> lwe_cipher" where
  "lwe_mulandadd_shoup L rop op1 op2 op2prime current_poly =
     (let d = op1 ! current_poly in
      \<lparr> cipher_a = poly_loop (lwe_shape L)
          (\<lambda>p j r. mulandaddShoup r (d ! j) (cipher_a op2 ! j) (cipher_a op2prime ! j) p) (cipher_a rop),
        cipher_b = poly_loop (lwe_shape L)
          (\<lambda>p j r. mulandaddShoup r (d ! j) (cipher_b op2 ! j) (cipher_b op2prime ! j) p) (cipher_b rop) \<rparr>)"

definition lwe_mul ::
    "lwe \<Rightarrow> lwe_cipher \<Rightarrow> lwe_in_data \<Rightarrow> lwe_cipher \<Rightarrow> lwe_cipher \<Rightarrow> nat \<Rightarrow> lwe_cipher" where
  "lwe_mul L rop op1 op2 op2prime current_poly =
     (let d = op1 ! current_poly in
      \<lparr> cipher_a = poly_loop (lwe_shape L)
          (\<lambda>p j r. mulmodShoup (d ! j) (cipher_a op2 ! j) (cipher_a op2prime ! j) p) (cipher_a rop),
        cipher_b = poly_loop (lwe_shape L)
          (\<lambda>p j r. mulmodShoup (d ! j) (cipher_b op2 ! j) (cipher_b op2prime ! j) p) (cipher_b rop) \<rparr>)"

definition mulandaddCiphertextNTT ::
    "lwe \<Rightarrow> lwe_cipher \<Rightarrow> lwe_in_data \<Rightarrow> lwe_cipher \<Rightarrow> nat \<Rightarrow> lwe_cipher" where
  "mulandaddCiphertextNTT L rop op1 op2 current_poly =
     \<lparr> cipher_a = mulandaddPolyNTT (nflInstance L) (cipher_a rop) (op1 ! current_poly) (cipher_a op2),
       cipher_b = mulandaddPolyNTT (nflInstance L) (cipher_b rop) (op1 ! current_poly) (cipher_b op2) \<rparr>"

definition mulandaddCiphertextNTT_all ::
    "lwe \<Rightarrow> lwe_cipher \<Rightarrow> lwe_in_data \<Rightarrow> lwe_cipher \<Rightarrow> lwe_cipher" where
  "mulandaddCiphertextNTT_all L rop op1 op2 =
     fold (\<lambda>i rop. mulandaddCiphertextNTT L rop op1 op2 i) [0..<length op1] rop"

definition lwe_mulandadd ::
    "lwe \<Rightarrow> lwe_cipher \<Rightarrow> lwe_in_data \<Rightarrow> lwe_cipher \<Rightarrow> nat \<Rightarrow> lwe_cipher" where
  "lwe_mulandadd L rop op1 op2 current_poly = mulandaddCiphertextNTT L rop op1 op2 current_poly"

section \<open>Encryption\<close>

text \<open>The noise times the amplifier plus the message, cell \<open>j\<close>.\<close>

definition noisy_cell :: "lwe \<Rightarrow> u64 list \<Rightarrow> u64 \<Rightarrow> nat \<Rightarrow> u64 \<Rightarrow> u64" where
  "noisy_cell L m p j e =
     (let cm = j div lwe_polyDegree L;
          t = mulmodShoup e (Abit_mod L ! cm) (Abit_mod_shoup L ! cm) p;
          t = addmod t (m ! j) p
      in if t > p then t - p else t)"

text \<open>\<open>rnd_b\<close> are the random words of the noise, \<open>rnd_a\<close> those of the uniform part.\<close>

definition enc :: "lwe \<Rightarrow> u64 list \<Rightarrow> u64 list \<Rightarrow> u64 list \<Rightarrow> lwe_cipher" where
  "enc L rnd_b rnd_a m =
     (let n = lwe_polyDegree L;
          z = replicate (n * lwe_nbModuli L) 0;
          berr = noise_ub L;
          b = setBoundedRandomPoly (nflInstance L) z (2 * berr - 1) False rnd_b;
          b = poly_loop (lwe_shape L) (noisy_cell L m) b;
          b = nttAndPowPhi (nflInstance L) b;
          a = setBoundedRandomPoly (nflInstance L) z 0 True rnd_a;
          b = poly_loop (lwe_shape L) (\<lambda>p j v.
                mulandaddShoup v (a ! j) (secretKey L ! (j div n) ! (j mod n))
                  (secretKeyShoup L ! (j div n) ! (j mod n)) p mod p) b;
          a = poly_loop (lwe_shape L) (\<lambda>p j v. v mod p) a
      in \<lparr> cipher_a = a, cipher_b = b \<rparr>)"

text \<open>\<open>encrypt (ui, d)\<close>: the constant polynomial, reduced when it does not fit.\<close>

definition encrypt_uint_arg :: "lwe \<Rightarrow> u32 \<Rightarrow> u32" where
  "encrypt_uint_arg L ui =
     (if ui \<noteq> 0 \<and> log2_ceil (unat ui) \<ge> getAbsorptionBitsize L
      then ui mod push_bit (getAbsorptionBitsize L) 1 else ui)"

definition constant_poly :: "lwe \<Rightarrow> u64 \<Rightarrow> u64 list" where
  "constant_poly L v =
     fold (\<lambda>cm m. m[cm * lwe_polyDegree L := v]) [0..<lwe_nbModuli L]
       (replicate (lwe_nbModuli L * lwe_polyDegree L) 0)"

definition encrypt_uint :: "lwe \<Rightarrow> u64 list \<Rightarrow> u64 list \<Rightarrow> u32 \<Rightarrow> lwe_cipher" where
  "encrypt_uint L rnd_b rnd_a ui =
     enc L rnd_b rnd_a (constant_poly L (ucast (encrypt_uint_arg L ui)))"

text \<open>Writing coefficient \<open>j\<close> of every residue polynomial.\<close>

definition set_coefficient :: "lwe \<Rightarrow> nat \<Rightarrow> u64 \<Rightarrow> u64 list \<Rightarrow> u64 list" where
  "set_coefficient L j v m =
     fold (\<lambda>cm m. m[cm * lwe_polyDegree L + j := v]) [0..<lwe_nbModuli L] m"

text \<open>\<open>encryptsub\<close>: little-endian coefficients of \<open>s_coef\<close> bytes, \<open>polyDegree\<close> per ciphertext.\<close>

definition le_bytes :: "u8 list \<Rightarrow> nat \<Rightarrow> nat \<Rightarrow> u64" where
  "le_bytes data base s = fold (\<lambda>i ui. push_bit 8 ui OR ucast (data ! (base + i))) (rev [0..<s - 1])
     (ucast (data ! (base + (s - 1))))"

definition encryptsub_poly :: "lwe \<Rightarrow> u8 list \<Rightarrow> nat \<Rightarrow> nat \<Rightarrow> nat \<Rightarrow> u64 list" where
  "encryptsub_poly L data s_coef nb_coef l =
     fold (\<lambda>j m. set_coefficient L j
             (le_bytes data (j * s_coef + l * s_coef * lwe_polyDegree L) s_coef) m)
       [0..<min (lwe_polyDegree L) (nb_coef - l * lwe_polyDegree L)]
       (replicate (lwe_nbModuli L * lwe_polyDegree L) 0)"

definition encryptsub ::
    "lwe \<Rightarrow> (nat \<Rightarrow> u64 list) \<Rightarrow> (nat \<Rightarrow> u64 list) \<Rightarrow> u8 list \<Rightarrow> nat \<Rightarrow> nat \<Rightarrow> lwe_cipher list" where
  "encryptsub L rnd_b rnd_a data s_coef nb_coef =
     map (\<lambda>l. enc L (rnd_b l) (rnd_a l) (encryptsub_poly L data s_coef nb_coef l))
       [0..<nb_coef div lwe_polyDegree L + 1]"

text \<open>\<open>encrypt (char*, s_hash, s_list)\<close>: the bytes are \<open>char\<close>s and widen with their sign.\<close>

definition hash_coefficient :: "u8 list \<Rightarrow> nat \<Rightarrow> nat \<Rightarrow> u64" where
  "hash_coefficient data s_hash j =
     fold (\<lambda>i ui.
       let ui = (if i = 0 then scast (data ! (i + j * s_hash)) else ui)
       in push_bit 8 ui OR scast (data ! (i + j * s_hash))) [0..<s_hash] 0"

definition encrypt_hashes ::
    "lwe \<Rightarrow> u64 list \<Rightarrow> u64 list \<Rightarrow> u8 list \<Rightarrow> nat \<Rightarrow> nat \<Rightarrow> lwe_cipher" where
  "encrypt_hashes L rnd_b rnd_a data s_hash s_list =
     enc L rnd_b rnd_a
       (fold (\<lambda>j m. set_coefficient L j (hash_coefficient data s_hash j) m) [0..<s_list]
         (replicate (lwe_nbModuli L * lwe_polyDegree L) 0))"

text \<open>\<open>rnd_m\<close> are the random words of the plaintext.\<close>

definition encrypt_perftest :: "lwe \<Rightarrow> u64 list \<Rightarrow> u64 list \<Rightarrow> u64 list \<Rightarrow> lwe_cipher" where
  "encrypt_perftest L rnd_m rnd_b rnd_a = enc L rnd_b rnd_a (allocBoundedRandomPoly (nflInstance L) 0 True rnd_m)"

section \<open>Decryption\<close>

text \<open>The amplified noise plus message, out of the transformed domain.\<close>

definition dec_phase :: "lwe \<Rightarrow> lwe_cipher \<Rightarrow> u64 list" where
  "dec_phase L c =
     (let n = lwe_polyDegree L;
          m = poly_loop (lwe_shape L) (\<lambda>p j _.
                submod (cipher_b c ! j)
                  (mulandaddShoup 0 (cipher_a c ! j) (secretKey L ! (j div n) ! (j mod n))
                    (secretKeyShoup L ! (j div n) ! (j mod n)) p) p)
                (replicate (n * lwe_nbModuli L) 0)
      in invnttAndPowInvPhi (nflInstance L) m)"

text \<open>The output buffer of \<open>dec\<close>: 64-bit words with one modulus, 32-bit words with several.\<close>

datatype clear_data = Clear64 "u64 list" | Clear32 "u32 list"

definition dec_single :: "lwe \<Rightarrow> u64 list \<Rightarrow> u64 list" where
  "dec_single L m =
     (let bitmask = push_bit (A_bits L) 1 - 1;
          p = lwe_moduli L ! 0;
          magicConst = push_bit 61 1 - p
      in map (\<lambda>v. if v > p div 2 then (v + magicConst) AND bitmask else v AND bitmask)
           (take (lwe_polyDegree L) m))"

text \<open>\<open>mpz_export\<close> of a number below \<open>2^(32 k)\<close>, least significant 32-bit word first.\<close>

definition export32 :: "nat \<Rightarrow> int \<Rightarrow> u32 list" where
  "export32 k z = map (\<lambda>w. word_of_int (z div 2 ^ (32 * w))) [0..<k]"

definition dec_multi_coeff :: "lwe \<Rightarrow> int \<Rightarrow> int" where
  "dec_multi_coeff L z =
     (let product = copymoduliProduct (nflInstance L);
          magicConst = 2 ^ ((kModulusBitsize + 1) * lwe_nbModuli L) - product;
          bitmask = 2 ^ A_bits L - 1
      in if 2 * z > product then (z + magicConst) AND bitmask else z AND bitmask)"

definition dec_multi :: "lwe \<Rightarrow> u64 list \<Rightarrow> u32 list" where
  "dec_multi L m =
     (let words = concat (map (\<lambda>z. export32 (ceil_div (A_bits L) 32) (dec_multi_coeff L z))
                    (poly2mpz (nflInstance L) m))
      in words @ replicate (2 * (lwe_polyDegree L * lwe_nbModuli L) - length words) 0)"

definition dec :: "lwe \<Rightarrow> lwe_cipher \<Rightarrow> clear_data" where
  "dec L c =
     (let m = dec_phase L c
      in if lwe_nbModuli L > 1 then Clear32 (dec_multi L m) else Clear64 (dec_single L m))"

end
