(* ===== verification/NFLLWECorrect.thy ===== *)
theory NFLLWECorrect
  imports NFLLWE
begin

text \<open>
  Correctness of the LWE cryptosystem: what parameterisation establishes (\<open>lwe_ok\<close>), what a
  ciphertext stands for (\<open>encrypts\<close>), and that encryption, the homomorphic operations and decryption
  agree on it.
\<close>

section \<open>The noise amplifiers\<close>

lemma noise_loop:
  fixes md :: "nat \<Rightarrow> u64" and t2 bits :: nat
  assumes "m \<le> length am" "m \<le> length ams"
  defines "r \<equiv> fold (\<lambda>cm (tmpz1 :: nat, tmpz2 :: nat, am, ams).
              let tmpz2 = (2 :: nat) ^ bits;
                  tmpz2 = unat (md cm);
                  tmpz1 = tmpz1 mod tmpz2;
                  a = (of_nat tmpz1 :: u64)
              in (tmpz1, tmpz2, am[cm := a], ams[cm := shoup_quotient a (md cm)]))
              [0..<m] (0, t2, am, ams)"
  shows "fst r = 0 \<and> length (fst (snd (snd r))) = length am \<and> length (snd (snd (snd r))) = length ams \<and>
    (\<forall>cm < m. fst (snd (snd r)) ! cm = 0 \<and> snd (snd (snd r)) ! cm = shoup_quotient 0 (md cm))"
  using assms(1,2) unfolding r_def
proof (induction m)
  case 0
  then show ?case by simp
next
  case (Suc m)
  let ?F = "\<lambda>cm (tmpz1 :: nat, tmpz2 :: nat, am, ams).
              let tmpz2 = (2 :: nat) ^ bits;
                  tmpz2 = unat (md cm);
                  tmpz1 = tmpz1 mod tmpz2;
                  a = (of_nat tmpz1 :: u64)
              in (tmpz1, tmpz2, am[cm := a], ams[cm := shoup_quotient a (md cm)])"
  obtain z1 z2 a b where r: "fold ?F [0..<m] (0, t2, am, ams) = (z1, z2, a, b)"
    by (cases "fold ?F [0..<m] (0, t2, am, ams)" rule: prod_cases4)
  have "z1 = 0" "length a = length am" "length b = length ams"
    "\<forall>cm < m. a ! cm = 0 \<and> b ! cm = shoup_quotient 0 (md cm)"
    using Suc.IH Suc.prems unfolding r by simp_all
  moreover have "fold ?F [0..<Suc m] (0, t2, am, ams) = ?F m (z1, z2, a, b)"
    by (simp only: fold_upt_Suc r)
  ultimately show ?case
    using Suc.prems by (auto simp: nth_list_update less_Suc_eq)
qed

lemma recompute_amplifiers:
  assumes "length (Abit_mod L) = lwe_nbModuli L" "length (Abit_mod_shoup L) = lwe_nbModuli L"
  shows "Abit_mod (recomputeNoiseAmplifiers L) = replicate (lwe_nbModuli L) 0"
    "length (Abit_mod_shoup (recomputeNoiseAmplifiers L)) = lwe_nbModuli L"
    "cm < lwe_nbModuli L \<Longrightarrow> Abit_mod_shoup (recomputeNoiseAmplifiers L) ! cm = shoup_quotient 0 (lwe_moduli L ! cm)"
proof -
  note nl = noise_loop [of "lwe_nbModuli L" "Abit_mod L" "Abit_mod_shoup L" "A_bits L" "\<lambda>cm. lwe_moduli L ! cm" 0]
  let ?L = "recomputeNoiseAmplifiers L"
  have *: "length (Abit_mod ?L) = lwe_nbModuli L" "length (Abit_mod_shoup ?L) = lwe_nbModuli L"
    "\<forall>cm < lwe_nbModuli L. Abit_mod ?L ! cm = 0 \<and> Abit_mod_shoup ?L ! cm = shoup_quotient 0 (lwe_moduli L ! cm)"
    using nl assms by (simp_all add: recomputeNoiseAmplifiers_def split_beta Let_def)
  then show "Abit_mod ?L = replicate (lwe_nbModuli L) 0"
    by (intro nth_equalityI) simp_all
  show "length (Abit_mod_shoup ?L) = lwe_nbModuli L" by (rule *)
  show "cm < lwe_nbModuli L \<Longrightarrow> Abit_mod_shoup ?L ! cm = shoup_quotient 0 (lwe_moduli L ! cm)"
    using * by blast
qed

lemma recompute_simps [simp]:
  "nflInstance (recomputeNoiseAmplifiers L) = nflInstance L"
  "lwe_nbModuli (recomputeNoiseAmplifiers L) = lwe_nbModuli L"
  "lwe_polyDegree (recomputeNoiseAmplifiers L) = lwe_polyDegree L"
  "lwe_moduli (recomputeNoiseAmplifiers L) = lwe_moduli L"
  "secretKey (recomputeNoiseAmplifiers L) = secretKey L"
  "secretKeyShoup (recomputeNoiseAmplifiers L) = secretKeyShoup L"
  "noise_ub (recomputeNoiseAmplifiers L) = noise_ub L"
  "securityBits (recomputeNoiseAmplifiers L) = securityBits L"
  "absPerCoordinateBitsize (recomputeNoiseAmplifiers L) = absPerCoordinateBitsize L"
  by (simp_all add: recomputeNoiseAmplifiers_def split_beta Let_def)

section \<open>Well-formed objects\<close>

definition lwe_ok :: "lwe \<Rightarrow> nat \<Rightarrow> bool" where
  "lwe_ok L k \<longleftrightarrow> ntt_ready (nflInstance L) k \<and> lwe_polyDegree L = 2 ^ k \<and>
     lwe_nbModuli L = nbModuli (nflInstance L) \<and> lwe_moduli L = moduli (nflInstance L) \<and>
     (\<forall>cm < lwe_nbModuli L. \<forall>i < 2 ^ k.
        unat (secretKey L ! cm ! i) < unat (lwe_moduli L ! cm) \<and>
        secretKeyShoup L ! cm ! i = shoup_quotient (secretKey L ! cm ! i) (lwe_moduli L ! cm)) \<and>
     (\<forall>cm < lwe_nbModuli L.
        unat (Abit_mod L ! cm) < unat (lwe_moduli L ! cm) \<and>
        Abit_mod_shoup L ! cm = shoup_quotient (Abit_mod L ! cm) (lwe_moduli L ! cm))"

lemma lwe_okD:
  assumes "lwe_ok L k"
  shows "ntt_ready (nflInstance L) k" "lwe_polyDegree L = 2 ^ k" "lwe_nbModuli L = nbModuli (nflInstance L)"
    "lwe_moduli L = moduli (nflInstance L)" "lwe_shape L = nflInstance L"
    "cm < lwe_nbModuli L \<Longrightarrow> i < 2 ^ k \<Longrightarrow> unat (secretKey L ! cm ! i) < unat (moduli (nflInstance L) ! cm)"
    "cm < lwe_nbModuli L \<Longrightarrow> i < 2 ^ k \<Longrightarrow>
      secretKeyShoup L ! cm ! i = shoup_quotient (secretKey L ! cm ! i) (moduli (nflInstance L) ! cm)"
    "cm < lwe_nbModuli L \<Longrightarrow> unat (Abit_mod L ! cm) < unat (moduli (nflInstance L) ! cm)"
    "cm < lwe_nbModuli L \<Longrightarrow>
      Abit_mod_shoup L ! cm = shoup_quotient (Abit_mod L ! cm) (moduli (nflInstance L) ! cm)"
proof -
  show r: "ntt_ready (nflInstance L) k" using assms by (simp add: lwe_ok_def)
  show s: "lwe_polyDegree L = 2 ^ k" "lwe_nbModuli L = nbModuli (nflInstance L)"
    "lwe_moduli L = moduli (nflInstance L)"
    using assms by (simp_all add: lwe_ok_def)
  show "lwe_shape L = nflInstance L"
    using s ntt_readyD(1) [OF r] by (simp add: lwe_shape_def)
qed (use assms in \<open>auto simp: lwe_ok_def\<close>)

lemma lwe_prime:
  assumes "lwe_ok L k" "cm < lwe_nbModuli L"
  shows "0 < unat (moduli (nflInstance L) ! cm)" "unat (moduli (nflInstance L) ! cm) < 2 ^ 61"
    "unat (moduli (nflInstance L) ! cm) < 2 ^ 63"
  using ntt_readyD(3) [OF lwe_okD(1) [OF assms(1)], of cm] assms(2) lwe_okD(3) [OF assms(1)] by simp_all

text \<open>Cells of the flat representation.\<close>

lemma cell_index:
  assumes "cm < nb" "j < (2 :: nat) ^ k"
  shows "cm * 2 ^ k + j < nb * 2 ^ k" "(cm * 2 ^ k + j) div 2 ^ k = cm" "(cm * 2 ^ k + j) mod 2 ^ k = j"
  using slice_bound [OF assms(1), of "2 ^ k" "nb * 2 ^ k"] assms(2) by simp_all

lemma nth_poly_loop_cell:
  assumes "ntt_ready nfl k" "length rop = nbModuli nfl * 2 ^ k" "cm < nbModuli nfl" "j < 2 ^ k"
  shows "poly_loop nfl g rop ! (cm * 2 ^ k + j) =
    g (moduli nfl ! cm) (cm * 2 ^ k + j) (rop ! (cm * 2 ^ k + j))"
  using nth_poly_loop [of nfl rop "cm * 2 ^ k + j" g] cell_index [OF assms(3,4)]
    ntt_readyD(1) [OF assms(1)] assms(2) by simp

text \<open>A polynomial cell by cell.\<close>

definition cells :: "NFLlib \<Rightarrow> nat \<Rightarrow> u64 list \<Rightarrow> (u64 \<Rightarrow> u64 \<Rightarrow> bool) \<Rightarrow> bool" where
  "cells nfl k x P \<longleftrightarrow> length x = nbModuli nfl * 2 ^ k \<and>
     (\<forall>cm < nbModuli nfl. \<forall>j < 2 ^ k. P (moduli nfl ! cm) (x ! (cm * 2 ^ k + j)))"

lemma cells_split:
  assumes "ntt_ready nfl k"
  shows "cells nfl k x P \<longleftrightarrow> length x = nbModuli nfl * 2 ^ k \<and>
    (\<forall>j < length x. P (moduli nfl ! (j div polyDegree nfl)) (x ! j))"
proof -
  have n: "polyDegree nfl = 2 ^ k" by (rule ntt_readyD(1) [OF assms])
  show ?thesis
  proof (intro iffI conjI allI impI)
    assume c: "cells nfl k x P"
    then show l: "length x = nbModuli nfl * 2 ^ k" by (simp add: cells_def)
    fix j assume "j < length x"
    then have "j div 2 ^ k < nbModuli nfl" using l by (simp add: less_mult_imp_div_less)
    moreover have "j mod 2 ^ k < 2 ^ k" by simp
    ultimately have "P (moduli nfl ! (j div 2 ^ k)) (x ! (j div 2 ^ k * 2 ^ k + j mod 2 ^ k))"
      using c unfolding cells_def by blast
    then show "P (moduli nfl ! (j div polyDegree nfl)) (x ! j)" by (simp only: n div_mult_mod_eq)
  next
    assume "length x = nbModuli nfl * 2 ^ k \<and> (\<forall>j < length x. P (moduli nfl ! (j div polyDegree nfl)) (x ! j))"
    then show "cells nfl k x P" unfolding cells_def n using cell_index by metis
  qed
qed

lemma ntt_form_cells: "ntt_ready nfl k \<Longrightarrow> ntt_form nfl x \<longleftrightarrow> cells nfl k x lazy"
  by (subst cells_split) (simp_all add: ntt_form_def ntt_readyD(1))

lemma reduced_cells: "ntt_ready nfl k \<Longrightarrow> reduced nfl x \<longleftrightarrow> cells nfl k x (\<lambda>p v. unat v < unat p)"
  by (subst cells_split) (simp_all add: reduced_def ntt_readyD(1))

lemma cells_poly_loop:
  assumes "ntt_ready nfl k" "length rop = nbModuli nfl * 2 ^ k"
    and "\<And>cm j. cm < nbModuli nfl \<Longrightarrow> j < 2 ^ k \<Longrightarrow>
      P (moduli nfl ! cm) (g (moduli nfl ! cm) (cm * 2 ^ k + j) (rop ! (cm * 2 ^ k + j)))"
  shows "cells nfl k (poly_loop nfl g rop) P"
  using assms by (simp add: cells_def nth_poly_loop_cell)

lemma cells_mono: "cells nfl k x P \<Longrightarrow> (\<And>p v. P p v \<Longrightarrow> Q p v) \<Longrightarrow> cells nfl k x Q"
  by (simp add: cells_def)

section \<open>What a ciphertext stands for\<close>

text \<open>\<open>b - a s\<close> in cell \<open>j\<close> of modulus \<open>cm\<close>, and the polynomials it is the transform of.\<close>

definition phase :: "lwe \<Rightarrow> nat \<Rightarrow> lwe_cipher \<Rightarrow> nat \<Rightarrow> nat \<Rightarrow> int" where
  "phase L k c cm j = ival (cipher_b c ! (cm * 2 ^ k + j)) -
     ival (cipher_a c ! (cm * 2 ^ k + j)) * ival (secretKey L ! cm ! j)"

definition encrypts :: "lwe \<Rightarrow> nat \<Rightarrow> lwe_cipher \<Rightarrow> (nat \<Rightarrow> nat \<Rightarrow> int) \<Rightarrow> bool" where
  "encrypts L k c v \<longleftrightarrow>
     length (cipher_a c) = lwe_nbModuli L * 2 ^ k \<and> length (cipher_b c) = lwe_nbModuli L * 2 ^ k \<and>
     (\<forall>cm < lwe_nbModuli L. \<forall>phi psi ninv. slice_tables (nflInstance L) k cm phi psi ninv \<longrightarrow>
       (\<forall>j < 2 ^ k. modeq (ival (moduli (nflInstance L) ! cm)) (phase L k c cm j)
          (eval_at (v cm) phi (2 ^ k) (rev_bits k j))))"

lemma encryptsI:
  assumes "length (cipher_a c) = lwe_nbModuli L * 2 ^ k" "length (cipher_b c) = lwe_nbModuli L * 2 ^ k"
    and "\<And>cm phi psi ninv j. cm < lwe_nbModuli L \<Longrightarrow> slice_tables (nflInstance L) k cm phi psi ninv \<Longrightarrow>
      j < 2 ^ k \<Longrightarrow> modeq (ival (moduli (nflInstance L) ! cm)) (phase L k c cm j)
          (eval_at (v cm) phi (2 ^ k) (rev_bits k j))"
  shows "encrypts L k c v"
  using assms unfolding encrypts_def by blast

lemma encryptsD:
  assumes "encrypts L k c v" "cm < lwe_nbModuli L" "slice_tables (nflInstance L) k cm phi psi ninv" "j < 2 ^ k"
  shows "modeq (ival (moduli (nflInstance L) ! cm)) (phase L k c cm j)
    (eval_at (v cm) phi (2 ^ k) (rev_bits k j))"
  using assms unfolding encrypts_def by blast

lemma encrypts_modeq:
  assumes "encrypts L k c v" "\<And>cm i. cm < lwe_nbModuli L \<Longrightarrow> i < 2 ^ k \<Longrightarrow>
    modeq (ival (moduli (nflInstance L) ! cm)) (v cm i) (v' cm i)"
  shows "encrypts L k c v'"
proof (rule encryptsI)
  fix cm phi psi ninv and j :: nat
  assume a: "cm < lwe_nbModuli L" "slice_tables (nflInstance L) k cm phi psi ninv" "j < 2 ^ k"
  show "modeq (ival (moduli (nflInstance L) ! cm)) (phase L k c cm j) (eval_at (v' cm) phi (2 ^ k) (rev_bits k j))"
    by (rule modeq_trans [OF encryptsD [OF assms(1) a]]) (rule eval_at_modeq, rule assms(2) [OF a(1)])
qed (use assms(1) in \<open>simp_all add: encrypts_def\<close>)

section \<open>Decryption of the phase\<close>

lemma submod_lazy:
  assumes "unat p < 2 ^ 61" "lazy p x" "unat y < unat p"
  shows "lazy p (submod x y p)"
proof -
  let ?a = "if y < p then p - y else p - (y mod p)"
  have a: "unat ?a = unat p - unat y"
    using unat_submod_arg [of p y] assms(3) by simp
  have "unat x + unat ?a < 2 ^ 64" using assms unfolding a lazy_def by simp
  from unat_addmod [OF this, of p] show ?thesis
    using assms(2,3) unfolding submod_eq_addmod a lazy_def by auto
qed

lemma mul_key:
  assumes "lwe_ok L k" "cm < lwe_nbModuli L" "j < 2 ^ k"
  defines "p \<equiv> moduli (nflInstance L) ! cm"
  shows "unat (mulandaddShoup 0 x (secretKey L ! cm ! j) (secretKeyShoup L ! cm ! j) p) =
    (unat x * unat (secretKey L ! cm ! j)) mod unat p"
  unfolding lwe_okD(7) [OF assms(1-3)] p_def
  by (rule mulandaddShoup_zero [OF lwe_okD(6) [OF assms(1-3)] lwe_prime(3) [OF assms(1,2)]])

lemma length_dec_phase_input:
  assumes "lwe_ok L k"
  shows "length (replicate (lwe_polyDegree L * lwe_nbModuli L) (0 :: u64)) = nbModuli (nflInstance L) * 2 ^ k"
  using lwe_okD(2,3) [OF assms] by simp

lemma dec_phase_correct:
  assumes ok: "lwe_ok L k" and e: "encrypts L k c v" and b: "ntt_form (nflInstance L) (cipher_b c)"
    and cm: "cm < lwe_nbModuli L" and i: "i < 2 ^ k"
  shows "coeff (nflInstance L) (dec_phase L c) cm i = v cm i mod ival (moduli (nflInstance L) ! cm)"
proof -
  let ?N = "nflInstance L" and ?n = "lwe_polyDegree L"
  let ?z = "replicate (?n * lwe_nbModuli L) (0 :: u64)"
  let ?g = "\<lambda>p j (_ :: u64). submod (cipher_b c ! j)
      (mulandaddShoup 0 (cipher_a c ! j) (secretKey L ! (j div ?n) ! (j mod ?n))
        (secretKeyShoup L ! (j div ?n) ! (j mod ?n)) p) p"
  note r = lwe_okD(1) [OF ok] and n = lwe_okD(2) [OF ok] and nb = lwe_okD(3) [OF ok]
  have rep: "represents ?N k (poly_loop ?N ?g ?z) v"
  proof (rule represents_loop [OF r length_dec_phase_input [OF ok]])
    have "cells ?N k (cipher_b c) lazy" using b ntt_form_cells [OF r] by simp
    then have bl: "lazy (moduli ?N ! cm) (cipher_b c ! (cm * 2 ^ k + j))"
      if "cm < nbModuli ?N" "j < 2 ^ k" for cm j using that unfolding cells_def by blast
    fix j assume "j < length ?z"
    then have cm: "j div 2 ^ k < nbModuli ?N" and m: "j mod 2 ^ k < 2 ^ k"
      using n nb by (simp_all add: less_mult_imp_div_less mult.commute)
    note pr = lwe_prime [OF ok, of "j div 2 ^ k", unfolded nb, OF cm]
    have t: "unat (mulandaddShoup 0 (cipher_a c ! j) (secretKey L ! (j div 2 ^ k) ! (j mod 2 ^ k))
        (secretKeyShoup L ! (j div 2 ^ k) ! (j mod 2 ^ k)) (moduli ?N ! (j div 2 ^ k))) < unat (moduli ?N ! (j div 2 ^ k))"
      using mul_key [OF ok _ m, of "j div 2 ^ k" "cipher_a c ! j"] cm nb pr(1) by simp
    show "lazy (moduli ?N ! (j div 2 ^ k)) (?g (moduli ?N ! (j div 2 ^ k)) j (?z ! j))"
      unfolding n by (rule submod_lazy [OF pr(2) _ t]) (use bl [OF cm m] in \<open>simp only: div_mult_mod_eq\<close>)
  next
    fix cm' and j :: nat and phi
    let ?j = "cm' * 2 ^ k + j" and ?p = "moduli ?N ! cm'"
    assume cm': "cm' < nbModuli ?N" and j: "j < 2 ^ k"
      and ex: "\<exists>psi ninv. slice_tables ?N k cm' phi psi ninv"
    obtain psi ninv where tb: "slice_tables ?N k cm' phi psi ninv" using ex by blast
    have cmL: "cm' < lwe_nbModuli L" using cm' nb by simp
    note pr = lwe_prime [OF ok cmL]
    note ix = cell_index [OF cm' j]
    let ?t = "mulandaddShoup 0 (cipher_a c ! ?j) (secretKey L ! cm' ! j) (secretKeyShoup L ! cm' ! j) ?p"
    have t: "unat ?t = (unat (cipher_a c ! ?j) * unat (secretKey L ! cm' ! j)) mod unat ?p"
      by (rule mul_key [OF ok cmL j])
    have bl: "lazy ?p (cipher_b c ! ?j)"
      using b cm' j unfolding ntt_form_cells [OF r] cells_def by blast
    have "modeq (ival ?p) (ival (submod (cipher_b c ! ?j) ?t ?p)) (ival (cipher_b c ! ?j) - ival ?t)"
      by (rule submod_modeq [OF pr(1)]) (use bl pr(2) in \<open>simp add: lazy_def\<close>)
    also have "modeq (ival ?p) \<dots> (phase L k c cm' j)"
      unfolding phase_def by (intro modeq_diff modeq_refl) (simp add: t modeq_nat_mod [of _ "_ * _", simplified])
    also have "modeq (ival ?p) \<dots> (eval_at (v cm') phi (2 ^ k) (rev_bits k j))"
      by (rule encryptsD [OF e cmL tb j])
    finally show "modeq (ival ?p) (ival (?g ?p ?j (?z ! ?j))) (eval_at (v cm') phi (2 ^ k) (rev_bits k j))"
      by (simp only: n ix)
  qed
  have "dec_phase L c = invnttAndPowInvPhi ?N (poly_loop ?N ?g ?z)"
    by (simp add: dec_phase_def Let_def lwe_okD(5) [OF ok])
  then show ?thesis
    using invntt_represents [OF r rep _ i, of cm] cm nb by simp
qed

section \<open>Encryption\<close>

text \<open>The value in cell \<open>i\<close>: the amplified noise plus the message.\<close>

definition noise_value :: "lwe \<Rightarrow> u64 list \<Rightarrow> nat \<Rightarrow> int" where
  "noise_value L rnd_b i = ival (mask_reduce (2 * noise_ub L - 1) (rnd_b ! i))"

definition noisy_value :: "lwe \<Rightarrow> u64 list \<Rightarrow> u64 list \<Rightarrow> nat \<Rightarrow> nat \<Rightarrow> int" where
  "noisy_value L rnd_b m cm i =
     ival (Abit_mod L ! cm) * noise_value L rnd_b i + coeff (nflInstance L) m cm i"

lemma noisy_cell_correct:
  assumes ok: "lwe_ok L k" and cm: "cm < lwe_nbModuli L" and i: "i < 2 ^ k"
    and m: "unat (m ! (cm * 2 ^ k + i)) < unat (moduli (nflInstance L) ! cm)"
  defines "p \<equiv> moduli (nflInstance L) ! cm"
  shows "modeq (ival p) (ival (noisy_cell L m p (cm * 2 ^ k + i) e))
    (ival (Abit_mod L ! cm) * ival e + ival (m ! (cm * 2 ^ k + i)))"
proof -
  let ?t = "mulmodShoup e (Abit_mod L ! cm) (Abit_mod_shoup L ! cm) p"
  let ?s = "addmod ?t (m ! (cm * 2 ^ k + i)) p"
  note pr = lwe_prime [OF ok cm, folded p_def]
  have t: "unat ?t = (unat e * unat (Abit_mod L ! cm)) mod unat p"
    unfolding lwe_okD(9) [OF ok cm, folded p_def]
    by (rule unat_mulmodShoup [OF lwe_okD(8) [OF ok cm, folded p_def] pr(3)])
  then have tp: "unat ?t < unat p" using pr(1) by simp
  have "unat ?s < unat p" by (rule addmod_reduced [OF tp _ pr(3)]) (use m p_def in simp)
  then have "\<not> ?s > p" by (simp add: word_less_nat_alt)
  then have e: "noisy_cell L m p (cm * 2 ^ k + i) e = ?s"
    by (simp add: noisy_cell_def Let_def lwe_okD(2) [OF ok] cell_index(2) [OF cm i])
  have s: "modeq (ival p) (ival ?s) (ival ?t + ival (m ! (cm * 2 ^ k + i)))"
    by (rule addmod_modeq) (use tp m pr(2) p_def in simp)
  have t2: "modeq (ival p) (ival ?t + ival (m ! (cm * 2 ^ k + i)))
      (ival (Abit_mod L ! cm) * ival e + ival (m ! (cm * 2 ^ k + i)))"
    by (intro modeq_add modeq_refl)
      (use modeq_nat_mod [of "unat p" "unat e * unat (Abit_mod L ! cm)"] in \<open>simp add: t mult.commute\<close>)
  show ?thesis unfolding e by (rule modeq_trans [OF s t2])
qed

lemma add_key:
  assumes ok: "lwe_ok L k" and cm: "cm < lwe_nbModuli L" and j: "j < 2 ^ k"
  defines "p \<equiv> moduli (nflInstance L) ! cm"
  assumes v: "lazy p v"
  shows "modeq (ival p) (ival (mulandaddShoup v x (secretKey L ! cm ! j) (secretKeyShoup L ! cm ! j) p mod p))
      (ival v + ival x * ival (secretKey L ! cm ! j))"
    and "unat (mulandaddShoup v x (secretKey L ! cm ! j) (secretKeyShoup L ! cm ! j) p mod p) < unat p"
proof -
  note pr = lwe_prime [OF ok cm, folded p_def]
  note s = lwe_okD(6) [OF ok cm j, folded p_def] and s' = lwe_okD(7) [OF ok cm j, folded p_def]
  have lt: "unat v + unat (x * secretKey L ! cm ! j -
      mulhi x (shoup_quotient (secretKey L ! cm ! j) p) * p) < 2 ^ 64"
    using shoup_remainder(3) [OF s pr(3), of x] v pr(2) by (simp add: lazy_def)
  have "modeq (ival p) (ival (mulandaddShoup v x (secretKey L ! cm ! j) (secretKeyShoup L ! cm ! j) p mod p))
      (ival (mulandaddShoup v x (secretKey L ! cm ! j) (secretKeyShoup L ! cm ! j) p))"
    by (simp add: unat_mod modeq_nat_mod)
  also have "modeq (ival p) \<dots> (ival v + ival x * ival (secretKey L ! cm ! j))"
    unfolding s' by (rule mulandaddShoup_modeq [OF s pr(3) lt])
  finally show "modeq (ival p) (ival (mulandaddShoup v x (secretKey L ! cm ! j) (secretKeyShoup L ! cm ! j) p mod p))
      (ival v + ival x * ival (secretKey L ! cm ! j))" .
  show "unat (mulandaddShoup v x (secretKey L ! cm ! j) (secretKeyShoup L ! cm ! j) p mod p) < unat p"
    using pr(1) by (simp add: unat_mod)
qed

lemma enc_correct:
  assumes ok: "lwe_ok L k" and m: "reduced (nflInstance L) m"
  shows "encrypts L k (enc L rnd_b rnd_a m) (noisy_value L rnd_b m)"
    and "reduced (nflInstance L) (cipher_a (enc L rnd_b rnd_a m))"
    and "reduced (nflInstance L) (cipher_b (enc L rnd_b rnd_a m))"
proof -
  let ?N = "nflInstance L" and ?n = "lwe_polyDegree L"
  let ?z = "replicate (?n * lwe_nbModuli L) (0 :: u64)"
  note r = lwe_okD(1) [OF ok] and n = lwe_okD(2) [OF ok] and nb = lwe_okD(3) [OF ok]
  have nN: "polyDegree ?N = 2 ^ k" by (rule ntt_readyD(1) [OF r])
  define b0 where "b0 = setBoundedRandomPoly ?N ?z (2 * noise_ub L - 1) False rnd_b"
  define b1 where "b1 = poly_loop ?N (noisy_cell L m) b0"
  define b2 where "b2 = nttAndPowPhi ?N b1"
  define a0 where "a0 = setBoundedRandomPoly ?N ?z 0 True rnd_a"
  define b3 where "b3 = poly_loop ?N (\<lambda>p j v. mulandaddShoup v (a0 ! j) (secretKey L ! (j div ?n) ! (j mod ?n))
      (secretKeyShoup L ! (j div ?n) ! (j mod ?n)) p mod p) b2"
  define a1 where "a1 = poly_loop ?N (\<lambda>p j v. v mod p) a0"
  have e: "enc L rnd_b rnd_a m = \<lparr> cipher_a = a1, cipher_b = b3 \<rparr>"
    by (simp add: enc_def Let_def lwe_okD(5) [OF ok] b0_def b1_def b2_def a0_def b3_def a1_def)
  have l0: "length b0 = nbModuli ?N * 2 ^ k" "length a0 = nbModuli ?N * 2 ^ k"
    by (simp_all add: b0_def a0_def n nb)
  have l1: "length b1 = nbModuli ?N * 2 ^ k" by (simp add: b1_def l0)
  note rep = represents_ntt [OF r l1, folded b2_def]
  have b2: "cells ?N k b2 lazy" using rep by (simp add: represents_def ntt_form_cells [OF r])
  then have l2: "length b2 = nbModuli ?N * 2 ^ k" by (simp add: cells_def)
  have lz: "lazy (moduli ?N ! cm) (b2 ! (cm * 2 ^ k + j))" if "cm < nbModuli ?N" "j < 2 ^ k" for cm j
    using b2 that unfolding cells_def by blast
  have c3: "b3 ! (cm * 2 ^ k + j) = mulandaddShoup (b2 ! (cm * 2 ^ k + j)) (a0 ! (cm * 2 ^ k + j))
      (secretKey L ! cm ! j) (secretKeyShoup L ! cm ! j) (moduli ?N ! cm) mod moduli ?N ! cm"
    if "cm < nbModuli ?N" "j < 2 ^ k" for cm j
    unfolding b3_def nth_poly_loop_cell [OF r l2 that] n cell_index(2,3) [OF that] ..
  have ca: "a1 ! (cm * 2 ^ k + j) = a0 ! (cm * 2 ^ k + j) mod moduli ?N ! cm"
    if "cm < nbModuli ?N" "j < 2 ^ k" for cm j
    unfolding a1_def nth_poly_loop_cell [OF r l0(2) that] ..
  have pp: "0 < unat (moduli ?N ! cm)" if "cm < nbModuli ?N" for cm
    using lwe_prime(1) [OF ok] that nb by simp
  have la: "length a1 = nbModuli ?N * 2 ^ k" "length b3 = nbModuli ?N * 2 ^ k"
    by (simp_all add: a1_def b3_def l0 l2)
  show "reduced ?N (cipher_a (enc L rnd_b rnd_a m))"
    unfolding e reduced_cells [OF r] cells_def using la ca pp by (simp add: unat_mod)
  show "reduced ?N (cipher_b (enc L rnd_b rnd_a m))"
    unfolding e reduced_cells [OF r] cells_def
    using la c3 add_key(2) [OF ok] lz nb by simp
  have "encrypts L k \<lparr> cipher_a = a1, cipher_b = b3 \<rparr> (coeff ?N b1)"
  proof (rule encryptsI)
    fix cm phi psi ninv and j :: nat
    assume cm: "cm < lwe_nbModuli L" and tb: "slice_tables ?N k cm phi psi ninv" and j: "j < 2 ^ k"
    let ?p = "moduli ?N ! cm" and ?j = "cm * 2 ^ k + j" and ?s = "secretKey L ! cm ! j"
    have cm': "cm < nbModuli ?N" using cm nb by simp
    have "modeq (ival ?p) (ival (b3 ! ?j) - ival (a1 ! ?j) * ival ?s)
        ((ival (b2 ! ?j) + ival (a0 ! ?j) * ival ?s) - ival (a0 ! ?j) * ival ?s)"
      unfolding c3 [OF cm' j] ca [OF cm' j]
      by (intro modeq_diff modeq_mult modeq_refl add_key(1) [OF ok cm j] lz [OF cm' j])
        (simp add: unat_mod modeq_nat_mod)
    then have "modeq (ival ?p) (phase L k \<lparr> cipher_a = a1, cipher_b = b3 \<rparr> cm j) (ival (b2 ! ?j))"
      by (simp add: phase_def)
    also have "modeq (ival ?p) \<dots> (eval_at (coeff ?N b1 cm) phi (2 ^ k) (rev_bits k j))"
      by (rule representsD [OF rep tb nN cm' j])
    finally show "modeq (ival ?p) (phase L k \<lparr> cipher_a = a1, cipher_b = b3 \<rparr> cm j)
        (eval_at (coeff ?N b1 cm) phi (2 ^ k) (rev_bits k j))" .
  qed (simp_all add: la nb)
  then show "encrypts L k (enc L rnd_b rnd_a m) (noisy_value L rnd_b m)"
    unfolding e
  proof (rule encrypts_modeq)
    fix cm and i :: nat assume cm: "cm < lwe_nbModuli L" and i: "i < 2 ^ k"
    then have cm': "cm < nbModuli ?N" using nb by simp
    have mi: "unat (m ! (cm * 2 ^ k + i)) < unat (moduli ?N ! cm)"
      using m cm' i unfolding reduced_cells [OF r] cells_def by blast
    have "b0 ! (2 ^ k * cm + i) = mask_reduce (2 * noise_ub L - 1) (rnd_b ! i)"
      unfolding b0_def using bounded_poly_cells [of ?z ?N cm i] n nb nN cm' i by (simp add: mult.commute)
    then have nv: "ival (b0 ! (cm * 2 ^ k + i)) = noise_value L rnd_b i"
      by (simp add: noise_value_def mult.commute)
    have "coeff ?N b1 cm i = ival (noisy_cell L m (moduli ?N ! cm) (cm * 2 ^ k + i) (b0 ! (cm * 2 ^ k + i)))"
      unfolding coeff_def nN b1_def nth_poly_loop_cell [OF r l0(1) cm' i] ..
    then show "modeq (ival (moduli ?N ! cm)) (coeff ?N b1 cm i) (noisy_value L rnd_b m cm i)"
      using noisy_cell_correct [OF ok cm i mi, of "b0 ! (cm * 2 ^ k + i)"]
      by (simp add: noisy_value_def coeff_def nN nv)
  qed
qed

text \<open>With zero amplifiers the noise has no effect at all.\<close>

lemma noisy_cell_zero:
  assumes "Abit_mod L ! (j div lwe_polyDegree L) = 0"
    "Abit_mod_shoup L ! (j div lwe_polyDegree L) = shoup_quotient 0 p" "0 < unat p" "unat p < 2 ^ 63"
  shows "noisy_cell L m p j e = noisy_cell L m p j e'"
proof -
  have "mulmodShoup x 0 (shoup_quotient 0 p) p = 0" for x
    using unat_mulmodShoup [of 0 p x] assms(3,4) by (simp add: word_unat_eq_iff)
  then show ?thesis using assms(1,2) by (simp add: noisy_cell_def Let_def)
qed

lemma enc_noise_free:
  assumes ok: "lwe_ok L k" and z: "\<forall>cm < lwe_nbModuli L. Abit_mod L ! cm = 0"
  shows "enc L rnd_b rnd_a m = enc L rnd_b' rnd_a m"
proof -
  let ?N = "nflInstance L" and ?z = "replicate (lwe_polyDegree L * lwe_nbModuli L) (0 :: u64)"
  note r = lwe_okD(1) [OF ok] and n = lwe_okD(2) [OF ok] and nb = lwe_okD(3) [OF ok]
  define B where "B rnd = setBoundedRandomPoly ?N ?z (2 * noise_ub L - 1) False rnd" for rnd
  have l: "length (B rnd) = nbModuli ?N * 2 ^ k" for rnd by (simp add: B_def n nb)
  have "poly_loop ?N (noisy_cell L m) (B rnd_b) = poly_loop ?N (noisy_cell L m) (B rnd_b')"
  proof (rule nth_equalityI)
    fix j assume "j < length (poly_loop ?N (noisy_cell L m) (B rnd_b))"
    then have j: "j < nbModuli ?N * 2 ^ k" using l by simp
    then have cm: "j div 2 ^ k < lwe_nbModuli L" using nb by (simp add: less_mult_imp_div_less)
    have a: "Abit_mod L ! (j div 2 ^ k) = 0" using z cm by simp
    then have "Abit_mod_shoup L ! (j div 2 ^ k) = shoup_quotient 0 (moduli ?N ! (j div 2 ^ k))"
      using lwe_okD(9) [OF ok cm] by simp
    with a have "noisy_cell L m (moduli ?N ! (j div 2 ^ k)) j (B rnd_b ! j) =
        noisy_cell L m (moduli ?N ! (j div 2 ^ k)) j (B rnd_b' ! j)"
      using lwe_prime [OF ok cm] by (intro noisy_cell_zero) (simp_all add: n)
    then show "poly_loop ?N (noisy_cell L m) (B rnd_b) ! j = poly_loop ?N (noisy_cell L m) (B rnd_b') ! j"
      using nth_poly_loop [of ?N "B rnd_b" j] nth_poly_loop [of ?N "B rnd_b'" j] l j ntt_readyD(1) [OF r]
      by simp
  qed (simp add: l)
  then show ?thesis
    by (simp add: enc_def Let_def lwe_okD(5) [OF ok] B_def)
qed

section \<open>Homomorphic operations\<close>

text \<open>The bound of an accumulator after \<open>t\<close> products.\<close>

definition acc_bound :: "nat \<Rightarrow> u64 \<Rightarrow> u64 \<Rightarrow> bool" where
  "acc_bound t p v \<longleftrightarrow> 4 * unat v < (3 + t) * unat p"

lemma acc_bound_lazy: "acc_bound t p v \<Longrightarrow> t \<le> 5 \<Longrightarrow> lazy p v"
proof -
  assume "acc_bound t p v" "t \<le> 5"
  then have "(3 + t) * unat p \<le> 8 * unat p" by (intro mult_le_mono1) simp
  with \<open>acc_bound t p v\<close> show "lazy p v" unfolding acc_bound_def lazy_def by linarith
qed

lemma mulandaddShoup_step:
  assumes p: "unat p < 2 ^ 61" and x: "lazy p x" and y: "unat y < unat p"
    and v: "acc_bound t p v" "t \<le> 24"
  shows "modeq (ival p) (ival (mulandaddShoup v x y (shoup_quotient y p) p)) (ival v + ival x * ival y)"
    and "acc_bound (Suc t) p (mulandaddShoup v x y (shoup_quotient y p) p)"
proof -
  let ?r = "x * y - mulhi x (shoup_quotient y p) * p"
  have r: "4 * unat ?r < 5 * unat p"
    by (rule shoup_remainder_quarter [OF y p]) (use x in \<open>simp add: lazy_def\<close>)
  have "(3 + t) * unat p \<le> 27 * unat p" using v(2) by (intro mult_le_mono1) simp
  moreover have "unat p < 2305843009213693952" using p by simp
  ultimately have "unat v + unat ?r < 18446744073709551616"
    using r v(1) unfolding acc_bound_def by linarith
  then have lt: "unat v + unat ?r < 2 ^ 64" by simp
  have p63: "unat p < 2 ^ 63" using p by simp
  show "modeq (ival p) (ival (mulandaddShoup v x y (shoup_quotient y p) p)) (ival v + ival x * ival y)"
    by (rule mulandaddShoup_modeq [OF y p63 lt])
  have "4 * (unat v + unat ?r - unat p) < (3 + Suc t) * unat p"
    "\<not> unat p \<le> unat v + unat ?r \<Longrightarrow> 4 * (unat v + unat ?r) < (3 + Suc t) * unat p"
    using r v(1) unfolding acc_bound_def by (simp_all add: algebra_simps)
  then show "acc_bound (Suc t) p (mulandaddShoup v x y (shoup_quotient y p) p)"
    unfolding acc_bound_def unat_mulandaddShoup [OF lt] by simp
qed

definition cipher_cells :: "lwe \<Rightarrow> nat \<Rightarrow> lwe_cipher \<Rightarrow> (u64 \<Rightarrow> u64 \<Rightarrow> bool) \<Rightarrow> bool" where
  "cipher_cells L k c P \<longleftrightarrow> cells (nflInstance L) k (cipher_a c) P \<and> cells (nflInstance L) k (cipher_b c) P"

text \<open>The companion of a query: its Shoup quotients, as the reply generator pre-computes them.\<close>

definition shoup_cipher :: "lwe \<Rightarrow> lwe_cipher \<Rightarrow> lwe_cipher" where
  "shoup_cipher L c =
     \<lparr> cipher_a = allocandcomputeShouppoly (nflInstance L) (cipher_a c),
       cipher_b = allocandcomputeShouppoly (nflInstance L) (cipher_b c) \<rparr>"

lemma shoup_poly_cell:
  assumes "ntt_ready nfl k" "cm < nbModuli nfl" "j < 2 ^ k"
  shows "allocandcomputeShouppoly nfl x ! (cm * 2 ^ k + j) =
    shoup_quotient (x ! (cm * 2 ^ k + j)) (moduli nfl ! cm)"
  using nth_allocandcomputeShouppoly [of "cm * 2 ^ k + j" nfl x] cell_index [OF assms(2,3)]
    ntt_readyD(1) [OF assms(1)] by simp

lemma mulandadd_encrypts:
  assumes ok: "lwe_ok L k" and rop: "encrypts L k rop vr" "cipher_cells L k rop (acc_bound t)" "t \<le> 24"
    and d: "represents (nflInstance L) k (op1 ! poly) D"
    and q: "encrypts L k c v" "cipher_cells L k c (\<lambda>p x. unat x < unat p)"
  defines "res \<equiv> lwe_mulandadd_shoup L rop op1 c (shoup_cipher L c) poly"
  shows "encrypts L k res (\<lambda>cm i. vr cm i + negacyclic (D cm) (v cm) (2 ^ k) i)"
    and "cipher_cells L k res (acc_bound (Suc t))"
proof -
  let ?N = "nflInstance L" and ?d = "op1 ! poly"
  note r = lwe_okD(1) [OF ok] and n = lwe_okD(2) [OF ok] and nb = lwe_okD(3) [OF ok]
  have nN: "polyDegree ?N = 2 ^ k" by (rule ntt_readyD(1) [OF r])
  have len: "length (cipher_a rop) = nbModuli ?N * 2 ^ k" "length (cipher_b rop) = nbModuli ?N * 2 ^ k"
    using rop(1) nb by (simp_all add: encrypts_def)
  have dl: "lazy (moduli ?N ! cm) (?d ! (cm * 2 ^ k + j))" if "cm < nbModuli ?N" "j < 2 ^ k" for cm j
    using d that unfolding represents_def ntt_form_cells [OF r] cells_def by blast
  have step: "modeq (ival p) (ival (mulandaddShoup y x z (shoup_quotient z p) p)) (ival y + ival x * ival z) \<and>
      acc_bound (Suc t) p (mulandaddShoup y x z (shoup_quotient z p) p)"
    if "p = moduli ?N ! cm" "cm < nbModuli ?N" "lazy p x" "unat z < unat p" "acc_bound t p y" for p cm x y z
    using mulandaddShoup_step [OF _ that(3-5) rop(3)] lwe_prime(2) [OF ok, of cm] that(1,2) nb by simp
  have ca: "cipher_a res ! (cm * 2 ^ k + j) = mulandaddShoup (cipher_a rop ! (cm * 2 ^ k + j)) (?d ! (cm * 2 ^ k + j))
      (cipher_a c ! (cm * 2 ^ k + j)) (shoup_quotient (cipher_a c ! (cm * 2 ^ k + j)) (moduli ?N ! cm)) (moduli ?N ! cm)"
    and cb: "cipher_b res ! (cm * 2 ^ k + j) = mulandaddShoup (cipher_b rop ! (cm * 2 ^ k + j)) (?d ! (cm * 2 ^ k + j))
      (cipher_b c ! (cm * 2 ^ k + j)) (shoup_quotient (cipher_b c ! (cm * 2 ^ k + j)) (moduli ?N ! cm)) (moduli ?N ! cm)"
    if "cm < nbModuli ?N" "j < 2 ^ k" for cm j
    unfolding res_def lwe_mulandadd_shoup_def Let_def lwe_okD(5) [OF ok] shoup_cipher_def lwe_cipher.simps
      nth_poly_loop_cell [OF r len(1) that] nth_poly_loop_cell [OF r len(2) that] shoup_poly_cell [OF r that]
    by (rule refl)+
  have lres: "length (cipher_a res) = nbModuli ?N * 2 ^ k" "length (cipher_b res) = nbModuli ?N * 2 ^ k"
    by (simp_all add: res_def lwe_mulandadd_shoup_def Let_def len)
  have bounds: "acc_bound t (moduli ?N ! cm) (cipher_a rop ! (cm * 2 ^ k + j))"
    "acc_bound t (moduli ?N ! cm) (cipher_b rop ! (cm * 2 ^ k + j))"
    "unat (cipher_a c ! (cm * 2 ^ k + j)) < unat (moduli ?N ! cm)"
    "unat (cipher_b c ! (cm * 2 ^ k + j)) < unat (moduli ?N ! cm)"
    if "cm < nbModuli ?N" "j < 2 ^ k" for cm j
    using rop(2) q(2) that unfolding cipher_cells_def cells_def by blast+
  show "cipher_cells L k res (acc_bound (Suc t))"
    unfolding cipher_cells_def cells_def
    using lres ca cb step [OF refl] dl bounds by simp
  show "encrypts L k res (\<lambda>cm i. vr cm i + negacyclic (D cm) (v cm) (2 ^ k) i)"
  proof (rule encryptsI)
    fix cm phi psi ninv and j :: nat
    assume cm: "cm < lwe_nbModuli L" and tb: "slice_tables ?N k cm phi psi ninv" and j: "j < 2 ^ k"
    let ?p = "moduli ?N ! cm" and ?j = "cm * 2 ^ k + j" and ?s = "secretKey L ! cm ! j"
    have cm': "cm < nbModuli ?N" using cm nb by simp
    have phi: "modeq (ival ?p) (phi ^ (2 ^ k)) (- 1)" using tb by (simp add: slice_tables_def Let_def)
    have "modeq (ival ?p) (phase L k res cm j)
        ((ival (cipher_b rop ! ?j) + ival (?d ! ?j) * ival (cipher_b c ! ?j)) -
         (ival (cipher_a rop ! ?j) + ival (?d ! ?j) * ival (cipher_a c ! ?j)) * ival ?s)"
      unfolding phase_def ca [OF cm' j] cb [OF cm' j]
      using step [OF refl cm' dl [OF cm' j]] bounds [OF cm' j]
      by (intro modeq_diff modeq_mult modeq_refl) simp_all
    also have "(ival (cipher_b rop ! ?j) + ival (?d ! ?j) * ival (cipher_b c ! ?j)) -
         (ival (cipher_a rop ! ?j) + ival (?d ! ?j) * ival (cipher_a c ! ?j)) * ival ?s =
        phase L k rop cm j + ival (?d ! ?j) * phase L k c cm j"
      by (simp add: phase_def algebra_simps)
    also have "modeq (ival ?p) \<dots> (eval_at (vr cm) phi (2 ^ k) (rev_bits k j) +
        eval_at (D cm) phi (2 ^ k) (rev_bits k j) * eval_at (v cm) phi (2 ^ k) (rev_bits k j))"
      by (intro modeq_add modeq_mult encryptsD [OF rop(1) cm tb j] encryptsD [OF q(1) cm tb j]
          representsD [OF d tb nN cm' j])
    also have "modeq (ival ?p) \<dots> (eval_at (vr cm) phi (2 ^ k) (rev_bits k j) +
        eval_at (negacyclic (D cm) (v cm) (2 ^ k)) phi (2 ^ k) (rev_bits k j))"
      by (intro modeq_add modeq_refl modeq_sym [OF negacyclic_eval_at [OF phi]])
    finally show "modeq (ival ?p) (phase L k res cm j)
        (eval_at (\<lambda>i. vr cm i + negacyclic (D cm) (v cm) (2 ^ k) i) phi (2 ^ k) (rev_bits k j))"
      by (simp add: eval_at_add)
  qed (simp_all add: lres nb)
qed

text \<open>The zero ciphertext, where accumulation starts.\<close>

definition zero_cipher :: "lwe \<Rightarrow> lwe_cipher" where
  "zero_cipher L =
     \<lparr> cipher_a = replicate (lwe_nbModuli L * lwe_polyDegree L) 0,
       cipher_b = replicate (lwe_nbModuli L * lwe_polyDegree L) 0 \<rparr>"

lemma zero_cipher_encrypts:
  assumes ok: "lwe_ok L k"
  shows "encrypts L k (zero_cipher L) (\<lambda>cm i. 0)" "cipher_cells L k (zero_cipher L) (acc_bound 0)"
proof -
  note n = lwe_okD(2) [OF ok] and nb = lwe_okD(3) [OF ok]
  have z: "replicate (lwe_nbModuli L * 2 ^ k) (0 :: u64) ! (cm * 2 ^ k + j) = 0"
    if "cm < lwe_nbModuli L" "j < 2 ^ k" for cm j
    using cell_index(1) [OF that] by simp
  show "encrypts L k (zero_cipher L) (\<lambda>cm i. 0)"
    by (rule encryptsI) (simp_all add: zero_cipher_def n z phase_def eval_at_def)
  show "cipher_cells L k (zero_cipher L) (acc_bound 0)"
    using lwe_prime(1) [OF ok] z unfolding nb
    by (simp add: cipher_cells_def cells_def zero_cipher_def n nb acc_bound_def)
qed

section \<open>Reading the message back\<close>

lemma unat_and_mask: "unat (x AND (2 ^ a - 1) :: u64) = unat x mod 2 ^ a"
proof -
  have "2 ^ a - 1 = (mask a :: u64)" by (simp add: mask_eq_exp_minus_1)
  then have "x AND (2 ^ a - 1) = take_bit a x" by (simp add: take_bit_eq_mask)
  then show ?thesis by (simp only: unsigned_take_bit_eq) (simp add: take_bit_eq_mod)
qed

text \<open>The trick against signed integers: a negative value \<open>p + V\<close> becomes \<open>2^61 + V\<close>.\<close>

lemma centre_single:
  fixes v p :: u64 and V :: int
  assumes p: "unat p < 2 ^ 61" and v: "ival v = V mod ival p" and A: "A \<le> 61"
    and V: "- ival p < 2 * V" "2 * V \<le> ival p"
  shows "ival (if v > p div 2 then (v + (2305843009213693952 - p)) AND (2 ^ A - 1)
               else v AND (2 ^ A - 1)) = V mod 2 ^ A"
proof -
  have p0: "0 < ival p" using V by linarith
  have half: "unat (p div 2) = unat p div 2" by (simp add: unat_div)
  have c: "v > p div 2 \<longleftrightarrow> unat p div 2 < unat v" by (simp add: word_less_nat_alt half)
  show ?thesis
  proof (cases "0 \<le> V")
    case True
    then have "ival v = V" using v V p0 by (simp add: mod_pos_pos_trivial)
    moreover from this have "\<not> unat p div 2 < unat v" using V(2) by linarith
    ultimately show ?thesis using c by (simp add: unat_and_mask zmod_int)
  next
    case False
    have "(V + ival p) mod ival p = V + ival p" using False V p0 by (intro mod_pos_pos_trivial) linarith+
    then have vp: "ival v = V + ival p" using v by simp
    then have gt: "unat p div 2 < unat v" using V(1) by linarith
    have mg: "unat (2305843009213693952 - p) = 2 ^ 61 - unat p"
      using p by (subst unat_sub_no_underflow) simp_all
    have "unat v < unat p" using vp False by linarith
    then have "unat (v + (2305843009213693952 - p)) = unat v + (2 ^ 61 - unat p)"
      using p mg by (subst unat_add_no_overflow) simp_all
    then have "ival (v + (2305843009213693952 - p)) = V + 2 ^ 61" using vp p by (simp add: of_nat_diff)
    moreover have "(V + 2 ^ 61) mod 2 ^ A = V mod (2 ^ A :: int)"
    proof -
      have "(2 :: int) ^ A dvd 2 ^ 61" using A by (rule le_imp_power_dvd)
      then show ?thesis by (metis dvd_eq_mod_eq_0 mod_add_right_eq add_0_right)
    qed
    ultimately show ?thesis using c gt by (simp add: unat_and_mask zmod_int)
  qed
qed

lemma dec_single_correct:
  assumes ok: "lwe_ok L k" and nb: "lwe_nbModuli L = 1" and e: "encrypts L k c v"
    and b: "ntt_form (nflInstance L) (cipher_b c)" and i: "i < 2 ^ k" and A: "A_bits L \<le> 61"
    and V: "- ival (lwe_moduli L ! 0) < 2 * v 0 i" "2 * v 0 i \<le> ival (lwe_moduli L ! 0)"
  shows "ival (dec_single L (dec_phase L c) ! i) = v 0 i mod 2 ^ A_bits L"
proof -
  note r = lwe_okD(1) [OF ok] and n = lwe_okD(2) [OF ok]
  have cm: "0 < lwe_nbModuli L" using nb by simp
  have md: "lwe_moduli L ! 0 = moduli (nflInstance L) ! 0" by (simp add: lwe_okD(4) [OF ok])
  have len: "length (dec_phase L c) = 2 ^ k"
    using invnttAndPowInvPhi_slices(1) [OF r] n nb lwe_okD(3) [OF ok]
    by (simp add: dec_phase_def Let_def)
  have "ival (dec_phase L c ! i) = v 0 i mod ival (lwe_moduli L ! 0)"
    using dec_phase_correct [OF ok e b cm i] by (simp add: coeff_def md)
  note c = centre_single [OF lwe_prime(2) [OF ok cm, folded md] this A V]
  have "dec_single L (dec_phase L c) ! i =
      (if dec_phase L c ! i > lwe_moduli L ! 0 div 2
       then (dec_phase L c ! i + (2305843009213693952 - lwe_moduli L ! 0)) AND (2 ^ A_bits L - 1)
       else dec_phase L c ! i AND (2 ^ A_bits L - 1))"
    using i len n by (simp add: dec_single_def Let_def)
  with c show ?thesis by (simp only:)
qed

section \<open>Constant messages\<close>

definition delta_poly :: "int \<Rightarrow> nat \<Rightarrow> int" where
  "delta_poly c i = (if i = 0 then c else 0)"

lemma negacyclic_delta: "i < n \<Longrightarrow> negacyclic a (delta_poly c) n i = a i * c"
proof -
  assume i: "i < n"
  have "negacyclic a (delta_poly c) n i = (\<Sum>j < n. if j = i then a i * c else 0)"
    unfolding negacyclic_def by (intro sum.cong) (auto simp: delta_poly_def)
  then show ?thesis using i by simp
qed

lemma constant_poly_cell:
  assumes ok: "lwe_ok L k" and cm: "cm < lwe_nbModuli L" and i: "i < 2 ^ k"
  shows "constant_poly L v ! (cm * 2 ^ k + i) = (if i = 0 then v else 0)"
proof -
  have n: "lwe_polyDegree L = 2 ^ k" by (rule lwe_okD(2) [OF ok])
  have "constant_poly L v ! (2 ^ k * cm + i) =
      (if i = 0 then v else replicate (lwe_nbModuli L * 2 ^ k) 0 ! (2 ^ k * cm + i))"
    unfolding constant_poly_def n
    using nth_set_cells [of "replicate (lwe_nbModuli L * 2 ^ k) 0" "lwe_nbModuli L" "2 ^ k" 0 cm i v] cm i
    by (simp add: mult.commute)
  then show ?thesis using cell_index(1) [OF cm i] by (simp add: mult.commute)
qed

lemma length_constant_poly: "length (constant_poly L v) = lwe_nbModuli L * lwe_polyDegree L"
  by (simp add: constant_poly_def)

lemma constant_poly_reduced:
  assumes ok: "lwe_ok L k" and v: "\<forall>cm < lwe_nbModuli L. unat v < unat (lwe_moduli L ! cm)"
  shows "reduced (nflInstance L) (constant_poly L v)"
  unfolding reduced_cells [OF lwe_okD(1) [OF ok]] cells_def
  using constant_poly_cell [OF ok] v lwe_prime(1) [OF ok] lwe_okD(2-4) [OF ok] length_constant_poly [of L v]
  by simp

lemma coeff_constant_poly:
  assumes "lwe_ok L k" "cm < lwe_nbModuli L" "i < 2 ^ k"
  shows "coeff (nflInstance L) (constant_poly L v) cm i = delta_poly (ival v) i"
  using constant_poly_cell [OF assms] ntt_readyD(1) [OF lwe_okD(1) [OF assms(1)]]
  by (simp add: coeff_def delta_poly_def)

section \<open>Parameterisation\<close>

lemma lwe_setNewParameters_ok:
  assumes "k \<le> 13" "bits mod 60 = 0" "bits div 60 \<le> 17"
  shows "\<exists>L'. lwe_setNewParameters mpz_invert rnd (2 ^ k) bits absPC L = Inr L' \<and> lwe_ok L' k \<and>
    Abit_mod L' = replicate (bits div 60) 0 \<and> lwe_nbModuli L' = bits div 60 \<and>
    lwe_moduli L' = take (bits div 60) P64 \<and> absPerCoordinateBitsize L' = absPC \<and>
    noise_ub L' = of_nat (5 * securityBits L div 2) \<and> securityBits L' = securityBits L \<and>
    setNewParameters mpz_invert (2 ^ k) bits (nflInstance L) = Inr (nflInstance L')"
proof -
  let ?nb = "bits div 60"
  obtain c where c: "setNewParameters mpz_invert (2 ^ k) bits (nflInstance L) = Inr c" "ntt_ready c k"
    "nbModuli c = ?nb" "polyDegree c = 2 ^ k" "moduli c = take ?nb P64"
    using setNewParameters_ready [OF assms, of mpz_invert "nflInstance L"] by blast
  define key where "key = allocBoundedRandomPoly c 0 True rnd"
  define sk where "sk = map (\<lambda>cm. slice (2 ^ k) cm key) [0..<?nb]"
  define sks where "sks = map (\<lambda>cm. map (\<lambda>i. shoup_quotient (sk ! cm ! i) (moduli c ! cm)) [0..<2 ^ k]) [0..<?nb]"
  define L0 where "L0 = (clearSecretKeys (L \<lparr> absPerCoordinateBitsize := absPC,
      noise_ub := of_nat (5 * securityBits L div 2), lwe_polyDegree := 2 ^ k, nflInstance := c \<rparr>))
      \<lparr> lwe_nbModuli := ?nb, oldNbModuli := ?nb, lwe_moduli := moduli c, secretKey := sk,
        secretKeyShoup := sks, Abit_mod := replicate ?nb 0, Abit_mod_shoup := replicate ?nb 0 \<rparr>"
  have L0: "nflInstance L0 = c" "lwe_nbModuli L0 = ?nb" "lwe_moduli L0 = moduli c" "secretKey L0 = sk"
    "secretKeyShoup L0 = sks" "lwe_polyDegree L0 = 2 ^ k" "absPerCoordinateBitsize L0 = absPC"
    "Abit_mod L0 = replicate ?nb 0" "Abit_mod_shoup L0 = replicate ?nb 0"
    "noise_ub L0 = of_nat (5 * securityBits L div 2)" "securityBits L0 = securityBits L"
    by (simp_all add: L0_def clearSecretKeys_def)
  have eq: "lwe_setNewParameters mpz_invert rnd (2 ^ k) bits absPC L = Inr (recomputeNoiseAmplifiers L0)"
    using c(1,3) by (simp add: lwe_setNewParameters_def Let_def getnbModuli_def getmoduli_def
        L0_def sks_def sk_def key_def)
  have "reduced c key"
    unfolding key_def allocBoundedRandomPoly_def
    by (rule uniform_poly_reduced [OF ntt_ready_moduli_ok [OF c(2)]]) (simp add: mult.commute)
  then have key: "unat (key ! (cm * 2 ^ k + i)) < unat (moduli c ! cm)" "length key = ?nb * 2 ^ k"
    if "cm < ?nb" "i < 2 ^ k" for cm i
    using that unfolding reduced_cells [OF c(2)] cells_def c(3) by blast+
  have skc: "sk ! cm ! i = key ! (cm * 2 ^ k + i)" if "cm < ?nb" "i < 2 ^ k" for cm i
    using that key(2) [OF that] slice_bound [OF that(1), of "2 ^ k" "length key"]
    by (simp add: sk_def nth_slice)
  note ra = recompute_amplifiers [of L0, unfolded L0(2,3,8,9) length_replicate, OF refl refl]
  have "lwe_ok (recomputeNoiseAmplifiers L0) k"
    unfolding lwe_ok_def recompute_simps L0
    using c(2,3) key(1) skc ra(1) ra(3) lwe_prime [of "recomputeNoiseAmplifiers L0"] ntt_readyD(3) [OF c(2)]
    by (simp add: sks_def) (metis gr_zeroI less_one order_less_trans)
  then show ?thesis using eq ra(1) L0 c(1,5) by simp
qed

section \<open>Selecting an element\<close>

text \<open>The sum over the database, from ciphertexts of constants.\<close>

definition accumulate_reply ::
    "lwe \<Rightarrow> lwe_in_data list \<Rightarrow> lwe_cipher list \<Rightarrow> nat \<Rightarrow> nat \<Rightarrow> lwe_cipher" where
  "accumulate_reply L db qs poly N =
     fold (\<lambda>t rop. lwe_mulandadd_shoup L rop (db ! t) (qs ! t) (shoup_cipher L (qs ! t)) poly) [0..<N]
       (zero_cipher L)"

lemma accumulate_reply_encrypts:
  assumes ok: "lwe_ok L k" and "N \<le> 25"
    and d: "\<And>t. t < N \<Longrightarrow> represents (nflInstance L) k (db ! t ! poly) (D t)"
    and q: "\<And>t. t < N \<Longrightarrow> encrypts L k (qs ! t) (v t)"
      "\<And>t. t < N \<Longrightarrow> cipher_cells L k (qs ! t) (\<lambda>p x. unat x < unat p)"
  shows "encrypts L k (accumulate_reply L db qs poly N)
      (\<lambda>cm i. \<Sum>t < N. negacyclic (D t cm) (v t cm) (2 ^ k) i)"
    and "cipher_cells L k (accumulate_reply L db qs poly N) (acc_bound N)"
proof -
  have "encrypts L k (accumulate_reply L db qs poly n)
      (\<lambda>cm i. \<Sum>t < n. negacyclic (D t cm) (v t cm) (2 ^ k) i) \<and>
      cipher_cells L k (accumulate_reply L db qs poly n) (acc_bound n)" if "n \<le> N" for n
    using that
  proof (induction n)
    case 0
    then show ?case using zero_cipher_encrypts [OF ok] by (simp add: accumulate_reply_def)
  next
    case (Suc n)
    then have n: "n < N" "n \<le> 24" using assms(2) by simp_all
    note IH = Suc.IH [OF Suc_leD [OF Suc.prems]]
    have eq: "accumulate_reply L db qs poly (Suc n) =
        lwe_mulandadd_shoup L (accumulate_reply L db qs poly n) (db ! n) (qs ! n) (shoup_cipher L (qs ! n)) poly"
      by (simp add: accumulate_reply_def)
    show ?case
      using mulandadd_encrypts [OF ok IH [THEN conjunct1] IH [THEN conjunct2] n(2) d [OF n(1)] q(1) [OF n(1)] q(2) [OF n(1)]]
      by (simp add: eq)
  qed
  then show "encrypts L k (accumulate_reply L db qs poly N)
      (\<lambda>cm i. \<Sum>t < N. negacyclic (D t cm) (v t cm) (2 ^ k) i)"
    "cipher_cells L k (accumulate_reply L db qs poly N) (acc_bound N)" by blast+
qed

text \<open>Queries: 1 for the wanted element, 0 for the others.\<close>

lemma selection_encrypts:
  assumes ok: "lwe_ok L k" and z: "\<forall>cm < lwe_nbModuli L. Abit_mod L ! cm = 0" and N: "N \<le> 25" "target < N"
    and d: "\<And>t. t < N \<Longrightarrow> represents (nflInstance L) k (db ! t ! poly) (D t)"
    and q: "\<And>t. t < N \<Longrightarrow> qs ! t = enc L (rb t) (ra t) (constant_poly L (if t = target then 1 else 0))"
  shows "encrypts L k (accumulate_reply L db qs poly N) (D target)"
    and "cipher_cells L k (accumulate_reply L db qs poly N) (acc_bound N)"
proof -
  note r = lwe_okD(1) [OF ok] and nb = lwe_okD(3) [OF ok]
  have p1: "1 < unat (lwe_moduli L ! cm)" if "cm < lwe_nbModuli L" for cm
    using ntt_readyD(3) [OF r, of cm] that nb lwe_okD(4) [OF ok] by simp
  have red: "reduced (nflInstance L) (constant_poly L (if t = target then 1 else 0))" for t
    by (rule constant_poly_reduced [OF ok]) (use p1 in fastforce)
  have e: "encrypts L k (qs ! t) (\<lambda>cm. delta_poly (if t = target then 1 else 0))" if "t < N" for t
    unfolding q [OF that]
    by (rule encrypts_modeq [OF enc_correct(1) [OF ok red]])
      (use z in \<open>simp add: noisy_value_def coeff_constant_poly [OF ok]\<close>)
  have c: "cipher_cells L k (qs ! t) (\<lambda>p x. unat x < unat p)" if "t < N" for t
    unfolding q [OF that] cipher_cells_def
    using enc_correct(2,3) [OF ok red] reduced_cells [OF r] by blast
  note acc = accumulate_reply_encrypts [OF ok N(1) d e c]
  show "cipher_cells L k (accumulate_reply L db qs poly N) (acc_bound N)" by (rule acc(2))
  show "encrypts L k (accumulate_reply L db qs poly N) (D target)"
  proof (rule encrypts_modeq [OF acc(1)])
    fix cm i :: nat assume "i < 2 ^ k"
    then have "(\<Sum>t < N. negacyclic (D t cm) (delta_poly (if t = target then 1 else 0)) (2 ^ k) i) =
        (\<Sum>t < N. if t = target then D target cm i else 0)"
      by (intro sum.cong) (simp_all add: negacyclic_delta)
    then show "modeq (ival (moduli (nflInstance L) ! cm))
        (\<Sum>t < N. negacyclic (D t cm) (delta_poly (if t = target then 1 else 0)) (2 ^ k) i) (D target cm i)"
      using N(2) by simp
  qed
qed

section \<open>Several moduli\<close>

lemma int_and_mask: "(z :: int) AND (2 ^ a - 1) = z mod 2 ^ a"
proof -
  have "(2 :: int) ^ a - 1 = mask a" by (simp add: mask_eq_exp_minus_1)
  then show ?thesis by (simp add: take_bit_eq_mask [symmetric] take_bit_eq_mod)
qed

lemma centre_multi:
  fixes V M :: int
  assumes M: "0 < M" and A: "A \<le> B" and V: "- M < 2 * V" "2 * V \<le> M"
  shows "(if 2 * (V mod M) > M then ((V mod M) + (2 ^ B - M)) AND (2 ^ A - 1)
          else (V mod M) AND (2 ^ A - 1)) = V mod 2 ^ A"
proof (cases "0 \<le> V")
  case True
  then have "V mod M = V" using V M by (intro mod_pos_pos_trivial) linarith+
  then show ?thesis using V by (simp add: int_and_mask)
next
  case False
  have "(V + M) mod M = V + M" using False V M by (intro mod_pos_pos_trivial) linarith+
  then have z: "V mod M = V + M" by simp
  have "(2 :: int) ^ A dvd 2 ^ B" using A by (rule le_imp_power_dvd)
  then have "(V + 2 ^ B) mod 2 ^ A = V mod (2 ^ A :: int)"
    by (metis dvd_eq_mod_eq_0 mod_add_right_eq add_0_right)
  then show ?thesis using V False by (simp add: z int_and_mask)
qed

lemma dec_multi_coeff_correct:
  assumes "- copymoduliProduct (nflInstance L) < 2 * V" "2 * V \<le> copymoduliProduct (nflInstance L)"
    and "A_bits L \<le> 61 * lwe_nbModuli L" "0 < copymoduliProduct (nflInstance L)"
  shows "dec_multi_coeff L (V mod copymoduliProduct (nflInstance L)) = V mod 2 ^ A_bits L"
  using centre_multi [OF assms(4,3,1,2)] by (simp add: dec_multi_coeff_def Let_def kModulusBitsize_def)

lemma dec_multi_correct:
  assumes cf: "nflInstance L = configureNTT euclid_invert nfl" "nbModuli nfl \<le> 17" "polyDegree nfl = 2 ^ k"
    and ok: "lwe_ok L k" and e: "encrypts L k c (\<lambda>cm. V)" and b: "ntt_form (nflInstance L) (cipher_b c)"
    and A: "A_bits L \<le> 61 * lwe_nbModuli L"
    and V: "\<And>i. i < 2 ^ k \<Longrightarrow> - (\<Prod>cm < lwe_nbModuli L. ival (P64 ! cm)) < 2 * V i \<and>
      2 * V i \<le> (\<Prod>cm < lwe_nbModuli L. ival (P64 ! cm))"
    and i: "i < 2 ^ k" and w: "w < ceil_div (A_bits L) 32"
  shows "dec_multi L (dec_phase L c) ! (i * ceil_div (A_bits L) 32 + w) =
    word_of_int ((V i mod 2 ^ A_bits L) div 2 ^ (32 * w))"
proof -
  let ?N = "nflInstance L" and ?M = "\<Prod>cm < lwe_nbModuli L. ival (P64 ! cm)" and ?c = "ceil_div (A_bits L) 32"
  let ?m = "dec_phase L c"
  have nb: "lwe_nbModuli L = nbModuli nfl" using lwe_okD(3) [OF ok] by (simp add: cf configured_simps)
  have M: "copymoduliProduct ?N = ?M"
    unfolding copymoduliProduct_def cf configured_simps fold_mult_prod nb by (intro prod.cong) simp_all
  have M0: "0 < ?M"
  proof (rule prod_pos)
    fix cm assume "cm \<in> {..<lwe_nbModuli L}"
    then show "0 < ival (P64 ! cm)" using constants_nth(1) [of cm] cf(2) nb by simp
  qed
  have z: "poly2mpz ?N ?m ! j = V j mod ?M" if j: "j < 2 ^ k" for j
    unfolding cf nb
  proof (rule gmp.poly2mpz_correct [OF cf(2)])
    show "j < polyDegree nfl" using j cf(3) by simp
    fix cm assume cm: "cm < nbModuli nfl"
    have "ival (?m ! (cm * 2 ^ k + j)) = V j mod ival (P64 ! cm)"
      using dec_phase_correct [OF ok e b, of cm j] cm j nb cf(3)
      by (simp add: coeff_def cf configured_simps)
    then show "modeq (ival (P64 ! cm)) (ival (?m ! (j + polyDegree nfl * cm))) (V j)"
      by (simp add: cf(3) add.commute mult.commute)
  qed
  have len: "length (poly2mpz ?N ?m) = 2 ^ k"
    by (simp add: poly2mpz_def cf configured_simps)
  let ?x = "map (\<lambda>z. export32 ?c (dec_multi_coeff L z)) (poly2mpz ?N ?m)"
  have x: "length (?x ! j) = ?c" if "j < length ?x" for j using that by (simp add: export32_def)
  have "concat ?x ! (i * ?c + w) = ?x ! i ! w" "length (concat ?x) = 2 ^ k * ?c"
    using nth_concat_const [OF x, of i w] i w len by simp_all
  moreover have "i * ?c + w < 2 ^ k * ?c"
    using block_bound [OF i w] by (simp add: mult.commute)
  moreover have "?x ! i ! w = word_of_int ((V i mod 2 ^ A_bits L) div 2 ^ (32 * w))"
    using i w len z [OF i] dec_multi_coeff_correct [of L "V i"] V [OF i] A M0 by (simp add: export32_def M)
  ultimately show ?thesis by (simp add: dec_multi_def Let_def nth_append)
qed

section \<open>Properties\<close>

lemma lwe_parameterised:
  assumes "k \<le> 13" "bits mod 60 = 0" "bits div 60 \<le> 17"
    and L: "lwe_setNewParameters mpz_invert rnd (2 ^ k) bits absPC L0 = Inr L"
  shows "lwe_ok L k" "\<forall>cm < lwe_nbModuli L. Abit_mod L ! cm = 0" "lwe_nbModuli L = bits div 60"
    "lwe_moduli L = take (bits div 60) P64" "absPerCoordinateBitsize L = absPC"
    "noise_ub L = of_nat (5 * securityBits L0 div 2)" "securityBits L = securityBits L0"
    "setNewParameters mpz_invert (2 ^ k) bits (nflInstance L0) = Inr (nflInstance L)"
  using lwe_setNewParameters_ok [OF assms(1-3), of mpz_invert rnd absPC L0] L by auto

lemma A_bits_eq: "lwe_ok L k \<Longrightarrow> absPerCoordinateBitsize L = int A \<Longrightarrow> A_bits L = A"
  using lwe_okD(2) [of L k] by (simp add: A_bits_def getAbsorptionBitsize_def)

lemma length_dec_phase:
  assumes "lwe_ok L k"
  shows "length (dec_phase L c) = lwe_nbModuli L * 2 ^ k"
  using invnttAndPowInvPhi_slices(1) [OF lwe_okD(1) [OF assms]] lwe_okD(2,3) [OF assms]
  by (simp add: dec_phase_def Let_def mult.commute)

lemma dec_Clear64: "lwe_nbModuli L = 1 \<Longrightarrow> dec L c = Clear64 (dec_single L (dec_phase L c))"
  by (simp add: dec_def Let_def)

text \<open>C15: Encryption and decryption are inverse to each other (one modulus): a message with
  coefficients below \<open>2^A\<close> comes back unchanged for every randomness, provided the amplifier is a
  multiple \<open>K 2^A\<close> of the plaintext range and noise and message together stay below half the
  modulus. \<open>K = 1\<close> is the amplifier the comments describe, \<open>K = 0\<close> the one the code computes.\<close>

theorem lwe_enc_dec:
  assumes ok: "lwe_ok L k" and nb: "lwe_nbModuli L = 1" and A: "A_bits L \<le> 59"
    and amp: "ival (Abit_mod L ! 0) = int K * 2 ^ A_bits L" and n0: "noise_ub L \<noteq> 0" "unat (noise_ub L) < 2 ^ 62"
    and bnd: "2 * (int K * 2 ^ A_bits L * (2 * ival (noise_ub L) - 2) + 2 ^ A_bits L) \<le> ival (lwe_moduli L ! 0)"
    and m: "length m = 2 ^ k" "\<forall>i < 2 ^ k. unat (m ! i) < 2 ^ A_bits L"
  shows "\<exists>y. dec L (enc L rnd_b rnd_a m) = Clear64 y \<and> (\<forall>i < 2 ^ k. y ! i = m ! i)"
proof -
  let ?N = "nflInstance L" and ?c = "enc L rnd_b rnd_a m" and ?p = "lwe_moduli L ! 0"
  note r = lwe_okD(1) [OF ok] and nN = ntt_readyD(1) [OF lwe_okD(1) [OF ok]]
  have md: "?p = moduli ?N ! 0" by (simp add: lwe_okD(4) [OF ok])
  have nb1: "nbModuli ?N = 1" using nb lwe_okD(3) [OF ok] by simp
  have n2: "unat (2 * noise_ub L) = 2 * unat (noise_ub L)" using n0 by (subst unat_mult_no_overflow) simp_all
  have n1: "1 \<le> unat (noise_ub L)" using n0 by (simp add: unat_gt_0 Suc_le_eq)
  then have "unat (2 * noise_ub L - 1) = 2 * unat (noise_ub L) - 1" using n2 by (subst unat_sub_no_underflow) simp_all
  then have ub: "ival (2 * noise_ub L - 1) = 2 * ival (noise_ub L) - 1" "0 < unat (2 * noise_ub L - 1)"
    "unat (2 * noise_ub L - 1) \<le> 2 ^ 63" using n1 n0 by (simp_all add: of_nat_diff)
  have noise: "0 \<le> noise_value L rnd_b i" "noise_value L rnd_b i \<le> 2 * ival (noise_ub L) - 2" for i
    using mask_reduce_less [OF ub(2,3), of "rnd_b ! i"] ub(1) by (simp_all add: noise_value_def)
  define e where "e i = noisy_value L rnd_b m 0 i" for i
  have ev: "e i = int K * 2 ^ A_bits L * noise_value L rnd_b i + ival (m ! i)" for i
    by (simp add: e_def noisy_value_def amp coeff_def)
  have mi: "ival (m ! i) < 2 ^ A_bits L" if "i < 2 ^ k" for i
    using m(2) that by (metis of_nat_less_iff of_nat_numeral of_nat_power)
  have V: "0 \<le> e i" "2 * e i \<le> ival ?p" if "i < 2 ^ k" for i
  proof -
    have "int K * 2 ^ A_bits L * noise_value L rnd_b i \<le> int K * 2 ^ A_bits L * (2 * ival (noise_ub L) - 2)"
      using noise(2) [of i] by (intro mult_left_mono) simp_all
    moreover have "2 * (X + v) \<le> P" if "X \<le> Y" "v < Z" "2 * (Y + Z) \<le> P" for X Y Z v P :: int
      using that by simp
    ultimately show "2 * e i \<le> ival ?p" using mi [OF that] bnd unfolding ev by blast
    show "0 \<le> e i" unfolding ev using noise(1) [of i] by simp
  qed
  have p0: "0 < ival ?p" using lwe_prime(1) [OF ok, of 0] nb md by simp
  have "reduced ?N m"
    unfolding reduced_cells [OF r] cells_def nb1
  proof (intro conjI allI impI)
    fix cm j :: nat assume "cm < 1" "j < 2 ^ k"
    then have "ival (m ! j) < ival ?p" using V [of j] ev [of j] noise(1) [of j] p0
      by (smt (verit) mult_nonneg_nonneg of_nat_0_le_iff zero_le_power)
    then show "unat (m ! (cm * 2 ^ k + j)) < unat (moduli ?N ! cm)" using \<open>cm < 1\<close> md by simp
  qed (simp add: m)
  note enc = enc_correct [OF ok this, of rnd_b rnd_a]
  have e0: "encrypts L k ?c (\<lambda>cm. e)"
    by (rule encrypts_modeq [OF enc(1)]) (use nb in \<open>simp add: e_def\<close>)
  have "dec_single L (dec_phase L ?c) ! i = m ! i" if i: "i < 2 ^ k" for i
  proof -
    have "ival (dec_single L (dec_phase L ?c) ! i) = e i mod 2 ^ A_bits L"
      by (rule dec_single_correct [OF ok nb e0 reduced_ntt_form [OF enc(3)] i])
        (use A V [OF i] p0 in simp_all)
    also have "e i = ival (m ! i) + 2 ^ A_bits L * (int K * noise_value L rnd_b i)"
      unfolding ev by (simp add: algebra_simps)
    also have "\<dots> mod 2 ^ A_bits L = ival (m ! i)"
      unfolding mod_mult_self2 using mi [OF i] by (intro mod_pos_pos_trivial) simp_all
    finally show ?thesis by (simp add: word_unat_eq_iff)
  qed
  then show ?thesis using dec_Clear64 [OF nb] by blast
qed

text \<open>C17: The amplifiers computed by \<open>recomputeNoiseAmplifiers\<close> are all zero, so after any
  parameterisation the ciphertext does not depend on the noise: \<open>b = a s + m\<close> exactly.\<close>

theorem lwe_noise_is_lost:
  assumes "k \<le> 13" "bits mod 60 = 0" "bits div 60 \<le> 17"
    and "lwe_setNewParameters mpz_invert rnd (2 ^ k) bits absPC L0 = Inr L"
  shows "(\<forall>cm < lwe_nbModuli L. Abit_mod L ! cm = 0) \<and>
    enc L rnd_b rnd_a m = enc L rnd_b' rnd_a m"
  using lwe_parameterised [OF assms] enc_noise_free by blast

text \<open>A small object for the examples: degree 4, one modulus, 16 bits per coefficient.\<close>

definition example_lwe :: lwe where
  "example_lwe = (case lwe_setNewParameters euclid_invert [3, 5, 7, 11] 4 60 16 (NFLLWE_new \<lparr> securityBits := 80 \<rparr>)
     of Inr L \<Rightarrow> L | Inl _ \<Rightarrow> NFLLWE_new)"

lemma example_lwe:
  "lwe_setNewParameters euclid_invert [3, 5, 7, 11] 4 60 16 (NFLLWE_new \<lparr> securityBits := 80 \<rparr>) = Inr example_lwe"
  "lwe_ok example_lwe 2" "lwe_nbModuli example_lwe = 1" "\<forall>cm < 1. Abit_mod example_lwe ! cm = 0"
  "lwe_moduli example_lwe = [2305843009213317121]" "absPerCoordinateBitsize example_lwe = 16"
  "noise_ub example_lwe = 200" "securityBits example_lwe = 80" "lwe_polyDegree example_lwe = 4"
proof -
  obtain L where L: "lwe_setNewParameters euclid_invert [3, 5, 7, 11] (2 ^ 2) 60 16 (NFLLWE_new \<lparr> securityBits := 80 \<rparr>) = Inr L"
    using lwe_setNewParameters_ok [of 2 60 euclid_invert "[3, 5, 7, 11]" 16 "NFLLWE_new \<lparr> securityBits := 80 \<rparr>"] by auto
  then have e: "example_lwe = L" by (simp add: example_lwe_def)
  show "lwe_setNewParameters euclid_invert [3, 5, 7, 11] 4 60 16 (NFLLWE_new \<lparr> securityBits := 80 \<rparr>) = Inr example_lwe"
    using L e by simp
  note p = lwe_parameterised [OF _ _ _ L, simplified]
  show "lwe_ok example_lwe 2" "lwe_nbModuli example_lwe = 1" "\<forall>cm < 1. Abit_mod example_lwe ! cm = 0"
    "lwe_moduli example_lwe = [2305843009213317121]" "absPerCoordinateBitsize example_lwe = 16"
    "noise_ub example_lwe = 200" "securityBits example_lwe = 80"
    using p by (simp_all add: e P64_def)
  show "lwe_polyDegree example_lwe = 4" using lwe_okD(2) [OF p(1)] by (simp add: e)
qed

lemma example_A_bits [simp]: "A_bits example_lwe = 16"
  by (rule A_bits_eq [OF example_lwe(2)]) (simp add: example_lwe)

theorem lwe_enc_dec_witness:
  "\<exists>y. dec example_lwe (enc example_lwe [99, 1, 2, 3] [4, 5, 6, 7] [65535, 0, 1, 77]) = Clear64 y \<and>
     (\<forall>i < 2 ^ 2. y ! i = [65535, 0, 1, 77] ! i)"
proof (rule lwe_enc_dec [OF example_lwe(2,3), where K = 0])
  show "\<forall>i < 2 ^ 2. unat (([65535, 0, 1, 77] :: u64 list) ! i) < 2 ^ A_bits example_lwe"
    using less_4_cases by fastforce
qed (use example_lwe in simp_all)

theorem lwe_noise_is_lost_witness:
  "Abit_mod example_lwe ! 0 = 0 \<and>
   enc example_lwe [0, 0, 0, 0] [4, 5, 6, 7] [1, 2, 3, 4] = enc example_lwe [99, 1, 2, 3] [4, 5, 6, 7] [1, 2, 3, 4]"
  using lwe_noise_is_lost [of 2 60 euclid_invert "[3, 5, 7, 11]" 16 "NFLLWE_new \<lparr> securityBits := 80 \<rparr>" example_lwe
      "[0, 0, 0, 0]" "[4, 5, 6, 7]" "[1, 2, 3, 4]" "[99, 1, 2, 3]"] example_lwe(1,3) by simp

text \<open>Private selection: with one modulus, up to five database polynomials and queries that
  encrypt 1 for the wanted index and 0 for the others, the accumulated reply decrypts to the wanted
  polynomial, coefficient by coefficient.\<close>

lemma selection_dec_represents:
  assumes "k \<le> 13" "1 \<le> A" "A \<le> 59"
    and L: "lwe_setNewParameters mpz_invert rnd (2 ^ k) 60 (int A) L0 = Inr L"
    and N: "N \<le> 5" "target < N"
    and X: "\<forall>i < 2 ^ k. X target i < 2 ^ A"
    and d: "\<forall>t < N. represents (nflInstance L) k (db ! t ! poly) (\<lambda>cm i. int (X t i))"
    and qs: "\<forall>t < N. qs ! t = encrypt_uint L (rb t) (ra t) (if t = target then 1 else 0)"
  shows "\<exists>y. dec L (accumulate_reply L db qs poly N) = Clear64 y \<and> (\<forall>i < 2 ^ k. unat (y ! i) = X target i)"
proof -
  let ?N = "nflInstance L" and ?c = "accumulate_reply L db qs poly N"
  note P = lwe_parameterised [OF assms(1) _ _ L, simplified]
  note ok = P(1) and r = lwe_okD(1) [OF P(1)]
  have nb: "lwe_nbModuli L = 1" "nbModuli ?N = 1" using P(3) lwe_okD(3) [OF ok] by simp_all
  have Ab: "A_bits L = A" by (rule A_bits_eq [OF ok P(5)])
  have "getAbsorptionBitsize L = 2 ^ k * A"
    using P(5) lwe_okD(2) [OF ok] by (simp add: getAbsorptionBitsize_def)
  then have "0 < getAbsorptionBitsize L" using assms(2) by simp
  then have "encrypt_uint_arg L 1 = 1" "encrypt_uint_arg L 0 = 0"
    by (simp_all add: encrypt_uint_arg_def log2_ceil_def)
  then have q: "qs ! t = enc L (rb t) (ra t) (constant_poly L (if t = target then 1 else 0))" if "t < N" for t
    using qs that by (simp add: encrypt_uint_def)
  have d': "represents ?N k (db ! t ! poly) (\<lambda>cm i. int (X t i))" if "t < N" for t using d that by blast
  have N25: "N \<le> 25" using N(1) by simp
  have z: "\<forall>cm < lwe_nbModuli L. Abit_mod L ! cm = 0" using P(2) nb by simp
  note sel = selection_encrypts [OF ok z N25 N(2) d' q]
  have "cells ?N k (cipher_b ?c) lazy"
    by (rule cells_mono [of _ _ _ "acc_bound N"])
      (use sel(2) acc_bound_lazy [OF _ N(1)] in \<open>auto simp: cipher_cells_def\<close>)
  then have b: "ntt_form ?N (cipher_b ?c)" using ntt_form_cells [OF r] by simp
  have e: "encrypts L k ?c (\<lambda>cm i. int (X target i))" by (rule sel(1))
  have p: "ival (lwe_moduli L ! 0) = 2305843009213317121" using P(4) by (simp add: P64_def)
  have "unat (dec_single L (dec_phase L ?c) ! i) = X target i" if i: "i < 2 ^ k" for i
  proof -
    have lt: "X target i < 2 ^ A" using X i by blast
    also have "(2 :: nat) ^ A \<le> 2 ^ 59" using assms(3) by (rule power_increasing) simp
    finally have u: "int (X target i) < 576460752303423488" by simp
    have "ival (dec_single L (dec_phase L ?c) ! i) = int (X target i) mod 2 ^ A_bits L"
      by (rule dec_single_correct [OF ok nb(1) e b i]) (use Ab assms(3) u p in simp_all)
    also have "\<dots> = int (X target i)"
      unfolding Ab using lt by (intro mod_pos_pos_trivial) simp_all
    finally show ?thesis by simp
  qed
  then show ?thesis using dec_Clear64 [OF nb(1)] by blast
qed

lemma selection_dec:
  assumes "k \<le> 13" "1 \<le> A" "A \<le> 59"
    and L: "lwe_setNewParameters mpz_invert rnd (2 ^ k) 60 (int A) L0 = Inr L"
    and N: "N \<le> 5" "target < N"
    and x: "\<forall>t < N. length (x t) = 2 ^ k \<and> (\<forall>i < 2 ^ k. unat (x t ! i) < 2 ^ A)"
    and db: "\<forall>t < N. db ! t ! poly = nttAndPowPhi (nflInstance L) (x t)"
    and qs: "\<forall>t < N. qs ! t = encrypt_uint L (rb t) (ra t) (if t = target then 1 else 0)"
  shows "\<exists>y. dec L (accumulate_reply L db qs poly N) = Clear64 y \<and> (\<forall>i < 2 ^ k. y ! i = x target ! i)"
proof -
  note P = lwe_parameterised [OF assms(1) _ _ L, simplified]
  note r = lwe_okD(1) [OF P(1)]
  have nb: "nbModuli (nflInstance L) = 1" using P(3) lwe_okD(3) [OF P(1)] by simp
  have "represents (nflInstance L) k (db ! t ! poly) (\<lambda>cm i. int (unat (x t ! i)))" if "t < N" for t
  proof (rule represents_modeq)
    show "represents (nflInstance L) k (db ! t ! poly) (coeff (nflInstance L) (x t))"
      using db x that represents_ntt [OF r] nb by simp
  qed (simp add: nb coeff_def modeq_refl)
  then show ?thesis
    using selection_dec_represents [OF assms(1-3) L N, of "\<lambda>t i. unat (x t ! i)" db poly qs rb ra] x N(2) qs
    by (auto simp: word_unat_eq_iff)
qed

text \<open>Several moduli: when the phase of a ciphertext is, in every residue, the transform of
  integers \<open>V i\<close> between \<open>-M/2\<close> and \<open>M/2\<close> (\<open>M\<close> the product of the moduli), the output buffer
  holds \<open>V i\<close> modulo \<open>2^A\<close> as consecutive 32-bit words.\<close>

lemma dec_multi_word:
  assumes "k \<le> 13" "bits mod 60 = 0" "2 \<le> bits div 60" "bits div 60 \<le> 17"
    and L: "lwe_setNewParameters euclid_invert rnd (2 ^ k) bits (int A) L0 = Inr L"
    and e: "encrypts L k c (\<lambda>cm. V)" and b: "ntt_form (nflInstance L) (cipher_b c)"
    and A: "A \<le> 61 * (bits div 60)"
    and V: "\<forall>i < 2 ^ k. - (\<Prod>cm < bits div 60. ival (P64 ! cm)) < 2 * V i \<and>
      2 * V i \<le> (\<Prod>cm < bits div 60. ival (P64 ! cm))"
    and i: "i < 2 ^ k" and w: "w < ceil_div A 32"
  shows "\<exists>y. dec L c = Clear32 y \<and>
    y ! (i * ceil_div A 32 + w) = word_of_int ((V i mod 2 ^ A) div 2 ^ (32 * w))"
proof -
  note P = lwe_parameterised [OF assms(1,2,4) L]
  note ok = P(1)
  have Ab: "A_bits L = A" by (rule A_bits_eq [OF ok P(5)])
  let ?nfl = "nflInstance L0 \<lparr> polyDegree := 2 ^ k, nbModuli := (bits div 60) mod 2 ^ 16 \<rparr>"
  have cf: "nflInstance L = configureNTT euclid_invert ?nfl"
    using P(8) assms(2) by (simp add: setNewParameters_def setmodulus_def kModulusBitsize_def)
  have nb: "lwe_nbModuli L = bits div 60" by (rule P(3))
  have "dec_multi L (dec_phase L c) ! (i * ceil_div (A_bits L) 32 + w) =
      word_of_int ((V i mod 2 ^ A_bits L) div 2 ^ (32 * w))"
    by (rule dec_multi_correct [OF cf _ _ ok e b _ _ i]) (use assms A V w nb Ab in auto)
  moreover have "dec L c = Clear32 (dec_multi L (dec_phase L c))"
    using assms(3) nb by (simp add: dec_def Let_def)
  ultimately show ?thesis unfolding Ab by blast
qed

text \<open>An object with two moduli.\<close>

definition example_lwe2 :: lwe where
  "example_lwe2 = (case lwe_setNewParameters euclid_invert [3, 5, 7, 11, 13, 17, 19, 23] 4 120 48
       (NFLLWE_new \<lparr> securityBits := 80 \<rparr>) of Inr L \<Rightarrow> L | Inl _ \<Rightarrow> NFLLWE_new)"

lemma example_lwe2:
  "lwe_setNewParameters euclid_invert [3, 5, 7, 11, 13, 17, 19, 23] (2 ^ 2) 120 (int 48)
     (NFLLWE_new \<lparr> securityBits := 80 \<rparr>) = Inr example_lwe2"
  "lwe_ok example_lwe2 2" "lwe_nbModuli example_lwe2 = 2" "\<forall>cm < 2. Abit_mod example_lwe2 ! cm = 0"
  "lwe_moduli example_lwe2 = [2305843009213317121, 2305843009213120513]"
proof -
  obtain L where L: "lwe_setNewParameters euclid_invert [3, 5, 7, 11, 13, 17, 19, 23] (2 ^ 2) 120 (int 48)
      (NFLLWE_new \<lparr> securityBits := 80 \<rparr>) = Inr L"
    using lwe_setNewParameters_ok [of 2 120 euclid_invert "[3, 5, 7, 11, 13, 17, 19, 23]" "int 48"
        "NFLLWE_new \<lparr> securityBits := 80 \<rparr>"] by auto
  then have e: "example_lwe2 = L" by (simp add: example_lwe2_def)
  show "lwe_setNewParameters euclid_invert [3, 5, 7, 11, 13, 17, 19, 23] (2 ^ 2) 120 (int 48)
     (NFLLWE_new \<lparr> securityBits := 80 \<rparr>) = Inr example_lwe2" using L e by simp
  note p = lwe_parameterised [OF _ _ _ L, simplified]
  show "lwe_ok example_lwe2 2" "lwe_nbModuli example_lwe2 = 2" "\<forall>cm < 2. Abit_mod example_lwe2 ! cm = 0"
    "lwe_moduli example_lwe2 = [2305843009213317121, 2305843009213120513]"
    using p by (simp_all add: e P64_def)
qed

lemma example_lwe2_enc:
  "encrypts example_lwe2 2 (enc example_lwe2 [9, 9, 9, 9] [1, 2, 3, 4, 5, 6, 7, 8] (constant_poly example_lwe2 12345))
     (\<lambda>cm. delta_poly 12345)"
  "ntt_form (nflInstance example_lwe2)
     (cipher_b (enc example_lwe2 [9, 9, 9, 9] [1, 2, 3, 4, 5, 6, 7, 8] (constant_poly example_lwe2 12345)))"
proof -
  note ok = example_lwe2(2)
  have red: "reduced (nflInstance example_lwe2) (constant_poly example_lwe2 12345)"
    by (rule constant_poly_reduced [OF ok]) (auto simp: example_lwe2 less_2_cases_iff)
  show "encrypts example_lwe2 2 (enc example_lwe2 [9, 9, 9, 9] [1, 2, 3, 4, 5, 6, 7, 8] (constant_poly example_lwe2 12345))
     (\<lambda>cm. delta_poly 12345)"
    by (rule encrypts_modeq [OF enc_correct(1) [OF ok red]])
      (use example_lwe2(3,4) in \<open>simp add: noisy_value_def coeff_constant_poly [OF ok]\<close>)
  show "ntt_form (nflInstance example_lwe2)
     (cipher_b (enc example_lwe2 [9, 9, 9, 9] [1, 2, 3, 4, 5, 6, 7, 8] (constant_poly example_lwe2 12345)))"
    by (rule reduced_ntt_form [OF enc_correct(3) [OF ok red]])
qed

section \<open>Descriptors and sizes\<close>

text \<open>Parameters printed by \<open>getSerializedParams\<close> (long form, absorption set) and parsed by
  \<open>setNewParameters\<close> of any object give the same degree, modulus size, absorption and security.\<close>

theorem lwe_params_round_trip:
  assumes "absPerCoordinateBitsize L \<noteq> - 1"
  shows "lwe_setNewParameters_str mpz_invert rnd (getSerializedParams L False) L0 =
    lwe_setNewParameters mpz_invert rnd (lwe_polyDegree L) (getmodulusBitsize L) (absPerCoordinateBitsize L)
      (L0 \<lparr> securityBits := securityBits L \<rparr>)"
proof -
  let ?fs = "[''LWE'', to_string (securityBits L), to_string (lwe_polyDegree L),
      to_string (getmodulusBitsize L), to_string_int (absPerCoordinateBitsize L)]"
  have "getSerializedParams L False = join_with (CHR '':'') ?fs"
    using assms by (simp add: getSerializedParams_def)
  then have "split_on (CHR '':'') (getSerializedParams L False) = ?fs"
    using split_join [of ?fs "CHR '':''"] by simp
  then show ?thesis by (simp add: lwe_setNewParameters_str_def Let_def)
qed

theorem lwe_params_round_trip_witness:
  "lwe_setNewParameters_str euclid_invert [3, 5, 7, 11] (getSerializedParams example_lwe False) NFLLWE_new =
   lwe_setNewParameters euclid_invert [3, 5, 7, 11] 4 60 16 (NFLLWE_new \<lparr> securityBits := 80 \<rparr>)"
  using lwe_params_round_trip [of example_lwe euclid_invert "[3, 5, 7, 11]" NFLLWE_new]
  by (simp add: example_lwe getmodulusBitsize_def kModulusBitsize_def)

text \<open>An object whose absorption is not set prints \<open>?\<close>, which is parsed as 0.\<close>

theorem lwe_params_unset:
  assumes "absPerCoordinateBitsize L = - 1"
  shows "lwe_setNewParameters_str mpz_invert rnd (getSerializedParams L False) L0 =
    lwe_setNewParameters mpz_invert rnd (lwe_polyDegree L) (getmodulusBitsize L) 0
      (L0 \<lparr> securityBits := securityBits L \<rparr>)"
proof -
  let ?fs = "[''LWE'', to_string (securityBits L), to_string (lwe_polyDegree L),
      to_string (getmodulusBitsize L), ''?'']"
  have "getSerializedParams L False = join_with (CHR '':'') ?fs"
    using assms by (simp add: getSerializedParams_def)
  then have "split_on (CHR '':'') (getSerializedParams L False) = ?fs"
    using split_join [of ?fs "CHR '':''"] by simp
  moreover have "atoi ''?'' = 0"
    by (simp add: atoi_def is_space_def digits_val_def is_digit_def)
  ultimately show ?thesis by (simp add: lwe_setNewParameters_str_def Let_def)
qed

theorem lwe_params_unset_witness:
  "lwe_setNewParameters_str euclid_invert [3, 5, 7, 11]
     (getSerializedParams (example_lwe \<lparr> absPerCoordinateBitsize := - 1 \<rparr>) False) NFLLWE_new =
   lwe_setNewParameters euclid_invert [3, 5, 7, 11] 4 60 0 (NFLLWE_new \<lparr> securityBits := 80 \<rparr>)"
  using lwe_params_unset [of "example_lwe \<lparr> absPerCoordinateBitsize := - 1 \<rparr>" euclid_invert "[3, 5, 7, 11]" NFLLWE_new]
  by (simp add: example_lwe getmodulusBitsize_def kModulusBitsize_def)

text \<open>\<open>getCiphertextBitsize\<close> is the size of the two polynomials of 64-bit words exactly
  when there are at most 15 moduli; with 16 or 17 it is too small.\<close>

theorem lwe_ciphertext_bitsize:
  assumes "lwe_nbModuli L \<le> 17" "0 < lwe_polyDegree L"
  shows "getCiphertextBitsize L = 64 * (2 * (lwe_nbModuli L * lwe_polyDegree L)) \<longleftrightarrow> lwe_nbModuli L \<le> 15"
proof -
  have c: "ceil_div (lwe_nbModuli L * 60) 64 = lwe_nbModuli L \<longleftrightarrow> lwe_nbModuli L \<le> 15"
  proof (cases "lwe_nbModuli L")
    case (Suc n)
    have "ceil_div (lwe_nbModuli L * 60) 64 \<le> lwe_nbModuli L" by (simp add: ceil_div_le_iff)
    moreover have "n < ceil_div (lwe_nbModuli L * 60) 64 \<longleftrightarrow> n \<le> 14"
      unfolding Suc by (simp add: less_ceil_div_iff) arith
    ultimately show ?thesis unfolding Suc by arith
  qed simp
  have "getCiphertextBitsize L = 64 * 2 * lwe_polyDegree L * ceil_div (lwe_nbModuli L * 60) 64"
    by (simp add: getCiphertextBitsize_def getModulusRepresentationBitsize_def getmodulusBitsize_def nfl_constants)
  then show ?thesis using assms(2) c by simp
qed

theorem lwe_ciphertext_bitsize_witness:
  "getCiphertextBitsize example_lwe = 64 * (2 * (lwe_nbModuli example_lwe * lwe_polyDegree example_lwe)) \<longleftrightarrow>
   lwe_nbModuli example_lwe \<le> 15"
  by (rule lwe_ciphertext_bitsize) (simp_all add: example_lwe)

end
