(* ===== verification/Serialize.thy ===== *)
theory Serialize
  imports NFLLWECorrect
begin

text \<open>
  \<open>serializeData64\<close> and \<open>serializeData32\<close> of \<open>crypto/NFLlib_old.cpp\<close> and \<open>decrypt\<close> of
  \<open>crypto/NFLLWE.cpp\<close>: coefficients packed bit by bit into a byte buffer through unaligned
  64-bit writes. The buffer is the list of its bytes; the loop is partial because it never ends
  for some coefficient sizes.
\<close>

section \<open>Byte memory\<close>

definition read64 :: "u8 list \<Rightarrow> nat \<Rightarrow> u64" where
  "read64 mem off = fold (\<lambda>i v. v OR push_bit (8 * i) (ucast (mem ! (off + i)))) [0..<8] 0"

definition write64 :: "u8 list \<Rightarrow> nat \<Rightarrow> u64 \<Rightarrow> u8 list" where
  "write64 mem off v = fold (\<lambda>i mem. mem[off + i := ucast (drop_bit (8 * i) v)]) [0..<8] mem"

section \<open>The loops\<close>

text \<open>
  The inner loop of both functions: coefficients \<open>(size, value)\<close> are ORed into the word at
  \<open>off\<close> as long as they fit. Returns the coefficients left, the buffer and \<open>bitswritten\<close>.
\<close>

fun ser_inner :: "(nat \<times> u64) list \<Rightarrow> u8 list \<Rightarrow> nat \<Rightarrow> nat \<Rightarrow> (nat \<times> u64) list \<times> u8 list \<times> nat" where
  "ser_inner [] mem off bw = ([], mem, bw)"
| "ser_inner ((s, v) # xs) mem off bw =
     (if bw + s \<le> 64
      then ser_inner xs (write64 mem off (read64 mem off OR push_bit bw v)) off (bw + s)
      else ((s, v) # xs, mem, bw))"

partial_function (option) ser_loop :: "(nat \<times> u64) list \<Rightarrow> u8 list \<Rightarrow> nat \<Rightarrow> nat \<Rightarrow> u8 list option" where
  [code]: "ser_loop xs mem off bw =
     (if xs = [] then Some mem
      else let (xs, mem, bw) = ser_inner xs mem off bw
           in ser_loop xs mem (off + bw div 8) (bw - 8 * (bw div 8)))"

definition serializeData64 :: "u64 list \<Rightarrow> u8 list \<Rightarrow> nat \<Rightarrow> nat \<Rightarrow> u8 list option" where
  "serializeData64 indata outdata bitsPerChunk nb =
     ser_loop (map (\<lambda>x. (bitsPerChunk, x)) (take nb indata)) outdata 0 0"

text \<open>The sizes of the 32-bit blocks of one coefficient, the last one shorter.\<close>

definition subchunk_sizes :: "nat \<Rightarrow> nat \<Rightarrow> nat list" where
  "subchunk_sizes w bitsPerChunk =
     (let k = ceil_div bitsPerChunk w
      in replicate (k - 1) w @ [bitsPerChunk - w * (k - 1)])"

definition serializeData32 :: "u32 list \<Rightarrow> u8 list \<Rightarrow> nat \<Rightarrow> nat \<Rightarrow> u8 list option" where
  "serializeData32 indata outdata bitsPerChunk nb =
     (let sizes = subchunk_sizes 32 bitsPerChunk
      in ser_loop (map (\<lambda>i. (sizes ! (i mod ceil_div bitsPerChunk 32), ucast (indata ! i))) [0..<nb]) outdata 0 0)"

text \<open>\<open>decrypt\<close>: decryption and packing.\<close>

definition decrypt :: "lwe \<Rightarrow> lwe_cipher \<Rightarrow> u8 list option" where
  "decrypt L c =
     (let bits = A_bits L;
          out = replicate (8 * (bits * lwe_polyDegree L div 64 + 1)) 0
      in case dec L c of
           Clear64 m \<Rightarrow> serializeData64 m out bits (ceil_div bits 64 * lwe_polyDegree L)
         | Clear32 m \<Rightarrow> serializeData32 m out bits (ceil_div bits 32 * lwe_polyDegree L))"

section \<open>Memory as a number\<close>

fun memval :: "u8 list \<Rightarrow> nat" where
  "memval [] = 0"
| "memval (b # bs) = unat b + 256 * memval bs"

lemma memval_append: "memval (xs @ ys) = memval xs + 256 ^ length xs * memval ys"
  by (induction xs) (simp_all add: algebra_simps)

lemma unat_lt_256 [simp]: "unat (b :: u8) < 256"
  using unsigned_less [of b] by simp

lemma memval_less: "memval xs < 256 ^ length xs"
proof (induction xs)
  case (Cons b bs)
  have "unat b + 256 * memval bs < 256 + 256 * memval bs" by simp
  also have "\<dots> \<le> 256 * 256 ^ length bs" using Cons by (simp flip: mult_Suc_right)
  finally show ?case by simp
qed simp

lemma memval_replicate [simp]: "memval (replicate n 0) = 0"
  by (induction n) simp_all


lemma memval_bit:
  "bit (memval xs) n \<longleftrightarrow> n < 8 * length xs \<and> bit (xs ! (n div 8)) (n mod 8)"
proof (induction xs arbitrary: n)
  case (Cons b bs)
  have low: "bit (unat b + 256 * memval bs) n \<longleftrightarrow> bit (unat b) n" if "n < 8"
  proof -
    have "take_bit 8 (unat b + 256 * memval bs) = take_bit 8 (unat b)"
      by (simp add: take_bit_eq_mod)
    then show ?thesis using that by (metis bit_take_bit_iff)
  qed
  have high: "bit (unat b + 256 * memval bs) n \<longleftrightarrow> bit (memval bs) (n - 8)" if "8 \<le> n"
  proof -
    have "bit (unat b + 256 * memval bs) (8 + (n - 8)) \<longleftrightarrow> bit (drop_bit 8 (unat b + 256 * memval bs)) (n - 8)"
      by (simp add: bit_drop_bit_eq del: drop_bit_numeral_bit0)
    also have "drop_bit 8 (unat b + 256 * memval bs) = memval bs" by (simp add: drop_bit_eq_div)
    finally show ?thesis using that by simp
  qed
  show ?case
  proof (cases "n < 8")
    case True
    then show ?thesis using low by (simp add: bit_unsigned_iff)
  next
    case False
    then have "(b # bs) ! (n div 8) = bs ! ((n - 8) div 8)" "n mod 8 = (n - 8) mod 8"
      by (simp_all add: nth_Cons' le_div_geq le_mod_geq)
    then show ?thesis using high False Cons.IH [of "n - 8"] by auto
  qed
qed simp

lemma memval_inj: "length xs = length ys \<Longrightarrow> memval xs = memval ys \<Longrightarrow> xs = ys"
proof (induction xs ys rule: list_induct2)
  case (Cons b bs c cs)
  have "unat b = unat c" using arg_cong [OF Cons.prems, of "\<lambda>n. n mod 256"] by simp
  moreover from this have "memval bs = memval cs" using Cons.prems by simp
  ultimately show ?case using Cons.IH unsigned_word_eqI [of b c] by simp
qed simp

lemma fold_or_bit:
  "bit (fold (\<lambda>i v. v OR push_bit (8 * i) (ucast (mem ! (off + i)) :: u64)) [0..<k] 0) n \<longleftrightarrow>
   n < 64 \<and> (\<exists>i<k. 8 * i \<le> n \<and> n < 8 * i + 8 \<and> bit (mem ! (off + i) :: u8) (n - 8 * i))"
proof (induction k)
  case (Suc k)
  have "bit (push_bit (8 * k) (ucast (mem ! (off + k)) :: u64)) n \<longleftrightarrow>
        n < 64 \<and> 8 * k \<le> n \<and> n < 8 * k + 8 \<and> bit (mem ! (off + k)) (n - 8 * k)"
    using bit_imp_le_length [of "mem ! (off + k)" "n - 8 * k"]
    by (auto simp: bit_push_bit_iff bit_unsigned_iff)
  then show ?case using Suc by (auto simp: bit_or_iff less_Suc_eq)
qed simp

lemma read64_bit: "bit (read64 mem off) n \<longleftrightarrow> n < 64 \<and> bit (mem ! (off + n div 8)) (n mod 8)"
proof -
  have "(\<exists>i<8. 8 * i \<le> n \<and> n < 8 * i + 8 \<and> bit (mem ! (off + i)) (n - 8 * i)) \<longleftrightarrow>
        bit (mem ! (off + n div 8)) (n mod 8)" if "n < 64"
  proof
    assume "\<exists>i<8. 8 * i \<le> n \<and> n < 8 * i + 8 \<and> bit (mem ! (off + i)) (n - 8 * i)"
    then obtain i where i: "8 * i \<le> n" "n < 8 * i + 8" "bit (mem ! (off + i)) (n - 8 * i)" by blast
    then obtain r where r: "n = 8 * i + r" "r < 8" using le_Suc_ex [of "8 * i" n] by auto
    then have "n div 8 = i" "n mod 8 = n - 8 * i" by simp_all
    with i show "bit (mem ! (off + n div 8)) (n mod 8)" by simp
  next
    assume "bit (mem ! (off + n div 8)) (n mod 8)"
    moreover have "n div 8 < 8" using that by (simp add: less_mult_imp_div_less)
    moreover have "8 * (n div 8) \<le> n" by simp
    moreover have "n < 8 * (n div 8) + 8" using mult_div_mod_eq [of 8 n] by (metis add_less_cancel_left mod_less_divisor zero_less_numeral)
    moreover have "n - 8 * (n div 8) = n mod 8" by (simp add: minus_mult_div_eq_mod)
    ultimately show "\<exists>i<8. 8 * i \<le> n \<and> n < 8 * i + 8 \<and> bit (mem ! (off + i)) (n - 8 * i)"
      by (intro exI [of _ "n div 8"]) simp
  qed
  then show ?thesis unfolding read64_def fold_or_bit by blast
qed

lemma length_write64 [simp]: "length (write64 mem off v) = length mem"
proof -
  have "length (fold (\<lambda>i mem. mem[off + i := ucast (drop_bit (8 * i) v)]) is mem) = length mem" for "is"
    by (induction "is" arbitrary: mem) simp_all
  then show ?thesis by (simp add: write64_def)
qed

lemma write64_nth:
  assumes "off + 8 \<le> length mem" "i < length mem"
  shows "write64 mem off v ! i =
         (if off \<le> i \<and> i < off + 8 then ucast (drop_bit (8 * (i - off)) v) else mem ! i)"
proof -
  have "k \<le> 8 \<Longrightarrow> fold (\<lambda>i mem. mem[off + i := ucast (drop_bit (8 * i) v)]) [0..<k] mem ! i =
      (if off \<le> i \<and> i < off + k then ucast (drop_bit (8 * (i - off)) v) else mem ! i) \<and>
      length (fold (\<lambda>i mem. mem[off + i := ucast (drop_bit (8 * i) v)]) [0..<k] mem) = length mem" for k
    using assms by (induction k) (auto simp: nth_list_update)
  from this [of 8] show ?thesis by (simp add: write64_def)
qed

lemma write64_bit:
  assumes "off + 8 \<le> length mem"
  shows "bit (memval (write64 mem off v)) n \<longleftrightarrow>
         (if 8 * off \<le> n \<and> n < 8 * off + 64 then bit v (n - 8 * off) else bit (memval mem) n)"
proof (cases "n < 8 * length mem")
  case True
  then have i: "n div 8 < length mem" by (simp add: less_mult_imp_div_less mult.commute)
  show ?thesis
  proof (cases "8 * off \<le> n \<and> n < 8 * off + 64")
    case inside: True
    then obtain d where d: "n = 8 * off + d" "d < 64" using le_Suc_ex [of "8 * off" n] by auto
    then have e: "off \<le> n div 8 \<and> n div 8 < off + 8" by (simp add: less_mult_imp_div_less)
    have "8 * (n div 8 - off) + n mod 8 = n - 8 * off" using d by simp
    then show ?thesis using True e inside
      by (simp add: memval_bit write64_nth [OF assms i] bit_unsigned_iff bit_drop_bit_eq)
  next
    case outside: False
    then have e: "\<not> (off \<le> n div 8 \<and> n div 8 < off + 8)" by linarith
    show ?thesis by (simp only: memval_bit length_write64 write64_nth [OF assms i] e outside if_False)
  qed
next
  case False
  then show ?thesis using assms by (auto simp: memval_bit)
qed

text \<open>One OR at a bit position above everything written adds the coefficient there.\<close>

lemma or_write64:
  assumes off: "off + 8 \<le> length mem" and fit: "bw + s \<le> 64" and v: "unat v < 2 ^ s"
    and free: "memval mem < 2 ^ (8 * off + bw)"
  shows "memval (write64 mem off (read64 mem off OR push_bit bw v)) =
         memval mem + 2 ^ (8 * off + bw) * unat v"
proof -
  have high: "\<not> bit v m" if "s \<le> m" for m
  proof -
    have "unat v < 2 ^ m" by (rule less_le_trans [OF v]) (use that in simp)
    then have "\<not> bit (unat v) m" by (simp add: bit_iff_odd)
    then show ?thesis using bit_imp_le_length [of v m] by (auto simp: bit_unsigned_iff)
  qed
  have "bit (memval (write64 mem off (read64 mem off OR push_bit bw v))) n \<longleftrightarrow>
        bit (memval mem OR push_bit (8 * off + bw) (unat v)) n" for n
  proof (cases "8 * off \<le> n \<and> n < 8 * off + 64")
    case True
    then have "bit (read64 mem off) (n - 8 * off) = bit (memval mem) n"
    proof -
      obtain d where "n = 8 * off + d" "d < 64" using True le_Suc_ex [of "8 * off" n] by auto
      then have e: "off + (n - 8 * off) div 8 = n div 8" "(n - 8 * off) mod 8 = n mod 8"
        "n - 8 * off < 64" "n < 8 * length mem"
        using off by simp_all
      show ?thesis unfolding read64_bit memval_bit e using e by simp
    qed
    then show ?thesis using True
      by (auto simp: write64_bit [OF off] bit_or_iff bit_push_bit_iff bit_unsigned_iff dest: bit_imp_le_length)
  next
    case False
    have "s \<le> n - (8 * off + bw)" if "8 * off + bw \<le> n" using False fit that by simp
    then have "\<not> bit (push_bit (8 * off + bw) (unat v)) n"
      using high [of "n - (8 * off + bw)"] by (auto simp: bit_push_bit_iff bit_unsigned_iff)
    then show ?thesis by (simp only: write64_bit [OF off] bit_or_iff False if_False simp_thms)
  qed
  then have "memval (write64 mem off (read64 mem off OR push_bit bw v)) =
             memval mem OR push_bit (8 * off + bw) (unat v)" by (simp add: bit_eq_iff)
  also have "\<dots> = memval mem + push_bit (8 * off + bw) (unat v)"
  proof (rule disjunctive_add [symmetric])
    fix n show "\<not> bit (memval mem) n \<or> \<not> bit (push_bit (8 * off + bw) (unat v)) n"
    proof (cases "n < 8 * off + bw")
      case False
      then have "memval mem < 2 ^ n" by (intro less_le_trans [OF free]) simp
      then show ?thesis by (simp add: bit_iff_odd)
    qed (simp add: bit_push_bit_iff)
  qed
  finally show ?thesis by (simp add: push_bit_eq_mult mult.commute)
qed

section \<open>The loops write the packed coefficients\<close>

fun packed :: "(nat \<times> u64) list \<Rightarrow> nat" where
  "packed [] = 0"
| "packed ((s, v) # xs) = unat v + 2 ^ s * packed xs"

abbreviation total_size :: "(nat \<times> u64) list \<Rightarrow> nat" where
  "total_size xs \<equiv> sum_list (map fst xs)"

definition sized :: "(nat \<times> u64) list \<Rightarrow> bool" where
  "sized xs \<longleftrightarrow> (\<forall>(s, v) \<in> set xs. s \<le> 57 \<and> unat v < 2 ^ s)"

lemma sized_Cons [simp]: "sized ((s, v) # xs) \<longleftrightarrow> s \<le> 57 \<and> unat v < 2 ^ s \<and> sized xs"
  by (simp add: sized_def)

lemma sized_Nil [simp]: "sized []" by (simp add: sized_def)

lemma packed_append: "packed (xs @ ys) = packed xs + 2 ^ total_size xs * packed ys"
  by (induction xs rule: packed.induct) (simp_all add: algebra_simps power_add)

lemma packed_less: "sized xs \<Longrightarrow> packed xs < 2 ^ total_size xs"
proof (induction xs rule: packed.induct)
  case (2 s v xs)
  then have "unat v + 2 ^ s * packed xs < 2 ^ s + 2 ^ s * packed xs" by simp
  also have "\<dots> \<le> 2 ^ s * 2 ^ total_size xs" using 2 by (simp flip: mult_Suc_right)
  finally show ?case by (simp add: power_add)
qed simp

lemma ser_inner_spec:
  assumes "ser_inner xs mem off bw = (xs', mem', bw')" "sized xs" "bw \<le> 64"
    "memval mem < 2 ^ (8 * off + bw)" "8 * off + bw + total_size xs + 64 \<le> 8 * length mem"
  obtains ys where "xs = ys @ xs'" "bw' = bw + total_size ys" "bw' \<le> 64" "length mem' = length mem"
    "memval mem' = memval mem + 2 ^ (8 * off + bw) * packed ys" "memval mem' < 2 ^ (8 * off + bw')"
    "xs \<noteq> [] \<and> bw < 8 \<longrightarrow> ys \<noteq> []"
  using assms
proof (induction xs mem off bw arbitrary: thesis rule: ser_inner.induct)
  case (1 mem off bw)
  show ?case by (rule 1(1) [of "[]"]) (use 1 in auto)
next
  case (2 s v xs mem off bw)
  show ?case
  proof (cases "bw + s \<le> 64")
    case False
    show ?thesis by (rule 2(2) [of "[]"]) (use 2 False in auto)
  next
    case True
    let ?m = "write64 mem off (read64 mem off OR push_bit bw v)"
    have v: "unat v < 2 ^ s" using 2 by simp
    have val: "memval ?m = memval mem + 2 ^ (8 * off + bw) * unat v"
      by (rule or_write64 [OF _ True v]) (use 2 in auto)
    have "memval ?m < 2 ^ (8 * off + bw) + 2 ^ (8 * off + bw) * unat v" using 2 val by simp
    also have "\<dots> \<le> 2 ^ (8 * off + bw) * 2 ^ s" using v by (simp flip: mult_Suc_right)
    also have "\<dots> = 2 ^ (8 * off + (bw + s))" by (simp add: power_add)
    finally have below: "memval ?m < 2 ^ (8 * off + (bw + s))" .
    obtain ys where ys: "xs = ys @ xs'" "bw' = bw + s + total_size ys" "bw' \<le> 64"
      "length mem' = length ?m" "memval mem' = memval ?m + 2 ^ (8 * off + (bw + s)) * packed ys"
      "memval mem' < 2 ^ (8 * off + bw')"
      by (rule 2(1) [OF True]) (use 2 True below in auto)
    show ?thesis
      by (rule 2(2) [of "(s, v) # ys"]) (use ys val in \<open>auto simp: algebra_simps power_add\<close>)
  qed
qed

lemma ser_loop_spec:
  assumes "sized xs" "bw < 8" "memval mem < 2 ^ (8 * off + bw)"
    "8 * off + bw + total_size xs + 64 \<le> 8 * length mem"
  shows "\<exists>mem'. ser_loop xs mem off bw = Some mem' \<and> length mem' = length mem \<and>
           memval mem' = memval mem + 2 ^ (8 * off + bw) * packed xs"
  using assms
proof (induction "length xs" arbitrary: xs mem off bw rule: less_induct)
  case less
  show ?case
  proof (cases "xs = []")
    case True
    then show ?thesis by (simp add: ser_loop.simps)
  next
    case False
    obtain xs' mem' bw' where i: "ser_inner xs mem off bw = (xs', mem', bw')" by (metis prod_cases3)
    obtain ys where ys: "xs = ys @ xs'" "bw' = bw + total_size ys" "bw' \<le> 64" "length mem' = length mem"
      "memval mem' = memval mem + 2 ^ (8 * off + bw) * packed ys" "memval mem' < 2 ^ (8 * off + bw')"
      "xs \<noteq> [] \<and> bw < 8 \<longrightarrow> ys \<noteq> []"
      by (rule ser_inner_spec [OF i less(2) _ less(4,5)]) (use less(3) in \<open>simp, blast\<close>)
    let ?off = "off + bw' div 8" and ?bw = "bw' - 8 * (bw' div 8)"
    have pos: "8 * ?off + ?bw = 8 * off + bw'" by simp
    have "\<exists>m. ser_loop xs' mem' ?off ?bw = Some m \<and> length m = length mem' \<and>
              memval m = memval mem' + 2 ^ (8 * ?off + ?bw) * packed xs'"
    proof (rule less(1))
      show "length xs' < length xs" using ys(1,7) less(3) False by simp
      show "sized xs'" using less(2) ys(1) by (simp add: sized_def)
      show "?bw < 8" by (simp add: minus_mult_div_eq_mod)
      show "memval mem' < 2 ^ (8 * ?off + ?bw)" using ys(6) pos by simp
      show "8 * ?off + ?bw + total_size xs' + 64 \<le> 8 * length mem'"
        using less(5) ys(1,2,4) unfolding pos by simp
    qed
    then obtain m where m: "ser_loop xs' mem' ?off ?bw = Some m" "length m = length mem'"
        "memval m = memval mem' + 2 ^ (8 * off + bw') * packed xs'" unfolding pos by blast
    have "ser_loop xs mem off bw = Some m" using m(1) by (subst ser_loop.simps) (simp add: False i)
    moreover have "memval m = memval mem + 2 ^ (8 * off + bw) * packed xs"
      unfolding m(3) ys(5) unfolding ys(1,2) packed_append by (simp add: power_add algebra_simps)
    ultimately show ?thesis using m(2) ys(4) by auto
  qed
qed


section \<open>Reading the coefficients back\<close>

lemma sized_concat: "(\<And>i. i < n \<Longrightarrow> sized (B i)) \<Longrightarrow> sized (concat (map B [0..<n]))"
  by (fastforce simp: sized_def)

lemma packed_blocks:
  assumes "\<And>i. i < n \<Longrightarrow> total_size (B i) = s \<and> sized (B i)" "i < n"
  shows "take_bit s (drop_bit (i * s) (packed (concat (map B [0..<n])))) = packed (B i)"
proof -
  have len: "total_size (concat (map B [0..<k])) = k * s" if "k \<le> n" for k
    using that by (induction k) (simp_all add: assms(1))
  have low: "packed (concat (map B [0..<k])) < 2 ^ (k * s)" if "k \<le> n" for k
    using packed_less [OF sized_concat [of k B]] len [OF that] that assms(1) by simp
  have split: "[0..<n] = [0..<i] @ i # [Suc i..<n]"
    using assms(2) upt_add_eq_append [of 0 i "n - i"] upt_conv_Cons [of i n] by simp
  let ?lo = "packed (concat (map B [0..<i]))" and ?hi = "packed (concat (map B [Suc i..<n]))"
  have "packed (concat (map B [0..<n])) = ?lo + 2 ^ (i * s) * (packed (B i) + 2 ^ s * ?hi)"
    using assms(1) [OF assms(2)] len [of i] assms(2) unfolding split map_append concat_append packed_append
    by (simp add: packed_append)
  then have "drop_bit (i * s) (packed (concat (map B [0..<n]))) = packed (B i) + 2 ^ s * ?hi"
    using low [of i] assms(2) by (simp add: drop_bit_eq_div)
  then show ?thesis using packed_less [of "B i"] assms by (simp add: take_bit_eq_mod)
qed

lemma ser_loop_blocks:
  assumes B: "\<And>i. i < n \<Longrightarrow> total_size (B i) = s \<and> sized (B i)" and len: "8 * len \<ge> n * s + 64"
  shows "\<exists>out. ser_loop (concat (map B [0..<n])) (replicate len 0) 0 0 = Some out \<and> length out = len \<and>
    memval out < 2 ^ (n * s) \<and> (\<forall>i < n. take_bit s (drop_bit (i * s) (memval out)) = packed (B i))"
proof -
  let ?xs = "concat (map B [0..<n])"
  have sz: "sized ?xs" using B by (blast intro: sized_concat)
  have "total_size (concat (map B [0..<k])) = k * s" if "k \<le> n" for k
    using that by (induction k) (simp_all add: B)
  then have tot: "total_size ?xs = n * s" by simp
  obtain out where out: "ser_loop ?xs (replicate len 0) 0 0 = Some out" "length out = len"
    "memval out = packed ?xs"
    using ser_loop_spec [OF sz, of 0 "replicate len 0" 0] len tot by auto
  then show ?thesis using packed_blocks [OF B] packed_less [OF sz] tot by auto
qed

text \<open>Equal sizes: \<open>serializeData64\<close>.\<close>

lemma serializeData64_bits:
  assumes "bits \<le> 57" "nb \<le> length indata" "\<forall>i < nb. unat (indata ! i) < 2 ^ bits"
    "8 * len \<ge> nb * bits + 64"
  shows "\<exists>out. serializeData64 indata (replicate len 0) bits nb = Some out \<and> length out = len \<and>
    memval out < 2 ^ (nb * bits) \<and>
    (\<forall>i < nb. take_bit bits (drop_bit (i * bits) (memval out)) = unat (indata ! i))"
proof -
  have "map (\<lambda>x. (bits, x)) (take nb indata) = concat (map (\<lambda>i. [(bits, indata ! i)]) [0..<nb])"
    using assms(2) by (induction nb) (simp_all add: take_Suc_conv_app_nth)
  then show ?thesis unfolding serializeData64_def
    using ser_loop_blocks [of nb "\<lambda>i. [(bits, indata ! i)]" bits len] assms by simp
qed


text \<open>Blocks of 32 bits: \<open>serializeData32\<close>.\<close>

lemma map_upt_blocks:
  "map f [0..<n * k] = concat (map (\<lambda>i. map (\<lambda>j. f (i * k + j)) [0..<k]) [0..<n])"
proof (induction n)
  case (Suc n)
  have "[0..<Suc n * k] = [0..<n * k] @ map (\<lambda>j. n * k + j) [0..<k]"
    using upt_add_eq_append [of 0 "n * k" k] map_add_upt [of "n * k" k] by (simp add: add.commute)
  then show ?case using Suc by (simp add: comp_def)
qed simp

lemma subchunk_sizes_block:
  assumes "0 < bits"
  shows "length (subchunk_sizes 32 bits) = ceil_div bits 32" "sum_list (subchunk_sizes 32 bits) = bits"
    "j < ceil_div bits 32 \<Longrightarrow> subchunk_sizes 32 bits ! j =
      (if Suc j < ceil_div bits 32 then 32 else bits - 32 * j)"
    "j < ceil_div bits 32 \<Longrightarrow> 32 * j < bits" "subchunk_sizes 32 bits ! j \<le> 32 \<or> ceil_div bits 32 \<le> j"
proof -
  have pos: "0 < ceil_div bits 32" using assms by (simp add: ceil_div_pos)
  have low: "32 * j < bits" if "j < ceil_div bits 32" for j
    using that less_ceil_div_iff [of 32 j bits] by (simp add: mult.commute)
  have top: "bits \<le> 32 * ceil_div bits 32" using ceil_div_mult_ge [of 32 bits] by (simp add: mult.commute)
  show len: "length (subchunk_sizes 32 bits) = ceil_div bits 32"
    using pos by (simp add: subchunk_sizes_def Let_def)
  show "sum_list (subchunk_sizes 32 bits) = bits"
    using pos low [of "ceil_div bits 32 - 1"]
    by (simp add: subchunk_sizes_def Let_def sum_list_replicate mult.commute)
  show nth: "subchunk_sizes 32 bits ! j = (if Suc j < ceil_div bits 32 then 32 else bits - 32 * j)"
    if "j < ceil_div bits 32" for j
  proof (cases "Suc j < ceil_div bits 32")
    case True
    then show ?thesis by (auto simp: subchunk_sizes_def Let_def nth_append)
  next
    case False
    then have "j = ceil_div bits 32 - 1" using that by simp
    then show ?thesis using False by (simp add: subchunk_sizes_def Let_def nth_append)
  qed
  show "32 * j < bits" if "j < ceil_div bits 32" using low that by blast
  show "subchunk_sizes 32 bits ! j \<le> 32 \<or> ceil_div bits 32 \<le> j"
  proof (cases "j < ceil_div bits 32")
    case True
    then have "bits \<le> 32 * Suc j \<or> Suc j < ceil_div bits 32" using top by (cases "Suc j = ceil_div bits 32") auto
    then show ?thesis using nth [OF True] by auto
  qed simp
qed

text \<open>The 32-bit words of a number, packed with those sizes, give the number.\<close>

lemma packed_words:
  assumes "\<And>j. j < m \<Longrightarrow> s j = 32 \<and> unat (u j) = V div 2 ^ (32 * j) mod 2 ^ 32"
  shows "packed (map (\<lambda>j. (s j, u j)) [0..<m]) = V mod 2 ^ (32 * m) \<and>
    total_size (map (\<lambda>j. (s j, u j)) [0..<m]) = 32 * m"
  using assms
proof (induction m)
  case (Suc m)
  have "V mod 2 ^ (32 * m + 32) = V mod 2 ^ (32 * m) + 2 ^ (32 * m) * (V div 2 ^ (32 * m) mod 2 ^ 32)"
    unfolding power_add by (metis add.commute mod_mult2_eq)
  then show ?case using Suc by (simp add: packed_append algebra_simps)
qed simp

lemma packed_coefficient:
  assumes "0 < bits" "V < 2 ^ bits" "\<And>j. j < ceil_div bits 32 \<Longrightarrow> unat (u j) = V div 2 ^ (32 * j) mod 2 ^ 32"
  shows "packed (map (\<lambda>j. (subchunk_sizes 32 bits ! j, u j)) [0..<ceil_div bits 32]) = V"
    "total_size (map (\<lambda>j. (subchunk_sizes 32 bits ! j, u j)) [0..<ceil_div bits 32]) = bits"
    "sized (map (\<lambda>j. (subchunk_sizes 32 bits ! j, u j)) [0..<ceil_div bits 32])"
proof -
  let ?s = "\<lambda>j. subchunk_sizes 32 bits ! j" and ?K = "ceil_div bits 32"
  note sz = subchunk_sizes_block [OF assms(1)]
  obtain m where m: "?K = Suc m" using assms(1) ceil_div_pos [of 32 bits] gr0_implies_Suc by auto
  have low: "32 * m < bits" using sz(4) [of m] m by simp
  have hi: "V div 2 ^ (32 * j) < 2 ^ (bits - 32 * j)" if "j < ?K" for j
    using assms(2) sz(4) [OF that] by (simp add: less_mult_imp_div_less flip: power_add)
  have "bits - 32 * m \<le> 32" using ceil_div_mult_ge [of 32 bits] m by simp
  then have um: "unat (u m) = V div 2 ^ (32 * m)"
    using assms(3) [of m] m less_le_trans [OF hi [of m] power_increasing [of "bits - 32 * m" 32 2]] by simp
  have init: "packed (map (\<lambda>j. (?s j, u j)) [0..<m]) = V mod 2 ^ (32 * m) \<and>
      total_size (map (\<lambda>j. (?s j, u j)) [0..<m]) = 32 * m"
    by (rule packed_words) (use sz(3) assms(3) m in simp)
  then show "packed (map (\<lambda>j. (?s j, u j)) [0..<?K]) = V" using um unfolding m by (simp add: packed_append)
  show "total_size (map (\<lambda>j. (?s j, u j)) [0..<?K]) = bits"
    using init sz(3) [of m] low unfolding m by (simp add: m)
  have "unat (u j) < 2 ^ ?s j" if "j < ?K" for j
  proof (cases "Suc j < ?K")
    case True
    then show ?thesis using sz(3) [OF that] assms(3) [OF that] by simp
  next
    case False
    then have "j = m" using that m by simp
    then show ?thesis using sz(3) [OF that] um hi [OF that] m by simp
  qed
  moreover have "?s j \<le> 57" if "j < ?K" for j using sz(5) [of j] that by simp
  ultimately show "sized (map (\<lambda>j. (?s j, u j)) [0..<?K])" by (auto simp: sized_def)
qed

lemma serializeData32_bits:
  assumes bits: "0 < bits" and V: "\<And>i. i < n \<Longrightarrow> V i < 2 ^ bits"
    and w: "\<And>i j. i < n \<Longrightarrow> j < ceil_div bits 32 \<Longrightarrow>
      unat (indata ! (i * ceil_div bits 32 + j)) = V i div 2 ^ (32 * j) mod 2 ^ 32"
    and len: "8 * len \<ge> n * bits + 64"
  shows "\<exists>out. serializeData32 indata (replicate len 0) bits (n * ceil_div bits 32) = Some out \<and>
    length out = len \<and> memval out < 2 ^ (n * bits) \<and>
    (\<forall>i < n. take_bit bits (drop_bit (i * bits) (memval out)) = V i)"
proof -
  let ?K = "ceil_div bits 32"
  let ?B = "\<lambda>i. map (\<lambda>j. (subchunk_sizes 32 bits ! j, ucast (indata ! (i * ?K + j)) :: u64)) [0..<?K]"
  have u: "unat (ucast x :: u64) = unat x" for x :: u32
  proof -
    have "unat x < 4294967296" using unsigned_less [of x] by simp
    then show ?thesis by (simp add: unsigned_ucast_eq take_bit_nat_eq_self)
  qed
  have B: "packed (?B i) = V i" "total_size (?B i) = bits \<and> sized (?B i)" if "i < n" for i
    using packed_coefficient [OF bits V [OF that], of "\<lambda>j. ucast (indata ! (i * ?K + j))"] w [OF that] u by simp_all
  have "map (\<lambda>i. (subchunk_sizes 32 bits ! (i mod ?K), ucast (indata ! i) :: u64)) [0..<n * ?K] =
      concat (map ?B [0..<n])"
    unfolding map_upt_blocks by (intro arg_cong [where f = concat] map_cong refl) simp
  then show ?thesis
    using ser_loop_blocks [of n ?B bits len] B len unfolding serializeData32_def Let_def by simp
qed


section \<open>The loop can be stuck\<close>

text \<open>A coefficient that does not fit beside at most seven pending bits is never written.\<close>

lemma ser_loop_stuck:
  assumes "xs \<noteq> []" "bw < 8" "64 < bw + fst (hd xs)"
  shows "ser_loop xs mem off bw = None"
proof (rule ccontr)
  assume "ser_loop xs mem off bw \<noteq> None"
  then obtain y where y: "ser_loop xs mem off bw = Some y" by blast
  have "\<not> (xs \<noteq> [] \<and> bw < 8 \<and> 64 < bw + fst (hd xs))"
  proof (rule ser_loop.raw_induct [where P = "\<lambda>xs mem off bw y. \<not> (xs \<noteq> [] \<and> bw < 8 \<and> 64 < bw + fst (hd xs))", OF _ y])
    fix loop and xs :: "(nat \<times> u64) list" and mem :: "u8 list" and off bw :: nat and y :: "u8 list"
    assume IH: "\<And>xs mem off bw y. loop xs mem off bw = Some y \<Longrightarrow> \<not> (xs \<noteq> [] \<and> bw < 8 \<and> 64 < bw + fst (hd xs))"
      and run: "(if xs = [] then Some mem
           else let (xs, mem, bw) = ser_inner xs mem off bw
             in loop xs mem (off + bw div 8) (bw - 8 * (bw div 8))) = Some y"
    show "\<not> (xs \<noteq> [] \<and> bw < 8 \<and> 64 < bw + fst (hd xs))"
    proof
      assume s: "xs \<noteq> [] \<and> bw < 8 \<and> 64 < bw + fst (hd xs)"
      then obtain z v zs where xs: "xs = (z, v) # zs" by (metis list.exhaust prod.exhaust)
      then have "ser_inner xs mem off bw = (xs, mem, bw)" using s by simp
      then have "loop xs mem off bw = Some y" using run s by simp
      then show False using IH s by blast
    qed
  qed
  with assms show False by blast
qed

lemma ser_loop_first:
  assumes "bw + s \<le> 64" "xs \<noteq> []" "64 < bw + s + fst (hd xs)"
  shows "ser_loop ((s, v) # xs) mem off bw =
    ser_loop xs (write64 mem off (read64 mem off OR push_bit bw v)) (off + (bw + s) div 8) ((bw + s) mod 8)"
proof -
  obtain s' v' zs where xs: "xs = (s', v') # zs" using assms(2) by (metis list.exhaust prod.exhaust)
  then show ?thesis using assms
    by (subst ser_loop.simps) (simp add: minus_mult_div_eq_mod)
qed

text \<open>
  C20: For the coefficient sizes 59, 61, 62 and 63 the loop of \<open>serializeData64\<close> never ends as soon
  as there are three coefficients: after one or two of them the next one does not fit in the
  64-bit window and the window no longer advances. (The comment above the function asks for sizes
  below 56; sizes up to 57 are fine, see \<open>serializeData64_packs\<close>.)
\<close>
theorem serializeData64_stuck:
  assumes "bits \<in> {59, 61, 62, 63}" "3 \<le> nb" "3 \<le> length indata"
  shows "serializeData64 indata outdata bits nb = None"
proof -
  obtain a b c zs where xs: "indata = a # b # c # zs" using assms(3)
    by (auto simp: numeral_3_eq_3 Suc_le_length_iff)
  obtain m where nb: "nb = Suc (Suc (Suc m))" using assms(2) le_Suc_ex [of 3 nb] by auto
  from assms(1) show ?thesis
    unfolding serializeData64_def xs nb
    by (elim insertE emptyE) (simp_all add: ser_loop_first ser_loop_stuck)
qed

theorem serializeData64_stuck_witness: "serializeData64 [1, 2, 3] (replicate 64 0) 59 3 = None"
  by (rule serializeData64_stuck) simp_all

text \<open>
  C18: For sizes up to 57 bits \<open>serializeData64\<close> ends and packs: in the buffer read as one number,
  coefficient \<open>i\<close> stands at bit \<open>i * bits\<close>, nothing is written above the last one.
\<close>
theorem serializeData64_packs:
  assumes "bits \<le> 57" "nb \<le> length indata" "\<forall>i < nb. unat (indata ! i) < 2 ^ bits"
    "8 * len \<ge> nb * bits + 64"
  shows "\<exists>out. serializeData64 indata (replicate len 0) bits nb = Some out \<and> length out = len \<and>
    memval out < 2 ^ (nb * bits) \<and>
    (\<forall>i < nb. take_bit bits (drop_bit (i * bits) (memval out)) = unat (indata ! i))"
  using assms by (rule serializeData64_bits)

theorem serializeData64_packs_witness:
  "\<exists>out. serializeData64 [5, 9, 1048575] (replicate 16 0) 20 3 = Some out \<and> length out = 16 \<and>
    memval out < 2 ^ (3 * 20) \<and>
    (\<forall>i < 3. take_bit 20 (drop_bit (i * 20) (memval out)) = unat ([5, 9, 1048575 :: u64] ! i))"
  by (rule serializeData64_packs) (auto simp: less_Suc_eq numeral_3_eq_3)

text \<open>
  C19: \<open>serializeData32\<close> ends for every coefficient size: given the 32-bit words of the numbers
  \<open>V 0, V 1, ...\<close> below \<open>2^bits\<close>, it puts number \<open>i\<close> at bit \<open>i * bits\<close> of the buffer.
\<close>
theorem serializeData32_packs:
  assumes "0 < bits" "\<And>i. i < n \<Longrightarrow> V i < 2 ^ bits"
    and "\<And>i j. i < n \<Longrightarrow> j < ceil_div bits 32 \<Longrightarrow>
      unat (indata ! (i * ceil_div bits 32 + j)) = V i div 2 ^ (32 * j) mod 2 ^ 32"
    and "8 * len \<ge> n * bits + 64"
  shows "\<exists>out. serializeData32 indata (replicate len 0) bits (n * ceil_div bits 32) = Some out \<and>
    length out = len \<and> memval out < 2 ^ (n * bits) \<and>
    (\<forall>i < n. take_bit bits (drop_bit (i * bits) (memval out)) = V i)"
  by (rule serializeData32_bits [OF assms])

theorem serializeData32_packs_witness:
  "\<exists>out. serializeData32 [7, 3, 9, 1] (replicate 18 0) 40 (2 * ceil_div 40 32) = Some out \<and>
    length out = 18 \<and> memval out < 2 ^ (2 * 40) \<and>
    (\<forall>i < 2. take_bit 40 (drop_bit (i * 40) (memval out)) = [7 + 3 * 2 ^ 32, 9 + 2 ^ 32] ! i)"
  by (rule serializeData32_packs) (simp_all add: ceil_div_def less_2_cases_iff, elim disjE, simp_all, elim disjE, simp_all)


section \<open>decrypt\<close>

lemma decrypt_buffer:
  fixes k bits :: nat
  assumes "64 dvd 2 ^ k * bits"
  shows "2 ^ k * bits + 64 \<le> 8 * (8 * (bits * 2 ^ k div 64 + 1))"
proof -
  obtain q where "2 ^ k * bits = 64 * q" using assms by blast
  then show ?thesis by (simp add: mult.commute)
qed

lemma decrypt_Clear64:
  assumes n: "lwe_polyDegree L = 2 ^ k" and bits: "1 \<le> A_bits L" "A_bits L \<le> 57" "64 dvd 2 ^ k * A_bits L"
    and d: "dec L c = Clear64 y" "length y = 2 ^ k" "\<forall>i < 2 ^ k. y ! i = m ! i"
    and m: "\<forall>i < 2 ^ k. unat (m ! i) < 2 ^ A_bits L"
  shows "\<exists>out. decrypt L c = Some out \<and> length out = 8 * (A_bits L * 2 ^ k div 64 + 1) \<and>
    memval out < 2 ^ (2 ^ k * A_bits L) \<and>
    (\<forall>i < 2 ^ k. take_bit (A_bits L) (drop_bit (i * A_bits L) (memval out)) = unat (m ! i))"
proof -
  have "ceil_div (A_bits L) 64 = 1" using bits(1,2) by (simp add: ceil_div_def)
  moreover obtain out where "serializeData64 y (replicate (8 * (A_bits L * 2 ^ k div 64 + 1)) 0) (A_bits L) (2 ^ k) = Some out"
    "length out = 8 * (A_bits L * 2 ^ k div 64 + 1)" "memval out < 2 ^ (2 ^ k * A_bits L)"
    "\<forall>i < 2 ^ k. take_bit (A_bits L) (drop_bit (i * A_bits L) (memval out)) = unat (y ! i)"
    using serializeData64_bits [of "A_bits L" "2 ^ k" y, OF bits(2) _ _ decrypt_buffer [OF bits(3)]] d m
    by auto
  ultimately show ?thesis using d(1,3) n by (simp add: decrypt_def Let_def)
qed

text \<open>
  C6: Private selection from end to end: with one modulus, up to five database polynomials and
  queries that encrypt 1 for the wanted index and 0 for the others, \<open>decrypt\<close> on the accumulated
  reply ends and returns a buffer with the wanted polynomial, coefficient \<open>i\<close> at bit \<open>i * A\<close>.
\<close>
theorem decrypt_selection:
  assumes "k \<le> 13" "1 \<le> A" "A \<le> 57" "64 dvd 2 ^ k * A"
    and L: "lwe_setNewParameters mpz_invert rnd (2 ^ k) 60 (int A) L0 = Inr L"
    and N: "N \<le> 5" "target < N"
    and x: "\<forall>t < N. length (x t) = 2 ^ k \<and> (\<forall>i < 2 ^ k. unat (x t ! i) < 2 ^ A)"
    and db: "\<forall>t < N. db ! t ! poly = nttAndPowPhi (nflInstance L) (x t)"
    and qs: "\<forall>t < N. qs ! t = encrypt_uint L (rb t) (ra t) (if t = target then 1 else 0)"
  shows "\<exists>out. decrypt L (accumulate_reply L db qs poly N) = Some out \<and> memval out < 2 ^ (2 ^ k * A) \<and>
    (\<forall>i < 2 ^ k. take_bit A (drop_bit (i * A) (memval out)) = unat (x target ! i))"
proof -
  let ?c = "accumulate_reply L db qs poly N"
  note P = lwe_parameterised [OF assms(1) _ _ L, simplified]
  have A: "A_bits L = A" by (rule A_bits_eq [OF P(1,5)])
  obtain y where y: "dec L ?c = Clear64 y" "\<forall>i < 2 ^ k. y ! i = x target ! i"
    using selection_dec [OF assms(1,2) _ L N x db qs] assms(3) by auto
  have "length y = 2 ^ k"
    using y(1) length_dec_phase [OF P(1), of ?c] P(3) lwe_okD(2) [OF P(1)]
    by (simp add: dec_Clear64) (auto simp: dec_single_def Let_def)
  then show ?thesis
    using decrypt_Clear64 [OF lwe_okD(2) [OF P(1)] _ _ _ y(1) _ y(2)] assms(2-4) x N(2) unfolding A by blast
qed

theorem decrypt_selection_witness:
  "let enc1 = (\<lambda>t. encrypt_uint example_lwe [t, 1, 2, 3] [4, t, 6, 7] (if t = 1 then 1 else 0));
       poly = (\<lambda>x. nttAndPowPhi (nflInstance example_lwe) x);
       x = [[1, 2, 3, 4], [5, 6, 65535, 8]]
   in \<exists>out. decrypt example_lwe (accumulate_reply example_lwe (map (\<lambda>y. [poly y]) x) [enc1 0, enc1 1] 0 2) = Some out \<and>
        memval out < 2 ^ (2 ^ 2 * 16) \<and>
        (\<forall>i < 2 ^ 2. take_bit 16 (drop_bit (i * 16) (memval out)) = unat (x ! 1 ! i))"
  unfolding Let_def
  by (rule decrypt_selection [of 2 16 euclid_invert "[3, 5, 7, 11]" "NFLLWE_new \<lparr> securityBits := 80 \<rparr>" example_lwe 2 1
        "\<lambda>t. [[1, 2, 3, 4], [5, 6, 65535, 8]] ! t" _ 0 _
        "\<lambda>t. [of_nat t, 1, 2, 3]" "\<lambda>t. [4, of_nat t, 6, 7]"])
    (use example_lwe(1) less_4_cases in \<open>fastforce simp: less_2_cases_iff\<close>)+

text \<open>
  C16: Several moduli: when a ciphertext encrypts, in every residue, the same integers \<open>V i\<close> of
  absolute value below half the product of the moduli, \<open>decrypt\<close> ends and returns a buffer with
  \<open>V i mod 2^A\<close> at bit \<open>i * A\<close>, for coefficients of any size \<open>A\<close>.
\<close>
theorem decrypt_several_moduli:
  assumes "k \<le> 13" "bits mod 60 = 0" "2 \<le> bits div 60" "bits div 60 \<le> 17"
    and L: "lwe_setNewParameters euclid_invert rnd (2 ^ k) bits (int A) L0 = Inr L"
    and e: "encrypts L k c (\<lambda>cm. V)" and b: "ntt_form (nflInstance L) (cipher_b c)"
    and A: "0 < A" "A \<le> 61 * (bits div 60)" "64 dvd 2 ^ k * A"
    and V: "\<forall>i < 2 ^ k. - (\<Prod>cm < bits div 60. ival (P64 ! cm)) < 2 * V i \<and>
      2 * V i \<le> (\<Prod>cm < bits div 60. ival (P64 ! cm))"
  shows "\<exists>out. decrypt L c = Some out \<and> memval out < 2 ^ (2 ^ k * A) \<and>
    (\<forall>i < 2 ^ k. int (take_bit A (drop_bit (i * A) (memval out))) = V i mod 2 ^ A)"
proof -
  note P = lwe_parameterised [OF assms(1,2,4) L]
  have Ab: "A_bits L = A" by (rule A_bits_eq [OF P(1,5)])
  let ?y = "dec_multi L (dec_phase L c)" and ?V = "\<lambda>i. nat (V i mod 2 ^ A)"
  have d: "dec L c = Clear32 ?y" using P(3) assms(3) by (simp add: dec_def Let_def)
  have "unat (?y ! (i * ceil_div A 32 + j)) = ?V i div 2 ^ (32 * j) mod 2 ^ 32"
    if "i < 2 ^ k" "j < ceil_div A 32" for i j
  proof -
    have "0 \<le> V i mod 2 ^ A" "0 \<le> V i mod 2 ^ A div 2 ^ (32 * j)" by (simp_all add: pos_imp_zdiv_nonneg_iff)
    then have "nat (V i mod 2 ^ A div 2 ^ (32 * j) mod 2 ^ 32) = ?V i div 2 ^ (32 * j) mod 2 ^ 32"
      by (simp only: nat_mod_distrib nat_div_distrib zero_le_power zero_le_numeral nat_power_eq nat_numeral)
    then show ?thesis using dec_multi_word [OF assms(1-4) L e b A(2) V that] unfolding d
      by (simp add: unsigned_of_int take_bit_eq_mod)
  qed
  moreover have "?V i < 2 ^ A" for i
    by (simp add: nat_less_iff)
  ultimately obtain out where
    "serializeData32 ?y (replicate (8 * (A * 2 ^ k div 64 + 1)) 0) A (2 ^ k * ceil_div A 32) = Some out"
    "memval out < 2 ^ (2 ^ k * A)"
    "\<forall>i < 2 ^ k. take_bit A (drop_bit (i * A) (memval out)) = ?V i"
    using serializeData32_bits [OF A(1) _ _ decrypt_buffer [OF A(3)], of ?V ?y] by blast
  then show ?thesis using d lwe_okD(2) [OF P(1)] by (simp add: decrypt_def Let_def Ab mult.commute)
qed

theorem decrypt_several_moduli_witness:
  "\<exists>out. decrypt example_lwe2 (enc example_lwe2 [9, 9, 9, 9] [1, 2, 3, 4, 5, 6, 7, 8] (constant_poly example_lwe2 12345)) =
       Some out \<and> memval out < 2 ^ (2 ^ 2 * 48) \<and>
     (\<forall>i < 2 ^ 2. int (take_bit 48 (drop_bit (i * 48) (memval out))) = delta_poly 12345 i mod 2 ^ 48)"
proof (rule decrypt_several_moduli [OF _ _ _ _ example_lwe2(1) example_lwe2_enc])
  have "(\<Prod>cm < 2. ival (P64 ! cm)) = ival (P64 ! 0) * ival (P64 ! 1)" by (simp add: numeral_2_eq_2)
  then show "\<forall>i < 2 ^ 2. - (\<Prod>cm < 120 div 60. ival (P64 ! cm)) < 2 * delta_poly 12345 i \<and>
      2 * delta_poly 12345 i \<le> (\<Prod>cm < 120 div 60. ival (P64 ! cm))"
    by (simp add: P64_def delta_poly_def)
qed simp_all

end
