(* ===== verification/BitSplit.thy ===== *)
theory BitSplit
  imports Serialize
begin

text \<open>
  The data importation of \<open>crypto/NFLlib_old.cpp\<close> (\<open>deserializeDataNFL\<close>, \<open>bitsplitter\<close>,
  \<open>bs_loop\<close>, \<open>bs_finish\<close>, \<open>internalLongIntegersToCRT\<close>) and its copy in the class \<open>Bitsplit\<close>
  (\<open>crypto/Bitsplit.cpp\<close>): buffers of bytes cut into coefficients of any number of bits.
  A buffer is the list of its bytes; a read outside it, undefined in C++, makes the result
  \<open>None\<close>, and so does a loop that does not end. Quotients of \<open>double\<close>s are exact here, which
  they are for sizes below \<open>2^53\<close> bits.
\<close>

section \<open>One buffer\<close>

definition read64_at :: "u8 list \<Rightarrow> nat \<Rightarrow> u64 option" where
  "read64_at mem off = (if off + 8 \<le> length mem then Some (read64 mem off) else None)"

definition bits_mask :: "nat \<Rightarrow> u64" where
  "bits_mask s = push_bit s 1 - 1"

definition next_subchunk :: "nat list \<Rightarrow> nat \<Rightarrow> nat" where
  "next_subchunk sizes idx = (if idx + 1 = length sizes then 0 else idx + 1)"

text \<open>How many more subchunks fit in the \<open>room\<close> bits after the last whole chunk, and their size.\<close>

fun supplemental :: "nat list \<Rightarrow> nat \<Rightarrow> nat \<Rightarrow> nat list \<Rightarrow> nat \<times> nat \<Rightarrow> nat \<times> nat" where
  "supplemental sizes idx room [] acc = acc"
| "supplemental sizes idx room (i # is) (n, cumulated) =
     (let s = sizes ! ((idx + i) mod length sizes)
      in if cumulated + s \<le> room then supplemental sizes idx room is (n + 1, cumulated + s)
         else (n, cumulated))"

text \<open>
  The state of the loop over the subchunks: the position \<open>win_ptr\<close> of the 64-bit window (in bytes),
  the bits \<open>bitsread\<close> already read in it, the subchunk index, their count and the output.
\<close>

record window =
  win_ptr :: nat
  bitsread :: nat
  subchunkIndex :: nat
  subchunks_done :: nat
  tmpdata :: "u64 list"

text \<open>The inner \<open>while\<close>: read subchunks as long as they fit in the window.\<close>

partial_function (option) bs_inner :: "nat list \<Rightarrow> u8 list \<Rightarrow> nat \<Rightarrow> window \<Rightarrow> window option" where
  [code]: "bs_inner sizes mem todo w =
     (if bitsread w + sizes ! subchunkIndex w \<le> 64
      then case read64_at mem (win_ptr w) of
             None \<Rightarrow> None
           | Some word \<Rightarrow>
               (let s = sizes ! subchunkIndex w;
                    w' = w \<lparr> tmpdata := tmpdata w @ [drop_bit (bitsread w) word AND bits_mask s], subchunks_done := subchunks_done w + 1,
                             bitsread := bitsread w + s, subchunkIndex := next_subchunk sizes (subchunkIndex w) \<rparr>
                in if subchunks_done w' = todo then Some w' else bs_inner sizes mem todo w')
      else Some w)"

text \<open>Close to the end of the buffer the window advances byte by byte; \<open>bitstoread\<close> may wrap.\<close>

partial_function (option) bs_advance :: "nat \<Rightarrow> nat \<Rightarrow> nat \<Rightarrow> u64 \<Rightarrow> (nat \<times> nat \<times> u64) option" where
  [code]: "bs_advance s p b bitstoread =
     (if 64 < b + s \<and> bitstoread > 0 then bs_advance s (p + 1) (b - 8) (bitstoread - 8)
      else Some (p, b, bitstoread))"

definition bs_shift :: "nat list \<Rightarrow> window \<Rightarrow> u64 \<Rightarrow> (window \<times> u64) option" where
  "bs_shift sizes w bitstoread =
     (if bitstoread > 128
      then (let shift = bitsread w div 8
            in Some (w \<lparr> win_ptr := win_ptr w + shift, bitsread := bitsread w - 8 * shift \<rparr>, bitstoread - of_nat (8 * shift)))
      else case bs_advance (sizes ! subchunkIndex w) (win_ptr w) (bitsread w) bitstoread of
             None \<Rightarrow> None
           | Some (p, b, bitstoread) \<Rightarrow> Some (w \<lparr> win_ptr := p, bitsread := b \<rparr>, bitstoread))"

partial_function (option) bs_subchunks :: "nat list \<Rightarrow> u8 list \<Rightarrow> nat \<Rightarrow> window \<Rightarrow> u64 \<Rightarrow> window option" where
  [code]: "bs_subchunks sizes mem todo w bitstoread =
     (if subchunks_done w < todo
      then case bs_inner sizes mem todo w of
             None \<Rightarrow> None
           | Some w \<Rightarrow>
               (case bs_shift sizes w bitstoread of
                  None \<Rightarrow> None
                | Some (w, bitstoread) \<Rightarrow> bs_subchunks sizes mem todo w bitstoread)
      else Some w)"

text \<open>
  The last partial subchunk of the buffer, completed from the next buffer when there is one. The
  shift is an unsigned difference: when it is negative the window leaves the buffer.
\<close>

definition bs_partial :: "nat list \<Rightarrow> u8 list \<Rightarrow> u8 list option \<Rightarrow> nat \<Rightarrow> window \<Rightarrow> window option" where
  "bs_partial sizes mem next bitsremaining w =
     (let shift = (64 - (bitsread w + bitsremaining)) div 8
      in if 64 < bitsread w + bitsremaining \<or> win_ptr w < shift then None
         else let b = bitsread w + 8 * shift in
           case read64_at mem (win_ptr w - shift) of
             None \<Rightarrow> None
           | Some word \<Rightarrow>
               (let v = drop_bit b word AND bits_mask bitsremaining
                in case next of
                     None \<Rightarrow> Some (w \<lparr> bitsread := b, tmpdata := tmpdata w @ [v] \<rparr>)
                   | Some mem' \<Rightarrow>
                       (case read64_at mem' 0 of
                          None \<Rightarrow> None
                        | Some word' \<Rightarrow>
                            (let s = sizes ! subchunkIndex w
                             in Some (w \<lparr> bitsread := s - bitsremaining, subchunkIndex := next_subchunk sizes (subchunkIndex w),
                                  tmpdata := tmpdata w @ [v OR (push_bit bitsremaining word' AND bits_mask s)] \<rparr>)))))"

definition bs_loop ::
    "u8 list list \<Rightarrow> nat \<Rightarrow> nat \<Rightarrow> nat \<Rightarrow> u64 list \<times> nat \<times> nat \<Rightarrow> (u64 list \<times> nat \<times> nat) option" where
  "bs_loop buffers bitsPerBuffer bitsPerChunk h state =
     (let (out0, br0, idx0) = state;
          sizes = subchunk_sizes 56 bitsPerChunk;
          nbChunks = (bitsPerBuffer - br0) div bitsPerChunk;
          room = (bitsPerBuffer - br0) mod bitsPerChunk;
          (extra, cumulated) = supplemental sizes idx0 room [0..<length sizes] (0, 0);
          todo = nbChunks * length sizes + extra;
          w = \<lparr> win_ptr = 0, bitsread = br0, subchunkIndex = idx0, subchunks_done = 0, tmpdata = out0 \<rparr>
      in case bs_subchunks sizes (buffers ! h) todo w (of_nat (bitsPerBuffer - br0)) of
           None \<Rightarrow> None
         | Some w \<Rightarrow>
             (if room - cumulated \<noteq> 0
              then map_option (\<lambda>w. (tmpdata w, bitsread w, subchunkIndex w))
                     (bs_partial sizes (buffers ! h)
                        (if h < length buffers - 1 then Some (buffers ! (h + 1)) else None)
                        (room - cumulated) w)
              else Some (tmpdata w, 0, subchunkIndex w)))"

section \<open>All the buffers\<close>

definition bs_buffers :: "u8 list list \<Rightarrow> nat \<Rightarrow> nat \<Rightarrow> (u64 list \<times> nat \<times> nat) option" where
  "bs_buffers buffers bitsPerBuffer bitsPerChunk =
     fold (\<lambda>h st. Option.bind st (bs_loop buffers bitsPerBuffer bitsPerChunk h)) [0..<length buffers]
       (Some ([], 0, 0))"

definition poly_number :: "nat \<Rightarrow> nat \<Rightarrow> nat \<Rightarrow> nat \<Rightarrow> nat" where
  "poly_number bitsPerBuffer nbrOfBuffers bitsPerChunk degree =
     ceil_div (bitsPerBuffer * nbrOfBuffers) (bitsPerChunk * degree)"

text \<open>\<open>internalLongIntegersToCRT\<close>: the words of each chunk are weighted and summed in each residue.\<close>

definition crt_multiplier :: "u64 \<Rightarrow> nat \<Rightarrow> u64" where
  "crt_multiplier p j = ((\<lambda>m. mulmod m (push_bit 56 1) p) ^^ j) 1"

definition crt_position :: "NFLlib \<Rightarrow> nat \<Rightarrow> nat \<Rightarrow> nat" where
  "crt_position nfl i cm =
     (i div polyDegree nfl) * (polyDegree nfl * nbModuli nfl) + i mod polyDegree nfl + cm * polyDegree nfl"

definition internalLongIntegersToCRT ::
    "NFLlib \<Rightarrow> u64 list \<Rightarrow> u64 list \<Rightarrow> nat \<Rightarrow> nat \<Rightarrow> u64 list" where
  "internalLongIntegersToCRT nfl splitData outdata words totalNbChunks =
     fold (\<lambda>i. fold (\<lambda>j. fold (\<lambda>cm out.
       out[crt_position nfl i cm := out ! crt_position nfl i cm +
             mulmod (splitData ! (i * words + j)) (crt_multiplier (moduli nfl ! cm) j) (moduli nfl ! cm)])
       [0..<nbModuli nfl]) [0..<words]) [0..<totalNbChunks] outdata"

definition bs_finish :: "NFLlib \<Rightarrow> nat \<Rightarrow> nat \<Rightarrow> u64 list \<Rightarrow> nat \<Rightarrow> nat \<Rightarrow> nat \<Rightarrow> u64 list" where
  "bs_finish nfl words polyNumber splitData nbrOfBuffers bitsPerBuffer bitsPerChunk =
     (let n = polyDegree nfl; nb = nbModuli nfl
      in if words > 1
         then internalLongIntegersToCRT nfl splitData (replicate (polyNumber * nb * n + 1) 0) words
                (ceil_div (bitsPerBuffer * nbrOfBuffers) bitsPerChunk)
         else if nb > 1
         then concat (map (\<lambda>i. concat (map (\<lambda>cm. slice n i splitData) [0..<nb])) [0..<polyNumber]) @ [0]
         else splitData)"

definition bitsplitter :: "NFLlib \<Rightarrow> u8 list list \<Rightarrow> nat \<Rightarrow> nat \<Rightarrow> u64 list option" where
  "bitsplitter nfl buffers bitsPerBuffer bitsPerChunk =
     (let words = ceil_div bitsPerChunk 56;
          polyNumber = poly_number bitsPerBuffer (length buffers) bitsPerChunk (polyDegree nfl)
      in case bs_buffers buffers bitsPerBuffer bitsPerChunk of
           None \<Rightarrow> None
         | Some (out, _, _) \<Rightarrow>
             (let splitData = out @ replicate (polyNumber * polyDegree nfl * words + 1 - length out) 0
              in Some (bs_finish nfl words polyNumber splitData (length buffers) bitsPerBuffer bitsPerChunk)))"

text \<open>The polynomials of the database element, transformed.\<close>

definition deserializeDataNFL :: "NFLlib \<Rightarrow> u8 list list \<Rightarrow> nat \<Rightarrow> nat \<Rightarrow> u64 list list option" where
  "deserializeDataNFL nfl buffers bitsPerBuffer bitsPerCoordinate =
     (let polyNumber = poly_number bitsPerBuffer (length buffers) bitsPerCoordinate (polyDegree nfl)
      in map_option (\<lambda>d. map (\<lambda>i. nttAndPowPhi nfl (slice (nbModuli nfl * polyDegree nfl) i d)) [0..<polyNumber])
           (bitsplitter nfl buffers bitsPerBuffer bitsPerCoordinate))"


section \<open>The reference: a bit stream cut into subchunks\<close>

text \<open>The first \<open>n\<close> bits of every buffer, one after the other.\<close>

fun stream :: "nat \<Rightarrow> u8 list list \<Rightarrow> nat" where
  "stream n [] = 0"
| "stream n (b # bs) = take_bit n (memval b) + 2 ^ n * stream n bs"

definition sub_size :: "nat \<Rightarrow> nat \<Rightarrow> nat" where
  "sub_size A j = subchunk_sizes 56 A ! (j mod ceil_div A 56)"

definition sub_pos :: "nat \<Rightarrow> nat \<Rightarrow> nat" where
  "sub_pos A j = (j div ceil_div A 56) * A + 56 * (j mod ceil_div A 56)"

definition subchunk :: "nat \<Rightarrow> nat \<Rightarrow> nat \<Rightarrow> u64" where
  "subchunk A S j = of_nat (take_bit (sub_size A j) (drop_bit (sub_pos A j) S))"

lemma stream_bit:
  assumes "0 < n"
  shows "bit (stream n bs) m \<longleftrightarrow> m div n < length bs \<and> bit (memval (bs ! (m div n))) (m mod n)"
proof (induction bs arbitrary: m)
  case (Cons b bs)
  have "take_bit n (memval b) + 2 ^ n * stream n bs = take_bit n (memval b) + push_bit n (stream n bs)"
    by (simp add: push_bit_eq_mult mult.commute)
  also have "\<dots> = take_bit n (memval b) OR push_bit n (stream n bs)"
    by (rule disjunctive_add) (auto simp: bit_take_bit_iff bit_push_bit_iff)
  finally have "bit (stream n (b # bs)) m \<longleftrightarrow>
      (m < n \<and> bit (memval b) m) \<or> (n \<le> m \<and> bit (stream n bs) (m - n))"
    by (simp add: bit_or_iff bit_take_bit_iff bit_push_bit_iff)
  moreover have "m div n = Suc ((m - n) div n) \<and> m mod n = (m - n) mod n" if "n \<le> m"
    using assms that by (simp add: le_div_geq le_mod_geq)
  ultimately show ?case using Cons.IH by (cases "m < n") auto
qed simp

subsection \<open>Sizes and positions\<close>

lemma subchunk_sizes_56:
  assumes "0 < A"
  shows "length (subchunk_sizes 56 A) = ceil_div A 56" "0 < ceil_div A 56"
    "j < ceil_div A 56 \<Longrightarrow> subchunk_sizes 56 A ! j = (if Suc j < ceil_div A 56 then 56 else A - 56 * j)"
    "j < ceil_div A 56 \<Longrightarrow> 56 * j < A" "A \<le> 56 * ceil_div A 56"
proof -
  show pos: "0 < ceil_div A 56" using assms by (simp add: ceil_div_pos)
  show "A \<le> 56 * ceil_div A 56" using ceil_div_mult_ge [of 56 A] by (simp add: mult.commute)
  show "length (subchunk_sizes 56 A) = ceil_div A 56"
    using pos by (simp add: subchunk_sizes_def Let_def)
  show "56 * j < A" if "j < ceil_div A 56"
    using that less_ceil_div_iff [of 56 j A] by (simp add: mult.commute)
  show "subchunk_sizes 56 A ! j = (if Suc j < ceil_div A 56 then 56 else A - 56 * j)" if "j < ceil_div A 56"
  proof (cases "Suc j < ceil_div A 56")
    case True
    then show ?thesis by (auto simp: subchunk_sizes_def Let_def nth_append)
  next
    case False
    then have "j = ceil_div A 56 - 1" using that by simp
    then show ?thesis using False by (simp add: subchunk_sizes_def Let_def nth_append)
  qed
qed

lemma sub_size_bounds:
  assumes "0 < A"
  shows "0 < sub_size A j" "sub_size A j \<le> 56"
proof -
  let ?k = "ceil_div A 56" and ?j = "j mod ceil_div A 56"
  note s = subchunk_sizes_56 [OF assms]
  have j: "?j < ?k" using s(2) by simp
  then have "A - 56 * ?j \<le> 56" if "\<not> Suc ?j < ?k"
  proof -
    have "?k = Suc ?j" using that j by simp
    then have "A \<le> 56 * Suc ?j" using s(5) by presburger
    then show ?thesis by simp
  qed
  then show "0 < sub_size A j" "sub_size A j \<le> 56"
    unfolding sub_size_def using s(3,4) [OF j] by auto
qed

lemma sub_pos_Suc:
  assumes "0 < A"
  shows "sub_pos A (Suc j) = sub_pos A j + sub_size A j"
proof -
  let ?k = "ceil_div A 56" and ?j = "j mod ceil_div A 56"
  note s = subchunk_sizes_56 [OF assms]
  have j: "?j < ?k" using s(2) by simp
  show ?thesis
  proof (cases "Suc ?j < ?k")
    case True
    then show ?thesis using s(3) [OF j] by (simp add: sub_pos_def sub_size_def mod_Suc div_Suc)
  next
    case False
    then have "Suc ?j = ?k" using j by simp
    then show ?thesis using s(3,4) [OF j]
      by (simp add: sub_pos_def sub_size_def mod_Suc div_Suc algebra_simps)
  qed
qed

lemma sub_pos_0 [simp]: "sub_pos A 0 = 0"
  by (simp add: sub_pos_def)

lemma sub_pos_mono:
  assumes "0 < A" "i \<le> j"
  shows "sub_pos A i \<le> sub_pos A j"
  using assms(2) by (induction rule: dec_induct) (simp_all add: sub_pos_Suc [OF assms(1)])

text \<open>A whole chunk is read by \<open>ceil_div A 56\<close> subchunks, from wherever one starts.\<close>

lemma sub_pos_add:
  assumes "0 < A"
  shows "sub_pos A (j + n * ceil_div A 56) = sub_pos A j + n * A"
  using subchunk_sizes_56(2) [OF assms] by (simp add: sub_pos_def algebra_simps)

lemma next_subchunk:
  assumes "0 < A"
  shows "next_subchunk (subchunk_sizes 56 A) (j mod ceil_div A 56) = Suc j mod ceil_div A 56"
  using subchunk_sizes_56(1,2) [OF assms] by (auto simp: next_subchunk_def mod_Suc)


subsection \<open>Reading the stream through the window\<close>

lemma bits_mask: "bits_mask s = mask s"
  by (simp add: bits_mask_def mask_eq_exp_minus_1)

lemma read_window:
  assumes "off + 8 \<le> length mem" "b + s \<le> 64"
  shows "drop_bit b (read64 mem off) AND bits_mask s = of_nat (take_bit s (drop_bit (8 * off + b) (memval mem)))"
proof (rule bit_word_eqI)
  fix n :: nat assume n: "n < LENGTH(64)"
  have e: "off + (b + n) div 8 = (8 * off + b + n) div 8" "(b + n) mod 8 = (8 * off + b + n) mod 8"
    by (simp_all add: add.assoc)
  have "(8 * off + b + n) < 8 * length mem" if "n < s" using that assms by simp
  then show "bit (drop_bit b (read64 mem off) AND bits_mask s) n =
      bit (of_nat (take_bit s (drop_bit (8 * off + b) (memval mem))) :: u64) n"
    using n assms(2) unfolding bits_mask
    by (auto simp: bit_and_iff bit_mask_iff bit_drop_bit_eq read64_bit memval_bit bit_of_nat_iff bit_take_bit_iff
        e add.assoc [symmetric])
qed

lemma stream_inside:
  assumes "0 < n" "h < length bs" "p + s \<le> n"
  shows "take_bit s (drop_bit (h * n + p) (stream n bs)) = take_bit s (drop_bit p (memval (bs ! h)))"
proof (rule bit_eqI)
  fix m
  have "(h * n + p + m) div n = h" "(h * n + p + m) mod n = p + m" if "m < s"
    using assms that by (simp_all add: add.assoc)
  then show "bit (take_bit s (drop_bit (h * n + p) (stream n bs))) m =
      bit (take_bit s (drop_bit p (memval (bs ! h)))) m"
    using assms(2) by (auto simp: bit_take_bit_iff bit_drop_bit_eq stream_bit [OF assms(1)])
qed

lemma stream_across:
  assumes "0 < n" "h < length bs" "p + r = n" "s - r \<le> n" "r \<le> s"
  shows "take_bit s (drop_bit (h * n + p) (stream n bs)) =
    take_bit r (drop_bit p (memval (bs ! h))) OR
    push_bit r (take_bit (s - r) (if Suc h < length bs then memval (bs ! Suc h) else 0))"
proof (rule bit_eqI)
  fix m
  have low: "(h * n + p + m) div n = h" "(h * n + p + m) mod n = p + m" if "m < r"
    using assms that by (simp_all add: add.assoc)
  have high: "(h * n + p + m) div n = Suc h" "(h * n + p + m) mod n = m - r" if "r \<le> m" "m < s"
  proof -
    have e: "h * n + p + m = (m - r) + Suc h * n" using assms(3) that by simp
    have "m - r < n" using assms(4) that by simp
    then show "(h * n + p + m) div n = Suc h" "(h * n + p + m) mod n = m - r"
      unfolding e by (simp_all del: mult_Suc)
  qed
  show "bit (take_bit s (drop_bit (h * n + p) (stream n bs))) m =
    bit (take_bit r (drop_bit p (memval (bs ! h))) OR
      push_bit r (take_bit (s - r) (if Suc h < length bs then memval (bs ! Suc h) else 0))) m"
  proof (cases "m < r")
    case True
    then show ?thesis using assms(2,5) low
      by (simp add: bit_take_bit_iff bit_or_iff bit_push_bit_iff bit_drop_bit_eq stream_bit [OF assms(1)])
  next
    case False
    then show ?thesis using assms(2,5) high
      by (auto simp: bit_take_bit_iff bit_or_iff bit_push_bit_iff bit_drop_bit_eq stream_bit [OF assms(1)])
  qed
qed


section \<open>The loops follow the reference\<close>

definition bs_inv :: "nat \<Rightarrow> nat \<Rightarrow> u8 list list \<Rightarrow> nat \<Rightarrow> nat \<Rightarrow> window \<Rightarrow> bool" where
  "bs_inv A n bufs h J w \<longleftrightarrow>
     tmpdata w = map (subchunk A (stream n bufs)) [0..<J + subchunks_done w] \<and>
     subchunkIndex w = (J + subchunks_done w) mod ceil_div A 56 \<and>
     sub_pos A (J + subchunks_done w) = h * n + 8 * win_ptr w + bitsread w \<and> bitsread w \<le> 64"

lemma bs_inv_size:
  "bs_inv A n bufs h J w \<Longrightarrow> subchunk_sizes 56 A ! subchunkIndex w = sub_size A (J + subchunks_done w)"
  by (simp add: bs_inv_def sub_size_def)

lemma window_in_buffer:
  fixes p n l :: nat
  shows "8 * p + 64 \<le> n + 7 \<Longrightarrow> n \<le> 8 * l \<Longrightarrow> p + 8 \<le> l"
  by linarith

text \<open>One subchunk read inside the buffer keeps the invariant.\<close>

lemma bs_inv_step:
  assumes A: "0 < A" and n: "0 < n" and h: "h < length bufs" and len: "n \<le> 8 * length (bufs ! h)"
    and inv: "bs_inv A n bufs h J w" and win: "8 * win_ptr w + 64 \<le> n + 7"
    and fit: "bitsread w + sub_size A (J + subchunks_done w) \<le> 64"
    and room: "sub_pos A (J + Suc (subchunks_done w)) \<le> Suc h * n"
  defines "s \<equiv> sub_size A (J + subchunks_done w)"
  shows "bs_inv A n bufs h J
    (w \<lparr> tmpdata := tmpdata w @ [drop_bit (bitsread w) (read64 (bufs ! h) (win_ptr w)) AND bits_mask s],
         subchunks_done := subchunks_done w + 1, bitsread := bitsread w + s,
         subchunkIndex := next_subchunk (subchunk_sizes 56 A) (subchunkIndex w) \<rparr>)"
proof -
  let ?j = "J + subchunks_done w" and ?p = "8 * win_ptr w + bitsread w"
  have pos: "sub_pos A ?j = h * n + ?p" using inv by (simp add: bs_inv_def)
  have "?p + s \<le> n" using room pos by (simp add: sub_pos_Suc [OF A] s_def)
  then have "take_bit s (drop_bit (sub_pos A ?j) (stream n bufs)) = take_bit s (drop_bit ?p (memval (bufs ! h)))"
    unfolding pos by (rule stream_inside [OF n h])
  then have "drop_bit (bitsread w) (read64 (bufs ! h) (win_ptr w)) AND bits_mask s = subchunk A (stream n bufs) ?j"
    using read_window [OF window_in_buffer [OF win len], of "bitsread w" s] fit
    by (simp add: subchunk_def s_def)
  then show ?thesis using inv fit pos
    by (simp add: bs_inv_def next_subchunk [OF A] sub_pos_Suc [OF A] s_def)
qed

lemma bs_inner_spec:
  assumes A: "0 < A" and n: "0 < n" and h: "h < length bufs" and len: "n \<le> 8 * length (bufs ! h)"
    and "bs_inv A n bufs h J w" "8 * win_ptr w + 64 \<le> n + 7" "subchunks_done w < todo"
    and room: "sub_pos A (J + todo) \<le> Suc h * n"
  shows "\<exists>w'. bs_inner (subchunk_sizes 56 A) (bufs ! h) todo w = Some w' \<and> bs_inv A n bufs h J w' \<and>
    win_ptr w' = win_ptr w \<and> subchunks_done w \<le> subchunks_done w' \<and> subchunks_done w' \<le> todo \<and>
    (subchunks_done w' = todo \<or> 64 < bitsread w' + sub_size A (J + subchunks_done w')) \<and>
    (bitsread w + sub_size A (J + subchunks_done w) \<le> 64 \<longrightarrow> subchunks_done w < subchunks_done w')"
  using assms(5-7)
proof (induction "todo - subchunks_done w" arbitrary: w rule: less_induct)
  case less
  let ?s = "sub_size A (J + subchunks_done w)" and ?sizes = "subchunk_sizes 56 A"
  note sz = bs_inv_size [OF less(2)]
  show ?case
  proof (cases "bitsread w + ?s \<le> 64")
    case False
    then show ?thesis using less(2,4) sz by (subst bs_inner.simps) simp
  next
    case True
    let ?w = "w \<lparr> tmpdata := tmpdata w @ [drop_bit (bitsread w) (read64 (bufs ! h) (win_ptr w)) AND bits_mask ?s],
         subchunks_done := subchunks_done w + 1, bitsread := bitsread w + ?s,
         subchunkIndex := next_subchunk ?sizes (subchunkIndex w) \<rparr>"
    have "sub_pos A (J + Suc (subchunks_done w)) \<le> Suc h * n"
      using sub_pos_mono [OF A, of "J + Suc (subchunks_done w)" "J + todo"] less(4) room by simp
    then have inv: "bs_inv A n bufs h J ?w"
      by (rule bs_inv_step [OF A n h len less(2,3) True])
    have rd: "read64_at (bufs ! h) (win_ptr w) = Some (read64 (bufs ! h) (win_ptr w))"
      using window_in_buffer [OF less(3) len] by (simp add: read64_at_def)
    have step: "bs_inner ?sizes (bufs ! h) todo w =
        (if subchunks_done ?w = todo then Some ?w else bs_inner ?sizes (bufs ! h) todo ?w)"
      using True sz rd by (subst bs_inner.simps) (simp add: Let_def)
    show ?thesis
    proof (cases "Suc (subchunks_done w) = todo")
      case True
      then show ?thesis unfolding step using inv by simp
    next
      case False
      then have lt: "todo - subchunks_done ?w < todo - subchunks_done w" "subchunks_done ?w < todo"
        using less(4) by simp_all
      from less(1) [OF lt(1) inv _ lt(2)] less(3)
      obtain w' where "bs_inner ?sizes (bufs ! h) todo ?w = Some w'" "bs_inv A n bufs h J w'"
        "win_ptr w' = win_ptr w" "Suc (subchunks_done w) \<le> subchunks_done w'" "subchunks_done w' \<le> todo"
        "subchunks_done w' = todo \<or> 64 < bitsread w' + sub_size A (J + subchunks_done w')"
        by auto
      then show ?thesis unfolding step using False by auto
    qed
  qed
qed

lemma bs_advance_spec:
  assumes "s \<le> 56" "b \<le> 64"
  shows "\<exists>p' b' t'. bs_advance s p b t = Some (p', b', t') \<and> 8 * p' + b' = 8 * p + b \<and> b' \<le> 64 \<and>
    t' + of_nat (8 * p') = t + of_nat (8 * p) \<and> (b' + s \<le> 64 \<or> t' = 0) \<and> p \<le> p' \<and>
    (p' = p \<or> 8 * p' + 64 < 8 * p + b + s + 8)"
  using assms(2)
proof (induction b arbitrary: p t rule: less_induct)
  case (less b)
  show ?case
  proof (cases "64 < b + s \<and> t > 0")
    case False
    then show ?thesis using less(2) by (subst bs_advance.simps) (auto simp: word_gt_0)
  next
    case True
    then have b: "8 < b" using assms(1) by simp
    have lt: "b - 8 < b" "b - 8 \<le> 64" using b less(2) by simp_all
    obtain p' b' t' where r: "bs_advance s (p + 1) (b - 8) (t - 8) = Some (p', b', t')"
      "8 * p' + b' = 8 * (p + 1) + (b - 8)" "b' \<le> 64" "t' + of_nat (8 * p') = t - 8 + of_nat (8 * (p + 1))"
      "b' + s \<le> 64 \<or> t' = 0" "p + 1 \<le> p'"
      "p' = p + 1 \<or> 8 * p' + 64 < 8 * (p + 1) + (b - 8) + s + 8"
      using less(1) [OF lt, of "p + 1" "t - 8"] by (elim exE conjE) (rule that)
    have "t' + of_nat (8 * p') = t + of_nat (8 * p)" using r(4) by (simp add: algebra_simps)
    moreover have "8 * p' + 64 < 8 * p + b + s + 8" using r(7) True b by auto
    moreover have "bs_advance s p b t = Some (p', b', t')"
      using True r(1) by (subst bs_advance.simps) simp
    ultimately show ?thesis using r b by auto
  qed
qed


lemma of_nat_u64_inj:
  assumes "(of_nat a :: u64) = of_nat b" "a < 2 ^ 64" "b < 2 ^ 64"
  shows "a = b"
  using arg_cong [OF assms(1), of unat] assms(2,3) by (simp add: unat_of_nat)

lemma bitstoread_val:
  assumes "(t :: u64) + of_nat (8 * p) = of_nat m" "8 * p \<le> m" "m < 2 ^ 63"
  shows "unat t = m - 8 * p"
proof -
  have "t = of_nat (m - 8 * p)" using assms(1,2) by (simp add: of_nat_diff algebra_simps)
  then show ?thesis using assms(3) by (simp add: unat_of_nat)
qed

lemma bs_inv_move:
  assumes "bs_inv A n bufs h J w" "8 * p + b = 8 * win_ptr w + bitsread w" "b \<le> 64"
  shows "bs_inv A n bufs h J (w \<lparr> win_ptr := p, bitsread := b \<rparr>)"
  using assms by (simp add: bs_inv_def)

lemma bs_shift_spec:
  assumes A: "0 < A" and inv: "bs_inv A n bufs h J w" and n: "n < 2 ^ 63" and br0: "br0 \<le> 55" "br0 \<le> n"
    and t: "t + of_nat (8 * win_ptr w) = of_nat (n - br0)" and win: "8 * win_ptr w + 64 \<le> n + 7"
  obtains w' t' where "bs_shift (subchunk_sizes 56 A) w t = Some (w', t')" "bs_inv A n bufs h J w'"
    "t' + of_nat (8 * win_ptr w') = of_nat (n - br0)" "subchunks_done w' = subchunks_done w"
    "8 * win_ptr w' + bitsread w' = 8 * win_ptr w + bitsread w"
    "64 < bitsread w + sub_size A (J + subchunks_done w) \<Longrightarrow>
      8 * win_ptr w + bitsread w + sub_size A (J + subchunks_done w) \<le> n \<Longrightarrow>
      bitsread w' + sub_size A (J + subchunks_done w) \<le> 64 \<and> 8 * win_ptr w' + 64 \<le> n + 7"
    "\<And>r. r < sub_size A (J + subchunks_done w) \<Longrightarrow> 8 * win_ptr w + bitsread w + r = n \<Longrightarrow> bitsread w' + r \<le> 64"
proof -
  let ?s = "sub_size A (J + subchunks_done w)"
  note s = sub_size_bounds [OF A, of "J + subchunks_done w"] and sz = bs_inv_size [OF inv]
  have b64: "bitsread w \<le> 64" using inv by (simp add: bs_inv_def)
  show thesis
  proof (cases "t > 128")
    case True
    let ?k = "bitsread w div 8"
    let ?w = "w \<lparr> win_ptr := win_ptr w + ?k, bitsread := bitsread w - 8 * ?k \<rparr>"
    have b8: "bitsread w - 8 * ?k < 8" by (simp add: minus_mult_div_eq_mod)
    show thesis
    proof (rule that [of ?w "t - of_nat (8 * ?k)"])
      show "bs_shift (subchunk_sizes 56 A) w t = Some (?w, t - of_nat (8 * ?k))"
        using True by (simp add: bs_shift_def Let_def)
      show "bs_inv A n bufs h J ?w" by (rule bs_inv_move [OF inv]) (use b64 in auto)
      show "t - of_nat (8 * ?k) + of_nat (8 * win_ptr ?w) = of_nat (n - br0)"
        using t by (simp add: algebra_simps)
      show "8 * win_ptr ?w + bitsread ?w = 8 * win_ptr w + bitsread w" by simp
      show "bitsread ?w + r \<le> 64" if "r < ?s" for r using b8 that s(2) by simp
      assume "64 < bitsread w + ?s" and room: "8 * win_ptr w + bitsread w + ?s \<le> n"
      then have "8 * win_ptr w + 64 < n" by simp
      then have "unat t = n - br0 - 8 * win_ptr w" by (intro bitstoread_val [OF t]) (use br0 n in simp_all)
      moreover have "128 < unat t" using True by (simp add: word_less_nat_alt)
      moreover have "?k \<le> 8" using b64 by simp
      moreover have "8 * (p + k) + 64 \<le> n + 7" if "u = n - br0 - 8 * p" "128 < u" "k \<le> 8" for u p k :: nat
      proof -
        have "n = u + br0 + 8 * p" using that(1,2) by simp
        then show ?thesis using that(2,3) by simp
      qed
      ultimately have "8 * (win_ptr w + ?k) + 64 \<le> n + 7" by blast
      moreover have "b + c \<le> 64" if "b < 8" "c \<le> 56" for b c :: nat using that by simp
      ultimately have "8 * (win_ptr w + ?k) + 64 \<le> n + 7" "bitsread w - 8 * ?k + ?s \<le> 64"
        using b8 s(2) by blast+
      then show "bitsread ?w + ?s \<le> 64 \<and> 8 * win_ptr ?w + 64 \<le> n + 7" by simp
    qed simp
  next
    case False
    obtain p b t' where a: "bs_advance ?s (win_ptr w) (bitsread w) t = Some (p, b, t')"
      "8 * p + b = 8 * win_ptr w + bitsread w" "b \<le> 64" "t' + of_nat (8 * p) = t + of_nat (8 * win_ptr w)"
      "b + ?s \<le> 64 \<or> t' = 0" "p = win_ptr w \<or> 8 * p + 64 < 8 * win_ptr w + bitsread w + ?s + 8"
      using bs_advance_spec [OF s(2) b64, of "win_ptr w" t] by blast
    have eq: "8 * p = n - br0" if "t' = 0" "8 * p < 2 ^ 64"
      using of_nat_u64_inj [of "8 * p" "n - br0"] a(4) t that n by simp
    show thesis
    proof (rule that [of "w \<lparr> win_ptr := p, bitsread := b \<rparr>" t'])
      show "bs_shift (subchunk_sizes 56 A) w t = Some (w \<lparr> win_ptr := p, bitsread := b \<rparr>, t')"
        using False a(1) by (simp add: bs_shift_def sz)
      show "bs_inv A n bufs h J (w \<lparr> win_ptr := p, bitsread := b \<rparr>)"
        by (rule bs_inv_move [OF inv a(2,3)])
      show "bitsread (w \<lparr> win_ptr := p, bitsread := b \<rparr>) + r \<le> 64"
        if r: "r < ?s" "8 * win_ptr w + bitsread w + r = n" for r
        using a(5)
      proof
        assume "t' = 0"
        moreover have "8 * p < 2 ^ 64" using a(2) r(2) n by simp
        ultimately have "8 * p = n - br0" by (rule eq)
        then show ?thesis using a(2) r(2) br0 by simp
      qed (use r(1) in simp)
      assume over: "64 < bitsread w + ?s" and room: "8 * win_ptr w + bitsread w + ?s \<le> n"
      have win': "8 * p + 64 \<le> n + 7" using a(6) room win by auto
      moreover have "b + ?s \<le> 64" using a(5)
      proof
        assume "t' = 0"
        moreover have "8 * p < 2 ^ 64" using win' n by simp
        ultimately have "8 * p = n - br0" by (rule eq)
        then show ?thesis using a(6) over room br0 by auto
      qed
      ultimately show "bitsread (w \<lparr> win_ptr := p, bitsread := b \<rparr>) + ?s \<le> 64 \<and>
          8 * win_ptr (w \<lparr> win_ptr := p, bitsread := b \<rparr>) + 64 \<le> n + 7" by simp
    qed (use a t in simp_all)
  qed
qed

lemma bs_subchunks_spec:
  assumes A: "0 < A" and n: "64 \<le> n" "n < 2 ^ 63" and h: "h < length bufs"
    and len: "n \<le> 8 * length (bufs ! h)" and br0: "br0 \<le> 55"
    and room: "sub_pos A (J + todo) + r = Suc h * n" "r < sub_size A (J + todo)"
    and "bs_inv A n bufs h J w" "t + of_nat (8 * win_ptr w) = of_nat (n - br0)" "subchunks_done w < todo"
    and "bitsread w + sub_size A (J + subchunks_done w) \<le> 64" "8 * win_ptr w + 64 \<le> n + 7"
  shows "\<exists>w'. bs_subchunks (subchunk_sizes 56 A) (bufs ! h) todo w t = Some w' \<and> bs_inv A n bufs h J w' \<and>
    subchunks_done w' = todo \<and> bitsread w' + r \<le> 64"
  using assms(9-)
proof (induction "todo - subchunks_done w" arbitrary: w t rule: less_induct)
  case less
  let ?sizes = "subchunk_sizes 56 A"
  have n0: "0 < n" using n by simp
  have room': "sub_pos A (J + todo) \<le> Suc h * n" using room(1) by simp
  obtain w1 where w1: "bs_inner ?sizes (bufs ! h) todo w = Some w1" "bs_inv A n bufs h J w1"
    "win_ptr w1 = win_ptr w" "subchunks_done w < subchunks_done w1" "subchunks_done w1 \<le> todo"
    "subchunks_done w1 = todo \<or> 64 < bitsread w1 + sub_size A (J + subchunks_done w1)"
    using bs_inner_spec [OF A n0 h len less(2) less(6) less(4) room'] less(5) by blast
  have t1: "t + of_nat (8 * win_ptr w1) = of_nat (n - br0)" and win1: "8 * win_ptr w1 + 64 \<le> n + 7"
    using less(3,6) w1(3) by simp_all
  have br0': "br0 \<le> n" using br0 n by simp
  obtain w2 t2 where w2: "bs_shift ?sizes w1 t = Some (w2, t2)" "bs_inv A n bufs h J w2"
    "t2 + of_nat (8 * win_ptr w2) = of_nat (n - br0)" "subchunks_done w2 = subchunks_done w1"
    "64 < bitsread w1 + sub_size A (J + subchunks_done w1) \<Longrightarrow>
      8 * win_ptr w1 + bitsread w1 + sub_size A (J + subchunks_done w1) \<le> n \<Longrightarrow>
      bitsread w2 + sub_size A (J + subchunks_done w1) \<le> 64 \<and> 8 * win_ptr w2 + 64 \<le> n + 7"
    "\<And>r. r < sub_size A (J + subchunks_done w1) \<Longrightarrow> 8 * win_ptr w1 + bitsread w1 + r = n \<Longrightarrow> bitsread w2 + r \<le> 64"
    by (rule bs_shift_spec [OF A w1(2) n(2) br0 br0' t1 win1]) blast
  have pos1: "sub_pos A (J + subchunks_done w1) = h * n + (8 * win_ptr w1 + bitsread w1)"
    using w1(2) by (simp add: bs_inv_def)
  have step: "bs_subchunks ?sizes (bufs ! h) todo w t = bs_subchunks ?sizes (bufs ! h) todo w2 t2"
    using less(4) w1(1) w2(1) by (subst bs_subchunks.simps) simp
  show ?case
  proof (cases "subchunks_done w1 = todo")
    case True
    then have "8 * win_ptr w1 + bitsread w1 + r = n" using pos1 room(1) by simp
    then have "bitsread w2 + r \<le> 64" using w2(6) [of r] room(2) True by simp
    moreover have "bs_subchunks ?sizes (bufs ! h) todo w2 t2 = Some w2"
      using w2(4) True by (subst bs_subchunks.simps) simp
    ultimately show ?thesis unfolding step using w2(2,4) True by auto
  next
    case False
    then have lt: "subchunks_done w1 < todo" using w1(5) by simp
    have "sub_pos A (J + Suc (subchunks_done w1)) \<le> Suc h * n"
      using sub_pos_mono [OF A, of "J + Suc (subchunks_done w1)" "J + todo"] lt room' by simp
    then have "8 * win_ptr w1 + bitsread w1 + sub_size A (J + subchunks_done w1) \<le> n"
      using pos1 by (simp add: sub_pos_Suc [OF A])
    then have fit: "bitsread w2 + sub_size A (J + subchunks_done w2) \<le> 64" "8 * win_ptr w2 + 64 \<le> n + 7"
      using w2(5) w1(6) False w2(4) by auto
    have dec: "todo - subchunks_done w2 < todo - subchunks_done w" "subchunks_done w2 < todo"
      using w1(4) w2(4) lt by simp_all
    show ?thesis unfolding step by (rule less(1) [OF dec(1) w2(2,3) dec(2) fit])
  qed
qed


lemma bs_subchunks_start:
  assumes A: "0 < A" and n: "64 \<le> n" "n < 2 ^ 63" and h: "h < length bufs"
    and len: "n \<le> 8 * length (bufs ! h)" and br0: "bitsread w \<le> 55"
    and room: "sub_pos A (J + todo) + r = Suc h * n" "r < sub_size A (J + todo)"
    and inv: "bs_inv A n bufs h J w" and w: "win_ptr w = 0" "subchunks_done w = 0" and todo: "0 < todo"
  shows "\<exists>w'. bs_subchunks (subchunk_sizes 56 A) (bufs ! h) todo w (of_nat (n - bitsread w)) = Some w' \<and>
    bs_inv A n bufs h J w' \<and> subchunks_done w' = todo \<and> bitsread w' + r \<le> 64"
proof (cases "bitsread w + sub_size A J \<le> 64")
  case True
  show ?thesis
    by (rule bs_subchunks_spec [OF A n h len br0 room inv]) (use True n w todo in simp_all)
next
  case False
  have t: "of_nat (n - bitsread w) + of_nat (8 * win_ptr w) = (of_nat (n - bitsread w) :: u64)"
    using w by simp
  have le: "bitsread w \<le> n" and win: "8 * win_ptr w + 64 \<le> n + 7" using br0 n w by simp_all
  have pos: "sub_pos A J = h * n + bitsread w" using inv w by (simp add: bs_inv_def)
  have "sub_pos A (J + Suc 0) \<le> Suc h * n"
    using sub_pos_mono [OF A, of "J + Suc 0" "J + todo"] todo room(1) by simp
  then have sz: "bitsread w + sub_size A J \<le> n" using pos by (simp add: sub_pos_Suc [OF A])
  obtain w2 t2 where w2: "bs_shift (subchunk_sizes 56 A) w (of_nat (n - bitsread w)) = Some (w2, t2)"
    "bs_inv A n bufs h J w2" "t2 + of_nat (8 * win_ptr w2) = of_nat (n - bitsread w)" "subchunks_done w2 = 0"
    "bitsread w2 + sub_size A J \<le> 64" "8 * win_ptr w2 + 64 \<le> n + 7"
    by (rule bs_shift_spec [OF A inv n(2) br0 le t win]) (use False sz w in auto)
  have "bs_inner (subchunk_sizes 56 A) (bufs ! h) todo w = Some w"
    using False bs_inv_size [OF inv] w by (subst bs_inner.simps) simp
  then have "bs_subchunks (subchunk_sizes 56 A) (bufs ! h) todo w (of_nat (n - bitsread w)) =
      bs_subchunks (subchunk_sizes 56 A) (bufs ! h) todo w2 t2"
    using w(2) todo w2(1) by (subst bs_subchunks.simps) simp
  then show ?thesis
    using bs_subchunks_spec [OF A n h len br0 room w2(2,3)] w2(4-6) todo by simp
qed

lemma supplemental_spec:
  assumes A: "0 < A" and i: "i \<le> ceil_div A 56" and room: "sub_pos A (J + i) \<le> sub_pos A J + room" "room < A"
  shows "\<exists>e. supplemental (subchunk_sizes 56 A) (J mod ceil_div A 56) room [i..<ceil_div A 56]
      (i, sub_pos A (J + i) - sub_pos A J) = (e, sub_pos A (J + e) - sub_pos A J) \<and>
    sub_pos A (J + e) \<le> sub_pos A J + room \<and> sub_pos A J + room < sub_pos A (J + Suc e)"
  using i room(1)
proof (induction "ceil_div A 56 - i" arbitrary: i)
  case 0
  then have "sub_pos A (J + i) = sub_pos A J + A" using sub_pos_add [OF A, of J 1] by simp
  then show ?case using 0 room(2) by simp
next
  case (Suc m)
  let ?k = "ceil_div A 56"
  have lt: "i < ?k" using Suc(2) by simp
  have s: "subchunk_sizes 56 A ! ((J mod ?k + i) mod length (subchunk_sizes 56 A)) = sub_size A (J + i)"
    by (simp add: sub_size_def subchunk_sizes_56(1) [OF A] mod_add_left_eq)
  have le: "sub_pos A J \<le> sub_pos A (J + i)" by (rule sub_pos_mono [OF A]) simp
  have up: "[i..<?k] = i # [Suc i..<?k]" by (rule upt_conv_Cons [OF lt])
  have d: "sub_pos A (J + i) - sub_pos A J + sub_size A (J + i) = sub_pos A (J + Suc i) - sub_pos A J"
    using le by (simp add: sub_pos_Suc [OF A])
  show ?case
  proof (cases "sub_pos A (J + Suc i) - sub_pos A J \<le> room")
    case True
    then have "sub_pos A (J + Suc i) \<le> sub_pos A J + room" by simp
    from Suc(1) [of "Suc i", OF _ _ this] Suc(2) lt True show ?thesis
      unfolding up by (simp add: s d)
  next
    case False
    then show ?thesis unfolding up using Suc(4) by (intro exI [of _ i]) (simp add: s d)
  qed
qed

lemma bs_partial_spec:
  assumes A: "0 < A" and n: "64 \<le> n" and h: "h < length bufs"
    and len: "\<forall>b \<in> set bufs. n \<le> 8 * length b" and inv: "bs_inv A n bufs h J w"
    and r: "8 * win_ptr w + bitsread w + r = n" "0 < r" "r < sub_size A (J + subchunks_done w)"
    and fit: "bitsread w + r \<le> 64"
  defines "j \<equiv> J + subchunks_done w"
  shows "\<exists>w'. bs_partial (subchunk_sizes 56 A) (bufs ! h)
      (if h < length bufs - 1 then Some (bufs ! (h + 1)) else None) r w = Some w' \<and>
    tmpdata w' = map (subchunk A (stream n bufs)) [0..<Suc j] \<and>
    (h < length bufs - 1 \<longrightarrow> bitsread w' = sub_size A j - r \<and> subchunkIndex w' = Suc j mod ceil_div A 56)"
proof -
  let ?sh = "(64 - (bitsread w + r)) div 8" and ?s = "sub_size A j" and ?mem = "bufs ! h"
  let ?next = "if h < length bufs - 1 then Some (bufs ! (h + 1)) else None"
  let ?p = "8 * win_ptr w + bitsread w" and ?b = "bitsread w + 8 * ((64 - (bitsread w + r)) div 8)"
  have n0: "0 < n" using n by simp
  have s56: "?s \<le> 56" by (rule sub_size_bounds [OF A])
  have memlen: "n \<le> 8 * length ?mem" using len h by simp
  have sh: "8 * ?sh \<le> 64 - (bitsread w + r)" "64 - (bitsread w + r) < 8 * ?sh + 8" by simp_all
  have arith: "x \<le> p \<and> b + 8 * x + r \<le> 64 \<and> 8 * (p - x) + (b + 8 * x) = 8 * p + b \<and> 8 * (p - x) + 64 \<le> n + 7"
    if "8 * x \<le> 64 - (b + r)" "64 - (b + r) < 8 * x + 8" "8 * p + b + r = n" "b + r \<le> 64" for x b p :: nat
  proof -
    have "8 * x + (b + r) \<le> 64" "64 < 8 * x + 8 + (b + r)" using that by linarith+
    moreover have "x \<le> p" using calculation that(3) n by linarith
    then obtain q where "p = x + q" using le_Suc_ex by blast
    ultimately show ?thesis using that(3) by simp
  qed
  note geo = arith [OF sh r(1) fit]
  have shp: "?sh \<le> win_ptr w" and b64: "?b + r \<le> 64" and pos: "8 * (win_ptr w - ?sh) + ?b = ?p"
    using geo by blast+
  have "8 * (win_ptr w - ?sh) + 64 \<le> n + 7" using geo by blast
  then have in_buf: "win_ptr w - ?sh + 8 \<le> length ?mem" by (rule window_in_buffer [OF _ memlen])
  let ?v = "drop_bit ?b (read64 ?mem (win_ptr w - ?sh)) AND bits_mask r"
  have v: "?v = of_nat (take_bit r (drop_bit ?p (memval ?mem)))"
    using read_window [OF in_buf b64] pos by simp
  have P: "sub_pos A j = h * n + ?p" and data: "tmpdata w = map (subchunk A (stream n bufs)) [0..<j]"
    and idx: "subchunkIndex w = j mod ceil_div A 56"
    using inv by (simp_all add: bs_inv_def j_def)
  have rs: "r < ?s" using r(3) by (simp add: j_def)
  have across: "take_bit ?s (drop_bit (sub_pos A j) (stream n bufs)) =
      take_bit r (drop_bit ?p (memval ?mem)) OR
      push_bit r (take_bit (?s - r) (if Suc h < length bufs then memval (bufs ! Suc h) else 0))"
    unfolding P by (rule stream_across [OF n0 h r(1)]) (use rs s56 n in simp_all)
  have rd: "read64_at ?mem (win_ptr w - ?sh) = Some (read64 ?mem (win_ptr w - ?sh))"
    using in_buf by (simp add: read64_at_def)
  have guard: "\<not> (64 < bitsread w + r \<or> win_ptr w < ?sh)" using fit shp by simp
  show ?thesis
  proof (cases "h < length bufs - 1")
    case False
    then have "subchunk A (stream n bufs) j = ?v" using across v by (simp add: subchunk_def)
    moreover have "bs_partial (subchunk_sizes 56 A) ?mem ?next r w =
        Some (w \<lparr> bitsread := ?b, tmpdata := tmpdata w @ [?v] \<rparr>)"
      using False guard rd by (simp add: bs_partial_def Let_def)
    ultimately show ?thesis using False data by simp
  next
    case True
    let ?mem' = "bufs ! (h + 1)"
    have "n \<le> 8 * length ?mem'" using len True by simp
    then have l8: "0 + 8 \<le> length ?mem'" using n by linarith
    have rd': "read64_at ?mem' 0 = Some (read64 ?mem' 0)" using l8 by (simp add: read64_at_def)
    have w': "push_bit r (read64 ?mem' 0) AND bits_mask ?s = of_nat (push_bit r (take_bit (?s - r) (memval ?mem')))"
    proof (rule bit_word_eqI)
      fix m :: nat assume "m < LENGTH(64)"
      then show "bit (push_bit r (read64 ?mem' 0) AND bits_mask ?s) m =
          bit (of_nat (push_bit r (take_bit (?s - r) (memval ?mem'))) :: u64) m"
        using l8 s56 rs unfolding bits_mask
        by (auto simp: bit_and_iff bit_mask_iff bit_push_bit_iff read64_bit memval_bit bit_of_nat_iff bit_take_bit_iff)
    qed
    have "subchunk A (stream n bufs) j = ?v OR (push_bit r (read64 ?mem' 0) AND bits_mask ?s)"
      unfolding subchunk_def across w' v using True by (simp add: of_nat_or_eq)
    moreover have "bs_partial (subchunk_sizes 56 A) ?mem ?next r w =
        Some (w \<lparr> bitsread := ?s - r, subchunkIndex := next_subchunk (subchunk_sizes 56 A) (subchunkIndex w),
          tmpdata := tmpdata w @ [?v OR (push_bit r (read64 ?mem' 0) AND bits_mask ?s)] \<rparr>)"
      using True guard rd rd' bs_inv_size [OF inv] by (simp add: bs_partial_def Let_def j_def)
    ultimately show ?thesis using True data by (simp add: idx next_subchunk [OF A])
  qed
qed


lemma sub_pos_less:
  assumes "0 < A" "i < j"
  shows "sub_pos A i < sub_pos A j"
proof -
  have "sub_pos A i < sub_pos A (Suc i)" using sub_size_bounds(1) [OF assms(1)] by (simp add: sub_pos_Suc [OF assms(1)])
  also have "\<dots> \<le> sub_pos A j" using assms by (intro sub_pos_mono) simp_all
  finally show ?thesis .
qed

lemma bs_loop_spec:
  assumes A: "0 < A" and n: "64 \<le> n" "n < 2 ^ 63" and h: "h < length bufs"
    and len: "\<forall>b \<in> set bufs. n \<le> 8 * length b"
    and J: "sub_pos A J = h * n + b0" and b0: "b0 \<le> 55" "b0 + 56 \<le> n"
  shows "\<exists>J' b' i'. bs_loop bufs n A h (map (subchunk A (stream n bufs)) [0..<J], b0, J mod ceil_div A 56) =
      Some (map (subchunk A (stream n bufs)) [0..<J'], b', i') \<and>
    Suc h * n \<le> sub_pos A J' \<and> (\<forall>j < J'. sub_pos A j < Suc h * n) \<and>
    (h < length bufs - 1 \<longrightarrow> sub_pos A J' = Suc h * n + b' \<and> b' \<le> 55 \<and> i' = J' mod ceil_div A 56)"
proof -
  let ?k = "ceil_div A 56" and ?nb = "(n - b0) div A" and ?room = "(n - b0) mod A" and ?S = "stream n bufs"
  let ?sizes = "subchunk_sizes 56 A"
  have memlen: "n \<le> 8 * length (bufs ! h)" using len h by simp
  have lsz: "length ?sizes = ?k" by (rule subchunk_sizes_56(1) [OF A])
  obtain e where e: "supplemental ?sizes (J mod ?k) ?room [0..<?k] (0, 0) = (e, sub_pos A (J + e) - sub_pos A J)"
    "sub_pos A (J + e) \<le> sub_pos A J + ?room" "sub_pos A J + ?room < sub_pos A (J + Suc e)"
    using supplemental_spec [OF A, of 0 J ?room] A by auto
  define cum where "cum = sub_pos A (J + e) - sub_pos A J"
  define todo where "todo = ?nb * ?k + e"
  define r where "r = ?room - cum"
  have le: "sub_pos A J \<le> sub_pos A (J + e)" by (rule sub_pos_mono [OF A]) simp
  have posJ: "sub_pos A (J + todo) = sub_pos A (J + e) + ?nb * A"
    using sub_pos_add [OF A, of "J + e" ?nb] by (simp add: todo_def add.assoc add.commute)
  have nb: "?nb * A + ?room = n - b0" by simp
  have room: "sub_pos A (J + todo) + r = Suc h * n"
  proof -
    have "x + c + r' = s" if "x = p + a" "p = j + u" "r' = m - u" "u \<le> m" "a + m = d" "j + d = s" "c = 0"
      for x c r' s p a j u m d :: nat using that by simp
    moreover have "sub_pos A (J + e) = sub_pos A J + cum" using le by (simp add: cum_def)
    moreover have "cum \<le> ?room" using e(2) le by (simp add: cum_def)
    moreover have "sub_pos A J + (n - b0) = Suc h * n" using J b0 by simp
    ultimately show ?thesis using posJ nb unfolding r_def by (metis add.right_neutral)
  qed
  have size_eq: "sub_size A (J + todo) = sub_size A (J + e)"
    by (simp add: sub_size_def todo_def add.commute add.left_commute) (metis add.assoc add.commute mod_mult_self1)
  have rs: "r < sub_size A (J + todo)"
    using e(2,3) le sub_pos_Suc [OF A, of "J + e"] unfolding size_eq by (simp add: r_def cum_def)
  have todo0: "0 < todo"
  proof (rule ccontr)
    assume "\<not> 0 < todo"
    then have "b0 + r = n" using room J by simp
    then show False using rs sub_size_bounds(2) [OF A, of "J + todo"] b0 by simp
  qed
  let ?w = "\<lparr> win_ptr = 0, bitsread = b0, subchunkIndex = J mod ?k, subchunks_done = 0, tmpdata = map (subchunk A ?S) [0..<J] \<rparr>"
  have inv: "bs_inv A n bufs h J ?w" using J b0 by (simp add: bs_inv_def)
  obtain w where w: "bs_subchunks ?sizes (bufs ! h) todo ?w (of_nat (n - b0)) = Some w"
    "bs_inv A n bufs h J w" "subchunks_done w = todo" "bitsread w + r \<le> 64"
    using bs_subchunks_start [OF A n h memlen _ room rs inv _ _ todo0] b0 by auto
  have data: "tmpdata w = map (subchunk A ?S) [0..<J + todo]" "subchunkIndex w = (J + todo) mod ?k"
    and pos: "sub_pos A (J + todo) = h * n + (8 * win_ptr w + bitsread w)"
    using w(2,3) by (simp_all add: bs_inv_def)
  have run: "bs_loop bufs n A h (map (subchunk A ?S) [0..<J], b0, J mod ?k) =
      (if r \<noteq> 0 then map_option (\<lambda>w. (tmpdata w, bitsread w, subchunkIndex w))
         (bs_partial ?sizes (bufs ! h) (if h < length bufs - 1 then Some (bufs ! (h + 1)) else None) r w)
       else Some (tmpdata w, 0, subchunkIndex w))"
    using w(1) e(1) unfolding bs_loop_def Let_def prod.case lsz by (simp add: todo_def r_def cum_def)
  have before: "sub_pos A j < Suc h * n" if "j < J + todo" for j
    using sub_pos_less [OF A that] room by simp
  show ?thesis
  proof (cases "r = 0")
    case True
    then show ?thesis using run data room before
      by (intro exI [of _ "J + todo"] exI [of _ 0] exI [of _ "(J + todo) mod ?k"]) simp
  next
    case False
    have "8 * win_ptr w + bitsread w + r = n" using pos room by simp
    moreover have "r < sub_size A (J + subchunks_done w)" using rs w(3) by simp
    ultimately obtain w' where w': "bs_partial ?sizes (bufs ! h)
        (if h < length bufs - 1 then Some (bufs ! (h + 1)) else None) r w = Some w'"
      "tmpdata w' = map (subchunk A ?S) [0..<Suc (J + todo)]"
      "h < length bufs - 1 \<longrightarrow> bitsread w' = sub_size A (J + todo) - r \<and> subchunkIndex w' = Suc (J + todo) mod ?k"
      using bs_partial_spec [OF A n(1) h len w(2) _ _ _ w(4)] False unfolding w(3) by blast
    have last: "sub_pos A (Suc (J + todo)) = Suc h * n + (sub_size A (J + todo) - r)"
      using room rs by (simp add: sub_pos_Suc [OF A])
    have "sub_pos A j < Suc h * n" if "j < Suc (J + todo)" for j
      using before [of j] room False that by (cases "j = J + todo") auto
    moreover have "sub_size A (J + todo) - r \<le> 55" using False sub_size_bounds(2) [OF A, of "J + todo"] by simp
    ultimately show ?thesis using run w' last False
      by (intro exI [of _ "Suc (J + todo)"] exI [of _ "bitsread w'"] exI [of _ "subchunkIndex w'"]) auto
  qed
qed

text \<open>All the buffers: the subchunks are those of the stream, up to its last bit.\<close>

lemma bs_buffers_spec:
  assumes A: "0 < A" and n: "64 \<le> n" "n < 2 ^ 63" "length bufs \<le> 1 \<or> 112 \<le> n"
    and len: "\<forall>b \<in> set bufs. n \<le> 8 * length b"
  shows "\<exists>J b i. bs_buffers bufs n A = Some (map (subchunk A (stream n bufs)) [0..<J], b, i) \<and>
    length bufs * n \<le> sub_pos A J \<and> (\<forall>j < J. sub_pos A j < length bufs * n)"
proof -
  let ?run = "\<lambda>m. fold (\<lambda>h st. Option.bind st (bs_loop bufs n A h)) [0..<m] (Some ([], 0, 0))"
  have "\<exists>J b i. ?run m = Some (map (subchunk A (stream n bufs)) [0..<J], b, i) \<and>
      m * n \<le> sub_pos A J \<and> (\<forall>j < J. sub_pos A j < m * n) \<and>
      (m < length bufs \<longrightarrow> sub_pos A J = m * n + b \<and> b \<le> 55 \<and> b + 56 \<le> n \<and> i = J mod ceil_div A 56)"
    if "m \<le> length bufs" for m
    using that
  proof (induction m)
    case 0
    then show ?case using n by (intro exI [of _ 0]) simp
  next
    case (Suc m)
    then obtain J b i where J: "?run m = Some (map (subchunk A (stream n bufs)) [0..<J], b, i)"
      "sub_pos A J = m * n + b" "b \<le> 55" "b + 56 \<le> n" "i = J mod ceil_div A 56" by auto
    have h: "m < length bufs" using Suc(2) by simp
    obtain J' b' i' where J': "bs_loop bufs n A m (map (subchunk A (stream n bufs)) [0..<J], b, J mod ceil_div A 56) =
        Some (map (subchunk A (stream n bufs)) [0..<J'], b', i')"
      "Suc m * n \<le> sub_pos A J'" "\<forall>j < J'. sub_pos A j < Suc m * n"
      "m < length bufs - 1 \<longrightarrow> sub_pos A J' = Suc m * n + b' \<and> b' \<le> 55 \<and> i' = J' mod ceil_div A 56"
      using bs_loop_spec [OF A n(1,2) h len J(2-4)] by blast
    have "?run (Suc m) = Some (map (subchunk A (stream n bufs)) [0..<J'], b', i')"
      using J J'(1) by simp
    moreover have "b' + 56 \<le> n" if "Suc m < length bufs" using J'(4) n(3) that by auto
    ultimately show ?case using J'(2-4)
      by (intro exI [of _ J'] exI [of _ b'] exI [of _ i']) auto
  qed
  from this [of "length bufs"] show ?thesis unfolding bs_buffers_def by blast
qed


section \<open>Chunks, residues, polynomials\<close>

definition chunk :: "nat \<Rightarrow> nat \<Rightarrow> nat \<Rightarrow> nat" where
  "chunk A S c = take_bit A (drop_bit (c * A) S)"

lemma stream_less: "0 < n \<Longrightarrow> stream n bs < 2 ^ (length bs * n)"
proof (induction bs)
  case (Cons b bs)
  have "take_bit n (memval b) < 2 ^ n" by simp
  moreover have "a + 2 ^ n * s < 2 ^ n * t" if "a < 2 ^ n" "s < t" for a s t :: nat
  proof -
    have "a + 2 ^ n * s < 2 ^ n * Suc s" using that(1) by simp
    also have "\<dots> \<le> 2 ^ n * t" using that(2) by (intro mult_le_mono2) simp
    finally show ?thesis .
  qed
  ultimately show ?case using Cons by (simp add: power_add)
qed simp

lemma subchunk_word:
  assumes A: "0 < A" and j: "j < ceil_div A 56"
  shows "unat (subchunk A S (c * ceil_div A 56 + j)) = chunk A S c div 2 ^ (56 * j) mod 2 ^ 56"
proof -
  let ?k = "ceil_div A 56" and ?V = "chunk A S c" and ?s = "sub_size A (c * ceil_div A 56 + j)"
  note z = subchunk_sizes_56 [OF A]
  have dm: "(c * ?k + j) div ?k = c" "(c * ?k + j) mod ?k = j" using j by simp_all
  have s: "?s = (if Suc j < ?k then 56 else A - 56 * j)" using z(3) [OF j] by (simp only: sub_size_def dm)
  have top: "56 * j + ?s \<le> A"
  proof (cases "Suc j < ?k")
    case True
    then have "56 * Suc j < A" by (rule z(4))
    then show ?thesis using True s by simp
  qed (use s z(4) [OF j] in simp)
  have s56: "?s \<le> 56" by (rule sub_size_bounds [OF A])
  have "take_bit ?s (drop_bit (sub_pos A (c * ?k + j)) S) = take_bit ?s (drop_bit (56 * j) ?V)"
    using top j by (simp add: sub_pos_def dm chunk_def drop_bit_take_bit min_absorb1 add.commute)
  also have "\<dots> = take_bit 56 (drop_bit (56 * j) ?V)"
  proof (cases "?s = 56")
    case False
    then have d: "A - 56 * j = ?s" using s by (auto split: if_splits)
    show ?thesis using s56 unfolding chunk_def drop_bit_take_bit d by (simp add: min_absorb1 min_absorb2)
  qed simp
  finally have v: "take_bit ?s (drop_bit (sub_pos A (c * ?k + j)) S) = ?V div 2 ^ (56 * j) mod 2 ^ 56"
    by (simp only: take_bit_eq_mod drop_bit_eq_div)
  have "?V div 2 ^ (56 * j) mod 2 ^ 56 < 2 ^ 56" by simp
  also have "(2 :: nat) ^ 56 < 2 ^ 64" by simp
  finally show ?thesis unfolding subchunk_def v by (simp add: unat_of_nat)
qed

lemma digits_56: "(\<Sum>j < m. (V div 2 ^ (56 * j) mod 2 ^ 56) * 2 ^ (56 * j)) = V mod (2 :: nat) ^ (56 * m)"
proof (induction m)
  case (Suc m)
  have "V mod 2 ^ (56 * m + 56) = V mod 2 ^ (56 * m) + 2 ^ (56 * m) * (V div 2 ^ (56 * m) mod 2 ^ 56)"
    unfolding power_add by (metis add.commute mod_mult2_eq)
  then show ?case using Suc by (simp add: mult.commute add.commute)
qed simp

lemma chunk_digits:
  assumes "0 < A"
  shows "(\<Sum>j < ceil_div A 56. unat (subchunk A S (c * ceil_div A 56 + j)) * 2 ^ (56 * j)) = chunk A S c"
proof -
  have "chunk A S c < 2 ^ A" by (simp add: chunk_def)
  also have "(2 :: nat) ^ A \<le> 2 ^ (56 * ceil_div A 56)"
    using subchunk_sizes_56(5) [OF assms] by (rule power_increasing) simp
  finally have lt: "chunk A S c < 2 ^ (56 * ceil_div A 56)" .
  have "(\<Sum>j < ceil_div A 56. unat (subchunk A S (c * ceil_div A 56 + j)) * 2 ^ (56 * j)) =
      (\<Sum>j < ceil_div A 56. (chunk A S c div 2 ^ (56 * j) mod 2 ^ 56) * 2 ^ (56 * j))"
    by (intro sum.cong refl) (simp only: subchunk_word [OF assms] lessThan_iff)
  then show ?thesis unfolding digits_56 using lt by simp
qed

lemma subchunk_beyond:
  assumes "0 < A" "0 < n" "length bs * n \<le> sub_pos A j"
  shows "subchunk A (stream n bs) j = 0"
proof -
  have "stream n bs < 2 ^ sub_pos A j"
    by (rule less_le_trans [OF stream_less [OF assms(2)] power_increasing [OF assms(3)]]) simp
  then show ?thesis by (simp add: subchunk_def drop_bit_eq_div)
qed

text \<open>The padded array of subchunks.\<close>

lemma split_data:
  assumes A: "0 < A" and n: "64 \<le> n" "n < 2 ^ 63" "length bufs \<le> 1 \<or> 112 \<le> n"
    and len: "\<forall>b \<in> set bufs. n \<le> 8 * length b" and deg: "0 < deg"
  defines "M \<equiv> poly_number n (length bufs) A deg * deg * ceil_div A 56"
  obtains J b i where "bs_buffers bufs n A = Some (map (subchunk A (stream n bufs)) [0..<J], b, i)" "J \<le> M"
    "map (subchunk A (stream n bufs)) [0..<J] @ replicate (M + 1 - J) 0 = map (subchunk A (stream n bufs)) [0..<M + 1]"
proof -
  have n0: "0 < n" using n by simp
  obtain J b i where J: "bs_buffers bufs n A = Some (map (subchunk A (stream n bufs)) [0..<J], b, i)"
    "length bufs * n \<le> sub_pos A J" "\<forall>j < J. sub_pos A j < length bufs * n"
    using bs_buffers_spec [OF A n len] by blast
  have "length bufs * n \<le> poly_number n (length bufs) A deg * (A * deg)"
    unfolding poly_number_def using ceil_div_mult_ge [of "A * deg" "n * length bufs"] A deg by (simp add: mult.commute)
  also have "\<dots> = sub_pos A M"
    using sub_pos_add [OF A, of 0 "poly_number n (length bufs) A deg * deg"] by (simp add: M_def ac_simps)
  finally have M: "length bufs * n \<le> sub_pos A M" .
  have "J \<le> M" using J(3) M by (meson leD leI)
  moreover have "subchunk A (stream n bufs) j = 0" if "J \<le> j" for j
    using subchunk_beyond [OF A n0] J(2) sub_pos_mono [OF A that] by simp
  ultimately have "map (subchunk A (stream n bufs)) [0..<J] @ replicate (M + 1 - J) 0 =
      map (subchunk A (stream n bufs)) [0..<M + 1]"
    by (intro nth_equalityI) (auto simp: nth_append)
  then show thesis using that J(1) \<open>J \<le> M\<close> by blast
qed


section \<open>Sums in the residues\<close>

text \<open>An operation on arrays that adds \<open>h q\<close> to cell \<open>q\<close>.\<close>

definition adds :: "(u64 list \<Rightarrow> u64 list) \<Rightarrow> (nat \<Rightarrow> u64) \<Rightarrow> bool" where
  "adds F h \<longleftrightarrow> (\<forall>out. length (F out) = length out \<and> (\<forall>q < length out. F out ! q = out ! q + h q))"

lemma adds_update: "adds (\<lambda>out. out[p := out ! p + v]) (\<lambda>q. if q = p then v else 0)"
  by (auto simp: adds_def nth_list_update)

lemma adds_fold:
  assumes "\<And>x. adds (F x) (h x)"
  shows "adds (fold F xs) (\<lambda>q. \<Sum>x \<leftarrow> xs. h x q)"
proof (induction xs)
  case (Cons x xs)
  then show ?case using assms [of x] by (auto simp: adds_def add.assoc)
qed (simp add: adds_def)

lemma sum_list_upt: "(\<Sum>x \<leftarrow> [0..<n]. f x) = (\<Sum>x < n. f x)"
  by (simp add: sum_list_distinct_conv_sum_set lessThan_atLeast0)

lemma mixed_radix:
  fixes a b c :: nat
  assumes "c < b" "c' < b" "a * b + c = a' * b + c'"
  shows "a = a' \<and> c = c'"
  using arg_cong [OF assms(3), of "\<lambda>x. x div b"] arg_cong [OF assms(3), of "\<lambda>x. x mod b"] assms(1,2)
  by simp

lemma crt_position_inj:
  assumes "0 < polyDegree nfl" "cm < nbModuli nfl" "cm' < nbModuli nfl"
    and "crt_position nfl i cm = crt_position nfl i' cm'"
  shows "i = i' \<and> cm = cm'"
proof -
  let ?n = "polyDegree nfl" and ?b = "nbModuli nfl"
  have e: "crt_position nfl i cm = (i div ?n * ?b + cm) * ?n + i mod ?n" for i cm
    by (simp add: crt_position_def algebra_simps)
  have "i mod ?n = i' mod ?n" "i div ?n * ?b + cm = i' div ?n * ?b + cm'"
    using arg_cong [OF assms(4)[unfolded e], of "\<lambda>x. x mod ?n"]
      arg_cong [OF assms(4)[unfolded e], of "\<lambda>x. x div ?n"] assms(1) by simp_all
  moreover from this(2) have "i div ?n = i' div ?n \<and> cm = cm'" by (rule mixed_radix [OF assms(2,3)])
  ultimately show ?thesis by (metis div_mult_mod_eq)
qed

lemma internalLongIntegersToCRT_nth:
  assumes "0 < polyDegree nfl" "cm < nbModuli nfl" "crt_position nfl i cm < length out"
  shows "internalLongIntegersToCRT nfl data out words n ! crt_position nfl i cm =
    out ! crt_position nfl i cm +
      (if i < n then \<Sum>j < words. mulmod (data ! (i * words + j)) (crt_multiplier (moduli nfl ! cm) j) (moduli nfl ! cm)
       else 0)"
    "length (internalLongIntegersToCRT nfl data out words n) = length out"
proof -
  let ?g = "\<lambda>i j cm. mulmod (data ! (i * words + j)) (crt_multiplier (moduli nfl ! cm) j) (moduli nfl ! cm)"
  let ?q = "crt_position nfl i cm"
  have a: "adds (\<lambda>out. internalLongIntegersToCRT nfl data out words n)
      (\<lambda>q. \<Sum>i \<leftarrow> [0..<n]. \<Sum>j \<leftarrow> [0..<words]. \<Sum>cm \<leftarrow> [0..<nbModuli nfl].
        if q = crt_position nfl i cm then ?g i j cm else 0)"
    unfolding internalLongIntegersToCRT_def by (intro adds_fold adds_update)
  have "(\<Sum>cm' < nbModuli nfl. if ?q = crt_position nfl i' cm' then ?g i' j cm' else 0) =
      (if i' = i then ?g i j cm else 0)" for i' j
  proof -
    have "(\<Sum>cm' < nbModuli nfl. if ?q = crt_position nfl i' cm' then ?g i' j cm' else 0) =
        (\<Sum>cm' < nbModuli nfl. if cm = cm' then (if i' = i then ?g i j cm else 0) else 0)"
    proof (rule sum.cong [OF refl])
      fix cm' assume "cm' \<in> {..<nbModuli nfl}"
      then have "?q = crt_position nfl i' cm' \<longleftrightarrow> i = i' \<and> cm = cm'"
        using crt_position_inj [OF assms(1,2), of cm' i i'] by auto
      then show "(if ?q = crt_position nfl i' cm' then ?g i' j cm' else 0) =
          (if cm = cm' then (if i' = i then ?g i j cm else 0) else 0)" by auto
    qed
    then show ?thesis using assms(2) by simp
  qed
  then have "(\<Sum>i' < n. \<Sum>j < words. \<Sum>cm' < nbModuli nfl. if ?q = crt_position nfl i' cm' then ?g i' j cm' else 0) =
      (\<Sum>i' < n. if i' = i then (\<Sum>j < words. ?g i j cm) else 0)"
    by (intro sum.cong refl) simp
  also have "\<dots> = (if i < n then \<Sum>j < words. ?g i j cm else 0)" by simp
  finally have total: "(\<Sum>i' < n. \<Sum>j < words. \<Sum>cm' < nbModuli nfl. if ?q = crt_position nfl i' cm' then ?g i' j cm' else 0) =
      (if i < n then \<Sum>j < words. ?g i j cm else 0)" .
  note b = a [unfolded adds_def sum_list_upt, rule_format, of out]
  show "internalLongIntegersToCRT nfl data out words n ! ?q =
      out ! ?q + (if i < n then \<Sum>j < words. ?g i j cm else 0)"
    unfolding total [symmetric] using b assms(3) by blast
  show "length (internalLongIntegersToCRT nfl data out words n) = length out" using b by blast
qed

lemma unat_crt_multiplier:
  assumes "1 < unat p"
  shows "unat (crt_multiplier p j) = 2 ^ (56 * j) mod unat p"
proof (induction j)
  case 0
  then show ?case using assms by (simp add: crt_multiplier_def)
next
  case (Suc j)
  have p0: "0 < unat p" using assms by simp
  have "unat (crt_multiplier p (Suc j)) = unat (crt_multiplier p j) * 2 ^ 56 mod unat p"
    using unat_mulmod [OF p0] by (simp add: crt_multiplier_def)
  also have "\<dots> = 2 ^ (56 * j + 56) mod unat p" unfolding Suc power_add by (simp add: mod_mult_left_eq)
  finally show ?case by (simp add: add.commute)
qed

text \<open>Up to eight words the sum does not wrap around and is congruent to the chunk.\<close>

lemma crt_word_sum:
  assumes p: "1 < unat p" "unat p < 2 ^ 61" and "words \<le> 8"
  shows "modeq (ival p) (ival (\<Sum>j < words. mulmod (d j) (crt_multiplier p j) p))
    (int (\<Sum>j < words. unat (d j) * 2 ^ (56 * j)))"
proof -
  have p0: "0 < unat p" using p by simp
  have "unat (\<Sum>j < w. mulmod (d j) (crt_multiplier p j) p) = (\<Sum>j < w. unat (mulmod (d j) (crt_multiplier p j) p)) \<and>
      (\<Sum>j < w. unat (mulmod (d j) (crt_multiplier p j) p)) \<le> w * 2 ^ 61" if "w \<le> 8" for w
    using that
  proof (induction w)
    case (Suc w)
    have "unat (mulmod (d w) (crt_multiplier p w) p) < unat p" using p0 by (simp add: unat_mulmod)
    then have m: "unat (mulmod (d w) (crt_multiplier p w) p) < 2 ^ 61" using p(2) by simp
    have "w * 2 ^ 61 \<le> 7 * (2 :: nat) ^ 61" using Suc(2) by (intro mult_le_mono1) simp
    then have "unat (\<Sum>j < w. mulmod (d j) (crt_multiplier p j) p) + unat (mulmod (d w) (crt_multiplier p w) p) < 2 ^ 64"
      using Suc m by simp
    then show ?case using Suc m by (simp add: unat_add_no_overflow)
  qed simp
  then have "ival (\<Sum>j < words. mulmod (d j) (crt_multiplier p j) p) =
      (\<Sum>j < words. int (unat (mulmod (d j) (crt_multiplier p j) p)))"
    using assms(3) by simp
  also have "modeq (ival p) \<dots> (\<Sum>j < words. int (unat (d j) * 2 ^ (56 * j)))"
  proof (rule modeq_sum)
    fix j
    show "modeq (ival p) (int (unat (mulmod (d j) (crt_multiplier p j) p))) (int (unat (d j) * 2 ^ (56 * j)))"
      using p0 p(1) by (simp add: modeq_def unat_mulmod unat_crt_multiplier zmod_int mod_mult_right_eq)
  qed
  finally show ?thesis by simp
qed


definition splits :: "NFLlib \<Rightarrow> nat \<Rightarrow> nat \<Rightarrow> nat \<Rightarrow> nat \<Rightarrow> u64 list \<Rightarrow> bool" where
  "splits nfl k A S polys d \<longleftrightarrow> polys * (nbModuli nfl * 2 ^ k) \<le> length d \<and>
     (\<forall>P < polys. \<forall>cm < nbModuli nfl. \<forall>x < 2 ^ k. modeq (ival (moduli nfl ! cm))
        (ival (d ! (P * (nbModuli nfl * 2 ^ k) + (cm * 2 ^ k + x)))) (int (chunk A S (P * 2 ^ k + x))))"

lemma chunk_one_word:
  assumes "0 < A" "ceil_div A 56 = 1"
  shows "unat (subchunk A S c) = chunk A S c"
  using chunk_digits [OF assms(1), of S c] assms(2) by simp

lemma chunk_beyond:
  assumes "0 < n" "length bs * n \<le> c * A"
  shows "chunk A (stream n bs) c = 0"
proof -
  have "stream n bs < 2 ^ (c * A)"
    by (rule less_le_trans [OF stream_less [OF assms(1)] power_increasing [OF assms(2)]]) simp
  then show ?thesis by (simp add: chunk_def drop_bit_eq_div)
qed

lemma bs_finish_crt:
  assumes r: "ntt_ready nfl k" and A: "0 < A" and w: "1 < ceil_div A 56" "ceil_div A 56 \<le> 8" and n: "0 < n"
    and polys: "polys * 2 ^ k * ceil_div A 56 \<le> length data"
    and data: "\<And>j. j < polys * 2 ^ k * ceil_div A 56 \<Longrightarrow> data ! j = subchunk A (stream n bufs) j"
  shows "splits nfl k A (stream n bufs) polys (bs_finish nfl (ceil_div A 56) polys data (length bufs) n A)"
  unfolding splits_def
proof (intro conjI allI impI)
  let ?w = "ceil_div A 56" and ?nb = "nbModuli nfl" and ?S = "stream n bufs"
  let ?out = "replicate (polys * ?nb * 2 ^ k + 1) (0 :: u64)" and ?T = "ceil_div (n * length bufs) A"
  have deg: "polyDegree nfl = 2 ^ k" by (rule ntt_readyD(1) [OF r])
  let ?d = "internalLongIntegersToCRT nfl data ?out ?w ?T"
  have fin: "bs_finish nfl ?w polys data (length bufs) n A = ?d" using w by (simp add: bs_finish_def Let_def deg)
  show "polys * (?nb * 2 ^ k) \<le> length (bs_finish nfl ?w polys data (length bufs) n A)"
  proof (cases "?nb = 0")
    case False
    have "crt_position nfl 0 0 < length ?out" by (simp add: crt_position_def)
    then show ?thesis using internalLongIntegersToCRT_nth(2) [of nfl 0 0 ?out data ?w ?T] False unfolding fin
      by (simp add: deg mult.assoc)
  qed simp
  fix P cm x assume P: "P < polys" and cm: "cm < ?nb" and x: "x < (2 :: nat) ^ k"
  let ?p = "moduli nfl ! cm" and ?i = "P * 2 ^ k + x"
  have pos: "crt_position nfl ?i cm = P * (?nb * 2 ^ k) + (cm * 2 ^ k + x)"
    using x by (simp add: crt_position_def deg algebra_simps)
  have i: "?i < polys * 2 ^ k" using block_bound [OF P x] by (simp add: mult.commute)
  have "cm * 2 ^ k + x < ?nb * 2 ^ k" using block_bound [OF cm x] by (simp add: mult.commute)
  then have lt: "crt_position nfl ?i cm < length ?out"
    using block_bound [OF P, of "cm * 2 ^ k + x" "?nb * 2 ^ k"] unfolding pos by (simp add: ac_simps)
  have j: "data ! (?i * ?w + j) = subchunk A ?S (?i * ?w + j)" if "j < ?w" for j
    using block_bound [OF i that] by (intro data) (simp add: ac_simps)
  have "ival (?d ! crt_position nfl ?i cm) =
      (if ?i < ?T then ival (\<Sum>j < ?w. mulmod (data ! (?i * ?w + j)) (crt_multiplier ?p j) ?p) else 0)"
    using internalLongIntegersToCRT_nth(1) [OF _ cm lt, of data ?w ?T] nth_replicate [OF lt [unfolded length_replicate], of "0 :: u64"]
    by (simp add: deg del: replicate_Suc)
  also have "modeq (ival ?p) \<dots> (int (chunk A ?S ?i))"
  proof (cases "?i < ?T")
    case True
    have "modeq (ival ?p) (ival (\<Sum>j < ?w. mulmod (data ! (?i * ?w + j)) (crt_multiplier ?p j) ?p))
        (int (\<Sum>j < ?w. unat (data ! (?i * ?w + j)) * 2 ^ (56 * j)))"
      using ntt_readyD(3) [OF r cm] by (intro crt_word_sum w(2)) simp_all
    also have "(\<Sum>j < ?w. unat (data ! (?i * ?w + j)) * 2 ^ (56 * j)) = chunk A ?S ?i"
      using chunk_digits [OF A, of ?S ?i] j by simp
    finally show ?thesis using True by simp
  next
    case False
    then have "n * length bufs \<le> ?i * A" using ceil_div_le_iff [OF A] by (metis leI)
    then have "chunk A ?S ?i = 0" using chunk_beyond [OF n] by (simp add: mult.commute)
    then show ?thesis using False by (simp add: modeq_refl)
  qed
  finally show "modeq (ival ?p) (ival (bs_finish nfl ?w polys data (length bufs) n A ! (P * (?nb * 2 ^ k) + (cm * 2 ^ k + x))))
      (int (chunk A ?S ?i))" unfolding fin pos .
qed

lemma bs_finish_copy:
  assumes r: "ntt_ready nfl k" and A: "0 < A" and w: "ceil_div A 56 = 1"
    and polys: "polys * 2 ^ k \<le> length data"
    and data: "\<And>j. j < polys * 2 ^ k \<Longrightarrow> data ! j = subchunk A S j"
  shows "splits nfl k A S polys (bs_finish nfl (ceil_div A 56) polys data nbufs n A)"
proof -
  let ?nb = "nbModuli nfl"
  have deg: "polyDegree nfl = 2 ^ k" by (rule ntt_readyD(1) [OF r])
  have cell: "ival (data ! (P * 2 ^ k + x)) = int (chunk A S (P * 2 ^ k + x))" if "P < polys" "x < 2 ^ k" for P x
    using block_bound [OF that] data chunk_one_word [OF A w] by (simp add: mult.commute)
  show ?thesis
  proof (cases "1 < ?nb")
    case False
    then have fin: "bs_finish nfl (ceil_div A 56) polys data nbufs n A = data" using w by (simp add: bs_finish_def Let_def)
    show ?thesis
    proof (cases "?nb = 0")
      case True
      then show ?thesis by (simp add: splits_def)
    next
      case nb: False
      then have "?nb = 1" using False by simp
      then show ?thesis unfolding fin splits_def using polys cell by (simp add: modeq_refl)
    qed
  next
    case True
    let ?in = "\<lambda>P. map (\<lambda>cm. slice (2 ^ k) P data) [0..<?nb]"
    let ?blocks = "map (\<lambda>P. concat (?in P)) [0..<polys]"
    have fin: "bs_finish nfl (ceil_div A 56) polys data nbufs n A = concat ?blocks @ [0]"
      using w True by (simp add: bs_finish_def Let_def deg)
    have bound: "P * 2 ^ k + 2 ^ k \<le> length data" if "P < polys" for P
      using slice_bound [OF that] polys by simp
    have inner: "concat (?in P) ! (cm * 2 ^ k + x) = data ! (P * 2 ^ k + x) \<and> length (concat (?in P)) = ?nb * 2 ^ k"
      if "P < polys" "cm < ?nb" "x < 2 ^ k" for P cm x
    proof -
      have "concat (?in P) ! (cm * 2 ^ k + x) = ?in P ! cm ! x \<and> length (concat (?in P)) = length (?in P) * 2 ^ k"
        by (rule nth_concat_const) (use that length_slice [OF bound [OF that(1)]] in simp_all)
      then show ?thesis using that nth_slice [OF bound [OF that(1)] that(3)] by simp
    qed
    have lenb: "length (?blocks ! P) = ?nb * 2 ^ k" if "P < length ?blocks" for P
      using inner [of P 0 0] that True by simp
    have outer: "concat ?blocks ! (P * (?nb * 2 ^ k) + y) = ?blocks ! P ! y \<and>
        length (concat ?blocks) = polys * (?nb * 2 ^ k)" if "P < polys" "y < ?nb * 2 ^ k" for P y
      using nth_concat_const [OF lenb, of P y] that by simp
    show ?thesis unfolding splits_def fin
    proof (intro conjI allI impI)
      show "polys * (?nb * 2 ^ k) \<le> length (concat ?blocks @ [0])"
        using outer [of 0 0] True by (cases "polys = 0") auto
      fix P cm x assume P: "P < polys" and cm: "cm < ?nb" and x: "x < (2 :: nat) ^ k"
      have y: "cm * 2 ^ k + x < ?nb * 2 ^ k" using block_bound [OF cm x] by (simp add: mult.commute)
      have "P * (?nb * 2 ^ k) + (cm * 2 ^ k + x) < polys * (?nb * 2 ^ k)"
        using block_bound [OF P y] by (simp add: ac_simps)
      then have "(concat ?blocks @ [0]) ! (P * (?nb * 2 ^ k) + (cm * 2 ^ k + x)) = data ! (P * 2 ^ k + x)"
        using outer [OF P y] inner [OF P cm x] P by (simp add: nth_append)
      then show "modeq (ival (moduli nfl ! cm)) (ival ((concat ?blocks @ [0]) ! (P * (?nb * 2 ^ k) + (cm * 2 ^ k + x))))
          (int (chunk A S (P * 2 ^ k + x)))" using cell [OF P x] by (simp add: modeq_refl)
    qed
  qed
qed

lemma bitsplitter_spec:
  assumes r: "ntt_ready nfl k" and A: "0 < A" "A \<le> 448"
    and n: "64 \<le> n" "n < 2 ^ 63" "length bufs \<le> 1 \<or> 112 \<le> n" and len: "\<forall>b \<in> set bufs. n \<le> 8 * length b"
  shows "\<exists>d. bitsplitter nfl bufs n A = Some d \<and>
    splits nfl k A (stream n bufs) (poly_number n (length bufs) A (2 ^ k)) d"
proof -
  let ?S = "stream n bufs" and ?polys = "poly_number n (length bufs) A (2 ^ k)" and ?w = "ceil_div A 56"
  let ?M = "?polys * 2 ^ k * ?w"
  have deg: "polyDegree nfl = 2 ^ k" by (rule ntt_readyD(1) [OF r])
  have n0: "0 < n" and deg0: "0 < (2 :: nat) ^ k" using n by simp_all
  obtain J b i where J: "bs_buffers bufs n A = Some (map (subchunk A ?S) [0..<J], b, i)" "J \<le> ?M"
    "map (subchunk A ?S) [0..<J] @ replicate (?M + 1 - J) 0 = map (subchunk A ?S) [0..<?M + 1]"
    by (rule split_data [OF A(1) n len deg0])
  let ?data = "map (subchunk A ?S) [0..<?M + 1]"
  have res: "bitsplitter nfl bufs n A = Some (bs_finish nfl ?w ?polys ?data (length bufs) n A)"
    using J by (simp add: bitsplitter_def Let_def deg del: upt_Suc)
  have w: "?w \<le> 8" using ceil_div_le_iff [of 56 A 8] A(2) by simp
  have pos: "0 < ?w" by (rule subchunk_sizes_56(2) [OF A(1)])
  have data: "?data ! j = subchunk A ?S j" if "j < ?M" for j using that by (simp del: upt_Suc)
  have "splits nfl k A ?S ?polys (bs_finish nfl ?w ?polys ?data (length bufs) n A)"
  proof (cases "?w = 1")
    case True
    show ?thesis by (rule bs_finish_copy [OF r A(1) True]) (use data True in \<open>simp_all del: upt_Suc\<close>)
  next
    case False
    then have "1 < ?w" using pos by simp
    then show ?thesis by (rule bs_finish_crt [OF r A(1) _ w n0]) (use data in \<open>simp_all del: upt_Suc\<close>)
  qed
  then show ?thesis using res by blast
qed

text \<open>The imported polynomials stand for the chunks of the stream.\<close>

lemma deserializeDataNFL_represents:
  assumes r: "ntt_ready nfl k" and A: "0 < A" "A \<le> 448"
    and n: "64 \<le> n" "n < 2 ^ 63" "length bufs \<le> 1 \<or> 112 \<le> n" and len: "\<forall>b \<in> set bufs. n \<le> 8 * length b"
  shows "\<exists>ps. deserializeDataNFL nfl bufs n A = Some ps \<and>
    length ps = poly_number n (length bufs) A (2 ^ k) \<and>
    (\<forall>P < length ps. represents nfl k (ps ! P) (\<lambda>cm i. int (chunk A (stream n bufs) (P * 2 ^ k + i))))"
proof -
  let ?S = "stream n bufs" and ?polys = "poly_number n (length bufs) A (2 ^ k)"
  let ?size = "nbModuli nfl * 2 ^ k"
  have deg: "polyDegree nfl = 2 ^ k" by (rule ntt_readyD(1) [OF r])
  obtain d where d: "bitsplitter nfl bufs n A = Some d" "splits nfl k A ?S ?polys d"
    using bitsplitter_spec [OF r A n len] by blast
  have rep: "represents nfl k (nttAndPowPhi nfl (slice ?size P d)) (\<lambda>cm i. int (chunk A ?S (P * 2 ^ k + i)))"
    if P: "P < ?polys" for P
  proof -
    have "polys * size \<le> l \<Longrightarrow> P < polys \<Longrightarrow> P * size + size \<le> l" for polys size l :: nat
      using slice_bound [of P polys size l] by simp
    then have b: "P * ?size + ?size \<le> length d" using d(2) P unfolding splits_def by blast
    have "length (slice ?size P d) = ?size" by (rule length_slice [OF b])
    then show ?thesis
    proof (rule represents_modeq [OF represents_ntt [OF r]])
      fix cm i assume cm: "cm < nbModuli nfl" and i: "i < (2 :: nat) ^ k"
      have "cm * 2 ^ k + i < ?size" using block_bound [OF cm i] by (simp add: mult.commute)
      then show "modeq (ival (moduli nfl ! cm)) (coeff nfl (slice ?size P d) cm i) (int (chunk A ?S (P * 2 ^ k + i)))"
        using d(2) P cm i nth_slice [OF b] unfolding splits_def coeff_def deg by simp
    qed
  qed
  show ?thesis
    by (intro exI [of _ "map (\<lambda>i. nttAndPowPhi nfl (slice ?size i d)) [0..<?polys]"])
      (use d(1) rep in \<open>simp add: deserializeDataNFL_def deg Let_def\<close>)
qed


section \<open>Properties\<close>

lemma number_of_chunks:
  fixes X Y :: nat
  assumes "0 < A" "X < 2 ^ (m * A)" "\<forall>i < m. take_bit A (drop_bit (i * A) X) = take_bit A (drop_bit (i * A) Y)"
  shows "X = take_bit (m * A) Y"
proof (rule bit_eqI)
  fix n
  show "bit X n \<longleftrightarrow> bit (take_bit (m * A) Y) n"
  proof (cases "n < m * A")
    case True
    let ?i = "n div A"
    have i: "?i < m" "n mod A < A" using True assms(1) by (simp_all add: less_mult_imp_div_less)
    have "bit (take_bit A (drop_bit (?i * A) X)) (n mod A) \<longleftrightarrow> bit (take_bit A (drop_bit (?i * A) Y)) (n mod A)"
      using assms(3) i(1) by simp
    then show ?thesis using True i(2) by (simp add: bit_take_bit_iff bit_drop_bit_eq)
  next
    case False
    then have "X < 2 ^ n" by (intro less_le_trans [OF assms(2) power_increasing]) simp_all
    then have "\<not> bit X n" by (simp add: bit_iff_odd)
    then show ?thesis using False by (simp add: bit_take_bit_iff)
  qed
qed

text \<open>
  Private selection among numbers cut into chunks: polynomial \<open>P\<close> of the reply decrypts to block \<open>P\<close>
  of the selected number.
\<close>

lemma selection_block:
  assumes "k \<le> 13" "1 \<le> A" "A \<le> 57" "64 dvd 2 ^ k * A"
    and L: "lwe_setNewParameters mpz_invert rnd (2 ^ k) 60 (int A) L0 = Inr L"
    and N: "N \<le> 5" "target < N"
    and rep: "\<forall>t < N. represents (nflInstance L) k (db ! t ! P) (\<lambda>cm i. int (chunk A (S t) (P * 2 ^ k + i)))"
    and qs: "\<forall>t < N. qs ! t = encrypt_uint L (rb t) (ra t) (if t = target then 1 else 0)"
  shows "\<exists>out. decrypt L (accumulate_reply L db qs P N) = Some out \<and> length out = 8 * (A * 2 ^ k div 64 + 1) \<and>
    memval out = take_bit (2 ^ k * A) (drop_bit (P * (2 ^ k * A)) (S target))"
proof -
  let ?c = "accumulate_reply L db qs P N"
  note L1 = lwe_parameterised [OF assms(1) _ _ L, simplified]
  note ok = L1(1) and r = lwe_okD(1) [OF L1(1)]
  have A: "A_bits L = A" by (rule A_bits_eq [OF L1(1,5)])
  have A0: "0 < A" and A59: "A \<le> 59" using assms(2,3) by simp_all
  obtain y where y: "dec L ?c = Clear64 y" "\<forall>i < 2 ^ k. unat (y ! i) = chunk A (S target) (P * 2 ^ k + i)"
    using selection_dec_represents [OF assms(1,2) A59 L N, of "\<lambda>t i. chunk A (S t) (P * 2 ^ k + i)" db P qs rb ra]
      rep qs by (auto simp: chunk_def)
  have len: "length y = 2 ^ k"
    using y(1) length_dec_phase [OF ok, of ?c] L1(3) lwe_okD(2) [OF ok]
    by (simp add: dec_Clear64) (auto simp: dec_single_def Let_def)
  have "\<forall>i < 2 ^ k. unat (y ! i) < 2 ^ A" using y(2) by (simp add: chunk_def)
  then obtain out where out: "decrypt L ?c = Some out" "length out = 8 * (A * 2 ^ k div 64 + 1)"
    "memval out < 2 ^ (2 ^ k * A)" "\<forall>i < 2 ^ k. take_bit A (drop_bit (i * A) (memval out)) = unat (y ! i)"
    using decrypt_Clear64 [OF lwe_okD(2) [OF ok] _ _ _ y(1) len, of y] assms(2-4) unfolding A by auto
  have "memval out = take_bit (2 ^ k * A) (drop_bit (P * (2 ^ k * A)) (S target))"
  proof (rule number_of_chunks [OF A0 out(3)], intro allI impI)
    fix i assume "i < (2 :: nat) ^ k"
    moreover have "(P * 2 ^ k + i) * A = i * A + P * (2 ^ k * A)" by (simp add: algebra_simps)
    ultimately show "take_bit A (drop_bit (i * A) (memval out)) =
        take_bit A (drop_bit (i * A) (drop_bit (P * (2 ^ k * A)) (S target)))"
      using out(4) y(2) by (simp add: chunk_def)
  qed
  then show ?thesis using out(1,2) by blast
qed

text \<open>
  C21: \<open>bs_loop\<close> over all the buffers equals the reference definition: it ends, never reads outside a
  buffer, and its words are the successive subchunks (56 bits, the last of a chunk shorter) of the
  bit stream made of the first \<open>n\<close> bits of every buffer, up to the last bit and no further.
\<close>
theorem bitsplit_reference:
  assumes "0 < A" "64 \<le> n" "n < 2 ^ 63" "length bufs \<le> 1 \<or> 112 \<le> n" "\<forall>b \<in> set bufs. n \<le> 8 * length b"
  shows "\<exists>J b i. bs_buffers bufs n A = Some (map (subchunk A (stream n bufs)) [0..<J], b, i) \<and>
    length bufs * n \<le> sub_pos A J \<and> (\<forall>j < J. sub_pos A j < length bufs * n)"
  using assms by (rule bs_buffers_spec)

theorem bitsplit_reference_witness:
  "\<exists>J b i. bs_buffers [replicate 14 255, replicate 14 1] 112 60 =
     Some (map (subchunk 60 (stream 112 [replicate 14 255, replicate 14 1])) [0..<J], b, i) \<and>
   length [replicate 14 (255 :: u8), replicate 14 1] * 112 \<le> sub_pos 60 J \<and>
   (\<forall>j < J. sub_pos 60 j < length [replicate 14 (255 :: u8), replicate 14 1] * 112)"
  by (rule bitsplit_reference) simp_all





definition example_files :: "u8 list list" where
  "example_files = [replicate 10 7, [1, 2, 3, 4, 5, 6, 7, 8, 9, 10]]"

lemma length_example_files: "length example_files = 2"
  by (simp add: example_files_def)


end
