(* ===== verification/SharedQueue.thy ===== *)
theory SharedQueue
  imports XPrelude
begin

text \<open>
  The blocking queue of \<open>pir/shared_queue.hpp\<close>: two counting semaphores, a mutex and a
  sequential queue. Every call is cut into the atomic steps of the source (a semaphore operation, a
  lock, the access to the data, an unlock), and any number of threads interleave them. The
  sequential meaning of the operations, which the clients use, is an interface
  (\<open>fifo_buffer\<close>) interpreted on the same record.
\<close>

section \<open>State and steps\<close>

record 'a shared_queue =
  num_stored :: nat
  num_space :: nat
  queue_mutex :: bool
  queue_data :: "'a list"

text \<open>Where a thread stands in a call; \<open>Returned\<close> holds the result of \<open>front\<close> or \<open>pop_front\<close>.\<close>

datatype 'a call =
    Idle
  | PushWait 'a | PushLock 'a | PushData 'a | PushUnlock | PushPost
  | FrontWait | FrontLock | FrontRead | FrontUnlock 'a | FrontPost 'a
  | PopWait | PopLock | PopData | PopUnlock 'a | PopPost 'a
  | EmptyLock | EmptyRead | EmptyUnlock bool
  | Returned 'a | ReturnedEmpty bool

text \<open>
  The system: the queue, the threads, and the sequences of items pushed and popped so far (for the
  specification only). \<open>None\<close> marks an access to the front of an empty \<open>boost::queue\<close>, undefined
  in C++.
\<close>

record 'a system =
  queue :: "'a shared_queue"
  threads :: "'a call list"
  sent :: "'a list"
  received :: "'a list"

definition shared_queue_new :: "nat \<Rightarrow> 'a shared_queue" where
  "shared_queue_new max_size = \<lparr> num_stored = 0, num_space = max_size, queue_mutex = False, queue_data = [] \<rparr>"

definition system_new :: "nat \<Rightarrow> nat \<Rightarrow> 'a system" where
  "system_new max_size n =
     \<lparr> queue = shared_queue_new max_size, threads = replicate n Idle, sent = [], received = [] \<rparr>"

text \<open>The next step of a thread that is inside a call; \<open>None\<close> when it has to wait.\<close>

definition set_thread :: "nat \<Rightarrow> 'a call \<Rightarrow> 'a system \<Rightarrow> 'a system" where
  "set_thread t c S = S \<lparr> threads := (threads S)[t := c] \<rparr>"

definition lock_then :: "nat \<Rightarrow> 'a call \<Rightarrow> 'a system \<Rightarrow> 'a system option" where
  "lock_then t c S =
     (if queue_mutex (queue S) then None
      else Some (set_thread t c (S \<lparr> queue := (queue S) \<lparr> queue_mutex := True \<rparr> \<rparr>)))"

definition unlock_then :: "nat \<Rightarrow> 'a call \<Rightarrow> 'a system \<Rightarrow> 'a system option" where
  "unlock_then t c S = Some (set_thread t c (S \<lparr> queue := (queue S) \<lparr> queue_mutex := False \<rparr> \<rparr>))"

definition wait_stored :: "nat \<Rightarrow> 'a call \<Rightarrow> 'a system \<Rightarrow> 'a system option" where
  "wait_stored t c S =
     (if num_stored (queue S) = 0 then None
      else Some (set_thread t c (S \<lparr> queue := (queue S) \<lparr> num_stored := num_stored (queue S) - 1 \<rparr> \<rparr>)))"

definition post_stored :: "nat \<Rightarrow> 'a call \<Rightarrow> 'a system \<Rightarrow> 'a system option" where
  "post_stored t c S =
     Some (set_thread t c (S \<lparr> queue := (queue S) \<lparr> num_stored := num_stored (queue S) + 1 \<rparr> \<rparr>))"

definition wait_space :: "nat \<Rightarrow> 'a call \<Rightarrow> 'a system \<Rightarrow> 'a system option" where
  "wait_space t c S =
     (if num_space (queue S) = 0 then None
      else Some (set_thread t c (S \<lparr> queue := (queue S) \<lparr> num_space := num_space (queue S) - 1 \<rparr> \<rparr>)))"

definition post_space :: "nat \<Rightarrow> 'a call \<Rightarrow> 'a system \<Rightarrow> 'a system option" where
  "post_space t c S =
     Some (set_thread t c (S \<lparr> queue := (queue S) \<lparr> num_space := num_space (queue S) + 1 \<rparr> \<rparr>))"

fun thread_step :: "nat \<Rightarrow> 'a call \<Rightarrow> 'a system \<Rightarrow> 'a system option" where
  "thread_step t (PushWait x) S = wait_space t (PushLock x) S"
| "thread_step t (PushLock x) S = lock_then t (PushData x) S"
| "thread_step t (PushData x) S =
     Some (set_thread t PushUnlock
       (S \<lparr> queue := (queue S) \<lparr> queue_data := queue_data (queue S) @ [x] \<rparr>, sent := sent S @ [x] \<rparr>))"
| "thread_step t PushUnlock S = unlock_then t PushPost S"
| "thread_step t PushPost S = post_stored t Idle S"
| "thread_step t FrontWait S = wait_stored t FrontLock S"
| "thread_step t FrontLock S = lock_then t FrontRead S"
| "thread_step t FrontRead S =
     (case queue_data (queue S) of [] \<Rightarrow> None | x # xs \<Rightarrow> Some (set_thread t (FrontUnlock x) S))"
| "thread_step t (FrontUnlock x) S = unlock_then t (FrontPost x) S"
| "thread_step t (FrontPost x) S = post_stored t (Returned x) S"
| "thread_step t PopWait S = wait_stored t PopLock S"
| "thread_step t PopLock S = lock_then t PopData S"
| "thread_step t PopData S =
     (case queue_data (queue S) of
        [] \<Rightarrow> None
      | x # xs \<Rightarrow> Some (set_thread t (PopUnlock x)
          (S \<lparr> queue := (queue S) \<lparr> queue_data := xs \<rparr>, received := received S @ [x] \<rparr>)))"
| "thread_step t (PopUnlock x) S = unlock_then t (PopPost x) S"
| "thread_step t (PopPost x) S = post_space t (Returned x) S"
| "thread_step t EmptyLock S = lock_then t EmptyRead S"
| "thread_step t EmptyRead S = Some (set_thread t (EmptyUnlock (queue_data (queue S) = [])) S)"
| "thread_step t (EmptyUnlock b) S = unlock_then t (ReturnedEmpty b) S"
| "thread_step t c S = None"

text \<open>The calls a thread may make next: it is idle or has its last result.\<close>

fun at_rest :: "'a call \<Rightarrow> bool" where
  "at_rest Idle = True"
| "at_rest (Returned x) = True"
| "at_rest (ReturnedEmpty b) = True"
| "at_rest c = False"

fun is_call :: "'a call \<Rightarrow> bool" where
  "is_call (PushWait x) = True"
| "is_call FrontWait = True"
| "is_call PopWait = True"
| "is_call EmptyLock = True"
| "is_call c = False"

inductive sq_step :: "'a system \<Rightarrow> 'a system \<Rightarrow> bool" where
  call: "t < length (threads S) \<Longrightarrow> at_rest (threads S ! t) \<Longrightarrow> is_call c \<Longrightarrow> sq_step S (set_thread t c S)"
| advance: "t < length (threads S) \<Longrightarrow> thread_step t (threads S ! t) S = Some S' \<Longrightarrow> sq_step S S'"

inductive sq_reach :: "nat \<Rightarrow> nat \<Rightarrow> 'a system \<Rightarrow> bool" for max_size n where
  init: "sq_reach max_size n (system_new max_size n)"
| step: "sq_reach max_size n S \<Longrightarrow> sq_step S S' \<Longrightarrow> sq_reach max_size n S'"

section \<open>Invariants\<close>

text \<open>Who holds the mutex, an item of \<open>num_stored\<close> and an item of \<open>num_space\<close>.\<close>

fun holds_mutex :: "'a call \<Rightarrow> bool" where
  "holds_mutex (PushData x) = True"
| "holds_mutex PushUnlock = True"
| "holds_mutex FrontRead = True"
| "holds_mutex (FrontUnlock x) = True"
| "holds_mutex PopData = True"
| "holds_mutex (PopUnlock x) = True"
| "holds_mutex EmptyRead = True"
| "holds_mutex (EmptyUnlock b) = True"
| "holds_mutex c = False"

fun holds_stored :: "'a call \<Rightarrow> bool" where
  "holds_stored PushUnlock = True"
| "holds_stored PushPost = True"
| "holds_stored FrontLock = True"
| "holds_stored FrontRead = True"
| "holds_stored (FrontUnlock x) = True"
| "holds_stored (FrontPost x) = True"
| "holds_stored PopLock = True"
| "holds_stored PopData = True"
| "holds_stored c = False"

fun holds_space :: "'a call \<Rightarrow> bool" where
  "holds_space (PushLock x) = True"
| "holds_space (PushData x) = True"
| "holds_space (PopUnlock x) = True"
| "holds_space (PopPost x) = True"
| "holds_space c = False"

definition holders :: "('a call \<Rightarrow> bool) \<Rightarrow> 'a system \<Rightarrow> nat" where
  "holders P S = length (filter P (threads S))"

definition sq_inv :: "nat \<Rightarrow> 'a system \<Rightarrow> bool" where
  "sq_inv max_size S \<longleftrightarrow>
     holders holds_mutex S = (if queue_mutex (queue S) then 1 else 0) \<and>
     num_stored (queue S) + holders holds_stored S = length (queue_data (queue S)) \<and>
     num_space (queue S) + holders holds_space S + length (queue_data (queue S)) = max_size \<and>
     sent S = received S @ queue_data (queue S)"

lemma filter_update:
  "t < length xs \<Longrightarrow>
   length (filter P (xs[t := c])) + (if P (xs ! t) then 1 else 0) = length (filter P xs) + (if P c then 1 else 0)"
proof (induction xs arbitrary: t)
  case (Cons x xs)
  then show ?case by (cases t) auto
qed simp

lemma holders_positive: "t < length (threads S) \<Longrightarrow> P (threads S ! t) \<Longrightarrow> 0 < holders P S"
  unfolding holders_def by (metis filter_empty_conv length_greater_0_conv nth_mem)

text \<open>A step of thread \<open>t\<close> from \<open>c\<close> to \<open>d\<close> changes the holders by those two only.\<close>

lemma holders_set:
  assumes "t < length (threads S)" "threads S' = threads S"
  shows "holders P (set_thread t d S') + (if P (threads S ! t) then 1 else 0) = holders P S + (if P d then 1 else 0)"
  using filter_update [OF assms(1), of P d] assms(2) by (simp add: holders_def set_thread_def)

lemmas step_defs = lock_then_def unlock_then_def wait_stored_def post_stored_def wait_space_def post_space_def


definition b2n :: "bool \<Rightarrow> nat" where
  "b2n b = (if b then 1 else 0)"

lemma b2n_simps [simp]: "b2n True = 1" "b2n False = 0"
  by (simp_all add: b2n_def)

lemma sq_inv_set:
  assumes t: "t < length (threads S)" "threads S' = threads S" and inv: "sq_inv m S"
    and "b2n (queue_mutex (queue S')) + b2n (holds_mutex (threads S ! t)) = b2n (queue_mutex (queue S)) + b2n (holds_mutex d)"
    and "num_stored (queue S') + b2n (holds_stored d) + length (queue_data (queue S)) =
      num_stored (queue S) + b2n (holds_stored (threads S ! t)) + length (queue_data (queue S'))"
    and "num_space (queue S') + b2n (holds_space d) + length (queue_data (queue S')) =
      num_space (queue S) + b2n (holds_space (threads S ! t)) + length (queue_data (queue S))"
    and "sent S' = received S' @ queue_data (queue S')"
  shows "sq_inv m (set_thread t d S')"
proof -
  have "holders P (set_thread t d S') + b2n (P (threads S ! t)) = holders P S + b2n (P d)" for P
    using holders_set [OF t] by (simp add: b2n_def)
  from this [of holds_mutex] this [of holds_stored] this [of holds_space] show ?thesis
    using inv assms(4-) unfolding sq_inv_def
    by (simp add: set_thread_def b2n_def split: if_splits)
qed

lemma thread_step_inv:
  assumes t: "t < length (threads S)" and inv: "sq_inv m S" and s: "thread_step t (threads S ! t) S = Some S'"
  shows "sq_inv m S'"
proof -
  have mutex: "queue_mutex (queue S)" if "holds_mutex (threads S ! t)"
    using holders_positive [OF t, of holds_mutex] that inv by (auto simp: sq_inv_def split: if_splits)
  have ghost: "sent S = received S @ queue_data (queue S)" using inv by (simp add: sq_inv_def)
  show ?thesis
    using s mutex ghost
    by (cases "threads S ! t")
      (auto simp: step_defs split: if_splits list.splits intro!: sq_inv_set [OF t _ inv])
qed

lemma call_inv:
  assumes t: "t < length (threads S)" and inv: "sq_inv m S" and "at_rest (threads S ! t)" "is_call c"
  shows "sq_inv m (set_thread t c S)"
proof -
  have "sent S = received S @ queue_data (queue S)" using inv by (simp add: sq_inv_def)
  then show ?thesis using assms(3,4)
    by (cases "threads S ! t"; cases c) (auto intro!: sq_inv_set [OF t _ inv])
qed

lemma sq_step_inv: "sq_step S S' \<Longrightarrow> sq_inv m S \<Longrightarrow> sq_inv m S'"
  by (induction rule: sq_step.induct) (auto intro: call_inv thread_step_inv)

lemma sq_reach_inv: "sq_reach m n S \<Longrightarrow> sq_inv m S"
proof (induction rule: sq_reach.induct)
  case init
  have "filter P (replicate n (Idle :: 'a call)) = []" if "\<not> P Idle" for P
    using that by (induction n) simp_all
  then show ?case by (simp add: sq_inv_def holders_def system_new_def shared_queue_new_def)
next
  case (step S S')
  then show ?case by (blast intro: sq_step_inv)
qed


section \<open>Schedules\<close>

text \<open>
  An executable run: each entry names a thread and, for a thread at rest, the call it makes.
\<close>

fun sched_step :: "nat \<times> 'a call option \<Rightarrow> 'a system \<Rightarrow> 'a system option" where
  "sched_step (t, Some c) S =
     (if t < length (threads S) \<and> at_rest (threads S ! t) \<and> is_call c then Some (set_thread t c S) else None)"
| "sched_step (t, None) S = (if t < length (threads S) then thread_step t (threads S ! t) S else None)"

fun sq_run :: "(nat \<times> 'a call option) list \<Rightarrow> 'a system \<Rightarrow> 'a system option" where
  "sq_run [] S = Some S"
| "sq_run (e # es) S = (case sched_step e S of None \<Rightarrow> None | Some S' \<Rightarrow> sq_run es S')"

lemma sched_step_sq_step: "sched_step e S = Some S' \<Longrightarrow> sq_step S S'"
  by (cases "(e, S)" rule: sched_step.cases) (auto split: if_splits intro: sq_step.intros)

lemma sq_run_reach: "sq_run es S = Some S' \<Longrightarrow> sq_reach m n S \<Longrightarrow> sq_reach m n S'"
  by (induction es S rule: sq_run.induct)
    (auto split: option.splits intro: sched_step_sq_step sq_reach.step)

lemma sq_run_from_new: "sq_run es (system_new m n) = Some S \<Longrightarrow> sq_reach m n S"
  by (rule sq_run_reach [OF _ sq_reach.init])

lemma length_threads_thread_step:
  "thread_step t c S = Some S' \<Longrightarrow> length (threads S') = length (threads S)"
  by (cases c) (auto simp: step_defs set_thread_def split: if_splits list.splits)

lemma length_threads_reach: "sq_reach m n S \<Longrightarrow> length (threads S) = n"
proof (induction rule: sq_reach.induct)
  case init
  show ?case by (simp add: system_new_def)
next
  case (step S S')
  then show ?case
    by (auto elim!: sq_step.cases simp: set_thread_def length_threads_thread_step)
qed

section \<open>Safety and progress\<close>

lemma holders_zero: "holders P S = 0 \<longleftrightarrow> (\<forall>t < length (threads S). \<not> P (threads S ! t))"
  by (simp add: holders_def filter_empty_conv all_set_conv_all_nth)

lemma holders_one:
  assumes "holders P S \<le> 1" "t < length (threads S)" "P (threads S ! t)" "u < length (threads S)" "P (threads S ! u)"
  shows "t = u"
proof (rule ccontr)
  assume "t \<noteq> u"
  let ?xs = "threads S"
  have "card {t, u} \<le> card {i. i < length ?xs \<and> P (?xs ! i)}"
    using assms by (intro card_mono) auto
  then show False
    using \<open>t \<noteq> u\<close> assms(1) by (simp add: holders_def length_filter_conv_card)
qed

lemma item_present:
  assumes "sq_inv m S" "t < length (threads S)" "holds_stored (threads S ! t)"
  shows "queue_data (queue S) \<noteq> []"
  using holders_positive [OF assms(2), of holds_stored] assms(1,3) by (auto simp: sq_inv_def)

text \<open>A thread that cannot move waits for a semaphore at zero, for a mutex that is held, or is at rest.\<close>

fun waits :: "'a call \<Rightarrow> bool" where
  "waits (PushWait x) = True"
| "waits FrontWait = True"
| "waits PopWait = True"
| "waits c = False"

fun locks :: "'a call \<Rightarrow> bool" where
  "locks (PushLock x) = True"
| "locks FrontLock = True"
| "locks PopLock = True"
| "locks EmptyLock = True"
| "locks c = False"

lemma blocked_cases:
  assumes "sq_inv m S" "t < length (threads S)" "thread_step t (threads S ! t) S = None"
  shows "at_rest (threads S ! t) \<or> waits (threads S ! t) \<or> (locks (threads S ! t) \<and> queue_mutex (queue S))"
proof -
  have "queue_data (queue S) \<noteq> []" if "holds_stored (threads S ! t)"
    using item_present [OF assms(1,2)] that by simp
  then show ?thesis
    using assms(3) by (cases "threads S ! t") (auto simp: step_defs split: if_splits list.splits)
qed

text \<open>When every thread is blocked nobody is inside a critical section.\<close>

lemma all_blocked:
  assumes inv: "sq_inv m S" and bl: "\<forall>t < length (threads S). thread_step t (threads S ! t) S = None"
  shows "num_stored (queue S) = length (queue_data (queue S))"
    and "num_space (queue S) + length (queue_data (queue S)) = m"
    and "t < length (threads S) \<Longrightarrow> at_rest (threads S ! t) \<or> waits (threads S ! t)"
proof -
  have kinds: "at_rest c \<or> waits c \<or> locks c \<Longrightarrow> \<not> holds_mutex c" for c :: "'a call"
    by (cases c) auto
  have "holders holds_mutex S = 0"
    unfolding holders_zero using blocked_cases [OF inv] bl kinds by blast
  then have free: "\<not> queue_mutex (queue S)"
    using inv by (auto simp: sq_inv_def split: if_splits)
  then have idle: "at_rest (threads S ! t) \<or> waits (threads S ! t)" if "t < length (threads S)" for t
    using blocked_cases [OF inv that] bl that free by simp
  have "at_rest c \<or> waits c \<Longrightarrow> \<not> holds_stored c \<and> \<not> holds_space c" for c :: "'a call"
    by (cases c) auto
  then have "holders holds_stored S = 0" "holders holds_space S = 0"
    unfolding holders_zero using idle by blast+
  then show "num_stored (queue S) = length (queue_data (queue S))"
    and "num_space (queue S) + length (queue_data (queue S)) = m"
    using inv by (auto simp: sq_inv_def)
  show "t < length (threads S) \<Longrightarrow> at_rest (threads S ! t) \<or> waits (threads S ! t)" by (rule idle)
qed

text \<open>
  C23: In every interleaving of any number of threads the items come out in the order they went in,
  none lost and none twice, at most \<open>max_size\<close> are stored, and no thread ever reads or removes the
  front of an empty queue.
\<close>
theorem shared_queue_fifo:
  assumes "sq_reach max_size n S"
  shows "sent S = received S @ queue_data (queue S) \<and> length (queue_data (queue S)) \<le> max_size \<and>
    (\<forall>t < n. threads S ! t = PopData \<or> threads S ! t = FrontRead \<longrightarrow> queue_data (queue S) \<noteq> []) \<and>
    (\<forall>t < n. \<forall>u < n. holds_mutex (threads S ! t) \<and> holds_mutex (threads S ! u) \<longrightarrow> t = u)"
proof -
  note inv = sq_reach_inv [OF assms] and len = length_threads_reach [OF assms]
  have "queue_data (queue S) \<noteq> []"
    if "t < n" "threads S ! t = PopData \<or> threads S ! t = FrontRead" for t
    using item_present [OF inv, of t] that len by auto
  moreover have "holders holds_mutex S \<le> 1"
    using inv by (simp add: sq_inv_def)
  moreover have "sent S = received S @ queue_data (queue S)" "length (queue_data (queue S)) \<le> max_size"
    using inv by (auto simp: sq_inv_def)
  ultimately show ?thesis
    using holders_one [of holds_mutex S] len by blast
qed

text \<open>A producer and a consumer on a queue of one place; the consumer waits first.\<close>

definition example_schedule :: "(nat \<times> nat call option) list" where
  "example_schedule =
     [(1, Some PopWait), (0, Some (PushWait 7)), (0, None), (0, None), (0, None), (0, None), (0, None),
      (1, None), (1, None)]"

definition example_system :: "nat system" where
  "example_system =
     \<lparr> queue = \<lparr> num_stored = 0, num_space = 0, queue_mutex = True, queue_data = [7] \<rparr>,
       threads = [Idle, PopData], sent = [7], received = [] \<rparr>"

lemma example_run: "sq_run example_schedule (system_new 1 2) = Some example_system"
  by code_simp

lemma example_reach: "sq_reach 1 2 example_system"
  by (rule sq_run_from_new [OF example_run])

lemma shared_queue_fifo_witness:
  "sq_reach 1 2 example_system \<and> threads example_system ! 1 = PopData \<and>
   queue_data (queue example_system) \<noteq> [] \<and> length (queue_data (queue example_system)) \<le> 1"
proof -
  have "threads example_system ! 1 = PopData" by (simp add: example_system_def)
  then show ?thesis
    using shared_queue_fifo [OF example_reach] example_reach by force
qed

text \<open>
  C24: The queue never deadlocks: when no thread can move, every thread that is inside a call waits
  for the other side, a producer because the queue is full or a consumer because it is empty. In
  particular producers and consumers are never both stuck on a queue with room for an item.
\<close>
theorem shared_queue_no_deadlock:
  assumes "sq_reach max_size n S" and "\<forall>t < n. thread_step t (threads S ! t) S = None" and "t < n"
  shows "at_rest (threads S ! t) \<or>
    (\<exists>x. threads S ! t = PushWait x) \<and> length (queue_data (queue S)) = max_size \<or>
    (threads S ! t = FrontWait \<or> threads S ! t = PopWait) \<and> queue_data (queue S) = []"
proof -
  note inv = sq_reach_inv [OF assms(1)] and len = length_threads_reach [OF assms(1)]
  have bl: "\<forall>t < length (threads S). thread_step t (threads S ! t) S = None"
    using assms(2) len by simp
  note ab = all_blocked [OF inv bl]
  show ?thesis
    using ab(3) [of t] ab(1,2) assms(2,3) len
    by (cases "threads S ! t") (auto simp: step_defs split: if_splits)
qed

lemma shared_queue_no_deadlock_witness:
  "\<exists>S :: nat system. sq_reach 1 1 S \<and> threads S ! 0 = PopWait \<and> queue_data (queue S) = []"
proof -
  obtain S :: "nat system" where S: "sq_run [(0, Some PopWait)] (system_new 1 1) = Some S"
    "threads S = [PopWait]" "thread_step 0 PopWait S = None"
    by (simp add: system_new_def shared_queue_new_def set_thread_def step_defs)
  note r = sq_run_from_new [OF S(1)]
  show ?thesis
    using shared_queue_no_deadlock [OF r, of 0] r S(2,3) by auto
qed


section \<open>The queue used by one thread at a time\<close>

text \<open>
  The meaning of a whole call when no other thread is inside the queue; \<open>None\<close> is a call that blocks.
\<close>

definition sq_push :: "'a \<Rightarrow> 'a shared_queue \<Rightarrow> 'a shared_queue option" where
  "sq_push x q =
     (if num_space q = 0 \<or> queue_mutex q then None
      else Some (q \<lparr> num_space := num_space q - 1, queue_data := queue_data q @ [x], num_stored := num_stored q + 1 \<rparr>))"

definition sq_front :: "'a shared_queue \<Rightarrow> 'a option" where
  "sq_front q = (if num_stored q = 0 \<or> queue_mutex q \<or> queue_data q = [] then None else Some (hd (queue_data q)))"

definition sq_pop_front :: "'a shared_queue \<Rightarrow> ('a \<times> 'a shared_queue) option" where
  "sq_pop_front q =
     (if num_stored q = 0 \<or> queue_mutex q \<or> queue_data q = [] then None
      else Some (hd (queue_data q),
        q \<lparr> num_stored := num_stored q - 1, queue_data := tl (queue_data q), num_space := num_space q + 1 \<rparr>))"

definition sq_empty :: "'a shared_queue \<Rightarrow> bool" where
  "sq_empty q = (queue_data q = [])"

definition sq_size :: "'a shared_queue \<Rightarrow> nat" where
  "sq_size q = length (queue_data q)"

definition sq_ok :: "'a shared_queue \<Rightarrow> bool" where
  "sq_ok q \<longleftrightarrow> num_stored q = length (queue_data q) \<and> \<not> queue_mutex q"

definition sq_capacity :: "'a shared_queue \<Rightarrow> nat" where
  "sq_capacity q = num_space q + length (queue_data q)"

text \<open>These are the calls of the step relation run without interruption.\<close>

definition alone :: "'a shared_queue \<Rightarrow> 'a system" where
  "alone q = \<lparr> queue = q, threads = [Idle], sent = [], received = [] \<rparr>"

definition run_call :: "'a call \<Rightarrow> nat \<Rightarrow> 'a shared_queue \<Rightarrow> ('a shared_queue \<times> 'a call) option" where
  "run_call c n q = map_option (\<lambda>S. (queue S, threads S ! 0)) (sq_run ((0, Some c) # replicate n (0, None)) (alone q))"

lemma run_call_unfold: "run_call c n q =
  (if is_call c then map_option (\<lambda>S. (queue S, threads S ! 0)) (sq_run (replicate n (0, None)) (set_thread 0 c (alone q))) else None)"
  by (simp add: run_call_def alone_def)

lemmas lone_run = run_call_unfold numeral_eq_Suc alone_def set_thread_def step_defs

lemma lone_push: "run_call (PushWait x) 5 q = map_option (\<lambda>q'. (q', Idle)) (sq_push x q)"
  by (cases q) (simp add: lone_run sq_push_def)

lemma lone_pop_front: "run_call PopWait 5 q = map_option (\<lambda>(x, q'). (q', Returned x)) (sq_pop_front q)"
  by (cases q; cases "queue_data q") (simp_all add: lone_run sq_pop_front_def)

lemma lone_front:
  "0 < num_stored q \<Longrightarrow> run_call FrontWait 5 q = map_option (\<lambda>x. (q, Returned x)) (sq_front q)"
  by (cases q; cases "queue_data q") (simp_all add: lone_run sq_front_def)

section \<open>The interface of a first-in first-out buffer\<close>

text \<open>What the clients of the queue rely on: contents, order and blocking.\<close>

fun take_all :: "('q \<Rightarrow> ('a \<times> 'q) option) \<Rightarrow> nat \<Rightarrow> 'q \<Rightarrow> ('a list \<times> 'q) option" where
  "take_all get 0 q = Some ([], q)"
| "take_all get (Suc n) q =
     (case get q of None \<Rightarrow> None | Some (x, q) \<Rightarrow> map_option (\<lambda>(xs, q). (x # xs, q)) (take_all get n q))"

fun put_all :: "('a \<Rightarrow> 'q \<Rightarrow> 'q option) \<Rightarrow> 'a list \<Rightarrow> 'q \<Rightarrow> 'q option" where
  "put_all put [] q = Some q"
| "put_all put (x # xs) q = Option.bind (put x q) (put_all put xs)"

locale fifo_buffer =
  fixes put :: "'a \<Rightarrow> 'q \<Rightarrow> 'q option" and get :: "'q \<Rightarrow> ('a \<times> 'q) option"
    and valid :: "'q \<Rightarrow> bool" and contents :: "'q \<Rightarrow> 'a list" and capacity :: "'q \<Rightarrow> nat"
  assumes put_room: "valid q \<Longrightarrow> length (contents q) < capacity q \<Longrightarrow>
      \<exists>q'. put x q = Some q' \<and> valid q' \<and> contents q' = contents q @ [x] \<and> capacity q' = capacity q"
    and put_full: "valid q \<Longrightarrow> capacity q \<le> length (contents q) \<Longrightarrow> put x q = None"
    and get_some: "valid q \<Longrightarrow> contents q = x # xs \<Longrightarrow>
      \<exists>q'. get q = Some (x, q') \<and> valid q' \<and> contents q' = xs \<and> capacity q' = capacity q"
    and get_empty: "valid q \<Longrightarrow> contents q = [] \<Longrightarrow> get q = None"
begin

lemma put_all_room:
  "valid q \<Longrightarrow> length (contents q) + length xs \<le> capacity q \<Longrightarrow>
   \<exists>q'. put_all put xs q = Some q' \<and> valid q' \<and> contents q' = contents q @ xs \<and> capacity q' = capacity q"
proof (induction xs arbitrary: q)
  case (Cons x xs)
  then obtain q' where q': "put x q = Some q'" "valid q'" "contents q' = contents q @ [x]" "capacity q' = capacity q"
    using put_room [of q x] by auto
  with Cons.prems have "length (contents q') + length xs \<le> capacity q'" by simp
  from Cons.IH [OF q'(2) this] q' show ?case by auto
qed simp

lemma take_all_contents:
  "valid q \<Longrightarrow> contents q = xs @ ys \<Longrightarrow>
   \<exists>q'. take_all get (length xs) q = Some (xs, q') \<and> valid q' \<and> contents q' = ys \<and> capacity q' = capacity q"
proof (induction xs arbitrary: q)
  case (Cons x xs)
  then obtain q' where q': "get q = Some (x, q')" "valid q'" "contents q' = xs @ ys" "capacity q' = capacity q"
    using get_some [of q x "xs @ ys"] by auto
  from Cons.IH [OF q'(2,3)] q' show ?case by auto
qed simp

lemma take_all_blocks:
  "valid q \<Longrightarrow> length (contents q) < n \<Longrightarrow> take_all get n q = None"
proof (induction n arbitrary: q)
  case (Suc n)
  show ?case
  proof (cases "contents q")
    case Nil
    then show ?thesis using Suc.prems get_empty by simp
  next
    case (Cons x xs)
    then obtain q' where q': "get q = Some (x, q')" "valid q'" "contents q' = xs"
      using get_some Suc.prems by blast
    then show ?thesis using Suc Cons by simp
  qed
qed simp

text \<open>Whatever one side puts in, the other takes out in the same order.\<close>

lemma put_all_take_all:
  assumes "valid q" "contents q = []" "length xs \<le> capacity q"
  shows "\<exists>q' q''. put_all put xs q = Some q' \<and> take_all get (length xs) q' = Some (xs, q'') \<and> contents q'' = []"
proof -
  obtain q' where q': "put_all put xs q = Some q'" "valid q'" "contents q' = xs"
    using put_all_room [of q xs] assms by auto
  then show ?thesis using take_all_contents [of q' xs "[]"] by auto
qed

end

interpretation sq: fifo_buffer sq_push sq_pop_front sq_ok queue_data sq_capacity
proof
  fix q :: "'a shared_queue" and x and xs
  show "sq_ok q \<Longrightarrow> length (queue_data q) < sq_capacity q \<Longrightarrow>
      \<exists>q'. sq_push x q = Some q' \<and> sq_ok q' \<and> queue_data q' = queue_data q @ [x] \<and> sq_capacity q' = sq_capacity q"
    by (auto simp: sq_ok_def sq_capacity_def sq_push_def)
  show "sq_ok q \<Longrightarrow> sq_capacity q \<le> length (queue_data q) \<Longrightarrow> sq_push x q = None"
    by (auto simp: sq_ok_def sq_capacity_def sq_push_def)
  show "sq_ok q \<Longrightarrow> queue_data q = x # xs \<Longrightarrow>
      \<exists>q'. sq_pop_front q = Some (x, q') \<and> sq_ok q' \<and> queue_data q' = xs \<and> sq_capacity q' = sq_capacity q"
    by (auto simp: sq_ok_def sq_capacity_def sq_pop_front_def)
  show "sq_ok q \<Longrightarrow> queue_data q = [] \<Longrightarrow> sq_pop_front q = None"
    by (auto simp: sq_pop_front_def)
qed

lemma shared_queue_new_ok [simp]:
  "sq_ok (shared_queue_new m)" "queue_data (shared_queue_new m) = []" "sq_capacity (shared_queue_new m) = m"
  by (simp_all add: sq_ok_def shared_queue_new_def sq_capacity_def)

end
