(* ===== verification/FloatCount.thy ===== *)
theory FloatCount
  imports XPrelude Complex_Main
begin

text \<open>
  The counts the client computes in single precision (\<open>ceil(static_cast<float>(a) /
  static_cast<float>(b))\<close> in \<open>pir/replyExtraction\<close>, \<open>pir/libpir.cpp\<close>, and
  \<open>pir/replyGenerator/PIRReplyGeneratorGMP.cpp\<close>). A positive \<open>float\<close> is the rational it stands
  for; every operation rounds to 24 significant bits, ties to even. Overflow to infinity (above
  \<open>2^127\<close>) and subnormal numbers (below \<open>2^(-126)\<close>) do not occur with sizes.
\<close>

section \<open>Rounding to 24 bits\<close>

text \<open>The exponent \<open>e\<close> with \<open>2^e \<le> x < 2^(e+1)\<close>.\<close>

fun log2_nat :: "nat \<Rightarrow> nat" where
  "log2_nat n = (if n < 2 then 0 else Suc (log2_nat (n div 2)))"

declare log2_nat.simps [simp del]

definition scale2 :: "int \<Rightarrow> rat \<Rightarrow> rat" where
  "scale2 e x = x * power_int 2 e"

definition rat_log2 :: "rat \<Rightarrow> int" where
  "rat_log2 x =
     (let (n, d) = quotient_of x;
          e = int (log2_nat (nat n)) - int (log2_nat (nat d))
      in if scale2 e 1 \<le> x then e else e - 1)"

text \<open>The nearest integer, ties to even.\<close>

definition round_even :: "rat \<Rightarrow> int" where
  "round_even y =
     (let f = \<lfloor>y\<rfloor>; r = y - of_int f
      in if r < 1 / 2 \<or> (r = 1 / 2 \<and> even f) then f else f + 1)"

definition to_float :: "rat \<Rightarrow> rat" where
  "to_float x =
     (if x \<le> 0 then 0
      else let e = rat_log2 x - 23 in scale2 e (of_int (round_even (scale2 (- e) x))))"

text \<open>The two shapes of the counts in the code.\<close>

definition float_ceil_div :: "nat \<Rightarrow> nat \<Rightarrow> nat" where
  "float_ceil_div a b = nat \<lceil>to_float (to_float (of_nat a) / to_float (of_nat b))\<rceil>"

definition float_ceil_mult_div :: "nat \<Rightarrow> nat \<Rightarrow> nat \<Rightarrow> nat" where
  "float_ceil_mult_div c s t =
     nat \<lceil>to_float (to_float (to_float (of_nat c) * to_float (of_nat s)) / to_float (of_nat t))\<rceil>"

section \<open>The rounding error\<close>

lemma scale2_simps [simp]: "scale2 0 x = x" "scale2 e 0 = 0"
  by (simp_all add: scale2_def)

lemmas scale2_powi = scale2_def

lemma scale2_pos [simp]: "0 < scale2 e x \<longleftrightarrow> 0 < x"
proof -
  have "0 < (2 :: rat) powi e" by (rule zero_less_power_int) simp
  then show ?thesis
    unfolding scale2_powi by (metis mult_pos_pos zero_less_mult_pos2)
qed

lemma scale2_less [simp]: "scale2 e x < scale2 e y \<longleftrightarrow> x < y"
  by (simp add: scale2_powi)

lemma scale2_le [simp]: "scale2 e x \<le> scale2 e y \<longleftrightarrow> x \<le> y"
  by (simp add: scale2_powi)

lemma scale2_scale2: "scale2 d (scale2 e x) = scale2 (d + e) x"
  by (simp add: scale2_powi power_int_add mult_ac)

lemma scale2_cancel [simp]: "scale2 (- e) (scale2 e x) = x" "scale2 e (scale2 (- e) x) = x"
  by (simp_all add: scale2_scale2)

lemma scale2_diff: "scale2 e (x - y) = scale2 e x - scale2 e y"
  by (simp add: scale2_powi algebra_simps)

lemma log2_nat_bounds: "0 < n \<Longrightarrow> 2 ^ log2_nat n \<le> n \<and> n < 2 ^ Suc (log2_nat n)"
proof (induction n rule: log2_nat.induct)
  case (1 n)
  show ?case
  proof (cases "n < 2")
    case True
    then show ?thesis using 1(2) by (simp add: log2_nat.simps [of n])
  next
    case False
    then have "2 ^ log2_nat (n div 2) \<le> n div 2 \<and> n div 2 < 2 ^ Suc (log2_nat (n div 2))"
      by (intro 1(1)) auto
    then show ?thesis using False by (simp add: log2_nat.simps [of n]) linarith
  qed
qed

lemma rat_log2_bounds:
  assumes "0 < x"
  shows "scale2 (rat_log2 x) 1 \<le> x" "x < scale2 (rat_log2 x) 2"
proof -
  obtain n d where q: "quotient_of x = (n, d)" by (cases "quotient_of x")
  have d: "0 < d" and x: "x = of_int n / of_int d"
    using quotient_of_denom_pos [OF q] quotient_of_div [OF q] by simp_all
  have n: "0 < n" using assms d x by (simp add: zero_less_divide_iff)
  let ?N = "log2_nat (nat n)" and ?D = "log2_nat (nat d)"
  let ?e = "int ?N - int ?D"
  have bn: "2 ^ ?N \<le> nat n" "nat n < 2 ^ Suc ?N" and bd: "2 ^ ?D \<le> nat d" "nat d < 2 ^ Suc ?D"
    using log2_nat_bounds [of "nat n"] log2_nat_bounds [of "nat d"] n d by simp_all
  have cast: "(2 :: rat) ^ ?N \<le> of_int n" "(of_int n :: rat) < 2 * 2 ^ ?N"
    "(2 :: rat) ^ ?D \<le> of_int d" "(of_int d :: rat) < 2 * 2 ^ ?D"
    using bn bd n d
    by (metis (no_types, opaque_lifting) nat_0_le less_imp_le of_int_of_nat_eq of_nat_le_iff of_nat_less_iff
        of_nat_power of_nat_numeral power_Suc)+
  have e1: "scale2 ?e 1 = 2 ^ ?N / (2 ^ ?D :: rat)"
    by (simp add: scale2_powi power_int_diff)
  have up: "x < scale2 ?e 2" and low: "scale2 (?e - 1) 1 \<le> x"
  proof -
    have "x < 2 * 2 ^ ?N / of_int d"
      unfolding x using cast(2) d by (simp add: divide_strict_right_mono)
    also have "\<dots> \<le> 2 * 2 ^ ?N / 2 ^ ?D"
      using cast(3) d by (intro divide_left_mono) simp_all
    finally show "x < scale2 ?e 2" using e1 by (simp add: scale2_powi)
    have "2 ^ ?N / (2 * 2 ^ ?D) \<le> 2 ^ ?N / (of_int d :: rat)"
      using cast(4) d by (intro divide_left_mono) simp_all
    also have "\<dots> \<le> x"
      unfolding x using cast(1) d by (simp add: divide_right_mono)
    finally show "scale2 (?e - 1) 1 \<le> x"
      using e1 by (simp add: scale2_powi power_int_diff)
  qed
  have l: "rat_log2 x = (if scale2 ?e 1 \<le> x then ?e else ?e - 1)"
    by (simp add: rat_log2_def q)
  have "scale2 (?e - 1) 2 = scale2 ?e 1" by (simp add: scale2_powi power_int_diff)
  then show "scale2 (rat_log2 x) 1 \<le> x" "x < scale2 (rat_log2 x) 2"
    using l up low by auto
qed

lemma round_even_error: "2 * \<bar>of_int (round_even y) - y\<bar> \<le> (1 :: rat)"
  by (auto simp: round_even_def Let_def abs_if) (linarith+)

lemma round_even_int [simp]: "round_even (of_int z) = z"
  by (simp add: round_even_def)

text \<open>The relative error is at most \<open>2^(-24)\<close>.\<close>

lemma to_float_error:
  assumes "0 < x"
  shows "2 ^ 24 * \<bar>to_float x - x\<bar> \<le> x"
proof -
  let ?e = "rat_log2 x - 23"
  let ?y = "scale2 (- ?e) x"
  have f: "to_float x = scale2 ?e (of_int (round_even ?y))"
    using assms by (simp add: to_float_def Let_def)
  have "x = scale2 ?e ?y" by (simp only: scale2_cancel)
  then have "to_float x - x = scale2 ?e (of_int (round_even ?y) - ?y)"
    by (simp only: f scale2_diff)
  also have "\<bar>\<dots>\<bar> = scale2 ?e \<bar>of_int (round_even ?y) - ?y\<bar>"
    by (simp add: scale2_powi abs_mult)
  also have "2 * \<dots> \<le> scale2 ?e 1"
    using round_even_error [of ?y] by (simp add: scale2_powi)
  finally have "2 ^ 24 * \<bar>to_float x - x\<bar> \<le> 2 ^ 23 * scale2 ?e 1" by simp
  also have "\<dots> = scale2 (rat_log2 x) 1"
    by (simp add: scale2_powi power_int_diff)
  also have "\<dots> \<le> x" by (rule rat_log2_bounds [OF assms])
  finally show ?thesis .
qed

text \<open>Integers of at most 24 significant bits are exact.\<close>

lemma to_float_exact:
  assumes "0 < z" "z < 2 ^ 24"
  shows "to_float (scale2 j (of_int z)) = scale2 j (of_int z)"
proof -
  let ?x = "scale2 j (of_int z)"
  let ?e = "rat_log2 ?x - 23"
  have x: "0 < ?x" using assms(1) by simp
  have "scale2 (rat_log2 ?x) 1 < scale2 (j + 24) 1"
  proof -
    have "scale2 (rat_log2 ?x) 1 \<le> ?x" by (rule rat_log2_bounds [OF x])
    also have "\<dots> < scale2 j (2 ^ 24)"
      using assms(2) by (simp only: scale2_less) (metis of_int_less_iff of_int_numeral of_int_power)
    also have "\<dots> = scale2 (j + 24) 1" by (simp add: scale2_powi power_int_add)
    finally show ?thesis .
  qed
  then have "rat_log2 ?x < j + 24"
    using power_int_increasing [of "j + 24" "rat_log2 ?x" "2 :: rat"] by (simp add: scale2_def not_le [symmetric]) blast
  then have le: "?e \<le> j" by simp
  then have "int (nat (j - ?e)) = - ?e + j" by simp
  then have "scale2 (- ?e + j) (of_int z) = of_int (z * 2 ^ nat (j - ?e))"
    by (metis of_int_mult of_int_numeral of_int_power power_int_of_nat scale2_def)
  then have "scale2 (- ?e) ?x = of_int (z * 2 ^ nat (j - ?e))"
    by (simp only: scale2_scale2)
  then have "scale2 ?e (of_int (round_even (scale2 (- ?e) ?x))) = ?x"
    by (metis round_even_int scale2_cancel(2))
  moreover have "\<not> ?x \<le> 0" using x by linarith
  ultimately show ?thesis by (simp only: to_float_def Let_def if_False)
qed

lemma to_float_nat: "n < 2 ^ 24 \<Longrightarrow> to_float (of_nat n) = of_nat n"
proof (cases "n = 0")
  case True
  then show ?thesis by (simp add: to_float_def)
next
  case False
  assume "n < 2 ^ 24"
  then have "int n < 2 ^ 24" by simp
  then show ?thesis using False to_float_exact [of "int n" 0] by simp
qed

text \<open>The ceiling of a quotient whose numerator has at most 24 bits survives the rounding.\<close>

lemma ceil_to_float_div:
  assumes "a < 2 ^ 24" "0 < b"
  shows "nat \<lceil>to_float (of_nat a / of_nat b)\<rceil> = ceil_div a b"
proof (cases "b dvd a")
  case True
  then obtain c where c: "a = b * c" by blast
  have "c \<le> b * c" using assms(2) by simp
  then have "c < 2 ^ 24" using assms(1) c by linarith
  then have "to_float (of_nat c) = of_nat c" by (rule to_float_nat)
  moreover have "(of_nat a / of_nat b :: rat) = of_nat c" using c assms(2) by simp
  moreover have "ceil_div a b = c" using ceil_div_mult [OF assms(2), of c] c by (simp add: mult.commute)
  ultimately show ?thesis by simp
next
  case False
  let ?q = "of_nat a / of_nat b :: rat" and ?f = "to_float (of_nat a / of_nat b)"
  define m r where "m = a div b" and "r = a mod b"
  have a: "a = m * b + r" by (simp add: m_def r_def)
  have r: "0 < r" "r < b" using False assms(2) by (auto simp: r_def dvd_eq_mod_eq_0)
  have q: "?q = of_nat m + of_nat r / of_nat b"
    using assms(2) by (simp add: a field_simps)
  have pos: "0 < ?q" using r(1) assms(2) unfolding q by (intro add_nonneg_pos divide_pos_pos) simp_all
  have "2 ^ 24 * \<bar>?f - ?q\<bar> \<le> ?q" by (rule to_float_error [OF pos])
  also have "?q < 2 ^ 24 / of_nat b"
    using assms by (intro divide_strict_right_mono) (metis of_nat_less_iff of_nat_numeral of_nat_power, simp)
  finally have err: "\<bar>?f - ?q\<bar> < 1 / of_nat b" by simp
  have "1 / of_nat b \<le> (of_nat r / of_nat b :: rat)" "(of_nat r / of_nat b :: rat) \<le> 1 - 1 / of_nat b"
  proof -
    show "1 / of_nat b \<le> (of_nat r / of_nat b :: rat)"
      using r by (intro divide_right_mono) simp_all
    have "(of_nat r :: rat) + 1 \<le> of_nat b" using r(2) by (metis Suc_leI of_nat_Suc of_nat_le_iff add.commute)
    then show "(of_nat r / of_nat b :: rat) \<le> 1 - 1 / of_nat b"
      using assms(2) by (simp add: field_simps)
  qed
  with err q have "of_nat m < ?f \<and> ?f < of_nat m + 1" by (auto simp: abs_less_iff)
  then have "\<lceil>?f\<rceil> = int m + 1"
    by (simp add: ceiling_eq_iff)
  moreover have "ceil_div a b = m + 1"
  proof -
    have "a + b - 1 = (m + 1) * b + (r - 1)" using a r by simp
    then show ?thesis using r unfolding ceil_div_def by (simp only: div_mult_self3) simp
  qed
  ultimately show ?thesis by simp
qed

lemma float_ceil_div_exact:
  "a < 2 ^ 24 \<Longrightarrow> 0 < b \<Longrightarrow> b < 2 ^ 24 \<Longrightarrow> float_ceil_div a b = ceil_div a b"
  by (simp add: float_ceil_div_def to_float_nat ceil_to_float_div)


text \<open>
  \<open>ceil(float(c) * float(s) / float(t))\<close> when \<open>s\<close> and \<open>t\<close> have a power of two as common factor,
  as the sizes of ciphertexts and plaintexts do.
\<close>

lemma to_float_shifted:
  assumes "m < 2 ^ 24"
  shows "to_float (of_nat (m * 2 ^ j)) = of_nat (m * 2 ^ j)"
proof (cases "m = 0")
  case True
  then show ?thesis by (simp add: to_float_def)
next
  case False
  have "(of_nat (m * 2 ^ j) :: rat) = scale2 (int j) (of_int (int m))"
    by (simp add: scale2_def)
  moreover have "0 < int m" "int m < 2 ^ 24" using False assms by simp_all
  ultimately show ?thesis by (simp only: to_float_exact)
qed

lemma float_ceil_mult_div_exact:
  assumes "c * s < 2 ^ 24" "0 < s" "0 < t" "t < 2 ^ 24" "c < 2 ^ 24"
  shows "float_ceil_mult_div c (s * 2 ^ i) (t * 2 ^ j) = nat \<lceil>to_float (of_nat (c * s * 2 ^ i) / of_nat (t * 2 ^ j))\<rceil>"
proof (cases "c = 0")
  case True
  then show ?thesis by (simp add: float_ceil_mult_div_def to_float_def)
next
  case False
  then have "s \<le> c * s" by simp
  then have s: "s < 2 ^ 24" using assms(1) by linarith
  have "to_float (of_nat c) * to_float (of_nat (s * 2 ^ i)) = of_nat (c * s * 2 ^ i)"
    by (simp only: to_float_shifted [OF s] to_float_nat [OF assms(5)]) simp
  then show ?thesis
    unfolding float_ceil_mult_div_def
    by (simp only: to_float_shifted [OF assms(1)] to_float_shifted [OF assms(4)])
qed

lemma float_ceil_mult_div_words:
  assumes "c * s < 2 ^ 24" "c < 2 ^ 24" "0 < s" "0 < t" "t < 2 ^ 24"
    and "c * s * 2 ^ i * u = n * (t * 2 ^ j)" "0 < u" "n < 2 ^ 24"
  shows "float_ceil_mult_div c (s * 2 ^ i) (t * 2 ^ j) = ceil_div n u"
proof -
  have "(of_nat (c * s * 2 ^ i) / of_nat (t * 2 ^ j) :: rat) = of_nat n / of_nat u"
  proof -
    have "(of_nat (c * s * 2 ^ i) :: rat) * of_nat u = of_nat n * of_nat (t * 2 ^ j)"
      using assms(6) by (metis of_nat_mult)
    then show ?thesis using assms(4,7) by (simp add: frac_eq_eq)
  qed
  then show ?thesis
    using float_ceil_mult_div_exact [OF assms(1,3,4,5,2)] ceil_to_float_div [OF assms(8,7)] by simp
qed


text \<open>The first integer that \<open>float\<close> does not hold.\<close>

lemma rat_log2_eq:
  assumes "0 < x" "scale2 e 1 \<le> x" "x < scale2 e 2"
  shows "rat_log2 x = e"
proof -
  have two: "scale2 d 2 = scale2 (d + 1) (1 :: rat)" for d by (simp add: scale2_def power_int_add)
  have mono: "d < d'" if "scale2 d 1 < scale2 d' (1 :: rat)" for d d'
    using that power_int_increasing [of d' d "2 :: rat"] by (simp add: scale2_def not_le [symmetric]) blast
  have "rat_log2 x < e + 1"
    using rat_log2_bounds(1) [OF assms(1)] assms(3) unfolding two by (intro mono) (rule le_less_trans)
  moreover have "e < rat_log2 x + 1"
    using rat_log2_bounds(2) [OF assms(1)] assms(2) unfolding two by (intro mono) (rule le_less_trans)
  ultimately show ?thesis by simp
qed

lemma to_float_rounds_down: "to_float 16777217 = 16777216"
proof -
  have "rat_log2 16777217 = 24" by (rule rat_log2_eq) (simp_all add: scale2_def)
  moreover have "\<lfloor>16777217 / 2 :: rat\<rfloor> = 8388608" by (simp add: floor_eq_iff)
  then have "round_even (16777217 / 2) = 8388608" by (simp add: round_even_def)
  ultimately show ?thesis by (simp add: to_float_def scale2_def)
qed

end
