(* ===== verification/PIRTypes.thy ===== *)
theory PIRTypes
  imports SharedQueue FloatCount
begin

text \<open>
  What the components of the PIR layer share: the parameters (\<open>pir/PIRParameters.hpp\<close>), the
  interface of a cryptosystem (\<open>crypto/HomomorphicCrypto.hpp\<close>,
  \<open>crypto/AbstractPublicParameters.hpp\<close>), loops over an index whose body may fail, and the mixed
  radix numbering of the database elements.
\<close>

section \<open>Parameters and cryptosystems\<close>

record pir_parameters =
  pir_alpha :: nat
  pir_d :: nat
  pir_n :: "nat list"
  crypto_params :: string

definition kBitsPerByte :: nat where
  "kBitsPerByte = 8"

text \<open>
  A cryptosystem is the table of its virtual methods: \<open>encrypt(ui, d)\<close> with its random words,
  \<open>decrypt(data, rec_lvl, ciph_size, clear_size)\<close> (\<open>None\<close> when the call does not return), and the
  sizes of its public parameters for each recursion level.
\<close>

record 'r crypto =
  crypto_encrypt :: "'r \<Rightarrow> nat \<Rightarrow> nat \<Rightarrow> u8 list"
  crypto_decrypt :: "u8 list \<Rightarrow> nat \<Rightarrow> nat \<Rightarrow> nat \<Rightarrow> u8 list option"
  crypto_absorption :: "nat \<Rightarrow> nat"
  crypto_ciph_bits :: "nat \<Rightarrow> nat"

text \<open>Differences of \<open>uint64_t\<close> sizes wrap around.\<close>

definition u64_diff :: "nat \<Rightarrow> nat \<Rightarrow> nat" where
  "u64_diff a b = (if b \<le> a then a - b else 2 ^ 64 + a - b)"

lemma u64_diff [simp]: "b \<le> a \<Longrightarrow> u64_diff a b = a - b"
  by (simp add: u64_diff_def)

text \<open>\<open>memcpy\<close> into a buffer; writing past its end is undefined.\<close>

definition write_at :: "'a list \<Rightarrow> nat \<Rightarrow> 'a list \<Rightarrow> 'a list option" where
  "write_at mem off xs =
     (if off + length xs \<le> length mem then Some (take off mem @ xs @ drop (off + length xs) mem) else None)"

lemma write_at_nth:
  assumes "write_at mem off xs = Some mem'"
  shows "length mem' = length mem"
    "j < length mem \<Longrightarrow> mem' ! j = (if off \<le> j \<and> j < off + length xs then xs ! (j - off) else mem ! j)"
  using assms by (auto simp: write_at_def nth_append min_def split: if_splits)

section \<open>Loops whose body may fail\<close>

fun for_each :: "('a \<Rightarrow> 's \<Rightarrow> 's option) \<Rightarrow> 'a list \<Rightarrow> 's \<Rightarrow> 's option" where
  "for_each f [] s = Some s"
| "for_each f (x # xs) s = (case f x s of None \<Rightarrow> None | Some s \<Rightarrow> for_each f xs s)"

lemma for_each_append:
  "for_each f (xs @ ys) s = (case for_each f xs s of None \<Rightarrow> None | Some s \<Rightarrow> for_each f ys s)"
  by (induction xs arbitrary: s) (auto split: option.splits)

text \<open>The invariant rule of a counting loop.\<close>

lemma for_each_upt:
  assumes "I 0 s" "\<And>i s. i < n \<Longrightarrow> I i s \<Longrightarrow> \<exists>s'. f i s = Some s' \<and> I (Suc i) s'"
  shows "\<exists>s'. for_each f [0..<n] s = Some s' \<and> I n s'"
  using assms
proof (induction n)
  case (Suc n)
  then obtain s' where "for_each f [0..<n] s = Some s'" "I n s'" by auto
  moreover then obtain s'' where "f n s' = Some s''" "I (Suc n) s''" using Suc.prems(2) by blast
  ultimately show ?case by (simp add: for_each_append)
qed simp

lemma for_each_map: "for_each f (map g xs) s = for_each (\<lambda>i. f (g i)) xs s"
  by (induction xs arbitrary: s) (auto split: option.splits)

lemma for_each_concat: "for_each f (concat xss) s = for_each (for_each f) xss s"
  by (induction xss arbitrary: s) (auto simp: for_each_append split: option.split)

lemma for_each_total: "(\<And>x s. f x s = Some (g x s)) \<Longrightarrow> for_each f xs s = Some (fold g xs s)"
  by (induction xs arbitrary: s) simp_all

section \<open>Mixed radix\<close>

fun mixed_index :: "nat list \<Rightarrow> nat list \<Rightarrow> nat" where
  "mixed_index (n # ns) (c # cs) = c + n * mixed_index ns cs"
| "mixed_index _ _ = 0"

lemma mixed_index_less:
  "length cs = length ns \<Longrightarrow> \<forall>j < length ns. cs ! j < ns ! j \<Longrightarrow> mixed_index ns cs < prod_list ns"
proof (induction ns cs rule: mixed_index.induct)
  case (1 n ns c cs)
  have "\<forall>j < length ns. cs ! j < ns ! j"
    using "1.prems"(2) by (metis Suc_less_eq length_Cons nth_Cons_Suc)
  then have "mixed_index ns cs < prod_list ns" using 1 by simp
  moreover have "c < n" using "1.prems"(2) by force
  ultimately have "c + n * mixed_index ns cs < n * Suc (mixed_index ns cs)"
    "n * Suc (mixed_index ns cs) \<le> n * prod_list ns" by (simp_all add: mult_le_mono2 Suc_leI del: mult_Suc_right) simp
  then show ?case by simp
qed simp_all

end
