(* ===== verification/DBHandlers.thy ===== *)
theory DBHandlers
  imports PIRTypes CStrings
begin

text \<open>
  The database handlers of the server: \<open>pir/dbhandlers/DBDirectoryProcessor.cpp\<close> (the files of a
  directory, or one file cut into equal parts) and \<open>pir/dbhandlers/DBGenerator.cpp\<close> (a synthetic
  database), behind the interface \<open>DBHandler\<close>. The file system is an argument: the entries of the
  directory in the order of \<open>readdir\<close> and the contents of the files. A stream is what is left to
  read of its file; the pool of 50 \<open>ifstream\<close> objects, one of which is in use at a time, is left out.
\<close>

section \<open>The interface\<close>

text \<open>
  The virtual methods of \<open>DBHandler\<close>. A read that leaves the caller's buffer is \<open>None\<close>.
\<close>

record db_handler =
  db_getNbStream :: nat
  db_getmaxFileBytesize :: nat
  db_getCatalog :: "bool \<Rightarrow> string"
  db_openStream :: "nat \<Rightarrow> nat \<Rightarrow> u8 list"
  db_readStream :: "u8 list \<Rightarrow> nat \<Rightarrow> u8 list \<times> u8 list"
  db_readAggregatedStream :: "nat \<Rightarrow> nat \<Rightarrow> nat \<Rightarrow> nat \<Rightarrow> u8 list \<Rightarrow> u8 list option"

section \<open>DBDirectoryProcessor\<close>

record directory_processor =
  file_list :: "string list"
  maxFileBytesize :: nat
  filesSplitting :: bool
  realFileName :: string
  db_error :: bool

text \<open>
  The constructor without splitting keeps the entries whose name is greater than \<open>"."\<close> and
  different from \<open>".."\<close>, sorted by \<open>atoi\<close> of their name (equal keys may come in any order; here in
  the order of \<open>readdir\<close>).
\<close>

fun c_less :: "string \<Rightarrow> string \<Rightarrow> bool" where
  "c_less _ [] = False"
| "c_less [] (_ # _) = True"
| "c_less (a # as) (b # bs) = ((of_char a :: nat) < of_char b \<or> (a = b \<and> c_less as bs))"

definition kept_entry :: "string \<Rightarrow> bool" where
  "kept_entry name \<longleftrightarrow> c_less ''.'' name \<and> name \<noteq> ''..''"

definition DBDirectoryProcessor :: "(string \<times> u8 list) list option \<Rightarrow> directory_processor" where
  "DBDirectoryProcessor dir =
     (case dir of
        None \<Rightarrow> \<lparr> file_list = [], maxFileBytesize = 0, filesSplitting = False, realFileName = [], db_error = True \<rparr>
      | Some entries \<Rightarrow>
          (let kept = filter (\<lambda>(name, _). kept_entry name) entries
           in \<lparr> file_list = sort_key atoi (map fst kept),
                maxFileBytesize = fold (\<lambda>(_, content) m. if length content > m then length content else m) kept 0,
                filesSplitting = False, realFileName = [], db_error = (kept = []) \<rparr>))"

text \<open>Splitting one file into \<open>nbStreams\<close> parts; \<open>nbStreams = 0\<close> divides by zero.\<close>

definition split_file :: "nat \<Rightarrow> string \<Rightarrow> u8 list \<Rightarrow> directory_processor option" where
  "split_file nbStreams name content =
     (if nbStreams = 0 then None
      else Some \<lparr> file_list = map to_string [0..<nbStreams], maxFileBytesize = length content div nbStreams,
                  filesSplitting = True, realFileName = name, db_error = (length content div nbStreams = 0) \<rparr>)"

text \<open>
  The constructor that splits the first regular file (the flag of an entry says whether it is one;
  without a regular file the code dereferences a null entry).
\<close>

definition DBDirectoryProcessor_split :: "(bool \<times> string \<times> u8 list) list option \<Rightarrow> nat \<Rightarrow> directory_processor option" where
  "DBDirectoryProcessor_split dir nbStreams =
     (case dir of
        None \<Rightarrow> Some \<lparr> file_list = [], maxFileBytesize = 0, filesSplitting = True, realFileName = [], db_error = True \<rparr>
      | Some entries \<Rightarrow>
          (case filter fst entries of
             [] \<Rightarrow> None
           | (_, name, content) # _ \<Rightarrow> split_file nbStreams (''db/'' @ name) content))"

definition DBDirectoryProcessor_named :: "(string \<Rightarrow> u8 list) \<Rightarrow> nat \<Rightarrow> string \<Rightarrow> directory_processor option" where
  "DBDirectoryProcessor_named fs nbStreams filename = split_file nbStreams (''db/'' @ filename) (fs (''db/'' @ filename))"

definition getNbStream :: "directory_processor \<Rightarrow> nat" where
  "getNbStream D = length (file_list D)"

definition getmaxFileBytesize :: "directory_processor \<Rightarrow> nat" where
  "getmaxFileBytesize D = maxFileBytesize D"

definition getDBSizeBits :: "directory_processor \<Rightarrow> nat" where
  "getDBSizeBits D = maxFileBytesize D * length (file_list D) * 8"

text \<open>\<open>fs\<close> gives the contents of a path.\<close>

definition newline :: string where
  "newline = [CHR 0x0A]"

definition getCatalog :: "(string \<Rightarrow> u8 list) \<Rightarrow> directory_processor \<Rightarrow> bool \<Rightarrow> string" where
  "getCatalog fs D full =
     (if full
      then to_string 0 @ newline @ to_string (getNbStream D) @ newline @
        concat (map (\<lambda>f. f @ newline @
          to_string (if \<not> filesSplitting D then length (fs (''db/'' @ f)) else getmaxFileBytesize D) @ newline) (file_list D))
      else to_string 1 @ newline @ to_string (getNbStream D) @ newline @ to_string (maxFileBytesize D) @ newline)"

definition openStream :: "(string \<Rightarrow> u8 list) \<Rightarrow> directory_processor \<Rightarrow> nat \<Rightarrow> nat \<Rightarrow> u8 list" where
  "openStream fs D streamNb offset =
     (if \<not> filesSplitting D then drop offset (fs (''db/'' @ (file_list D ! streamNb)))
      else drop (streamNb * getmaxFileBytesize D + offset) (fs (realFileName D)))"

text \<open>
  \<open>readStream\<close>: \<open>readsome\<close> gives at most the characters that are available without blocking; how
  many that is, for what is left of the file, is the argument \<open>avail\<close>. The rest is padded with zeros.
\<close>

definition readsome_count :: "(nat \<Rightarrow> nat) \<Rightarrow> u8 list \<Rightarrow> nat \<Rightarrow> nat" where
  "readsome_count avail s wanted = min (min (avail (length s)) (length s)) wanted"

function read_loop :: "(nat \<Rightarrow> nat) \<Rightarrow> u8 list \<Rightarrow> nat \<Rightarrow> nat \<Rightarrow> u8 list \<times> u8 list" where
  "read_loop avail s sizeRead total_size =
     (if sizeRead < total_size
      then let n = readsome_count avail s (total_size - sizeRead)
           in if n = 0 then (replicate (total_size - sizeRead) 0, s)
              else let (out, s') = read_loop avail (drop n s) (sizeRead + n) total_size in (take n s @ out, s')
      else ([], s))"
  by pat_completeness auto
termination
  by (relation "measure (\<lambda>(avail, s, sizeRead, total_size). total_size - sizeRead)") (auto simp: readsome_count_def intro!: diff_less_mono2)

declare read_loop.simps [simp del]

definition readStream :: "(nat \<Rightarrow> nat) \<Rightarrow> u8 list \<Rightarrow> nat \<Rightarrow> u8 list \<times> u8 list" where
  "readStream avail s total_size = read_loop avail s 0 total_size"

text \<open>The padding files of the last group, shared by the two handlers.\<close>

definition padding_streams :: "nat \<Rightarrow> nat \<Rightarrow> nat \<Rightarrow> nat" where
  "padding_streams nb streamNb alpha =
     (if streamNb * alpha + alpha \<ge> nb then streamNb * alpha + alpha - nb else 0)"

definition end_stream :: "nat \<Rightarrow> nat \<Rightarrow> nat \<Rightarrow> nat" where
  "end_stream nb streamNb alpha = min (streamNb * alpha + alpha - 1) (nb - 1)"

definition pad_group :: "nat \<Rightarrow> nat \<Rightarrow> nat \<Rightarrow> nat \<Rightarrow> u8 list \<Rightarrow> u8 list option" where
  "pad_group nb streamNb alpha fileByteSize rawBits =
     (if padding_streams nb streamNb alpha \<noteq> 0
      then write_at rawBits ((end_stream nb streamNb alpha mod alpha) * fileByteSize)
             (replicate (fileByteSize * padding_streams nb streamNb alpha) 0)
      else Some rawBits)"

definition readAggregatedStream ::
    "(string \<Rightarrow> u8 list) \<Rightarrow> (nat \<Rightarrow> nat) \<Rightarrow> directory_processor \<Rightarrow> nat \<Rightarrow> nat \<Rightarrow> nat \<Rightarrow> nat \<Rightarrow> u8 list \<Rightarrow> u8 list option" where
  "readAggregatedStream fs avail D streamNb alpha offset bytes_per_file rawBits =
     (let fileByteSize = min bytes_per_file (u64_diff (getmaxFileBytesize D) offset);
          nb = getNbStream D
      in case for_each (\<lambda>i raw. write_at raw ((i mod alpha) * fileByteSize)
                  (fst (readStream avail (openStream fs D i offset) fileByteSize)))
                [streamNb * alpha..<end_stream nb streamNb alpha + 1] rawBits of
           None \<Rightarrow> None
         | Some raw \<Rightarrow> pad_group nb streamNb alpha fileByteSize raw)"

definition directory_handler :: "(string \<Rightarrow> u8 list) \<Rightarrow> (nat \<Rightarrow> nat) \<Rightarrow> directory_processor \<Rightarrow> db_handler" where
  "directory_handler fs avail D =
     \<lparr> db_getNbStream = getNbStream D, db_getmaxFileBytesize = getmaxFileBytesize D, db_getCatalog = getCatalog fs D,
       db_openStream = openStream fs D, db_readStream = readStream avail,
       db_readAggregatedStream = readAggregatedStream fs avail D \<rparr>"

section \<open>DBGenerator\<close>

record db_generator =
  gen_file_list :: "string list"
  gen_maxFileBytesize :: nat
  nbFiles :: nat

text \<open>The build option \<open>SEND_CATALOG\<close>, on by default, fills the list of names.\<close>

definition DBGenerator :: "nat \<Rightarrow> nat \<Rightarrow> db_generator" where
  "DBGenerator nbStreams streamBytesize =
     \<lparr> gen_file_list = map to_string [0..<nbStreams], gen_maxFileBytesize = streamBytesize, nbFiles = nbStreams \<rparr>"

definition generator_getCatalog :: "db_generator \<Rightarrow> bool \<Rightarrow> string" where
  "generator_getCatalog G full =
     (if full
      then to_string 0 @ newline @ to_string (nbFiles G) @ newline @
        concat (map (\<lambda>f. f @ newline @ to_string (gen_maxFileBytesize G) @ newline) (gen_file_list G))
      else to_string 1 @ newline @ to_string (nbFiles G) @ newline @ to_string (gen_maxFileBytesize G) @ newline)"

definition generator_readStream :: "u8 list \<Rightarrow> nat \<Rightarrow> u8 list \<times> u8 list" where
  "generator_readStream s n = (replicate n 0xaa, s)"

definition generator_readAggregatedStream ::
    "db_generator \<Rightarrow> nat \<Rightarrow> nat \<Rightarrow> nat \<Rightarrow> nat \<Rightarrow> u8 list \<Rightarrow> u8 list option" where
  "generator_readAggregatedStream G streamNb alpha offset bytes_per_file rawBits =
     (let fileByteSize = min bytes_per_file (u64_diff (gen_maxFileBytesize G) offset);
          nb = nbFiles G
      in case write_at rawBits 0
                (replicate (fileByteSize * (end_stream nb streamNb alpha - streamNb * alpha + 1)) 0xaa) of
           None \<Rightarrow> None
         | Some raw \<Rightarrow> pad_group nb streamNb alpha fileByteSize raw)"

definition generator_handler :: "db_generator \<Rightarrow> db_handler" where
  "generator_handler G =
     \<lparr> db_getNbStream = nbFiles G, db_getmaxFileBytesize = gen_maxFileBytesize G, db_getCatalog = generator_getCatalog G,
       db_openStream = (\<lambda>_ _. []), db_readStream = generator_readStream,
       db_readAggregatedStream = generator_readAggregatedStream G \<rparr>"


section \<open>Reading a stream\<close>

lemma read_loop_step:
  assumes "r < n" "readsome_count avail s (n - r) \<noteq> 0"
  shows "read_loop avail s r n =
    (let m = readsome_count avail s (n - r); rest = read_loop avail (drop m s) (r + m) n
     in (take m s @ fst rest, snd rest))"
  using assms by (subst read_loop.simps) (simp add: Let_def split_beta)

lemma read_loop_stop:
  "\<not> (r < n \<and> readsome_count avail s (n - r) \<noteq> 0) \<Longrightarrow> read_loop avail s r n = (replicate (n - r) 0, s)"
  by (subst read_loop.simps) (auto simp: Let_def)

lemma readsome_count_le: "readsome_count avail s w \<le> length s" "readsome_count avail s w \<le> w"
  by (auto simp: readsome_count_def)

lemma length_read_loop: "length (fst (read_loop avail s r n)) = n - r"
proof (induction avail s r n rule: read_loop.induct)
  case (1 avail s r n)
  show ?case
  proof (cases "r < n \<and> readsome_count avail s (n - r) \<noteq> 0")
    case True
    let ?m = "readsome_count avail s (n - r)"
    have m: "?m \<noteq> 0" and r: "r < n" using True by blast+
    have "length (fst (read_loop avail (drop ?m s) (r + ?m) n)) = n - (r + ?m)"
      using 1 [OF r refl m] .
    moreover have "fst (read_loop avail s r n) = take ?m s @ fst (read_loop avail (drop ?m s) (r + ?m) n)"
      by (simp only: read_loop_step [OF r m] Let_def fst_conv)
    ultimately show ?thesis using m r readsome_count_le [of avail s "n - r"] by simp
  next
    case False
    then have "read_loop avail s r n = (replicate (n - r) 0, s)" by (rule read_loop_stop)
    then show ?thesis by simp
  qed
qed

lemma read_loop_padded:
  assumes "\<forall>r > 0. 0 < avail r"
  shows "fst (read_loop avail s r n) = take (n - r) s @ replicate (n - r - length s) 0"
  using assms
proof (induction avail s r n rule: read_loop.induct)
  case (1 avail s r n)
  show ?case
  proof (cases "r < n \<and> s \<noteq> []")
    case True
    let ?m = "readsome_count avail s (n - r)"
    have m: "?m \<noteq> 0" and r: "r < n" and le: "?m \<le> length s" "?m \<le> n - r"
      using True "1.prems" by (auto simp: readsome_count_def)
    have "fst (read_loop avail (drop ?m s) (r + ?m) n) =
        take (n - (r + ?m)) (drop ?m s) @ replicate (n - (r + ?m) - length (drop ?m s)) 0"
      using "1.IH" [OF r refl m "1.prems"] .
    moreover have "fst (read_loop avail s r n) = take ?m s @ fst (read_loop avail (drop ?m s) (r + ?m) n)"
      by (simp only: read_loop_step [OF r m] Let_def fst_conv)
    moreover have "take ?m s @ take (n - (r + ?m)) (drop ?m s) = take (n - r) s"
      using le by (metis diff_diff_left le_add_diff_inverse take_add)
    moreover have "n - (r + ?m) - length (drop ?m s) = n - r - length s"
      using le by simp
    ultimately show ?thesis by simp
  next
    case False
    then have "read_loop avail s r n = (replicate (n - r) 0, s)"
      by (intro read_loop_stop) (auto simp: readsome_count_def)
    then show ?thesis using False by auto
  qed
qed

lemma length_readStream [simp]: "length (fst (readStream avail s n)) = n"
  by (simp add: readStream_def length_read_loop)

section \<open>Groups of files\<close>

text \<open>\<open>for_each\<close> over the blocks of a buffer.\<close>

lemma take_written: "length y = c \<Longrightarrow> a \<le> length X \<Longrightarrow> take (a + c) (take a X @ y @ Z) = take a X @ y"
  by simp

lemma drop_written: "length y = c \<Longrightarrow> a \<le> length X \<Longrightarrow> drop (a + c) (take a X @ y @ Z) = Z"
  by simp

lemma for_each_cong: "(\<And>x s. x \<in> set xs \<Longrightarrow> f x s = g x s) \<Longrightarrow> for_each f xs s = for_each g xs s"
  by (induction xs arbitrary: s) (auto split: option.splits)

lemma write_group:
  assumes "length raw = alpha * len" "m \<le> alpha" "\<And>i. i < m \<Longrightarrow> length (b (s * alpha + i)) = len"
  shows "for_each (\<lambda>i raw. write_at raw ((i mod alpha) * len) (b i)) [s * alpha..<s * alpha + m] raw =
    Some (concat (map (\<lambda>i. b (s * alpha + i)) [0..<m]) @ drop (m * len) raw)"
proof -
  let ?f = "\<lambda>i raw. write_at raw ((i mod alpha) * len) (b i)" and ?c = "\<lambda>i. b (s * alpha + i)"
  let ?I = "\<lambda>i raw'. length raw' = alpha * len \<and> take (i * len) raw' = concat (map ?c [0..<i]) \<and>
    drop (i * len) raw' = drop (i * len) raw"
  have "\<exists>raw'. for_each (\<lambda>i. ?f (s * alpha + i)) [0..<m] raw = Some raw' \<and> ?I m raw'"
  proof (rule for_each_upt [where I = ?I])
    show "?I 0 raw" using assms(1) by simp
    fix i raw' assume i: "i < m" and I: "?I i raw'"
    have "Suc i * len \<le> alpha * len" using i assms(2) by (intro mult_le_mono1) simp
    then have le: "i * len + len \<le> alpha * len" by simp
    have l: "length (?c i) = len" by (rule assms(3) [OF i])
    have mod: "(s * alpha + i) mod alpha = i" using i assms(2) by simp
    have w: "write_at raw' ((s * alpha + i) mod alpha * len) (?c i) =
        Some (take (i * len) raw' @ ?c i @ drop (i * len + len) raw')"
      using I l le unfolding mod by (simp add: write_at_def)
    have a: "i * len \<le> length raw'" using I le by linarith
    have a2: "Suc i * len = i * len + len" by simp
    let ?new = "take (i * len) raw' @ ?c i @ drop (i * len + len) raw'"
    have "take (Suc i * len) ?new = concat (map ?c [0..<Suc i])"
      unfolding a2 take_written [OF l a] using I by simp
    moreover have "drop (Suc i * len) ?new = drop (Suc i * len) raw"
    proof -
      have "drop (i * len + len) raw' = drop len (drop (i * len) raw')" by (simp add: add.commute)
      also have "\<dots> = drop (Suc i * len) raw" using I by (simp add: add.commute)
      finally show ?thesis unfolding a2 drop_written [OF l a] by simp
    qed
    moreover have "length ?new = alpha * len"
      using I le unfolding length_append length_take length_drop l by linarith
    ultimately show "\<exists>s'. ?f (s * alpha + i) raw' = Some s' \<and> ?I (Suc i) s'"
      using w by blast
  qed
  then obtain raw' where r: "for_each (\<lambda>i. ?f (s * alpha + i)) [0..<m] raw = Some raw'" "?I m raw'" by blast
  have "[s * alpha..<s * alpha + m] = map (\<lambda>i. s * alpha + i) [0..<m]"
    by (simp add: list_eq_iff_nth_eq)
  then have "for_each ?f [s * alpha..<s * alpha + m] raw = Some raw'"
    using r(1) by (simp only: for_each_map)
  moreover have "raw' = concat (map ?c [0..<m]) @ drop (m * len) raw"
    using r(2) append_take_drop_id [of "m * len" raw'] by simp
  ultimately show ?thesis by simp
qed


lemma read_loop_rest:
  assumes "\<forall>r > 0. 0 < avail r"
  shows "snd (read_loop avail s r n) = drop (n - r) s"
  using assms
proof (induction avail s r n rule: read_loop.induct)
  case (1 avail s r n)
  show ?case
  proof (cases "r < n \<and> readsome_count avail s (n - r) \<noteq> 0")
    case True
    let ?m = "readsome_count avail s (n - r)"
    have m: "?m \<noteq> 0" and r: "r < n" using True by blast+
    have "snd (read_loop avail (drop ?m s) (r + ?m) n) = drop (n - (r + ?m)) (drop ?m s)"
      using "1.IH" [OF r refl m "1.prems"] .
    moreover have "n - (r + ?m) + ?m = n - r" using readsome_count_le(2) [of avail s "n - r"] r by simp
    ultimately show ?thesis
      by (simp add: read_loop_step [OF r m] Let_def)
  next
    case False
    then have "read_loop avail s r n = (replicate (n - r) 0, s)" by (rule read_loop_stop)
    moreover have "n - r = 0 \<or> s = []" using False "1.prems" by (auto simp: readsome_count_def)
    ultimately show ?thesis by auto
  qed
qed

lemma readStream_padded:
  assumes "\<forall>r > 0. 0 < avail r"
  shows "readStream avail s n = (take n s @ replicate (n - length s) 0, drop n s)"
  using read_loop_padded [OF assms, of s 0 n] read_loop_rest [OF assms, of s 0 n]
  by (simp add: readStream_def prod_eq_iff)

section \<open>What a handler promises\<close>

text \<open>
  The contract the reply generators rely on: every database element has \<open>db_getmaxFileBytesize\<close>
  bytes \<open>content i\<close>, streams read them in order, and a group of \<open>alpha\<close> elements that needs no padding
  is read as the concatenation of its parts.
\<close>

locale database =
  fixes db :: db_handler and content :: "nat \<Rightarrow> u8 list" and standing :: "nat \<Rightarrow> nat \<Rightarrow> u8 list \<Rightarrow> bool"
  assumes length_content: "length (content i) = db_getmaxFileBytesize db"
    and at_open: "standing i pos (db_openStream db i pos)"
    and at_read: "standing i pos st \<Longrightarrow> standing i (pos + n) (snd (db_readStream db st n)) \<and>
      length (fst (db_readStream db st n)) = n \<and>
      take (db_getmaxFileBytesize db - pos) (fst (db_readStream db st n)) = take n (drop pos (content i))"
    and whole_group: "0 < alpha \<Longrightarrow> s * alpha + alpha \<le> db_getNbStream db \<Longrightarrow> off \<le> db_getmaxFileBytesize db \<Longrightarrow>
      length raw = alpha * min bytes (db_getmaxFileBytesize db - off) \<Longrightarrow>
      db_readAggregatedStream db s alpha off bytes raw =
        Some (concat (map (\<lambda>i. take (min bytes (db_getmaxFileBytesize db - off)) (drop off (content (s * alpha + i)))) [0..<alpha]))"
begin

text \<open>Without aggregation every element is read exactly.\<close>

lemma single_element:
  assumes "s < db_getNbStream db" "off + n \<le> db_getmaxFileBytesize db" "length raw = n"
  shows "db_readAggregatedStream db s 1 off n raw = Some (take n (drop off (content s)))"
proof -
  have "min n (db_getmaxFileBytesize db - off) = n" using assms(2) by simp
  then show ?thesis using whole_group [of 1 s off raw n] assms by simp
qed

lemma read_inside:
  assumes "standing i pos st" "pos + n \<le> db_getmaxFileBytesize db"
  shows "fst (db_readStream db st n) = take n (drop pos (content i))"
proof -
  have "length (fst (db_readStream db st n)) \<le> db_getmaxFileBytesize db - pos"
    using at_read [OF assms(1), of n] assms(2) by simp
  from take_all [OF this] show ?thesis using at_read [OF assms(1), of n] by simp
qed

end

definition directory_content :: "(string \<Rightarrow> u8 list) \<Rightarrow> directory_processor \<Rightarrow> nat \<Rightarrow> u8 list" where
  "directory_content fs D i = take (maxFileBytesize D) (openStream fs D i 0 @ replicate (maxFileBytesize D) 0)"

lemma openStream_drop: "openStream fs D i pos = drop pos (openStream fs D i 0)"
  by (simp add: openStream_def add.commute)

lemma nth_padded: "j < n \<Longrightarrow> (take n xs @ replicate (n - length xs) x) ! j = (if j < length xs then xs ! j else x)"
  by (auto simp: nth_append min_def)

lemma padded_part:
  fixes F :: "u8 list"
  shows "take (M - p) (take n (drop p F) @ replicate (n - length (drop p F)) 0) = take n (drop p (take M (F @ replicate M 0)))"
proof (rule nth_equalityI)
  have l: "length (take n (drop p F) @ replicate (n - length (drop p F)) 0) = n" by simp
  have "length (take M (F @ replicate M (0 :: u8))) = M" unfolding length_take length_append length_replicate by simp
  then have "length (drop p (take M (F @ replicate M (0 :: u8)))) = M - p" by (simp only: length_drop)
  then have r: "length (take n (drop p (take M (F @ replicate M 0)))) = min n (M - p)"
    unfolding length_take by (metis min.commute)
  show len: "length (take (M - p) (take n (drop p F) @ replicate (n - length (drop p F)) 0)) =
      length (take n (drop p (take M (F @ replicate M 0))))"
    using l r by (metis length_take min.commute)
  fix j assume "j < length (take (M - p) (take n (drop p F) @ replicate (n - length (drop p F)) 0))"
  then have j: "j < M - p" "j < n" unfolding length_take l by simp_all
  then have pj: "p + j < M" by simp
  have "p \<le> length (take M (F @ replicate M (0 :: u8)))" using pj by simp
  then have "take n (drop p (take M (F @ replicate M 0))) ! j = (F @ replicate M 0) ! (p + j)"
    unfolding nth_take [OF j(2)] by (simp only: nth_drop nth_take [OF pj])
  also have "\<dots> = (if j < length (drop p F) then drop p F ! j else 0)"
    using pj by (auto simp: nth_append)
  also have "\<dots> = take (M - p) (take n (drop p F) @ replicate (n - length (drop p F)) 0) ! j"
    unfolding nth_take [OF j(1)] by (rule nth_padded [OF j(2), symmetric])
  finally show "take (M - p) (take n (drop p F) @ replicate (n - length (drop p F)) 0) ! j =
      take n (drop p (take M (F @ replicate M 0))) ! j" by (rule sym)
qed

lemma pad_group_full: "s * alpha + alpha \<le> nb \<Longrightarrow> pad_group nb s alpha len raw = Some raw"
  by (simp add: pad_group_def padding_streams_def)

text \<open>Both handlers keep the contract; for the directory \<open>readsome\<close> has to deliver something when there is something.\<close>

interpretation directory: database "directory_handler fs (\<lambda>r. Suc (avail r)) D" "directory_content fs D"
  "\<lambda>i pos st. st = openStream fs D i pos"
proof
  fix i pos st n
  let ?db = "directory_handler fs (\<lambda>r. Suc (avail r)) D"
  have sel: "db_getmaxFileBytesize ?db = maxFileBytesize D" "db_getNbStream ?db = getNbStream D"
    "db_readStream ?db = readStream (\<lambda>r. Suc (avail r))" "db_openStream ?db = openStream fs D"
    "db_readAggregatedStream ?db = readAggregatedStream fs (\<lambda>r. Suc (avail r)) D"
    by (simp_all add: directory_handler_def getmaxFileBytesize_def)
  show "length (directory_content fs D i) = db_getmaxFileBytesize ?db"
    by (simp add: sel directory_content_def)
  show "db_openStream ?db i pos = openStream fs D i pos" by (simp add: sel)
  have rd: "readStream (\<lambda>r. Suc (avail r)) s n = (take n s @ replicate (n - length s) 0, drop n s)" for s n
    by (rule readStream_padded) simp
  show "st = openStream fs D i pos \<Longrightarrow> snd (db_readStream ?db st n) = openStream fs D i (pos + n) \<and>
      length (fst (db_readStream ?db st n)) = n \<and>
      take (db_getmaxFileBytesize ?db - pos) (fst (db_readStream ?db st n)) = take n (drop pos (directory_content fs D i))"
    using padded_part [of "maxFileBytesize D" pos n "openStream fs D i 0"] openStream_drop [of fs D i pos]
      openStream_drop [of fs D i "pos + n"]
    unfolding sel rd directory_content_def by (auto simp: add.commute)
  fix alpha s off bytes and raw :: "u8 list"
  let ?len = "min bytes (maxFileBytesize D - off)"
  assume a: "0 < alpha" "s * alpha + alpha \<le> db_getNbStream ?db" "off \<le> db_getmaxFileBytesize ?db"
    and raw: "length raw = alpha * min bytes (db_getmaxFileBytesize ?db - off)"
  have e: "end_stream (getNbStream D) s alpha + 1 = s * alpha + alpha"
    using a(1,2) unfolding sel by (auto simp: end_stream_def min_def)
  have block: "fst (readStream (\<lambda>r. Suc (avail r)) (openStream fs D j off) ?len) = take ?len (drop off (directory_content fs D j))" for j
  proof -
    let ?r = "fst (readStream (\<lambda>r. Suc (avail r)) (openStream fs D j off) ?len)"
    have "?r = take (maxFileBytesize D - off) ?r" by (rule take_all [symmetric]) simp
    also have "\<dots> = take ?len (drop off (directory_content fs D j))"
      unfolding rd openStream_drop [of fs D j off] directory_content_def fst_conv by (rule padded_part)
    finally show ?thesis .
  qed
  have u: "u64_diff (getmaxFileBytesize D) off = maxFileBytesize D - off"
    using a(3) unfolding sel by (simp add: getmaxFileBytesize_def)
  have "length raw = alpha * ?len" using raw unfolding sel .
  moreover have "length (take ?len (drop off (directory_content fs D j))) = ?len" for j
    using block [of j] length_readStream by metis
  ultimately have "for_each (\<lambda>i raw. write_at raw ((i mod alpha) * ?len) (take ?len (drop off (directory_content fs D i))))
      [s * alpha..<s * alpha + alpha] raw =
      Some (concat (map (\<lambda>i. take ?len (drop off (directory_content fs D (s * alpha + i)))) [0..<alpha]))"
    by (subst write_group [where len = ?len]) simp_all
  then show "db_readAggregatedStream ?db s alpha off bytes raw =
      Some (concat (map (\<lambda>i. take (min bytes (db_getmaxFileBytesize ?db - off)) (drop off (directory_content fs D (s * alpha + i)))) [0..<alpha]))"
    using a(2) unfolding sel readAggregatedStream_def u e Let_def block
    by (simp add: pad_group_full)
qed

interpretation generator: database "generator_handler G" "\<lambda>_. replicate (gen_maxFileBytesize G) 0xaa" "\<lambda>_ _ _. True"
proof
  fix alpha s off bytes and raw :: "u8 list"
  let ?db = "generator_handler G" and ?len = "min bytes (gen_maxFileBytesize G - off)"
  assume a: "0 < alpha" "s * alpha + alpha \<le> db_getNbStream ?db" "off \<le> db_getmaxFileBytesize ?db"
    and raw: "length raw = alpha * min bytes (db_getmaxFileBytesize ?db - off)"
  have sel: "db_getmaxFileBytesize ?db = gen_maxFileBytesize G" "db_getNbStream ?db = nbFiles G"
    "db_readAggregatedStream ?db = generator_readAggregatedStream G"
    by (simp_all add: generator_handler_def)
  have e: "end_stream (nbFiles G) s alpha - s * alpha + 1 = alpha"
    using a(1,2) unfolding sel by (auto simp: end_stream_def min_def)
  have u: "u64_diff (gen_maxFileBytesize G) off = gen_maxFileBytesize G - off" using a(3) unfolding sel by simp
  have rep: "concat (map (\<lambda>i. replicate n (x :: u8)) [0..<m]) = replicate (n * m) x" for n m x
    by (induction m) (simp_all add: replicate_add [symmetric] add.commute)
  have block: "take ?len (drop off (replicate (gen_maxFileBytesize G) (0xaa :: u8))) = replicate ?len 0xaa"
    by simp
  have "write_at raw 0 (replicate (?len * alpha) 0xaa) = Some (replicate (?len * alpha) 0xaa)"
    using raw unfolding sel by (simp add: write_at_def mult.commute)
  then show "db_readAggregatedStream ?db s alpha off bytes raw =
      Some (concat (map (\<lambda>i. take (min bytes (db_getmaxFileBytesize ?db - off)) (drop off (replicate (gen_maxFileBytesize G) 0xaa))) [0..<alpha]))"
    using a(2) unfolding sel generator_readAggregatedStream_def u e Let_def block rep
    by (simp add: pad_group_full)
qed (simp_all add: generator_handler_def generator_readStream_def)


section \<open>Properties\<close>

text \<open>
  C26: The contents of the database: without aggregation, \<open>readAggregatedStream\<close> of either handler
  fills the buffer with exactly the requested bytes of the element, files shorter than the longest
  one being padded with zeros (\<open>readsome\<close> may deliver any positive amount at a time).
\<close>
theorem directory_single_element:
  assumes "i < getNbStream D" "off + n \<le> maxFileBytesize D" "length raw = n" "\<forall>r > 0. 0 < avail r"
  shows "readAggregatedStream fs avail D i 1 off n raw = Some (take n (drop off (directory_content fs D i)))"
proof -
  have eq: "readStream avail s m = readStream (\<lambda>r. Suc (avail r)) s m" for s m
    by (simp add: readStream_padded [OF assms(4)] readStream_padded)
  have "readAggregatedStream fs avail D i 1 off n raw = readAggregatedStream fs (\<lambda>r. Suc (avail r)) D i 1 off n raw"
    unfolding readAggregatedStream_def eq ..
  then show ?thesis
    using directory.single_element [of i fs avail D off n raw] assms(1-3)
    by (simp add: directory_handler_def getmaxFileBytesize_def)
qed

definition example_dir :: directory_processor where
  "example_dir = DBDirectoryProcessor (Some [(''.'', []), (''..'', []), (''10'', [1, 2, 3]), (''9'', [4, 5, 6, 7, 8])])"

definition example_fs :: "string \<Rightarrow> u8 list" where
  "example_fs path = (if path = ''db/10'' then [1, 2, 3] else if path = ''db/9'' then [4, 5, 6, 7, 8] else [])"

lemma example_dir: "file_list example_dir = [''9'', ''10'']" "maxFileBytesize example_dir = 5"
  by code_simp+

theorem directory_single_element_witness:
  "readAggregatedStream example_fs (\<lambda>r. 1) example_dir 1 1 1 4 [9, 9, 9, 9] = Some [2, 3, 0, 0]"
proof -
  have "readAggregatedStream example_fs (\<lambda>r. 1) example_dir 1 1 1 4 [9, 9, 9, 9] =
      Some (take 4 (drop 1 (directory_content example_fs example_dir 1)))"
    by (rule directory_single_element) (simp_all add: example_dir getNbStream_def)
  also have "take 4 (drop 1 (directory_content example_fs example_dir 1)) = [2, 3, 0, 0]" by code_simp
  finally show ?thesis .
qed

text \<open>The last group when the number of elements is not a multiple of \<open>alpha\<close>.\<close>

lemma last_group:
  assumes a: "0 < alpha" and nb: "s * alpha < nb" "nb < s * alpha + alpha"
  shows "padding_streams nb s alpha = s * alpha + alpha - nb" "end_stream nb s alpha = nb - 1"
    "(nb - 1) mod alpha = nb - 1 - s * alpha"
proof -
  show "padding_streams nb s alpha = s * alpha + alpha - nb" using nb by (simp add: padding_streams_def)
  show "end_stream nb s alpha = nb - 1" using nb by (simp add: end_stream_def)
  have "nb - 1 = (nb - 1 - s * alpha) + alpha * s" using nb by (simp add: mult.commute)
  then show "(nb - 1) mod alpha = nb - 1 - s * alpha"
    using nb by (metis mod_mult_self2 mod_less less_diff_conv2 add.commute diff_le_self le_less_trans le_add1
        Suc_leI diff_Suc_1 less_imp_Suc_add nat_less_le)
qed


lemma write_over:
  assumes "length X = a" "length Y = l" "length W = l + w" "w \<le> length Z"
  shows "write_at (X @ Y @ Z) a W = Some (X @ W @ drop w Z)"
  using assms by (simp add: write_at_def)

text \<open>
  C27: The padding of the last group is misplaced: when the number of files is not a multiple of
  \<open>alpha\<close>, the last real file of the group comes out as zeros, and the last place of the group keeps
  whatever the buffer held before (with \<open>importDataNFL\<close>, a file of the previous group). Here
  \<open>m\<close> is the number of real files in the group.
\<close>
theorem last_group_loses_a_file:
  assumes a: "0 < m" "m < alpha" "getNbStream D = s * alpha + m" "off \<le> maxFileBytesize D"
    and raw: "length raw = alpha * len" and len: "len = min bytes (maxFileBytesize D - off)"
  shows "readAggregatedStream fs (\<lambda>r. r) D s alpha off bytes raw =
    Some (concat (map (\<lambda>i. take len (drop off (directory_content fs D (s * alpha + i)))) [0..<m - 1]) @
      replicate (len * (alpha - m)) 0 @ drop ((alpha - 1) * len) raw)"
proof -
  let ?b = "\<lambda>j. fst (readStream (\<lambda>r. r) (openStream fs D j off) len)"
  let ?c = "\<lambda>i. ?b (s * alpha + i)"
  let ?X = "concat (map ?c [0..<m - 1])"
  note lg = last_group [of alpha s "getNbStream D"]
  have e: "end_stream (getNbStream D) s alpha = s * alpha + (m - 1)" "end_stream (getNbStream D) s alpha + 1 = s * alpha + m"
    "padding_streams (getNbStream D) s alpha = alpha - m"
    using a lg by simp_all
  have u: "min bytes (u64_diff (getmaxFileBytesize D) off) = len"
    using a(4) len by (simp add: getmaxFileBytesize_def)
  have lx: "length ?X = (m - 1) * len" by (simp add: length_concat comp_def sum_list_triv)
  have m: "[0..<m] = [0..<m - 1] @ [m - 1]" using a(1) by (cases m) simp_all
  have "for_each (\<lambda>i raw. write_at raw ((i mod alpha) * len) (?b i)) [s * alpha..<s * alpha + m] raw =
      Some ((?X @ ?c (m - 1)) @ drop (m * len) raw)"
    using write_group [OF raw, of m ?b s] a(2) by (simp add: m)
  moreover have "pad_group (getNbStream D) s alpha len ((?X @ ?c (m - 1)) @ drop (m * len) raw) =
      Some (?X @ replicate (len * (alpha - m)) 0 @ drop ((alpha - 1) * len) raw)"
  proof -
    obtain d where d: "alpha = m + Suc d" using less_imp_Suc_add [OF a(2)] by auto
    have "m * len \<le> alpha * len" using a(2) by (intro mult_le_mono1) simp
    then have "len * d \<le> length (drop (m * len) raw)" using raw by (simp add: d algebra_simps)
    then have "write_at (?X @ ?c (m - 1) @ drop (m * len) raw) ((m - 1) * len) (replicate (len + len * d) 0) =
        Some (?X @ replicate (len + len * d) 0 @ drop (len * d) (drop (m * len) raw))"
      by (intro write_over [OF lx, of _ len]) simp_all
    moreover have "drop (len * d) (drop (m * len) raw) = drop ((alpha - 1) * len) raw"
      by (simp add: d algebra_simps)
    moreover have "(s * alpha + (m - 1)) mod alpha = m - 1" using a(2) by simp
    moreover have "alpha - m \<noteq> 0" "len * (alpha - m) = len + len * d" by (simp_all add: d)
    ultimately show ?thesis
      unfolding pad_group_def e append_assoc by (simp only: if_True not_False_eq_True)
  qed
  moreover have "?b j = take len (drop off (directory_content fs D j))" for j
  proof -
    have "take (maxFileBytesize D - off) (?b j) = take len (drop off (directory_content fs D j))"
      using padded_part [of "maxFileBytesize D" off len "openStream fs D j 0"] openStream_drop [of fs D j off]
      by (simp add: readStream_padded directory_content_def)
    moreover have "take (maxFileBytesize D - off) (?b j) = ?b j" by (rule take_all) (simp add: len)
    ultimately show ?thesis by simp
  qed
  ultimately show ?thesis
    unfolding readAggregatedStream_def Let_def u e(2) by simp
qed

theorem last_group_loses_a_file_witness:
  "readAggregatedStream example_fs (\<lambda>r. r) (example_dir \<lparr> file_list := [''9'', ''10'', ''9''] \<rparr>) 1 2 0 5 [4, 5, 6, 7, 8, 1, 2, 3, 0, 0] =
   Some [0, 0, 0, 0, 0, 1, 2, 3, 0, 0]"
proof -
  have "readAggregatedStream example_fs (\<lambda>r. r) (example_dir \<lparr> file_list := [''9'', ''10'', ''9''] \<rparr>) 1 2 0 5 [4, 5, 6, 7, 8, 1, 2, 3, 0, 0] =
      Some (concat (map (\<lambda>i. take 5 (drop 0 (directory_content example_fs (example_dir \<lparr> file_list := [''9'', ''10'', ''9''] \<rparr>) (1 * 2 + i)))) [0..<1 - 1]) @
        replicate (5 * (2 - 1)) 0 @ drop ((2 - 1) * 5) [4, 5, 6, 7, 8, 1, 2, 3, 0, 0])"
    by (rule last_group_loses_a_file) (simp_all add: getNbStream_def example_dir)
  then show ?thesis by (simp add: numeral_eq_Suc)
qed

end
