(* ===== verification/PIRRecursion.thy ===== *)
theory PIRRecursion
  imports PIRTypes
begin

text \<open>
  The recursion over the dimensions, common to the reply generators (\<open>generateReply\<close> of
  \<open>pir/replyGenerator/PIRReplyGeneratorNFL_internal.cpp\<close> and
  \<open>pir/replyGenerator/PIRReplyGeneratorGMP.cpp\<close>) and to the extraction of the client: level \<open>i\<close>
  replaces each run of \<open>n[i]\<close> elements by one reply, which becomes an element of the next level. The
  contract of one level is a locale, and retrieval through all the levels is proved once in it.
\<close>

section \<open>The levels of the server\<close>

text \<open>
  \<open>absorb i q es\<close> is one PIR of level \<open>i\<close> with the query \<open>q\<close>, \<open>import i r\<close> turns a reply into an
  element of level \<open>i + 1\<close>. Element \<open>j\<close> of the next level comes from the elements \<open>n[i] * j\<close>, \<dots>
\<close>

definition run_of :: "nat \<Rightarrow> nat \<Rightarrow> 'e list \<Rightarrow> 'e list" where
  "run_of n j es = take n (drop (n * j) es)"

definition level_replies :: "(nat \<Rightarrow> 'q \<Rightarrow> 'e list \<Rightarrow> 'r) \<Rightarrow> nat \<Rightarrow> nat \<Rightarrow> 'q \<Rightarrow> nat \<Rightarrow> 'e list \<Rightarrow> 'r list" where
  "level_replies absorb i n q m es = map (\<lambda>j. absorb i q (run_of n j es)) [0..<m]"

fun server_levels ::
    "(nat \<Rightarrow> 'q \<Rightarrow> 'e list \<Rightarrow> 'r) \<Rightarrow> (nat \<Rightarrow> 'r \<Rightarrow> 'e) \<Rightarrow> nat \<Rightarrow> (nat \<times> 'q) list \<Rightarrow> 'e list \<Rightarrow> 'r list" where
  "server_levels absorb import i [] es = []"
| "server_levels absorb import i [(n, q)] es = level_replies absorb i n q 1 es"
| "server_levels absorb import i ((n, q) # qs) es =
     server_levels absorb import (i + 1) qs
       (map (import i) (level_replies absorb i n q (prod_list (map fst qs)) es))"

text \<open>
  The client decrypts level by level from the last one: \<open>recover i\<close> decrypts a reply of level \<open>i\<close>,
  \<open>parse i\<close> finds a reply of level \<open>i\<close> in what level \<open>i + 1\<close> decrypts to.
\<close>

fun client_levels :: "(nat \<Rightarrow> 'r \<Rightarrow> 'v) \<Rightarrow> (nat \<Rightarrow> 'v \<Rightarrow> 'r) \<Rightarrow> nat \<Rightarrow> nat \<Rightarrow> 'r \<Rightarrow> 'v" where
  "client_levels recover parse i 0 r = recover i r"
| "client_levels recover parse i (Suc m) r = recover i (parse i (client_levels recover parse (i + 1) m r))"

text \<open>Every reply the client meets on its way down is a proper one.\<close>

fun client_proper :: "(nat \<Rightarrow> 'r \<Rightarrow> bool) \<Rightarrow> (nat \<Rightarrow> 'r \<Rightarrow> 'v) \<Rightarrow> (nat \<Rightarrow> 'v \<Rightarrow> 'r) \<Rightarrow> nat \<Rightarrow> nat \<Rightarrow> 'r \<Rightarrow> bool" where
  "client_proper proper recover parse i 0 r = proper i r"
| "client_proper proper recover parse i (Suc m) r =
     (client_proper proper recover parse (i + 1) m r \<and> proper i (parse i (client_levels recover parse (i + 1) m r)))"

lemma length_run_of: "n * j + n \<le> length es \<Longrightarrow> length (run_of n j es) = n"
  by (simp add: run_of_def)

lemma nth_run_of: "n * j + n \<le> length es \<Longrightarrow> t < n \<Longrightarrow> run_of n j es ! t = es ! (t + n * j)"
  by (simp add: run_of_def add.commute)

section \<open>The contract of one level\<close>

text \<open>
  \<open>holds i e v\<close>: the element \<open>e\<close> of level \<open>i\<close> stands for the value \<open>v\<close>; \<open>selects i n t q\<close>: the query
  \<open>q\<close> of level \<open>i\<close> selects place \<open>t\<close> of \<open>n\<close>; \<open>proper i r\<close>: \<open>r\<close> is a reply of level \<open>i\<close>.
\<close>

locale private_retrieval =
  fixes absorb :: "nat \<Rightarrow> 'q \<Rightarrow> 'e list \<Rightarrow> 'r" and import :: "nat \<Rightarrow> 'r \<Rightarrow> 'e"
    and recover :: "nat \<Rightarrow> 'r \<Rightarrow> 'v" and parse :: "nat \<Rightarrow> 'v \<Rightarrow> 'r" and bytes :: "nat \<Rightarrow> 'r \<Rightarrow> 'v"
    and holds :: "nat \<Rightarrow> 'e \<Rightarrow> 'v \<Rightarrow> bool" and selects :: "nat \<Rightarrow> nat \<Rightarrow> nat \<Rightarrow> 'q \<Rightarrow> bool"
    and proper :: "nat \<Rightarrow> 'r \<Rightarrow> bool"
  assumes select: "selects i n t q \<Longrightarrow> t < n \<Longrightarrow> length es = n \<Longrightarrow> \<forall>u < n. holds i (es ! u) (vs u) \<Longrightarrow>
      proper i (absorb i q es) \<and> recover i (absorb i q es) = vs t"
    and reimport: "proper i r \<Longrightarrow> holds (Suc i) (import i r) (bytes i r) \<and> parse i (bytes i r) = r"
begin

lemma level_step:
  assumes sel: "selects i n t q" "t < n" and es: "length es = n * m" "\<forall>u < n * m. holds i (es ! u) (vs u)" and j: "j < m"
  defines "r \<equiv> level_replies absorb i n q m es ! j"
  shows "proper i r" "recover i r = vs (t + n * j)"
proof -
  have "Suc j * n \<le> m * n" using j by (intro mult_le_mono1) simp
  then have b: "n * j + n \<le> length es" using es(1) by (simp add: mult.commute add.commute)
  have "\<forall>u < n. holds i (run_of n j es ! u) (vs (u + n * j))"
    using es b by (auto simp: nth_run_of [OF b])
  from select [OF sel length_run_of [OF b] this] show "proper i r" "recover i r = vs (t + n * j)"
    using j by (simp_all add: r_def level_replies_def)
qed

text \<open>
  Retrieval through all the dimensions: the only reply of the last level decrypts, level by level,
  to the value of the element whose mixed radix digits are the coordinates.
\<close>

lemma retrieval:
  assumes "qs \<noteq> []" "length cs = length qs"
    and "\<forall>j < length qs. selects (i + j) (fst (qs ! j)) (cs ! j) (snd (qs ! j)) \<and> cs ! j < fst (qs ! j)"
    and "length es = prod_list (map fst qs)" "\<forall>u < length es. holds i (es ! u) (vs u)"
  shows "\<exists>r. server_levels absorb import i qs es = [r] \<and> proper (i + length qs - 1) r \<and>
    client_proper proper recover parse i (length qs - 1) r \<and>
    client_levels recover parse i (length qs - 1) r = vs (mixed_index (map fst qs) cs)"
  using assms
proof (induction qs arbitrary: i es cs vs)
  case Nil
  then show ?case by simp
next
  case (Cons nq qs)
  obtain n q where nq: "nq = (n, q)" by (cases nq)
  obtain c cs' where cs: "cs = c # cs'" using Cons.prems(2) by (cases cs) auto
  let ?m = "prod_list (map fst qs)"
  have sel: "selects i n c q" "c < n" using Cons.prems(3) by (force simp: nq cs)+
  have es: "length es = n * ?m" "\<forall>u < n * ?m. holds i (es ! u) (vs u)" using Cons.prems(4,5) by (simp_all add: nq)
  note step = level_step [OF sel es]
  show ?case
  proof (cases "qs = []")
    case True
    then show ?thesis
      using step [of 0] Cons.prems(2) by (simp add: nq cs level_replies_def)
  next
    case False
    let ?rs = "level_replies absorb i n q ?m es"
    have len: "length ?rs = ?m" by (simp add: level_replies_def)
    have "\<forall>j < length qs. selects (Suc i + j) (fst (qs ! j)) (cs' ! j) (snd (qs ! j)) \<and> cs' ! j < fst (qs ! j)"
    proof (intro allI impI)
      fix j assume "j < length qs"
      then show "selects (Suc i + j) (fst (qs ! j)) (cs' ! j) (snd (qs ! j)) \<and> cs' ! j < fst (qs ! j)"
        using Cons.prems(3) [rule_format, of "Suc j"] by (simp add: nq cs)
    qed
    moreover have "\<forall>u < length (map (import i) ?rs). holds (Suc i) (map (import i) ?rs ! u) (bytes i (?rs ! u))"
      using step reimport len by simp
    ultimately obtain r where r: "server_levels absorb import (Suc i) qs (map (import i) ?rs) = [r]"
      "proper (Suc i + length qs - 1) r" "client_proper proper recover parse (Suc i) (length qs - 1) r"
      "client_levels recover parse (Suc i) (length qs - 1) r = bytes i (?rs ! mixed_index (map fst qs) cs')"
      using Cons.IH [OF False, of cs' "Suc i" "map (import i) ?rs" "\<lambda>u. bytes i (?rs ! u)"] Cons.prems(2) len
      by (auto simp: cs)
    have x: "mixed_index (map fst qs) cs' < ?m"
    proof (rule mixed_index_less)
      show "length cs' = length (map fst qs)" using Cons.prems(2) by (simp add: cs)
      show "\<forall>j < length (map fst qs). cs' ! j < map fst qs ! j"
        using \<open>\<forall>j < length qs. selects (Suc i + j) (fst (qs ! j)) (cs' ! j) (snd (qs ! j)) \<and> cs' ! j < fst (qs ! j)\<close> by simp
    qed
    obtain k where k: "length qs = Suc k" using False by (cases qs) auto
    have srv: "server_levels absorb import i (nq # qs) es = server_levels absorb import (i + 1) qs (map (import i) ?rs)"
      using False by (cases qs) (auto simp: nq)
    have down: "parse i (client_levels recover parse (Suc i) k r) = ?rs ! mixed_index (map fst qs) cs'"
      using r(4) reimport [OF step(1) [OF x]] k by simp
    then have "client_levels recover parse i (Suc k) r = recover i (?rs ! mixed_index (map fst qs) cs')" by simp
    also have "\<dots> = vs (mixed_index (map fst (nq # qs)) cs)"
      using step(2) [OF x] by (simp add: nq cs)
    finally show ?thesis using r(1,2,3) srv k down step(1) [OF x] by simp
  qed
qed

end

end
