(* ===== verification/ReplyGenNFL.thy ===== *)
theory ReplyGenNFL
  imports BitSplit DBHandlers PIRRecursion
begin

text \<open>
  The reply generator for the lattice cryptosystems:
  \<open>pir/replyGenerator/PIRReplyGeneratorNFL_internal.cpp\<close> (with its base class
  \<open>GenericPIRReplyGenerator.cpp\<close>) on the cryptosystem \<open>NFLLWE\<close>, built with \<open>SHOUP\<close> as its headers
  require and without \<open>SNIFFER\<close>, \<open>SIMULATE_PRE_NFL_DATA\<close> and \<open>TEST_NFL_PERF_ITERATIONS\<close>.
  Pointers that may be \<open>NULL\<close> are options; a null pointer that is followed or an access outside an
  array makes the whole operation \<open>None\<close>. Timings, messages and the mutex (locked until the query
  is complete) are left out; sizes are below \<open>2^53\<close>, where the quotients of \<open>double\<close>s are exact.
\<close>

section \<open>Ciphertexts as bytes\<close>

definition word_bytes :: "u64 \<Rightarrow> u8 list" where
  "word_bytes v = map (\<lambda>i. ucast (drop_bit (8 * i) v)) [0..<8]"

text \<open>The two polynomials of a ciphertext are contiguous: \<open>a\<close> then \<open>b\<close>.\<close>

definition cipher_bytes :: "lwe_cipher \<Rightarrow> u8 list" where
  "cipher_bytes c = concat (map word_bytes (cipher_a c @ cipher_b c))"

definition chartocipher :: "lwe \<Rightarrow> u8 list \<Rightarrow> lwe_cipher option" where
  "chartocipher L bs =
     (let n = lwe_nbModuli L * lwe_polyDegree L
      in if length bs < 16 * n then None
         else Some \<lparr> cipher_a = map (\<lambda>i. read64 bs (8 * i)) [0..<n],
                     cipher_b = map (\<lambda>i. read64 bs (8 * (n + i))) [0..<n] \<rparr>)"

definition lwe_deserializeDataNFL :: "lwe \<Rightarrow> u8 list list \<Rightarrow> nat \<Rightarrow> lwe_in_data option" where
  "lwe_deserializeDataNFL L buffers bitsPerBuffer =
     deserializeDataNFL (nflInstance L) buffers bitsPerBuffer (getAbsorptionBitsize L div lwe_polyDegree L)"

section \<open>State\<close>

text \<open>\<open>queriesBuf[i][0][j]\<close> and \<open>queriesBuf[i][1][j]\<close> are the pair at place \<open>j\<close> of dimension \<open>i\<close>.\<close>

record nfl_generator =
  rg_params :: pir_parameters
  rg_db :: db_handler
  rg_crypto :: lwe
  rg_is_lwe :: bool
  repliesArray :: "lwe_cipher option list option"
  repliesAmount :: nat
  repliesIndex :: nat
  currentMaxNbPolys :: nat
  queriesBuf :: "(lwe_cipher \<times> lwe_cipher) option list list option"
  current_query_index :: nat
  current_dim_index :: nat
  input_data :: "lwe_in_data list option"

definition PIRReplyGeneratorNFL :: "pir_parameters \<Rightarrow> db_handler \<Rightarrow> nfl_generator" where
  "PIRReplyGeneratorNFL P db =
     \<lparr> rg_params = P, rg_db = db, rg_crypto = NFLLWE_new, rg_is_lwe = False, repliesArray = None,
       repliesAmount = 0, repliesIndex = 0, currentMaxNbPolys = 0, queriesBuf = None,
       current_query_index = 0, current_dim_index = 0, input_data = None \<rparr>"

definition setCryptoMethod :: "lwe \<Rightarrow> nfl_generator \<Rightarrow> nfl_generator" where
  "setCryptoMethod L g = g \<lparr> rg_crypto := L, rg_is_lwe := True \<rparr>"

section \<open>Queries\<close>

definition freeResult :: "nfl_generator \<Rightarrow> nfl_generator" where
  "freeResult g = g \<lparr> repliesArray := None \<rparr>"

text \<open>It walks over \<open>repliesAmount\<close> places, which must be inside the array it frees.\<close>

definition freeResult_inside :: "nfl_generator \<Rightarrow> bool" where
  "freeResult_inside g \<longleftrightarrow> (case repliesArray g of None \<Rightarrow> True | Some arr \<Rightarrow> repliesAmount g \<le> length arr)"

definition freeInputData :: "nfl_generator \<Rightarrow> nfl_generator" where
  "freeInputData g = g \<lparr> input_data := None \<rparr>"

definition freeQueries :: "nfl_generator \<Rightarrow> nfl_generator" where
  "freeQueries g =
     g \<lparr> queriesBuf := map_option (map (map (\<lambda>_. None))) (queriesBuf g), current_query_index := 0, current_dim_index := 0 \<rparr>"

definition freeQueriesBuffer :: "nfl_generator \<Rightarrow> nfl_generator" where
  "freeQueriesBuffer g = g \<lparr> queriesBuf := None \<rparr>"

definition initQueriesBuffer :: "nfl_generator \<Rightarrow> nfl_generator" where
  "initQueriesBuffer g =
     g \<lparr> queriesBuf := Some (map (\<lambda>i. replicate (pir_n (rg_params g) ! i) None) [0..<pir_d (rg_params g)]) \<rparr>"

definition setPirParams :: "pir_parameters \<Rightarrow> nfl_generator \<Rightarrow> nfl_generator" where
  "setPirParams P g = initQueriesBuffer (freeQueriesBuffer (freeQueries g) \<lparr> rg_params := P \<rparr>)"

text \<open>The Shoup quotients of a query element, residue by residue.\<close>

definition query_quotients :: "lwe \<Rightarrow> u64 list \<Rightarrow> u64 list" where
  "query_quotients L x =
     map (\<lambda>j. shoup_quotient (x ! j) (lwe_moduli L ! (j div lwe_polyDegree L))) [0..<lwe_nbModuli L * lwe_polyDegree L]"

definition pushQuery_at :: "u8 list \<Rightarrow> nat \<Rightarrow> nat \<Rightarrow> nfl_generator \<Rightarrow> nfl_generator option" where
  "pushQuery_at rawQuery dm nbr g =
     (case queriesBuf g of
        None \<Rightarrow> None
      | Some buf \<Rightarrow>
          if dm < length buf \<and> nbr < length (buf ! dm)
          then map_option (\<lambda>c.
              let prime = \<lparr> cipher_a = query_quotients (rg_crypto g) (cipher_a c),
                            cipher_b = query_quotients (rg_crypto g) (cipher_b c) \<rparr>
              in g \<lparr> queriesBuf := Some (buf[dm := (buf ! dm)[nbr := Some (c, prime)]]) \<rparr>)
            (chartocipher (rg_crypto g) rawQuery)
          else None)"

text \<open>The place of the next query element advances on its own.\<close>

definition pushQuery :: "u8 list \<Rightarrow> nfl_generator \<Rightarrow> nfl_generator option" where
  "pushQuery rawQuery g =
     map_option (\<lambda>g.
         let next = current_query_index g + 1
         in if next \<ge> pir_n (rg_params g) ! current_dim_index g
            then g \<lparr> current_query_index := 0, current_dim_index := current_dim_index g + 1 \<rparr>
            else g \<lparr> current_query_index := next \<rparr>)
       (pushQuery_at rawQuery (current_dim_index g) (current_query_index g) g)"

section \<open>Importing the database\<close>

definition product_from :: "nat \<Rightarrow> pir_parameters \<Rightarrow> nat" where
  "product_from i P = fold (\<lambda>j r. r * pir_n P ! j) [i..<pir_d P] 1"

definition zero_poly :: "lwe \<Rightarrow> u64 list" where
  "zero_poly L = replicate (lwe_polyDegree L * lwe_nbModuli L) 0"

text \<open>One buffer \<open>rawBits\<close> is reused for all the groups of \<open>alpha\<close> files.\<close>

definition importDataNFL :: "nat \<Rightarrow> nat \<Rightarrow> nfl_generator \<Rightarrow> nfl_generator option" where
  "importDataNFL offset bytes_per_file g =
     (let P = rg_params g; db = rg_db g; L = rg_crypto g; alpha = pir_alpha P;
          fileByteSize = min bytes_per_file (u64_diff (db_getmaxFileBytesize db) offset);
          theoretical_files_nbr = product_from 0 P;
          nbruns = ceil_div (db_getNbStream db) alpha
      in if alpha = 0 \<or> theoretical_files_nbr < nbruns then None
         else case for_each (\<lambda>i (rawBits, elements).
                  case db_readAggregatedStream db i alpha offset bytes_per_file rawBits of
                    None \<Rightarrow> None
                  | Some rawBits \<Rightarrow>
                      map_option (\<lambda>p. (rawBits, elements @ [p]))
                        (lwe_deserializeDataNFL L [rawBits] (fileByteSize * alpha * kBitsPerByte)))
                [0..<nbruns] (replicate (fileByteSize * alpha) 0, []) of
             None \<Rightarrow> None
           | Some (_, elements) \<Rightarrow>
               (let polys = fold (\<lambda>p m. if length p > m then length p else m) elements 0
                in Some (g \<lparr> currentMaxNbPolys := polys,
                     input_data := Some (elements @
                       replicate (theoretical_files_nbr - nbruns) (replicate polys (zero_poly L))) \<rparr>)))"

section \<open>Generating a reply\<close>

text \<open>The queries are absorbed by packs of 200 for each polynomial.\<close>

definition absorb_poly ::
    "lwe \<Rightarrow> (lwe_cipher \<times> lwe_cipher) list \<Rightarrow> lwe_in_data list \<Rightarrow> nat \<Rightarrow> nat \<Rightarrow> lwe_cipher" where
  "absorb_poly L queries data query_size poly =
     fold (\<lambda>pack. fold (\<lambda>t rop. lwe_mulandadd_shoup L rop (data ! t) (fst (queries ! t)) (snd (queries ! t)) poly)
         [200 * pack..<min query_size (200 * pack + 200)])
       [0..<ceil_div query_size 200] (zero_cipher L)"

text \<open>
  \<open>generateReply (queries, data, lvl, result)\<close>, and with \<open>subtract\<close> (only the first level subtracts).
\<close>

definition reply_element ::
    "lwe \<Rightarrow> lwe_cipher list option \<Rightarrow> nat \<Rightarrow> (lwe_cipher \<times> lwe_cipher) list \<Rightarrow> lwe_in_data list \<Rightarrow> nat \<Rightarrow> nat \<Rightarrow> lwe_cipher list" where
  "reply_element L subtract lvl queries data query_size polys =
     map (\<lambda>poly. let r = absorb_poly L queries data query_size poly
                 in case subtract of
                      Some s \<Rightarrow> if lvl = 0 \<and> 0 < query_size then lwe_sub L r r (s ! poly) else r
                    | None \<Rightarrow> r)
       [0..<polys]"

text \<open>The accesses of one level that must be inside their arrays.\<close>

definition level_accesses ::
    "lwe_cipher list option \<Rightarrow> nat \<Rightarrow> (lwe_cipher \<times> lwe_cipher) option list \<Rightarrow> nat \<Rightarrow> nat \<Rightarrow> lwe_in_data list \<Rightarrow> nat \<Rightarrow> bool" where
  "level_accesses subtract lvl queries n m data polys \<longleftrightarrow>
     n \<le> length queries \<and> None \<notin> set (take n queries) \<and> n * m \<le> length data \<and>
     (\<forall>e \<in> set (take (n * m) data). polys \<le> length e) \<and>
     (case subtract of Some s \<Rightarrow> lvl = 0 \<longrightarrow> polys \<le> length s | None \<Rightarrow> True)"

text \<open>\<open>fromResulttoInData\<close>: the replies of one level become the elements of the next.\<close>

definition fromResulttoInData :: "lwe \<Rightarrow> lwe_cipher list list \<Rightarrow> nat \<Rightarrow> (lwe_in_data list \<times> nat) option" where
  "fromResulttoInData L inter_reply polys =
     (let in_data2b_bytes = getAbsorptionBitsize L div 8;
          in_data2b_nbr_polys = ceil_div (polys * getCiphertextBitsize L) (8 * in_data2b_bytes)
      in map_option (\<lambda>elements. (elements, in_data2b_nbr_polys))
           (for_each (\<lambda>reply elements. map_option (\<lambda>p. elements @ [p])
               (lwe_deserializeDataNFL L (map cipher_bytes (take polys reply)) (getCiphertextBitsize L)))
             inter_reply []))"

definition generate_level ::
    "nfl_generator \<Rightarrow> lwe_cipher list option \<Rightarrow> (lwe_cipher \<times> lwe_cipher) option list list \<Rightarrow> nat \<Rightarrow>
     lwe_in_data list \<times> nat \<times> lwe_cipher option list \<Rightarrow> (lwe_in_data list \<times> nat \<times> lwe_cipher option list) option" where
  "generate_level g subtract buf i state =
     (let (in_data, polys, replies) = state;
          L = rg_crypto g; d = pir_d (rg_params g); n = pir_n (rg_params g) ! i; m = product_from (i + 1) (rg_params g)
      in if i < length buf \<and> level_accesses subtract i (buf ! i) n m in_data polys
         then (let inter_reply = level_replies (\<lambda>lvl q es. reply_element L subtract lvl q es n polys) i n
                       (map the (take n (buf ! i))) m in_data
               in case (if i = d - 1 \<and> 0 < n
                        then for_each (\<lambda>r arr. write_at arr (repliesIndex g) (map Some r)) inter_reply replies
                        else Some replies) of
                    None \<Rightarrow> None
                  | Some replies \<Rightarrow>
                      if i < d - 1
                      then map_option (\<lambda>(in_data, polys). (in_data, polys, replies)) (fromResulttoInData L inter_reply polys)
                      else Some (in_data, polys, replies))
         else None)"

definition generateReply_with :: "lwe_cipher list option \<Rightarrow> nfl_generator \<Rightarrow> nfl_generator option" where
  "generateReply_with subtract g =
     (if \<not> freeResult_inside g then None
      else case (input_data g, queriesBuf g) of
        (Some in_data, Some buf) \<Rightarrow>
          (case for_each (generate_level g subtract buf) [0..<pir_d (rg_params g)]
                  (in_data, currentMaxNbPolys g, replicate (repliesAmount g) None) of
             None \<Rightarrow> None
           | Some (_, polys, replies) \<Rightarrow> Some (g \<lparr> repliesArray := Some replies, currentMaxNbPolys := polys \<rparr>))
      | _ \<Rightarrow> None)"

definition generateReply :: "nfl_generator \<Rightarrow> nfl_generator option" where
  "generateReply g = generateReply_with None g"

definition generateReply_subtract :: "lwe_cipher list \<Rightarrow> nfl_generator \<Rightarrow> nfl_generator option" where
  "generateReply_subtract subtract g = generateReply_with (Some subtract) g"

definition computeReplySizeInChunks :: "nat \<Rightarrow> nfl_generator \<Rightarrow> nat" where
  "computeReplySizeInChunks maxFileBytes g =
     (let P = rg_params g; L = rg_crypto g
      in fold (\<lambda>i out. ceil_div (out * (getCiphBitsizeFromRecLvl L i div kBitsPerByte)) (getAbsorptionBitsize L div kBitsPerByte))
           [1..<pir_d P] (ceil_div (maxFileBytes * kBitsPerByte * pir_alpha P) (getAbsorptionBitsize L)))"

definition charToLWECipher :: "u8 list list \<Rightarrow> nfl_generator \<Rightarrow> lwe_cipher list option" where
  "charToLWECipher request g =
     for_each (\<lambda>r cs. map_option (\<lambda>c. cs @ [c]) (chartocipher (rg_crypto g) r)) request []"


section \<open>The operations the server calls\<close>

text \<open>What \<open>generateReplyGeneric\<close> leaves of an imported database.\<close>

record imported_database =
  imported_database_ptr :: "lwe_in_data list option"
  nbElements :: nat
  polysPerElement :: nat
  beforeImportElementBytesize :: nat

text \<open>
  The bytes of each file that are imported at once, from the memory of the machine (the parameter
  \<open>memory\<close>, \<open>getTotalSystemMemory\<close>).
\<close>

definition max_readable :: "nat \<Rightarrow> nfl_generator \<Rightarrow> nat" where
  "max_readable memory g =
     (let A = getAbsorptionBitsize (rg_crypto g);
          usable_memory = memory div 2;
          max_memory_per_file = usable_memory div db_getNbStream (rg_db g);
          max_readable_size = max_memory_per_file div 4;
          max_readable_size = (max_readable_size * kBitsPerByte div A) * A div kBitsPerByte;
          max_readable_size = (if max_readable_size = 0 then A else max_readable_size)
      in min max_readable_size (db_getmaxFileBytesize (rg_db g)))"

definition nbr_of_iterations :: "nat \<Rightarrow> nfl_generator \<Rightarrow> nat" where
  "nbr_of_iterations memory g = ceil_div (db_getmaxFileBytesize (rg_db g)) (max_readable memory g)"

text \<open>With aggregation or several dimensions everything is imported in one iteration.\<close>

definition import_plan :: "nat \<Rightarrow> nfl_generator \<Rightarrow> nat \<times> nat" where
  "import_plan memory g =
     (if (pir_alpha (rg_params g) \<noteq> 1 \<or> pir_d (rg_params g) > 1) \<and> nbr_of_iterations memory g > 1
      then (1, db_getmaxFileBytesize (rg_db g))
      else (nbr_of_iterations memory g, max_readable memory g))"

text \<open>
  One iteration. The version with a request differs by the argument of \<open>generateReply\<close> only. The
  wrapper is filled by the last iteration when the data is kept; otherwise the data is freed.
\<close>

definition import_iteration ::
    "bool \<Rightarrow> bool \<Rightarrow> lwe_cipher list option \<Rightarrow> nat \<Rightarrow> nat \<Rightarrow> nat \<Rightarrow> imported_database \<times> nfl_generator \<Rightarrow>
     (imported_database \<times> nfl_generator) option" where
  "import_iteration keep only_import subtract count readable iteration state =
     (let (wrapper, g) = state;
          g = (if only_import then g else g \<lparr> repliesIndex := computeReplySizeInChunks (iteration * readable) g \<rparr>)
      in case importDataNFL (iteration * readable) readable g of
           None \<Rightarrow> None
         | Some g \<Rightarrow>
             (let last_kept = (keep \<and> iteration = count - 1);
                  wrapper = (if last_kept then wrapper \<lparr> polysPerElement := currentMaxNbPolys g \<rparr> else wrapper)
              in case (if only_import then Some g
                       else generateReply_with subtract
                              (g \<lparr> repliesAmount := computeReplySizeInChunks (db_getmaxFileBytesize (rg_db g)) g \<rparr>)) of
                   None \<Rightarrow> None
                 | Some g \<Rightarrow>
                     if last_kept
                     then Some (wrapper \<lparr> imported_database_ptr := input_data g,
                                beforeImportElementBytesize := db_getmaxFileBytesize (rg_db g),
                                nbElements := db_getNbStream (rg_db g) \<rparr>, g)
                     else Some (wrapper, freeInputData g)))"

definition empty_database :: imported_database where
  "empty_database = \<lparr> imported_database_ptr = None, nbElements = 0, polysPerElement = 0, beforeImportElementBytesize = 0 \<rparr>"

text \<open>A division by zero (no file, no absorption, an empty database) is \<open>None\<close>.\<close>

definition generateReplyGeneric_with ::
    "lwe_cipher list option \<Rightarrow> nat \<Rightarrow> bool \<Rightarrow> bool \<Rightarrow> nfl_generator \<Rightarrow> (imported_database \<times> nfl_generator) option" where
  "generateReplyGeneric_with subtract memory keep_imported_data only_import g =
     (if db_getNbStream (rg_db g) = 0 \<or> getAbsorptionBitsize (rg_crypto g) = 0 \<or> db_getmaxFileBytesize (rg_db g) = 0 then None
      else let (count, readable) = import_plan memory g;
               keep = (keep_imported_data \<and> count \<le> 1)
           in map_option (\<lambda>(wrapper, g). (wrapper, freeQueries g))
                (for_each (import_iteration keep only_import subtract count readable) [0..<count] (empty_database, g)))"

definition generateReplyGeneric :: "nat \<Rightarrow> bool \<Rightarrow> bool \<Rightarrow> nfl_generator \<Rightarrow> (imported_database \<times> nfl_generator) option" where
  "generateReplyGeneric = generateReplyGeneric_with None"

definition generateReplyGeneric_request ::
    "nat \<Rightarrow> bool \<Rightarrow> bool \<Rightarrow> u8 list list \<Rightarrow> nfl_generator \<Rightarrow> (imported_database \<times> nfl_generator) option" where
  "generateReplyGeneric_request memory keep_imported_data only_import request g =
     Option.bind (charToLWECipher request g)
       (\<lambda>subtract. generateReplyGeneric_with (Some subtract) memory keep_imported_data only_import g)"

text \<open>The reply from a database that was kept.\<close>

definition load_database :: "imported_database \<Rightarrow> nfl_generator \<Rightarrow> nfl_generator" where
  "load_database db g =
     (let g = g \<lparr> input_data := imported_database_ptr db, currentMaxNbPolys := polysPerElement db \<rparr>
      in g \<lparr> repliesAmount := computeReplySizeInChunks (beforeImportElementBytesize db) g \<rparr>)"

definition generateReplyGenericFromData :: "imported_database \<Rightarrow> nfl_generator \<Rightarrow> nfl_generator option" where
  "generateReplyGenericFromData db g = map_option freeQueries (generateReply (load_database db g))"

text \<open>\<open>NFLLWE::mulrdm\<close>, applied to each ciphertext that is subtracted, does nothing.\<close>

definition mulrdm :: "lwe_cipher \<Rightarrow> lwe_cipher" where
  "mulrdm rop = rop"

definition generateReplyGenericFromData_request :: "imported_database \<Rightarrow> u8 list list \<Rightarrow> nfl_generator \<Rightarrow> nfl_generator option" where
  "generateReplyGenericFromData_request db request g =
     (case charToLWECipher request g of
        None \<Rightarrow> None
      | Some subtract \<Rightarrow>
          if length subtract < polysPerElement db then None
          else map_option freeQueries
                 (generateReply_subtract (map mulrdm (take (polysPerElement db) subtract) @ drop (polysPerElement db) subtract)
                   (load_database db g)))"

text \<open>The same reply is generated once for each part of 1.28 GB, then the data is freed.\<close>

definition external_iterations :: "imported_database \<Rightarrow> nat" where
  "external_iterations db =
     ceil_div (beforeImportElementBytesize db) (min (1280000000 div nbElements db) (beforeImportElementBytesize db))"

definition generateReplyExternal :: "imported_database \<Rightarrow> nfl_generator \<Rightarrow> nfl_generator option" where
  "generateReplyExternal db g =
     (if nbElements db = 0 \<or> 1280000000 < nbElements db \<or> beforeImportElementBytesize db = 0 then None
      else map_option (\<lambda>g. freeQueries (freeInputData g))
             (for_each (\<lambda>_ g. generateReply (load_database db g)) [0..<external_iterations db] g))"

text \<open>A query of encryptions of 0, and the simulation that uses it; \<open>importFakeData\<close> is empty.\<close>

definition pushFakeQuery :: "(nat \<Rightarrow> nat \<Rightarrow> u64 list \<times> u64 list) \<Rightarrow> nfl_generator \<Rightarrow> nfl_generator option" where
  "pushFakeQuery rnd g =
     for_each (\<lambda>dm. for_each (\<lambda>j g.
         pushQuery_at (cipher_bytes (encrypt_uint (rg_crypto g) (fst (rnd dm j)) (snd (rnd dm j)) 0)) dm j g)
       [0..<pir_n (rg_params g) ! dm]) [0..<pir_d (rg_params g)] g"

definition importFakeData :: "nat \<Rightarrow> nfl_generator \<Rightarrow> nfl_generator" where
  "importFakeData plaintext_nbr g = g"

definition generateReplySimulation ::
    "(nat \<Rightarrow> nat \<Rightarrow> u64 list \<times> u64 list) \<Rightarrow> pir_parameters \<Rightarrow> nat \<Rightarrow> nfl_generator \<Rightarrow> nfl_generator option" where
  "generateReplySimulation rnd P plaintext_nbr g =
     Option.bind (pushFakeQuery rnd (setPirParams P g)) (\<lambda>g.
       let g = importFakeData plaintext_nbr g;
           g = g \<lparr> repliesAmount := computeReplySizeInChunks (plaintext_nbr * getCiphertextBitsize (rg_crypto g) div kBitsPerByte) g,
                   repliesIndex := 0 \<rparr>
       in map_option (\<lambda>g. freeResult (freeInputData (freeQueries g))) (generateReply g))"


text \<open>The destructor.\<close>

definition PIRReplyGeneratorNFL_delete :: "nfl_generator \<Rightarrow> nfl_generator" where
  "PIRReplyGeneratorNFL_delete g = freeResult (freeQueriesBuffer (freeQueries g))"

end
