(* ===== verification/QueryGen.thy ===== *)
theory QueryGen
  imports PIRTypes
begin

text \<open>
  The query generator of the client: \<open>pir/queryGen/PIRQueryGenerator_internal.cpp\<close> and its public
  face in \<open>pir/libpir.cpp\<close> (\<open>PIRQueryGenerator\<close>). The queries of all dimensions go through one
  blocking queue; the thread that consumes it is not part of the model, so a call that would block
  is \<open>None\<close>.
\<close>

section \<open>State\<close>

record 'r query_generator =
  qg_params :: pir_parameters
  qg_crypto :: "'r crypto"
  queryBuffer :: "u8 list shared_queue"
  chosenElement :: nat
  nbQueries :: nat

definition query_generator_new :: "pir_parameters \<Rightarrow> 'r crypto \<Rightarrow> nat \<Rightarrow> 'r query_generator" where
  "query_generator_new P C max_size =
     \<lparr> qg_params = P, qg_crypto = C, queryBuffer = shared_queue_new max_size, chosenElement = 0, nbQueries = 0 \<rparr>"

definition setChosenElement :: "nat \<Rightarrow> 'r query_generator \<Rightarrow> 'r query_generator" where
  "setChosenElement x g = g \<lparr> chosenElement := x \<rparr>"

definition qg_setPIRParameters :: "pir_parameters \<Rightarrow> 'r query_generator \<Rightarrow> 'r query_generator" where
  "qg_setPIRParameters P g = g \<lparr> qg_params := P \<rparr>"

section \<open>Operations\<close>

text \<open>A dimension of size 0 makes the division trap.\<close>

definition computeCoordinates :: "pir_parameters \<Rightarrow> nat \<Rightarrow> nat list option" where
  "computeCoordinates P x =
     map_option snd (for_each (\<lambda>i (x, coord).
         if pir_n P ! i = 0 then None else Some (x div pir_n P ! i, coord[i := x mod pir_n P ! i]))
       [0..<pir_d P] (x, replicate (pir_d P) 0))"

text \<open>\<open>rnd j i\<close> are the random words of query element \<open>i\<close> of dimension \<open>j\<close>.\<close>

definition generateQuery :: "(nat \<Rightarrow> nat \<Rightarrow> 'r) \<Rightarrow> 'r query_generator \<Rightarrow> 'r query_generator option" where
  "generateQuery rnd g =
     (case computeCoordinates (qg_params g) (chosenElement g) of
        None \<Rightarrow> None
      | Some coord \<Rightarrow>
          for_each (\<lambda>j. for_each (\<lambda>i g.
              map_option (\<lambda>q. g \<lparr> queryBuffer := q \<rparr>)
                (sq_push (crypto_encrypt (qg_crypto g) (rnd j i) (if i = coord ! j then 1 else 0) (j + 1))
                  (queryBuffer g)))
            [0..<pir_n (qg_params g) ! j]) [0..<pir_d (qg_params g)] g)"

partial_function (option) clean_queue :: "'a shared_queue \<Rightarrow> 'a shared_queue option" where
  [code]: "clean_queue q =
     (if sq_empty q then Some q else case sq_pop_front q of None \<Rightarrow> None | Some (_, q) \<Rightarrow> clean_queue q)"

definition cleanQueryBuffer :: "'r query_generator \<Rightarrow> 'r query_generator option" where
  "cleanQueryBuffer g = map_option (\<lambda>q. g \<lparr> queryBuffer := q \<rparr>) (clean_queue (queryBuffer g))"

text \<open>The library face: \<open>generateQuery(chosenElement)\<close> and \<open>popQuery\<close>.\<close>

definition lib_generateQuery :: "(nat \<Rightarrow> nat \<Rightarrow> 'r) \<Rightarrow> nat \<Rightarrow> 'r query_generator \<Rightarrow> 'r query_generator option" where
  "lib_generateQuery rnd x g =
     (let n = fold (\<lambda>i n. n + pir_n (qg_params g) ! i) [0..<pir_d (qg_params g)] 0
      in generateQuery rnd (setChosenElement x (g \<lparr> nbQueries := n \<rparr>)))"

definition popQuery :: "'r query_generator \<Rightarrow> (u8 list option \<times> 'r query_generator) option" where
  "popQuery g =
     (if nbQueries g \<noteq> 0
      then map_option (\<lambda>(x, q). (Some x, g \<lparr> queryBuffer := q, nbQueries := nbQueries g - 1 \<rparr>))
             (sq_pop_front (queryBuffer g))
      else Some (None, g))"

definition getQueryElementBytesize :: "'r query_generator \<Rightarrow> nat" where
  "getQueryElementBytesize g = crypto_ciph_bits (qg_crypto g) 1 div 8"

section \<open>Coordinates\<close>

definition coordinates :: "nat list \<Rightarrow> nat \<Rightarrow> nat list" where
  "coordinates ns x = map (\<lambda>j. x div prod_list (take j ns) mod ns ! j) [0..<length ns]"

lemma prod_list_take_Suc: "j < length ns \<Longrightarrow> prod_list (take (Suc j) ns) = prod_list (take j ns) * ns ! j"
  by (simp add: take_Suc_conv_app_nth)

text \<open>The sizes of the dimensions in use.\<close>

definition dims :: "pir_parameters \<Rightarrow> nat list" where
  "dims P = take (pir_d P) (pir_n P)"

lemma dims_nth [simp]: "j < pir_d P \<Longrightarrow> dims P ! j = pir_n P ! j"
  by (simp add: dims_def)

lemma length_dims [simp]: "pir_d P \<le> length (pir_n P) \<Longrightarrow> length (dims P) = pir_d P"
  by (simp add: dims_def)

lemma dims_all [simp]: "pir_d P = length (pir_n P) \<Longrightarrow> dims P = pir_n P"
  by (simp add: dims_def)

lemma computeCoordinates_eq:
  assumes "pir_d P \<le> length (pir_n P)" "\<forall>n \<in> set (dims P). 0 < n"
  shows "computeCoordinates P x = Some (coordinates (dims P) x)"
proof -
  let ?ns = "dims P" and ?d = "pir_d P"
  let ?f = "\<lambda>i (x, coord). if pir_n P ! i = 0 then None else Some (x div pir_n P ! i, coord[i := x mod pir_n P ! i])"
  let ?I = "\<lambda>i (y, coord). y = x div prod_list (take i ?ns) \<and> length coord = ?d \<and>
    (\<forall>j < i. coord ! j = x div prod_list (take j ?ns) mod ?ns ! j)"
  note len = length_dims [OF assms(1)]
  have "\<exists>s'. for_each ?f [0..<?d] (x, replicate ?d 0) = Some s' \<and> ?I ?d s'"
  proof (rule for_each_upt [where I = ?I])
    show "?I 0 (x, replicate ?d 0)" by simp
    fix i and s :: "nat \<times> nat list"
    assume i: "i < ?d" and I: "?I i s"
    have "?ns ! i \<in> set ?ns" using i len by (intro nth_mem) simp
    then have "0 < pir_n P ! i" using assms(2) i by simp
    moreover have "x div prod_list (take i ?ns) div pir_n P ! i = x div prod_list (take (Suc i) ?ns)"
      using i len prod_list_take_Suc [of i ?ns] by (simp add: div_mult2_eq)
    ultimately show "\<exists>s'. ?f i s = Some s' \<and> ?I (Suc i) s'"
      using I i by (cases s) (auto simp: nth_list_update less_Suc_eq)
  qed
  then obtain y coord where c: "for_each ?f [0..<?d] (x, replicate ?d 0) = Some (y, coord)" "length coord = ?d"
    "\<forall>j < ?d. coord ! j = x div prod_list (take j ?ns) mod ?ns ! j" by auto
  then have "coord = coordinates ?ns x"
    using len by (intro nth_equalityI) (simp_all add: coordinates_def)
  then show ?thesis using c(1) by (simp add: computeCoordinates_def)
qed

lemma coordinates_Cons: "coordinates (n # ns) x = x mod n # coordinates ns (x div n)"
proof -
  have "[0..<length (n # ns)] = 0 # map Suc [0..<length ns]"
    by (simp add: map_Suc_upt upt_conv_Cons del: upt_Suc)
  then show ?thesis
    by (simp add: coordinates_def div_mult2_eq comp_def del: upt_Suc)
qed

lemma mixed_index_coordinates: "\<forall>n \<in> set ns. 0 < n \<Longrightarrow> mixed_index ns (coordinates ns x) = x mod prod_list ns"
proof (induction ns arbitrary: x)
  case Nil
  then show ?case by (simp add: coordinates_def)
next
  case (Cons n ns)
  then show ?case by (simp add: coordinates_Cons mod_mult2_eq)
qed

lemma length_coordinates [simp]: "length (coordinates ns x) = length ns"
  by (simp add: coordinates_def)

lemma coordinates_less: "\<forall>n \<in> set ns. 0 < n \<Longrightarrow> j < length ns \<Longrightarrow> coordinates ns x ! j < ns ! j"
  by (simp add: coordinates_def)

section \<open>The stream of queries\<close>

text \<open>What goes through the queue, in order.\<close>

definition query_dimension :: "'r crypto \<Rightarrow> (nat \<Rightarrow> 'r) \<Rightarrow> nat \<Rightarrow> nat \<Rightarrow> nat \<Rightarrow> u8 list list" where
  "query_dimension C rnd n c j = map (\<lambda>i. crypto_encrypt C (rnd i) (if i = c then 1 else 0) (j + 1)) [0..<n]"

definition query_stream :: "'r crypto \<Rightarrow> (nat \<Rightarrow> nat \<Rightarrow> 'r) \<Rightarrow> nat list \<Rightarrow> nat list \<Rightarrow> u8 list list" where
  "query_stream C rnd ns cs = concat (map (\<lambda>j. query_dimension C (rnd j) (ns ! j) (cs ! j) j) [0..<length ns])"

lemma length_query_dimension [simp]: "length (query_dimension C rnd n c j) = n"
  by (simp add: query_dimension_def)

lemma nth_image_take: "j \<le> length ns \<Longrightarrow> map (\<lambda>i. ns ! i) [0..<j] = take j ns"
  by (simp add: list_eq_iff_nth_eq)

lemma length_query_stream: "length (query_stream C rnd ns cs) = sum_list ns"
proof -
  have "map (\<lambda>j. ns ! j) [0..<length ns] = ns" by (simp add: map_nth)
  then show ?thesis by (simp add: query_stream_def length_concat comp_def)
qed

lemma for_each_push:
  assumes "sq_ok (queryBuffer g)" "length (queue_data (queryBuffer g)) + length xs \<le> sq_capacity (queryBuffer g)"
    and "\<And>i g'. qg_crypto g' = qg_crypto g \<Longrightarrow> i < length xs \<Longrightarrow>
      f i g' = map_option (\<lambda>q. g' \<lparr> queryBuffer := q \<rparr>) (sq_push (xs ! i) (queryBuffer g'))"
  shows "\<exists>q. for_each f [0..<length xs] g = Some (g \<lparr> queryBuffer := q \<rparr>) \<and> sq_ok q \<and>
    queue_data q = queue_data (queryBuffer g) @ xs \<and> sq_capacity q = sq_capacity (queryBuffer g)"
proof -
  let ?I = "\<lambda>i g'. \<exists>q. g' = g \<lparr> queryBuffer := q \<rparr> \<and> sq_ok q \<and>
    queue_data q = queue_data (queryBuffer g) @ take i xs \<and> sq_capacity q = sq_capacity (queryBuffer g)"
  have "\<exists>s'. for_each f [0..<length xs] g = Some s' \<and> ?I (length xs) s'"
  proof (rule for_each_upt [where I = ?I])
    show "?I 0 g" using assms(1) by (intro exI [of _ "queryBuffer g"]) simp
    fix i g' assume i: "i < length xs" and "?I i g'"
    then obtain q where q: "g' = g \<lparr> queryBuffer := q \<rparr>" "sq_ok q"
      "queue_data q = queue_data (queryBuffer g) @ take i xs" "sq_capacity q = sq_capacity (queryBuffer g)" by blast
    have "length (queue_data q) < sq_capacity q" using q(3,4) assms(2) i by simp
    from sq.put_room [OF q(2) this, of "xs ! i"] obtain q' where
      "sq_push (xs ! i) q = Some q'" "sq_ok q'" "queue_data q' = queue_data q @ [xs ! i]"
      "sq_capacity q' = sq_capacity q" by blast
    then show "\<exists>s'. f i g' = Some s' \<and> ?I (Suc i) s'"
      using assms(3) [of g' i] i q by (simp add: take_Suc_conv_app_nth) blast
  qed
  then show ?thesis by auto
qed

lemma generateQuery_spec:
  fixes g :: "'r query_generator"
  defines "P \<equiv> qg_params g" and "C \<equiv> qg_crypto g"
  assumes d: "pir_d P \<le> length (pir_n P)" and n: "\<forall>n \<in> set (dims P). 0 < n"
    and q0: "sq_ok (queryBuffer g)" "length (queue_data (queryBuffer g)) + sum_list (dims P) \<le> sq_capacity (queryBuffer g)"
  shows "\<exists>q. generateQuery rnd g = Some (g \<lparr> queryBuffer := q \<rparr>) \<and> sq_ok q \<and>
    queue_data q = queue_data (queryBuffer g) @ query_stream C rnd (dims P) (coordinates (dims P) (chosenElement g)) \<and>
    sq_capacity q = sq_capacity (queryBuffer g)"
proof -
  let ?ns = "dims P" and ?cs = "coordinates (dims P) (chosenElement g)"
  let ?one = "\<lambda>j. query_dimension C (rnd j) (?ns ! j) (?cs ! j) j"
  let ?pre = "\<lambda>j. concat (map ?one [0..<j])"
  let ?body = "\<lambda>j. for_each (\<lambda>i g. map_option (\<lambda>q. g \<lparr> queryBuffer := q \<rparr>)
      (sq_push (crypto_encrypt (qg_crypto g) (rnd j i) (if i = ?cs ! j then 1 else 0) (j + 1)) (queryBuffer g))) [0..<pir_n P ! j]"
  note len = length_dims [OF d]
  let ?I = "\<lambda>j g'. \<exists>q. g' = g \<lparr> queryBuffer := q \<rparr> \<and> sq_ok q \<and>
    queue_data q = queue_data (queryBuffer g) @ ?pre j \<and> sq_capacity q = sq_capacity (queryBuffer g)"
  have pre_len: "length (?pre j) + ?ns ! j \<le> sum_list ?ns" if "j < length ?ns" for j
  proof -
    have "length (?pre j) + ?ns ! j = sum_list (take (Suc j) ?ns)"
      using that by (simp add: length_concat comp_def take_Suc_conv_app_nth) (simp add: nth_image_take)
    also have "\<dots> \<le> sum_list ?ns"
      by (metis append_take_drop_id le_add1 sum_list_append)
    finally show ?thesis .
  qed
  have "\<exists>s'. for_each ?body [0..<length ?ns] g = Some s' \<and> ?I (length ?ns) s'"
  proof (rule for_each_upt [where I = ?I])
    show "?I 0 g" using q0(1) by (intro exI [of _ "queryBuffer g"]) simp
    fix j g' assume j: "j < length ?ns" and "?I j g'"
    then obtain q where q: "g' = g \<lparr> queryBuffer := q \<rparr>" "sq_ok q"
      "queue_data q = queue_data (queryBuffer g) @ ?pre j" "sq_capacity q = sq_capacity (queryBuffer g)" by blast
    have "length (queue_data (queryBuffer g')) + length (?one j) \<le> sq_capacity (queryBuffer g')"
      using q pre_len [OF j] q0(2) by simp
    from for_each_push [OF _ this, of "\<lambda>i g. map_option (\<lambda>q. g \<lparr> queryBuffer := q \<rparr>)
      (sq_push (crypto_encrypt (qg_crypto g) (rnd j i) (if i = ?cs ! j then 1 else 0) (j + 1)) (queryBuffer g))"]
    obtain q' where "?body j g' = Some (g' \<lparr> queryBuffer := q' \<rparr>)" "sq_ok q'"
      "queue_data q' = queue_data (queryBuffer g') @ ?one j" "sq_capacity q' = sq_capacity (queryBuffer g')"
      using q C_def j len by (auto simp: query_dimension_def)
    then show "\<exists>s'. ?body j g' = Some s' \<and> ?I (Suc j) s'"
      using q by (intro exI [of _ "g' \<lparr> queryBuffer := q' \<rparr>"]) auto
  qed
  then show ?thesis
    using computeCoordinates_eq [OF d n] len
    by (auto simp: generateQuery_def P_def query_stream_def)
qed


section \<open>Properties\<close>

definition pop_query :: "'r query_generator \<Rightarrow> (u8 list \<times> 'r query_generator) option" where
  "pop_query g = (case popQuery g of Some (Some x, g') \<Rightarrow> Some (x, g') | _ \<Rightarrow> None)"

lemma take_all_pop_query:
  "sq_ok (queryBuffer g) \<Longrightarrow> queue_data (queryBuffer g) = xs \<Longrightarrow> nbQueries g = length xs \<Longrightarrow>
   \<exists>g'. take_all pop_query (length xs) g = Some (xs, g') \<and> nbQueries g' = 0 \<and> queue_data (queryBuffer g') = []"
proof (induction xs arbitrary: g)
  case (Cons x xs)
  then obtain q where q: "sq_pop_front (queryBuffer g) = Some (x, q)" "sq_ok q" "queue_data q = xs"
    using sq.get_some [of "queryBuffer g" x xs] by blast
  then have "pop_query g = Some (x, g \<lparr> queryBuffer := q, nbQueries := nbQueries g - 1 \<rparr>)"
    using Cons.prems(3) by (simp add: pop_query_def popQuery_def)
  moreover obtain g' where "take_all pop_query (length xs) (g \<lparr> queryBuffer := q, nbQueries := nbQueries g - 1 \<rparr>) = Some (xs, g')"
    "nbQueries g' = 0" "queue_data (queryBuffer g') = []"
    using Cons.IH [of "g \<lparr> queryBuffer := q, nbQueries := nbQueries g - 1 \<rparr>"] q Cons.prems(3) by auto
  ultimately show ?case by auto
qed auto

lemma lib_generateQuery_spec:
  fixes rnd :: "nat \<Rightarrow> nat \<Rightarrow> 'r" and x :: nat and g :: "'r query_generator"
  assumes P: "pir_d (qg_params g) = length (pir_n (qg_params g))" "\<forall>n \<in> set (pir_n (qg_params g)). 0 < n"
    and q: "sq_ok (queryBuffer g)" "queue_data (queryBuffer g) = []" "sum_list (pir_n (qg_params g)) \<le> sq_capacity (queryBuffer g)"
  defines "S \<equiv> query_stream (qg_crypto g) rnd (pir_n (qg_params g)) (coordinates (pir_n (qg_params g)) x)"
  shows "\<exists>g'. lib_generateQuery rnd x g = Some g' \<and> sq_ok (queryBuffer g') \<and> queue_data (queryBuffer g') = S \<and>
    nbQueries g' = length S \<and> qg_params g' = qg_params g \<and> qg_crypto g' = qg_crypto g"
proof -
  let ?ns = "pir_n (qg_params g)"
  have "fold (\<lambda>i n. n + ?ns ! i) [0..<k] 0 = sum_list (take k ?ns)" if "k \<le> length ?ns" for k
    using that by (induction k) (simp_all add: take_Suc_conv_app_nth)
  from this [of "length ?ns"] have n: "fold (\<lambda>i n. n + ?ns ! i) [0..<length ?ns] 0 = sum_list ?ns" by simp
  show ?thesis
    using generateQuery_spec [of "setChosenElement x (g \<lparr> nbQueries := sum_list ?ns \<rparr>)" rnd] P q
    by (auto simp: lib_generateQuery_def setChosenElement_def S_def length_query_stream n)
qed

text \<open>
  C25: The client's query: \<open>generateQuery(x)\<close> computes the coordinates of element \<open>x\<close> (their mixed
  radix number is \<open>x\<close> again), and \<open>popQuery\<close> then hands out one ciphertext per element of every
  dimension, in order, encrypting 1 at the coordinate and 0 elsewhere, and finally says that the
  queue is over.
\<close>
theorem query_generation:
  assumes "pir_d (qg_params g) = length (pir_n (qg_params g))" "\<forall>n \<in> set (pir_n (qg_params g)). 0 < n"
    and "sq_ok (queryBuffer g)" "queue_data (queryBuffer g) = []" "sum_list (pir_n (qg_params g)) \<le> sq_capacity (queryBuffer g)"
    and "x < prod_list (pir_n (qg_params g))"
  shows "\<exists>cs g' g''. computeCoordinates (qg_params g) x = Some cs \<and> mixed_index (pir_n (qg_params g)) cs = x \<and>
    lib_generateQuery rnd x g = Some g' \<and>
    take_all pop_query (sum_list (pir_n (qg_params g))) g' =
      Some (query_stream (qg_crypto g) rnd (pir_n (qg_params g)) cs, g'') \<and>
    popQuery g'' = Some (None, g'')"
proof -
  let ?ns = "pir_n (qg_params g)"
  let ?S = "query_stream (qg_crypto g) rnd ?ns (coordinates ?ns x)"
  obtain g' where g': "lib_generateQuery rnd x g = Some g'" "sq_ok (queryBuffer g')" "queue_data (queryBuffer g') = ?S"
    "nbQueries g' = length ?S"
    using lib_generateQuery_spec [OF assms(1-5), of rnd x] by blast
  obtain g'' where "take_all pop_query (length ?S) g' = Some (?S, g'')" "nbQueries g'' = 0"
    using take_all_pop_query [OF g'(2,3,4)] by blast
  then show ?thesis
    using g'(1) computeCoordinates_eq [of "qg_params g" x] assms(1) mixed_index_coordinates [OF assms(2), of x] assms(2,6)
    by (auto simp: length_query_stream popQuery_def)
qed

text \<open>A cryptosystem that does nothing, for the examples of the protocol layer.\<close>

definition plain_crypto :: "nat crypto" where
  "plain_crypto = \<lparr> crypto_encrypt = (\<lambda>r ui d. [of_nat ui]), crypto_decrypt = (\<lambda>c l n m. Some c),
     crypto_absorption = (\<lambda>l. 8), crypto_ciph_bits = (\<lambda>l. 8) \<rparr>"

definition example_params :: pir_parameters where
  "example_params = \<lparr> pir_alpha = 1, pir_d = 2, pir_n = [3, 2], crypto_params = [] \<rparr>"

theorem query_generation_witness:
  "\<exists>cs g' g''. computeCoordinates example_params 4 = Some cs \<and> mixed_index [3, 2] cs = 4 \<and>
    lib_generateQuery (\<lambda>_ _. 0) 4 (query_generator_new example_params plain_crypto 5) = Some g' \<and>
    take_all pop_query 5 g' = Some (query_stream plain_crypto (\<lambda>_ _. 0) [3, 2] cs, g'') \<and>
    popQuery g'' = Some (None, g'')"
  using query_generation [of "query_generator_new example_params plain_crypto 5" 4 "\<lambda>_ _. 0"]
  by (simp add: query_generator_new_def example_params_def)

text \<open>
  \<open>cleanQueryBuffer\<close> always ends and leaves the buffer empty, whatever it holds.
\<close>
theorem cleanQueryBuffer_ends:
  assumes "sq_ok (queryBuffer g)"
  shows "\<exists>q. cleanQueryBuffer g = Some (g \<lparr> queryBuffer := q \<rparr>) \<and> queue_data q = [] \<and>
    sq_capacity q = sq_capacity (queryBuffer g)"
proof -
  have "\<exists>q'. clean_queue q = Some q' \<and> queue_data q' = [] \<and> sq_capacity q' = sq_capacity q"
    if "sq_ok q" "queue_data q = xs" for q :: "u8 list shared_queue" and xs
    using that
  proof (induction xs arbitrary: q)
    case Nil
    then show ?case by (subst clean_queue.simps) (simp add: sq_empty_def)
  next
    case (Cons x xs)
    then obtain q' where "sq_pop_front q = Some (x, q')" "sq_ok q'" "queue_data q' = xs" "sq_capacity q' = sq_capacity q"
      using sq.get_some [of q x xs] by blast
    moreover from this have "\<exists>q''. clean_queue q' = Some q'' \<and> queue_data q'' = [] \<and> sq_capacity q'' = sq_capacity q'"
      by (intro Cons.IH)
    ultimately show ?case using Cons.prems by (subst clean_queue.simps) (simp add: sq_empty_def)
  qed
  from this [OF assms refl] show ?thesis by (auto simp: cleanQueryBuffer_def)
qed

lemma cleanQueryBuffer_ends_witness:
  "\<exists>g q. lib_generateQuery (\<lambda>_ _. 0) 4 (query_generator_new example_params plain_crypto 5) = Some g \<and>
     cleanQueryBuffer g = Some (g \<lparr> queryBuffer := q \<rparr>) \<and> queue_data q = []"
proof -
  let ?g = "query_generator_new example_params plain_crypto 5"
  have "sq_ok (queryBuffer ?g) \<and> sum_list [3, 2] \<le> sq_capacity (queryBuffer ?g)"
    by (simp add: query_generator_new_def)
  then obtain g where "lib_generateQuery (\<lambda>_ _. 0) 4 ?g = Some g" "sq_ok (queryBuffer g)"
    using lib_generateQuery_spec [of ?g "\<lambda>_ _. 0" 4] by (auto simp: query_generator_new_def example_params_def)
  then show ?thesis using cleanQueryBuffer_ends [of g] by auto
qed

end
