(* ===== verification/ReplyGenCorrect.thy ===== *)
theory ReplyGenCorrect
  imports ReplyGenNFL QueryGen
begin

text \<open>
  Correctness of the reply generator on \<open>NFLLWE\<close> with one modulus: one level of \<open>generateReply\<close>
  keeps the contract \<open>private_retrieval\<close>, the replies of one level are read back unchanged by the
  next, and the loop over the dimensions is the recursion of \<open>PIRRecursion\<close>.
\<close>

section \<open>Ciphertexts and bytes\<close>

lemma length_word_bytes [simp]: "length (word_bytes v) = 8"
  by (simp add: word_bytes_def)

lemma length_concat_word_bytes [simp]: "length (concat (map word_bytes xs)) = 8 * length xs"
  by (induction xs) simp_all

lemma length_cipher_bytes: "length (cipher_bytes c) = 8 * (length (cipher_a c) + length (cipher_b c))"
  by (simp add: cipher_bytes_def)

lemma nth_concat_word_bytes:
  "i < length xs \<Longrightarrow> d < 8 \<Longrightarrow> concat (map word_bytes xs) ! (8 * i + d) = ucast (drop_bit (8 * d) (xs ! i))"
proof (induction xs arbitrary: i)
  case (Cons x xs)
  show ?case
  proof (cases i)
    case 0
    then show ?thesis using Cons.prems(2) by (simp add: nth_append word_bytes_def)
  next
    case (Suc j)
    then show ?thesis using Cons by (simp add: nth_append)
  qed
qed simp

lemma read64_word_bytes:
  assumes "i < length xs"
  shows "read64 (concat (map word_bytes xs)) (8 * i) = xs ! i"
proof (rule bit_word_eqI)
  fix n assume "n < LENGTH(64)"
  then have n: "n < 64" "n div 8 < 8" by simp_all
  have "bit (ucast (drop_bit (8 * (n div 8)) (xs ! i)) :: u8) (n mod 8) \<longleftrightarrow> bit (xs ! i) (8 * (n div 8) + n mod 8)"
    by (simp add: bit_ucast_iff bit_drop_bit_eq)
  then show "bit (read64 (concat (map word_bytes xs)) (8 * i)) n \<longleftrightarrow> bit (xs ! i) n"
    using n assms by (simp add: read64_bit nth_concat_word_bytes)
qed

text \<open>A ciphertext written to memory is read back.\<close>

lemma chartocipher_bytes:
  assumes "length (cipher_a c) = lwe_nbModuli L * lwe_polyDegree L" "length (cipher_b c) = lwe_nbModuli L * lwe_polyDegree L"
  shows "chartocipher L (cipher_bytes c) = Some c"
proof -
  let ?n = "lwe_nbModuli L * lwe_polyDegree L"
  have r: "read64 (cipher_bytes c) (8 * i) = (cipher_a c @ cipher_b c) ! i" if "i < 2 * ?n" for i
    unfolding cipher_bytes_def using that assms by (intro read64_word_bytes) simp
  have "map (\<lambda>i. read64 (cipher_bytes c) (8 * i)) [0..<?n] = cipher_a c"
    by (rule nth_equalityI) (simp_all add: r assms)
  moreover have "map (\<lambda>i. read64 (cipher_bytes c) (8 * (?n + i))) [0..<?n] = cipher_b c"
    using r [of "?n + _"] by (intro nth_equalityI) (simp_all add: assms nth_append)
  ultimately show ?thesis
    by (simp add: chartocipher_def Let_def length_cipher_bytes assms)
qed

section \<open>The packs of 200 queries\<close>

lemma packs: "concat (map (\<lambda>p. [200 * p..<min n (200 * p + 200)]) [0..<m]) = [0..<min n (200 * m)]"
proof (induction m)
  case (Suc m)
  have "[0..<min n (200 * m)] @ [200 * m..<min n (200 * m + 200)] = [0..<min n (200 * m + 200)]"
  proof (cases "200 * m \<le> n")
    case True
    then have "min n (200 * m) = 200 * m" "200 * m \<le> min n (200 * m + 200)" by simp_all
    then show ?thesis using upt_add_eq_append [of 0 "200 * m" "min n (200 * m + 200) - 200 * m"] by simp
  next
    case False
    then show ?thesis by simp
  qed
  then show ?case using Suc by (simp add: add.commute)
qed simp

lemma absorb_poly_flat:
  "absorb_poly L queries data n poly =
   fold (\<lambda>t rop. lwe_mulandadd_shoup L rop (data ! t) (fst (queries ! t)) (snd (queries ! t)) poly) [0..<n] (zero_cipher L)"
proof -
  have "n \<le> 200 * ceil_div n 200" using ceil_div_mult_ge [of 200 n] by (simp add: mult.commute)
  then have "[0..<n] = concat (map (\<lambda>p. [200 * p..<min n (200 * p + 200)]) [0..<ceil_div n 200])"
    by (simp add: packs)
  moreover have "fold f (concat (map g ps)) s = fold (\<lambda>p. fold f (g p)) ps s" for f :: "nat \<Rightarrow> lwe_cipher \<Rightarrow> lwe_cipher" and g :: "nat \<Rightarrow> nat list" and ps s
    by (induction ps arbitrary: s) simp_all
  ultimately show ?thesis by (simp add: absorb_poly_def)
qed

lemma query_quotients_eq:
  assumes "lwe_ok L k"
  shows "query_quotients L x = allocandcomputeShouppoly (nflInstance L) x"
proof (rule nth_equalityI)
  note p = lwe_okD [OF assms] and n = ntt_readyD(1) [OF lwe_okD(1) [OF assms]]
  show "length (query_quotients L x) = length (allocandcomputeShouppoly (nflInstance L) x)"
    using p n by (simp add: query_quotients_def mult.commute)
  fix j assume "j < length (query_quotients L x)"
  then show "query_quotients L x ! j = allocandcomputeShouppoly (nflInstance L) x ! j"
    using p n by (simp add: query_quotients_def nth_allocandcomputeShouppoly)
qed

text \<open>A query element with its quotients, as \<open>pushQuery\<close> stores it.\<close>

definition query_pair :: "lwe \<Rightarrow> lwe_cipher \<Rightarrow> lwe_cipher \<times> lwe_cipher" where
  "query_pair L c = (c, \<lparr> cipher_a = query_quotients L (cipher_a c), cipher_b = query_quotients L (cipher_b c) \<rparr>)"

lemma absorb_poly_accumulate:
  assumes "lwe_ok L k" "\<forall>t < n. queries ! t = query_pair L (cs ! t)"
  shows "absorb_poly L queries data n poly = accumulate_reply L data cs poly n"
proof -
  have "\<forall>t < n. fst (queries ! t) = cs ! t \<and> snd (queries ! t) = shoup_cipher L (cs ! t)"
    using assms(2) by (simp add: query_pair_def shoup_cipher_def query_quotients_eq [OF assms(1)])
  then show ?thesis
    unfolding absorb_poly_flat accumulate_reply_def by (intro fold_cong) auto
qed

section \<open>Byte strings as numbers\<close>

lemma memval_take: "memval (take m xs) = take_bit (8 * m) (memval xs)"
proof (rule bit_eqI)
  fix n
  show "bit (memval (take m xs)) n \<longleftrightarrow> bit (take_bit (8 * m) (memval xs)) n"
    by (auto simp: memval_bit bit_take_bit_iff)
qed

lemma memval_drop: "memval (drop m xs) = drop_bit (8 * m) (memval xs)"
proof (rule bit_eqI)
  fix n
  show "bit (memval (drop m xs)) n \<longleftrightarrow> bit (drop_bit (8 * m) (memval xs)) n"
    by (auto simp: memval_bit bit_drop_bit_eq add.commute)
qed

lemma stream_concat:
  assumes "\<forall>b \<in> set bufs. 8 * length b = n"
  shows "stream n bufs = memval (concat bufs)"
  using assms
proof (induction bufs)
  case (Cons b bufs)
  have n: "n = 8 * length b" using Cons.prems by simp
  have p: "(256 :: nat) ^ length b = 2 ^ n" unfolding n by (simp add: power_mult)
  have "take_bit n (memval b) = memval b"
    using memval_less [of b] by (intro take_bit_nat_eq_self) (simp add: p)
  then show ?case using Cons p by (simp add: memval_append)
qed simp

lemma concat_pieces:
  assumes "length v = m * B"
  shows "concat (map (\<lambda>P. take B (drop (P * B) v)) [0..<m]) = v"
proof -
  have "concat (map (\<lambda>P. take B (drop (P * B) v)) [0..<j]) = take (j * B) v" if "j \<le> m" for j
    using that
  proof (induction j)
    case (Suc j)
    have "take (j * B) v @ take B (drop (j * B) v) = take (Suc j * B) v"
      by (metis take_add add.commute mult_Suc)
    then show ?case using Suc by simp
  qed simp
  from this [of m] assms show ?thesis by simp
qed

section \<open>The contract of one level on \<open>NFLLWE\<close>\<close>

text \<open>
  A cryptosystem set up with one modulus, degree \<open>2^k\<close> and \<open>A\<close> bits absorbed per coefficient, such
  that a polynomial absorbs a whole number of words.
\<close>

definition lwe_setup :: "lwe \<Rightarrow> nat \<Rightarrow> nat \<Rightarrow> bool" where
  "lwe_setup L k A \<longleftrightarrow> k \<le> 13 \<and> 1 \<le> A \<and> A \<le> 57 \<and> 64 dvd 2 ^ k * A \<and>
     (\<exists>mpz_invert rnd L0. lwe_setNewParameters mpz_invert rnd (2 ^ k) 60 (int A) L0 = Inr L)"

definition block_bytes :: "nat \<Rightarrow> nat \<Rightarrow> nat" where
  "block_bytes k A = 2 ^ k * A div 8"

lemma lwe_setupD:
  assumes "lwe_setup L k A"
  shows "lwe_ok L k" "ntt_ready (nflInstance L) k" "lwe_polyDegree L = 2 ^ k" "lwe_nbModuli L = 1"
    "getAbsorptionBitsize L = 2 ^ k * A" "getCiphertextBitsize L = 128 * 2 ^ k" "1 \<le> A" "A \<le> 57" "k \<le> 13"
    "8 * block_bytes k A = 2 ^ k * A" "0 < block_bytes k A" "lwe_nbModuli L * lwe_polyDegree L = 2 ^ k"
proof -
  obtain mpz_invert rnd L0 where L: "lwe_setNewParameters mpz_invert rnd (2 ^ k) 60 (int A) L0 = Inr L"
    and k: "k \<le> 13" and A: "1 \<le> A" "A \<le> 57" "64 dvd 2 ^ k * A" using assms by (auto simp: lwe_setup_def)
  note P = lwe_parameterised [OF k _ _ L, simplified]
  show ok: "lwe_ok L k" by (rule P(1))
  show "ntt_ready (nflInstance L) k" by (rule lwe_okD(1) [OF ok])
  show n: "lwe_polyDegree L = 2 ^ k" by (rule lwe_okD(2) [OF ok])
  show nb: "lwe_nbModuli L = 1" using P(3) by simp
  show "getAbsorptionBitsize L = 2 ^ k * A" using P(5) n by (simp add: getAbsorptionBitsize_def)
  show "getCiphertextBitsize L = 128 * 2 ^ k"
    using nb n by (simp add: getCiphertextBitsize_def getModulusRepresentationBitsize_def
      getmodulusBitsize_def kModulusRepresentationBitsize_def kModulusBitsize_def ceil_div_def)
  show "1 \<le> A" "A \<le> 57" "k \<le> 13" by (rule A k)+
  have "8 dvd 2 ^ k * A" using A(3) by (rule dvd_trans [rotated]) simp
  then show b: "8 * block_bytes k A = 2 ^ k * A" by (simp add: block_bytes_def)
  have "0 < 2 ^ k * A" using A(1) by simp
  then show "0 < block_bytes k A" using b by (metis mult_0_right not_gr_zero)
  show "lwe_nbModuli L * lwe_polyDegree L = 2 ^ k" using n nb by simp
qed

text \<open>The number of polynomials of an element at each level, as \<open>fromResulttoInData\<close> computes it.\<close>

fun level_polys :: "nat \<Rightarrow> nat \<Rightarrow> nat \<Rightarrow> nat \<Rightarrow> nat" where
  "level_polys k A N 0 = N"
| "level_polys k A N (Suc i) = poly_number (128 * 2 ^ k) (level_polys k A N i) A (2 ^ k)"

definition level_bytes :: "nat \<Rightarrow> nat \<Rightarrow> nat \<Rightarrow> nat \<Rightarrow> nat" where
  "level_bytes k A N i = level_polys k A N i * block_bytes k A"

text \<open>An element of a level stands for a byte string of whole blocks.\<close>

definition element_holds :: "lwe \<Rightarrow> nat \<Rightarrow> nat \<Rightarrow> nat \<Rightarrow> lwe_in_data \<Rightarrow> u8 list \<Rightarrow> bool" where
  "element_holds L k A N d v \<longleftrightarrow> length d = N \<and> length v = N * block_bytes k A \<and>
     (\<forall>P < N. represents (nflInstance L) k (d ! P) (\<lambda>cm x. int (chunk A (memval v) (P * 2 ^ k + x))))"

definition cipher_shape :: "lwe \<Rightarrow> lwe_cipher \<Rightarrow> bool" where
  "cipher_shape L c \<longleftrightarrow> length (cipher_a c) = lwe_nbModuli L * lwe_polyDegree L \<and>
     length (cipher_b c) = lwe_nbModuli L * lwe_polyDegree L"

definition lwe_selects :: "lwe \<Rightarrow> nat \<Rightarrow> nat \<Rightarrow> nat \<Rightarrow> nat \<Rightarrow> (lwe_cipher \<times> lwe_cipher) list \<Rightarrow> bool" where
  "lwe_selects L k A n t q \<longleftrightarrow> lwe_setup L k A \<and> n \<le> 5 \<and> length q = n \<and>
     (\<exists>rb ra. \<forall>u < n. q ! u = query_pair L (encrypt_uint L (rb u) (ra u) (if u = t then 1 else 0)))"

definition lwe_proper :: "lwe \<Rightarrow> nat \<Rightarrow> nat \<Rightarrow> nat \<Rightarrow> lwe_cipher list \<Rightarrow> bool" where
  "lwe_proper L k A N r \<longleftrightarrow> lwe_setup L k A \<and> length r = N \<and>
     (\<forall>c \<in> set r. cipher_shape L c \<and> (\<exists>out. decrypt L c = Some out \<and> block_bytes k A \<le> length out))"

text \<open>The client: the first block of what each ciphertext decrypts to, and the ciphertexts in it.\<close>

definition read_reply :: "lwe \<Rightarrow> nat \<Rightarrow> nat \<Rightarrow> lwe_cipher list \<Rightarrow> u8 list" where
  "read_reply L k A r = concat (map (\<lambda>c. take (block_bytes k A) (the (decrypt L c))) r)"

definition parse_reply :: "lwe \<Rightarrow> nat \<Rightarrow> nat \<Rightarrow> u8 list \<Rightarrow> lwe_cipher list" where
  "parse_reply L k N v = map (\<lambda>j. the (chartocipher L (drop (j * (16 * 2 ^ k)) v))) [0..<N]"

definition reply_bytes :: "nat \<Rightarrow> lwe_cipher list \<Rightarrow> u8 list" where
  "reply_bytes len r = concat (map cipher_bytes r) @ replicate (len - length (concat (map cipher_bytes r))) 0"

lemma cipher_shape_mulandadd:
  "cipher_shape L c \<Longrightarrow> cipher_shape L (lwe_mulandadd_shoup L c d q q' P)"
  by (simp add: cipher_shape_def lwe_mulandadd_shoup_def Let_def)

lemma cipher_shape_accumulate: "cipher_shape L (accumulate_reply L db qs P n)"
proof (induction n)
  case 0
  then show ?case by (simp add: accumulate_reply_def cipher_shape_def zero_cipher_def)
next
  case (Suc n)
  then show ?case by (simp add: accumulate_reply_def cipher_shape_mulandadd)
qed

lemma block_of_memval:
  assumes "length v = N * B" "P < N" "length out = B + 8"
    and "memval out = take_bit (8 * B) (drop_bit (P * (8 * B)) (memval v))"
  shows "take B out = take B (drop (P * B) v)"
proof (rule memval_inj)
  have "P * B + B \<le> N * B" using assms(2) by (metis add.commute mult_Suc Suc_leI mult_le_mono1)
  then show "length (take B out) = length (take B (drop (P * B) v))" using assms(1,3) by simp
  show "memval (take B out) = memval (take B (drop (P * B) v))"
    using assms(4) by (simp add: memval_take memval_drop mult.left_commute)
qed

lemma lwe_select:
  assumes sel: "lwe_selects L k A n t q" "t < n" and es: "length es = n" "\<forall>u < n. element_holds L k A N (es ! u) (vs u)"
  shows "lwe_proper L k A N (reply_element L None i q es n N)"
    "read_reply L k A (reply_element L None i q es n N) = vs t"
proof -
  obtain rb ra where q: "n \<le> 5" "length q = n" and u: "lwe_setup L k A"
    "\<forall>u < n. q ! u = query_pair L (encrypt_uint L (rb u) (ra u) (if u = t then 1 else 0))"
    using sel(1) by (auto simp: lwe_selects_def)
  note D = lwe_setupD [OF u(1)]
  let ?cs = "map fst q" and ?B = "block_bytes k A"
  have cs: "?cs ! u = encrypt_uint L (rb u) (ra u) (if u = t then 1 else 0)" if "u < n" for u
    using u(2) q(2) that by (simp add: query_pair_def)
  have qp: "\<forall>u < n. q ! u = query_pair L (?cs ! u)" using u(2) cs by simp
  have flat: "absorb_poly L q es n P = accumulate_reply L es ?cs P n" for P
    by (rule absorb_poly_accumulate [OF D(1) qp])
  then have r: "reply_element L None i q es n N = map (\<lambda>P. accumulate_reply L es ?cs P n) [0..<N]"
    by (simp add: reply_element_def)
  obtain mpz_invert rnd L0 where L: "lwe_setNewParameters mpz_invert rnd (2 ^ k) 60 (int A) L0 = Inr L"
    and dv: "64 dvd 2 ^ k * A" using u(1) by (auto simp: lwe_setup_def)
  have dec: "\<exists>out. decrypt L (accumulate_reply L es ?cs P n) = Some out \<and> ?B \<le> length out \<and>
      take ?B out = take ?B (drop (P * ?B) (vs t))" if P: "P < N" for P
  proof -
    have "\<forall>u < n. represents (nflInstance L) k (es ! u ! P) (\<lambda>cm x. int (chunk A (memval (vs u)) (P * 2 ^ k + x)))"
      using es(2) P by (simp add: element_holds_def)
    from selection_block [OF D(9,7,8) dv L q(1) sel(2) this, of ?cs rb ra] obtain out where
      out: "decrypt L (accumulate_reply L es ?cs P n) = Some out" "length out = 8 * (A * 2 ^ k div 64 + 1)"
      "memval out = take_bit (2 ^ k * A) (drop_bit (P * (2 ^ k * A)) (memval (vs t)))"
      using cs by blast
    obtain w where w: "2 ^ k * A = 64 * w" using dv by blast
    then have "length out = ?B + 8" using out(2) by (simp add: block_bytes_def mult.commute)
    then show ?thesis
      using block_of_memval [of "vs t" N ?B P out] out(3) es(2) sel(2) P D(10)
      by (simp add: out(1) element_holds_def)
  qed
  then have block: "take ?B (the (decrypt L (accumulate_reply L es ?cs P n))) = take ?B (drop (P * ?B) (vs t))" if "P < N" for P
    using that by fastforce
  show "lwe_proper L k A N (reply_element L None i q es n N)"
    unfolding r lwe_proper_def using u(1) cipher_shape_accumulate dec by fastforce
  have len: "length (vs t) = N * ?B" using es(2) sel(2) by (simp add: element_holds_def)
  have "read_reply L k A (reply_element L None i q es n N) = concat (map (\<lambda>P. take ?B (drop (P * ?B) (vs t))) [0..<N])"
    unfolding r read_reply_def map_map o_def by (intro arg_cong [where f = concat] map_cong refl) (simp add: block)
  also have "\<dots> = vs t" by (rule concat_pieces [OF len])
  finally show "read_reply L k A (reply_element L None i q es n N) = vs t" .
qed

text \<open>The replies of one level, imported again.\<close>

lemma length_cipher_bytes_shape: "cipher_shape L c \<Longrightarrow> length (cipher_bytes c) = 16 * (lwe_nbModuli L * lwe_polyDegree L)"
  by (simp add: cipher_shape_def length_cipher_bytes)

lemma level_polys_enough:
  assumes "1 \<le> A" "8 dvd 2 ^ k * A"
  shows "level_polys k A N i * (16 * 2 ^ k) \<le> level_bytes k A N (Suc i)"
proof -
  let ?n = "level_polys k A N i" and ?B = "block_bytes k A"
  have "128 * 2 ^ k * ?n \<le> ceil_div (128 * 2 ^ k * ?n) (A * 2 ^ k) * (A * 2 ^ k)"
    using assms(1) by (intro ceil_div_mult_ge) simp
  also have "A * 2 ^ k = 8 * ?B" using assms(2) by (simp add: block_bytes_def mult.commute)
  finally have "8 * (?n * (16 * 2 ^ k)) \<le> 8 * (ceil_div (128 * 2 ^ k * ?n) (8 * ?B) * ?B)" by (simp add: ac_simps)
  moreover have "level_bytes k A N (Suc i) = ceil_div (128 * 2 ^ k * ?n) (8 * ?B) * ?B"
    using assms(2) by (simp add: level_bytes_def poly_number_def block_bytes_def mult.commute)
  ultimately show ?thesis by linarith
qed

lemma memval_append_zeros: "memval (xs @ replicate n 0) = memval xs"
  by (simp add: memval_append)

lemma drop_concat_const:
  assumes "\<forall>x \<in> set xs. length x = s" "j < length xs"
  shows "\<exists>rest. drop (j * s) (concat xs @ ys) = xs ! j @ rest"
  using assms
proof (induction xs arbitrary: j)
  case (Cons x xs)
  show ?case
  proof (cases j)
    case (Suc i)
    have "drop (s + i * s) (x @ concat xs @ ys) = drop (i * s) (concat xs @ ys)"
      using Cons.prems(1) by (simp add: drop_append)
    then show ?thesis using Cons Suc by simp
  qed simp
qed simp

lemma read64_append:
  "off + 8 \<le> length bs \<Longrightarrow> read64 (bs @ rest) off = read64 bs off"
  unfolding read64_def by (intro fold_cong refl ext) (simp add: nth_append)

lemma chartocipher_append:
  assumes "chartocipher L bs = Some c"
  shows "chartocipher L (bs @ rest) = Some c"
proof -
  have "16 * (lwe_nbModuli L * lwe_polyDegree L) \<le> length bs"
    using assms by (simp add: chartocipher_def Let_def split: if_splits)
  then show ?thesis using assms
    by (auto simp: chartocipher_def Let_def read64_append)
qed

lemma parse_reply_bytes:
  assumes "lwe_proper L k A N r"
  shows "parse_reply L k N (reply_bytes len r) = r"
proof (rule nth_equalityI)
  note D = lwe_setupD [of L k A]
  have N: "length r = N" and u: "lwe_setup L k A" and c: "\<forall>c \<in> set r. cipher_shape L c"
    using assms by (auto simp: lwe_proper_def)
  show "length (parse_reply L k N (reply_bytes len r)) = length r" by (simp add: parse_reply_def N)
  fix j assume "j < length (parse_reply L k N (reply_bytes len r))"
  then have j: "j < N" by (simp add: parse_reply_def)
  have "\<forall>x \<in> set (map cipher_bytes r). length x = 16 * 2 ^ k"
    using c length_cipher_bytes_shape D(12) [OF u] by fastforce
  then obtain rest where "drop (j * (16 * 2 ^ k)) (reply_bytes len r) = cipher_bytes (r ! j) @ rest"
    using drop_concat_const [of "map cipher_bytes r" "16 * 2 ^ k" j
      "replicate (len - length (concat (map cipher_bytes r))) 0"] j N unfolding reply_bytes_def by auto
  moreover have "chartocipher L (cipher_bytes (r ! j)) = Some (r ! j)"
    by (rule chartocipher_bytes) (use c j N in \<open>auto simp: cipher_shape_def\<close>)
  ultimately show "parse_reply L k N (reply_bytes len r) ! j = r ! j"
    using j by (simp add: parse_reply_def chartocipher_append)
qed

definition import_reply :: "lwe \<Rightarrow> lwe_cipher list \<Rightarrow> lwe_in_data" where
  "import_reply L r = the (lwe_deserializeDataNFL L (map cipher_bytes r) (getCiphertextBitsize L))"

lemma lwe_reimport:
  assumes "lwe_proper L k A (level_polys k A N i) r"
  shows "lwe_deserializeDataNFL L (map cipher_bytes r) (getCiphertextBitsize L) = Some (import_reply L r)"
    "element_holds L k A (level_polys k A N (Suc i)) (import_reply L r) (reply_bytes (level_bytes k A N (Suc i)) r)"
proof -
  let ?n = "level_polys k A N i" and ?bufs = "map cipher_bytes r"
  have N: "length r = ?n" and u: "lwe_setup L k A" and c: "\<forall>c \<in> set r. cipher_shape L c"
    using assms by (auto simp: lwe_proper_def)
  note D = lwe_setupD [OF u]
  have len: "\<forall>b \<in> set ?bufs. 8 * length b = 128 * 2 ^ k"
    using c length_cipher_bytes_shape D(12) by fastforce
  have k: "(2 :: nat) ^ k \<le> 2 ^ 13" using D(9) by (rule power_increasing) simp
  have k1: "(1 :: nat) \<le> 2 ^ k" by simp
  have "128 * (2 :: nat) ^ k \<le> 128 * 2 ^ 13" using k by (rule mult_le_mono2)
  also have "128 * 2 ^ 13 < (2 :: nat) ^ 63" by simp
  finally have "128 * (2 :: nat) ^ k < 2 ^ 63" .
  moreover have "128 * 1 \<le> 128 * (2 :: nat) ^ k" using k1 by (rule mult_le_mono2)
  ultimately have n: "64 \<le> 128 * (2 :: nat) ^ k" "128 * (2 :: nat) ^ k < 2 ^ 63" "112 \<le> 128 * (2 :: nat) ^ k"
    by linarith+
  have "\<exists>ps. deserializeDataNFL (nflInstance L) ?bufs (128 * 2 ^ k) A = Some ps \<and>
      length ps = poly_number (128 * 2 ^ k) (length ?bufs) A (2 ^ k) \<and>
      (\<forall>P < length ps. represents (nflInstance L) k (ps ! P)
        (\<lambda>cm x. int (chunk A (stream (128 * 2 ^ k) ?bufs) (P * 2 ^ k + x))))"
    by (rule deserializeDataNFL_represents [OF D(2) _ _ n(1,2) disjI2 [OF n(3)]]) (use D(7,8) len in auto)
  then obtain ps where ps: "deserializeDataNFL (nflInstance L) ?bufs (128 * 2 ^ k) A = Some ps"
    "length ps = level_polys k A N (Suc i)"
    "\<forall>P < length ps. represents (nflInstance L) k (ps ! P)
        (\<lambda>cm x. int (chunk A (stream (128 * 2 ^ k) ?bufs) (P * 2 ^ k + x)))" using N by auto
  have d: "lwe_deserializeDataNFL L ?bufs (getCiphertextBitsize L) = Some ps"
    using ps(1) by (simp add: lwe_deserializeDataNFL_def D(3,5,6))
  then have imp: "import_reply L r = ps" by (simp add: import_reply_def)
  show "lwe_deserializeDataNFL L ?bufs (getCiphertextBitsize L) = Some (import_reply L r)" using d imp by simp
  have "stream (128 * 2 ^ k) ?bufs = memval (concat ?bufs)" by (rule stream_concat [OF len])
  also have "\<dots> = memval (reply_bytes (level_bytes k A N (Suc i)) r)" by (simp add: reply_bytes_def memval_append_zeros)
  finally have s: "stream (128 * 2 ^ k) ?bufs = memval (reply_bytes (level_bytes k A N (Suc i)) r)" .
  have "length (concat ?bufs) = ?n * (16 * 2 ^ k)"
    using length_concat_const [of ?bufs "16 * 2 ^ k"] len N by simp
  also have "\<dots> \<le> level_bytes k A N (Suc i)"
    using D(7,10) by (intro level_polys_enough) (simp_all add: dvd_def, metis)
  finally have "length (reply_bytes (level_bytes k A N (Suc i)) r) = level_bytes k A N (Suc i)"
    by (simp add: reply_bytes_def)
  then show "element_holds L k A (level_polys k A N (Suc i)) (import_reply L r) (reply_bytes (level_bytes k A N (Suc i)) r)"
    using ps(2,3) unfolding element_holds_def imp s level_bytes_def by simp
qed

text \<open>The contract of the levels holds: retrieval through all of them is available as \<open>lw.retrieval\<close>.\<close>

interpretation lw: private_retrieval
  "\<lambda>i q es. reply_element L None i q es (length q) (level_polys k A N i)" "\<lambda>i. import_reply L"
  "\<lambda>i. read_reply L k A" "\<lambda>i. parse_reply L k (level_polys k A N i)"
  "\<lambda>i. reply_bytes (level_bytes k A N (Suc i))" "\<lambda>i. element_holds L k A (level_polys k A N i)"
  "\<lambda>i. lwe_selects L k A" "\<lambda>i. lwe_proper L k A (level_polys k A N i)"
  for L :: lwe and k A N :: nat
proof
  fix i n t :: nat and q es vs
  assume s: "lwe_selects L k A n t q" "t < n" "length es = n"
    "\<forall>u < n. element_holds L k A (level_polys k A N i) (es ! u) (vs u)"
  then have "length q = n" by (auto simp: lwe_selects_def)
  then show "lwe_proper L k A (level_polys k A N i) (reply_element L None i q es (length q) (level_polys k A N i)) \<and>
      read_reply L k A (reply_element L None i q es (length q) (level_polys k A N i)) = vs t"
    using lwe_select [OF s] by simp
next
  fix i r assume r: "lwe_proper L k A (level_polys k A N i) r"
  show "element_holds L k A (level_polys k A N (Suc i)) (import_reply L r) (reply_bytes (level_bytes k A N (Suc i)) r) \<and>
      parse_reply L k (level_polys k A N i) (reply_bytes (level_bytes k A N (Suc i)) r) = r"
    using lwe_reimport(2) [OF r] parse_reply_bytes [OF r] by simp
qed

section \<open>\<open>generateReply\<close> is the recursion over the levels\<close>

abbreviation lwe_absorb :: "lwe \<Rightarrow> nat \<Rightarrow> nat \<Rightarrow> nat \<Rightarrow> nat \<Rightarrow> (lwe_cipher \<times> lwe_cipher) list \<Rightarrow> lwe_in_data list \<Rightarrow> lwe_cipher list" where
  "lwe_absorb L k A N i q es \<equiv> reply_element L None i q es (length q) (level_polys k A N i)"

definition level_queries :: "nfl_generator \<Rightarrow> (nat \<times> (lwe_cipher \<times> lwe_cipher) list) list" where
  "level_queries g =
     (let n = pir_n (rg_params g)
      in map (\<lambda>i. (n ! i, map the (take (n ! i) (the (queriesBuf g) ! i)))) [0..<pir_d (rg_params g)])"

text \<open>A complete query that selects the coordinates \<open>cs\<close>, and a database that holds \<open>vs\<close>.\<close>

definition query_loaded :: "nfl_generator \<Rightarrow> nat \<Rightarrow> nat \<Rightarrow> nat list \<Rightarrow> bool" where
  "query_loaded g k A cs \<longleftrightarrow> length cs = pir_d (rg_params g) \<and>
     (\<exists>buf. queriesBuf g = Some buf \<and> length buf = pir_d (rg_params g) \<and>
        (\<forall>i < pir_d (rg_params g). let n = pir_n (rg_params g) ! i in
           n \<le> length (buf ! i) \<and> None \<notin> set (take n (buf ! i)) \<and> cs ! i < n \<and>
           lwe_selects (rg_crypto g) k A n (cs ! i) (map the (take n (buf ! i)))))"

definition data_loaded :: "nfl_generator \<Rightarrow> nat \<Rightarrow> nat \<Rightarrow> (nat \<Rightarrow> u8 list) \<Rightarrow> bool" where
  "data_loaded g k A vs \<longleftrightarrow> (\<exists>data. input_data g = Some data \<and> length data = product_from 0 (rg_params g) \<and>
     (\<forall>u < length data. element_holds (rg_crypto g) k A (currentMaxNbPolys g) (data ! u) (vs u)))"

lemma fold_product: "fold (\<lambda>j r. r * f j) xs (c * a) = c * fold (\<lambda>j r. r * f j) xs (a :: nat)"
  by (induction xs arbitrary: a) (simp_all add: mult.assoc)

lemma product_from_Suc: "i < pir_d P \<Longrightarrow> product_from i P = pir_n P ! i * product_from (Suc i) P"
  using fold_product [of "\<lambda>j. pir_n P ! j" "[Suc i..<pir_d P]" "pir_n P ! i" 1]
  by (simp add: product_from_def upt_conv_Cons)

lemma product_from_end: "pir_d P \<le> i \<Longrightarrow> product_from i P = 1"
  by (simp add: product_from_def)

lemma drop_level_queries:
  assumes "i < pir_d (rg_params g)"
  shows "drop i (level_queries g) = (pir_n (rg_params g) ! i,
    map the (take (pir_n (rg_params g) ! i) (the (queriesBuf g) ! i))) # drop (Suc i) (level_queries g)"
  using assms by (simp add: level_queries_def Let_def Cons_nth_drop_Suc [symmetric])

lemma product_level_queries:
  "i \<le> pir_d (rg_params g) \<Longrightarrow> prod_list (map fst (drop i (level_queries g))) = product_from i (rg_params g)"
proof (induction rule: inc_induct)
  case base
  then show ?case by (simp add: product_from_end level_queries_def Let_def)
next
  case (step i)
  then show ?case by (simp add: drop_level_queries product_from_Suc)
qed

lemma for_each_collect:
  assumes "\<forall>x \<in> set xs. f x = Some (h x)"
  shows "for_each (\<lambda>x acc. map_option (\<lambda>p. acc @ [p]) (f x)) xs acc = Some (acc @ map h xs)"
  using assms by (induction xs arbitrary: acc) simp_all

lemma fromResulttoInData_levels:
  assumes u: "lwe_setup L k A" and r: "\<forall>r \<in> set rs. lwe_proper L k A (level_polys k A N i) r"
  shows "fromResulttoInData L rs (level_polys k A N i) = Some (map (import_reply L) rs, level_polys k A N (Suc i))"
proof -
  note D = lwe_setupD [OF u]
  have "\<forall>r \<in> set rs. lwe_deserializeDataNFL L (map cipher_bytes (take (level_polys k A N i) r)) (getCiphertextBitsize L) =
      Some (import_reply L r)"
  proof
    fix x assume "x \<in> set rs"
    then have p: "lwe_proper L k A (level_polys k A N i) x" using r by blast
    then have "take (level_polys k A N i) x = x" by (simp add: lwe_proper_def)
    then show "lwe_deserializeDataNFL L (map cipher_bytes (take (level_polys k A N i) x)) (getCiphertextBitsize L) =
      Some (import_reply L x)" using lwe_reimport(1) [OF p] by simp
  qed
  note c = for_each_collect [OF this, of "[]"]
  have p: "ceil_div (level_polys k A N i * getCiphertextBitsize L) (8 * (getAbsorptionBitsize L div 8)) = level_polys k A N (Suc i)"
    using D(10) by (simp add: D(5,6) poly_number_def block_bytes_def mult.commute)
  show ?thesis using c p by (simp add: fromResulttoInData_def Let_def)
qed

text \<open>One turn of the loop.\<close>

lemma generate_level_step:
  fixes g k A N
  defines "L \<equiv> rg_crypto g" and "P \<equiv> rg_params g"
  assumes q: "query_loaded g k A cs" "queriesBuf g = Some buf" and i: "i < pir_d P"
    and es: "length es = product_from i P" "\<forall>u < length es. element_holds L k A (level_polys k A N i) (es ! u) (vs u)"
  defines "rs \<equiv> level_replies (lwe_absorb L k A N) i (pir_n P ! i)
      (map the (take (pir_n P ! i) (buf ! i))) (product_from (Suc i) P) es"
  shows "generate_level g None buf i (es, level_polys k A N i, replies) =
      (if i < pir_d P - 1 then Some (map (import_reply L) rs, level_polys k A N (Suc i), replies)
       else map_option (\<lambda>replies. (es, level_polys k A N i, replies)) (write_at replies (repliesIndex g) (map Some (rs ! 0))))"
    and "length rs = product_from (Suc i) P" "\<forall>j < length rs. lwe_proper L k A (level_polys k A N i) (rs ! j)"
proof -
  let ?n = "pir_n P ! i" and ?m = "product_from (Suc i) P"
  have b: "length buf = pir_d P" "?n \<le> length (buf ! i)" "None \<notin> set (take ?n (buf ! i))" "cs ! i < ?n"
    "lwe_selects L k A ?n (cs ! i) (map the (take ?n (buf ! i)))"
    using q i by (auto simp: query_loaded_def L_def P_def Let_def)
  have es': "length es = ?n * ?m" using es(1) product_from_Suc [OF i] by simp
  show len: "length rs = ?m" by (simp add: rs_def level_replies_def)
  show pr: "\<forall>j < length rs. lwe_proper L k A (level_polys k A N i) (rs ! j)"
    using lw.level_step(1) [OF b(5,4) es', of N i vs] es(2) es' len unfolding rs_def by simp
  have acc: "level_accesses None i (buf ! i) ?n ?m es (level_polys k A N i)"
    unfolding level_accesses_def using b(2,3) es es' by (auto simp: in_set_conv_nth element_holds_def)
  have "reply_element L None lvl (map the (take ?n (buf ! i))) es ?n (level_polys k A N i) =
      lwe_absorb L k A N i (map the (take ?n (buf ! i))) es" if "lvl = i" for lvl es
    using b(2) that by (simp add: min_def)
  then have inter: "level_replies (\<lambda>lvl q es. reply_element L None lvl q es ?n (level_polys k A N i)) i ?n
      (map the (take ?n (buf ! i))) ?m es = rs"
    unfolding rs_def level_replies_def by simp
  have u: "lwe_setup L k A" using b(5) by (simp add: lwe_selects_def)
  have n0: "0 < ?n" using b(4) by simp
  show "generate_level g None buf i (es, level_polys k A N i, replies) =
      (if i < pir_d P - 1 then Some (map (import_reply L) rs, level_polys k A N (Suc i), replies)
       else map_option (\<lambda>replies. (es, level_polys k A N i, replies)) (write_at replies (repliesIndex g) (map Some (rs ! 0))))"
  proof (cases "i < pir_d P - 1")
    case True
    have "\<forall>r \<in> set rs. lwe_proper L k A (level_polys k A N i) r" using pr by (auto simp: in_set_conv_nth)
    note f = fromResulttoInData_levels [OF u this]
    show ?thesis
      using True i b(1) acc inter f unfolding generate_level_def Let_def L_def [symmetric] P_def [symmetric] by simp
  next
    case False
    then have m: "?m = 1" using i product_from_end by simp
    then obtain r where r: "rs = [r]" using len by (cases rs) auto
    have e: "i = pir_d P - 1" using False i by simp
    show ?thesis
      using False n0 i b(1) acc inter r unfolding generate_level_def Let_def L_def [symmetric] P_def [symmetric]
      by (simp add: m e split: option.split)
  qed
qed

text \<open>The loop: every turn but the last one keeps the replies of the levels that remain.\<close>

lemma server_levels_step:
  assumes "i < pir_d (rg_params g) - 1"
  shows "server_levels absorb import i (drop i (level_queries g)) es =
    server_levels absorb import (Suc i) (drop (Suc i) (level_queries g))
      (map (import i) (level_replies absorb i (pir_n (rg_params g) ! i)
        (map the (take (pir_n (rg_params g) ! i) (the (queriesBuf g) ! i))) (product_from (Suc i) (rg_params g)) es))"
proof -
  have i: "i < pir_d (rg_params g)" "Suc i < pir_d (rg_params g)" using assms by simp_all
  show ?thesis
    using drop_level_queries [OF i(1)] drop_level_queries [OF i(2)] product_level_queries [of "Suc i" g] i by simp
qed

lemma generate_levels:
  fixes g k A N
  defines "L \<equiv> rg_crypto g" and "P \<equiv> rg_params g"
  assumes q: "query_loaded g k A cs" "queriesBuf g = Some buf"
    and es: "length es = product_from 0 P" "\<forall>u < length es. element_holds L k A N (es ! u) (vs u)"
    and i: "i \<le> pir_d P - 1"
  shows "\<exists>es' vs'. for_each (generate_level g None buf) [0..<i] (es, N, replies) = Some (es', level_polys k A N i, replies) \<and>
    length es' = product_from i P \<and> (\<forall>u < length es'. element_holds L k A (level_polys k A N i) (es' ! u) (vs' u)) \<and>
    server_levels (lwe_absorb L k A N) (\<lambda>i. import_reply L) i (drop i (level_queries g)) es' =
      server_levels (lwe_absorb L k A N) (\<lambda>i. import_reply L) 0 (level_queries g) es"
  using i
proof (induction i)
  case 0
  then show ?case using es by auto
next
  case (Suc i)
  obtain es' vs' where IH: "for_each (generate_level g None buf) [0..<i] (es, N, replies) = Some (es', level_polys k A N i, replies)"
    "length es' = product_from i P" "\<forall>u < length es'. element_holds L k A (level_polys k A N i) (es' ! u) (vs' u)"
    "server_levels (lwe_absorb L k A N) (\<lambda>i. import_reply L) i (drop i (level_queries g)) es' =
      server_levels (lwe_absorb L k A N) (\<lambda>i. import_reply L) 0 (level_queries g) es"
    using Suc by auto
  have i: "i < pir_d P" "i < pir_d P - 1" using Suc.prems by simp_all
  let ?rs = "level_replies (lwe_absorb L k A N) i (pir_n P ! i) (map the (take (pir_n P ! i) (buf ! i))) (product_from (Suc i) P) es'"
  note S = generate_level_step [OF q i(1) [unfolded P_def] IH(2,3) [unfolded L_def P_def], folded L_def P_def]
  have a: "for_each (generate_level g None buf) [0..<Suc i] (es, N, replies) =
      Some (map (import_reply L) ?rs, level_polys k A N (Suc i), replies)"
    using IH(1) S(1) i(2) by (simp add: for_each_append del: level_polys.simps)
  have b: "length (map (import_reply L) ?rs) = product_from (Suc i) P" using S(2) by simp
  have c: "\<forall>u < length (map (import_reply L) ?rs). element_holds L k A (level_polys k A N (Suc i))
      (map (import_reply L) ?rs ! u) (reply_bytes (level_bytes k A N (Suc i)) (?rs ! u))"
  proof (intro allI impI)
    fix u assume u: "u < length (map (import_reply L) ?rs)"
    then have "lwe_proper L k A (level_polys k A N i) (?rs ! u)" using S(3) by simp
    from lwe_reimport(2) [OF this] u show "element_holds L k A (level_polys k A N (Suc i))
      (map (import_reply L) ?rs ! u) (reply_bytes (level_bytes k A N (Suc i)) (?rs ! u))" by simp
  qed
  have e: "server_levels (lwe_absorb L k A N) (\<lambda>i. import_reply L) (Suc i) (drop (Suc i) (level_queries g)) (map (import_reply L) ?rs) =
      server_levels (lwe_absorb L k A N) (\<lambda>i. import_reply L) 0 (level_queries g) es"
    using server_levels_step [OF i(2) [unfolded P_def], folded P_def, of "lwe_absorb L k A N" "\<lambda>i. import_reply L" es'] IH(4) q(2) by simp
  show ?case by (rule exI, rule exI, intro conjI, rule a, rule b, rule c, rule e)
qed

text \<open>The reply array when one reply was written at \<open>repliesIndex\<close>.\<close>

definition reply_places :: "nfl_generator \<Rightarrow> lwe_cipher list \<Rightarrow> lwe_cipher option list" where
  "reply_places g r = replicate (repliesIndex g) None @ map Some r @
     replicate (repliesAmount g - (repliesIndex g + length r)) None"

lemma generateReply_with_refines:
  fixes g k A N
  defines "L \<equiv> rg_crypto g" and "P \<equiv> rg_params g"
  assumes q: "query_loaded g k A cs" and data: "input_data g = Some es" "currentMaxNbPolys g = N"
    and es: "length es = product_from 0 P" "\<forall>u < length es. element_holds L k A N (es ! u) (vs u)"
    and d: "0 < pir_d P" and room: "repliesIndex g + level_polys k A N (pir_d P - 1) \<le> repliesAmount g" "freeResult_inside g"
  shows "\<exists>r polys. server_levels (lwe_absorb L k A N) (\<lambda>i. import_reply L) 0 (level_queries g) es = [r] \<and>
    length r = level_polys k A N (pir_d P - 1) \<and>
    generateReply_with None g = Some (g \<lparr> repliesArray := Some (reply_places g r),
      currentMaxNbPolys := polys \<rparr>)"
proof -
  obtain buf where buf: "queriesBuf g = Some buf" using q by (auto simp: query_loaded_def)
  let ?l = "pir_d P - 1" and ?empty = "replicate (repliesAmount g) None"
  obtain es' vs' where L: "for_each (generate_level g None buf) [0..<?l] (es, N, ?empty) = Some (es', level_polys k A N ?l, ?empty)"
    "length es' = product_from ?l P" "\<forall>u < length es'. element_holds L k A (level_polys k A N ?l) (es' ! u) (vs' u)"
    "server_levels (lwe_absorb L k A N) (\<lambda>i. import_reply L) ?l (drop ?l (level_queries g)) es' =
      server_levels (lwe_absorb L k A N) (\<lambda>i. import_reply L) 0 (level_queries g) es"
    using generate_levels [OF q buf es [unfolded L_def P_def] order_refl, folded L_def P_def] by blast
  have l: "?l < pir_d P" and l1: "[0..<pir_d P] = [0..<?l] @ [?l]" using d upt_Suc_append [of 0 ?l] by simp_all
  let ?rs = "level_replies (lwe_absorb L k A N) ?l (pir_n P ! ?l) (map the (take (pir_n P ! ?l) (buf ! ?l))) (product_from (Suc ?l) P) es'"
  note S = generate_level_step [OF q buf l [unfolded P_def] L(2,3) [unfolded L_def P_def], folded L_def P_def]
  have one: "product_from (Suc ?l) P = 1" using d by (intro product_from_end) simp
  then have "length ?rs = 1" using S(2) by simp
  then obtain r where r: "?rs = [r]" by (cases ?rs) auto
  have len: "length r = level_polys k A N ?l" using S(3) r by (simp add: lwe_proper_def)
  have "write_at ?empty (repliesIndex g) (map Some r) = Some (reply_places g r)"
    using room(1) len by (simp add: write_at_def reply_places_def min_def)
  then have loop: "for_each (generate_level g None buf) [0..<pir_d P] (es, N, ?empty) =
      Some (es', level_polys k A N ?l, reply_places g r)"
    unfolding l1 using L(1) S(1) r by (simp add: for_each_append)
  have "drop ?l (level_queries g) = [(pir_n P ! ?l, map the (take (pir_n P ! ?l) (buf ! ?l)))]"
    using drop_level_queries [OF l [unfolded P_def], folded P_def] d buf by (simp add: level_queries_def Let_def P_def)
  then have "server_levels (lwe_absorb L k A N) (\<lambda>i. import_reply L) ?l (drop ?l (level_queries g)) es' = [r]"
    using r one by simp
  moreover have "generateReply_with None g = Some (g \<lparr> repliesArray := Some (reply_places g r),
      currentMaxNbPolys := level_polys k A N ?l \<rparr>)"
    using loop data buf room(2) by (simp add: generateReply_with_def P_def)
  ultimately show ?thesis using L(4) len by metis
qed

text \<open>\<open>generateReply\<close> answers: what it stores decrypts, level by level, to the selected element.\<close>

lemma generateReply_answers:
  fixes g k A N
  defines "L \<equiv> rg_crypto g" and "P \<equiv> rg_params g" and "N \<equiv> currentMaxNbPolys g"
  assumes q: "query_loaded g k A cs" and data: "data_loaded g k A vs"
    and d: "0 < pir_d P" and room: "repliesIndex g = 0" "level_polys k A N (pir_d P - 1) \<le> repliesAmount g" "freeResult_inside g"
  shows "\<exists>r polys. generateReply g = Some (g \<lparr> repliesArray := Some (map Some r @ replicate (repliesAmount g - length r) None),
      currentMaxNbPolys := polys \<rparr>) \<and> client_proper (\<lambda>i. lwe_proper L k A (level_polys k A N i)) (\<lambda>i. read_reply L k A)
      (\<lambda>i. parse_reply L k (level_polys k A N i)) 0 (pir_d P - 1) r \<and> length r = level_polys k A N (pir_d P - 1) \<and>
    client_levels (\<lambda>i. read_reply L k A) (\<lambda>i. parse_reply L k (level_polys k A N i)) 0 (pir_d P - 1) r =
      vs (mixed_index (map ((!) (pir_n P)) [0..<pir_d P]) cs)"
proof -
  obtain es where es: "input_data g = Some es" "length es = product_from 0 P"
    "\<forall>u < length es. element_holds L k A N (es ! u) (vs u)" using data by (auto simp: data_loaded_def L_def P_def N_def)
  obtain r polys where r: "server_levels (lwe_absorb L k A N) (\<lambda>i. import_reply L) 0 (level_queries g) es = [r]"
    "generateReply_with None g = Some (g \<lparr> repliesArray := Some (map Some r @ replicate (repliesAmount g - length r) None),
      currentMaxNbPolys := polys \<rparr>)"
    using generateReply_with_refines [OF q es(1) N_def [symmetric, THEN meta_eq_to_obj_eq] es(2,3) [unfolded L_def P_def] d [unfolded P_def] _ room(3),
      folded L_def P_def N_def] room(1,2) by (auto simp: reply_places_def)
  have len: "length (level_queries g) = pir_d P" by (simp add: level_queries_def Let_def P_def)
  then have ne: "level_queries g \<noteq> []" using d by auto
  have fst: "map fst (level_queries g) = map ((!) (pir_n P)) [0..<pir_d P]" by (simp add: level_queries_def Let_def P_def)
  have sel: "\<forall>j < length (level_queries g). lwe_selects L k A (fst (level_queries g ! j)) (cs ! j) (snd (level_queries g ! j)) \<and>
      cs ! j < fst (level_queries g ! j)"
    using q unfolding len by (auto simp: query_loaded_def level_queries_def Let_def P_def L_def)
  have "length es = prod_list (map fst (level_queries g))" using product_level_queries [of 0 g] es(2) by (simp add: P_def)
  from lw.retrieval [where qs = "level_queries g" and cs = cs and es = es and vs = vs and L = L and k = k and A = A and N = N and i = 0,
      OF ne _ _ this] q es(3) sel d len
  obtain r' where "server_levels (lwe_absorb L k A N) (\<lambda>i. import_reply L) 0 (level_queries g) es = [r']"
    "lwe_proper L k A (level_polys k A N (pir_d P - 1)) r'"
    "client_proper (\<lambda>i. lwe_proper L k A (level_polys k A N i)) (\<lambda>i. read_reply L k A)
      (\<lambda>i. parse_reply L k (level_polys k A N i)) 0 (pir_d P - 1) r'"
    "client_levels (\<lambda>i. read_reply L k A) (\<lambda>i. parse_reply L k (level_polys k A N i)) 0 (pir_d P - 1) r' =
      vs (mixed_index (map fst (level_queries g)) cs)"
    by (auto simp: query_loaded_def P_def)
  moreover have "r' = r" using r(1) calculation(1) by simp
  moreover have "length r' = level_polys k A N (pir_d P - 1)" using calculation(2) by (simp add: lwe_proper_def)
  ultimately show ?thesis using r(2) unfolding generateReply_def fst by blast
qed

end
