(* ===== verification/ReplyExtraction.thy ===== *)
theory ReplyExtraction
  imports PIRRecursion
begin

text \<open>
  The extraction of the reply by the client:
  \<open>pir/replyExtraction/PIRReplyExtraction_internal.cpp\<close> and its public face in \<open>pir/libpir.cpp\<close>
  (\<open>PIRReplyExtraction\<close>). The numbers of ciphertexts are computed in \<open>float\<close>, as in the code. The
  thread that fills the buffer of replies is not part of the model, so a call that would block, a
  read or write outside a buffer, and a decryption that does not end are \<open>None\<close>.
\<close>

section \<open>State\<close>

record 'r reply_extraction =
  re_params :: pir_parameters
  re_crypto :: "'r crypto"
  repliesBuffer :: "u8 list shared_queue"
  re_filename :: string
  re_fileSize :: int
  clearChunks :: "u8 list shared_queue"
  nbPlaintextReplies :: nat

definition reply_extraction_new :: "pir_parameters \<Rightarrow> 'r crypto \<Rightarrow> nat \<Rightarrow> 'r reply_extraction" where
  "reply_extraction_new P C max_size =
     \<lparr> re_params = P, re_crypto = C, repliesBuffer = shared_queue_new max_size, re_filename = [], re_fileSize = 0,
       clearChunks = shared_queue_new max_size, nbPlaintextReplies = 0 \<rparr>"

text \<open>A failed \<open>assert\<close> is \<open>None\<close>.\<close>

definition setFileParam :: "string \<Rightarrow> int \<Rightarrow> 'r reply_extraction \<Rightarrow> 'r reply_extraction option" where
  "setFileParam filename bytes g =
     (if filename = [] \<or> bytes < 0 then None else Some (g \<lparr> re_filename := filename, re_fileSize := bytes \<rparr>))"

definition getChosenFileSize :: "'r reply_extraction \<Rightarrow> int" where
  "getChosenFileSize g = re_fileSize g"

section \<open>Extraction\<close>

text \<open>The number of ciphertexts of a level.\<close>

definition ciphertext_count :: "'r crypto \<Rightarrow> nat \<Rightarrow> nat \<Rightarrow> nat" where
  "ciphertext_count C aggregated rec_lvl =
     fold (\<lambda>i c. float_ceil_mult_div c (crypto_ciph_bits C i div kBitsPerByte) (crypto_absorption C i div kBitsPerByte))
       [1..<rec_lvl] (float_ceil_div aggregated (crypto_absorption C 0 div kBitsPerByte))"

definition data_size :: "'r crypto \<Rightarrow> nat \<Rightarrow> nat" where
  "data_size C rec_lvl = crypto_ciph_bits C rec_lvl div kBitsPerByte"

definition data_size2b :: "'r crypto \<Rightarrow> nat \<Rightarrow> nat" where
  "data_size2b C rec_lvl = crypto_absorption C (rec_lvl - 1) div kBitsPerByte"

text \<open>
  One ciphertext: it comes from the buffer of replies at the first level, from \<open>in_data\<close> at the
  others; what it decrypts to goes to \<open>in_data_2b\<close>, at the last level to the clear chunks.
\<close>

definition extract_one ::
    "'r crypto \<Rightarrow> nat \<Rightarrow> nat \<Rightarrow> u8 list \<Rightarrow> nat \<Rightarrow> u8 list \<times> u8 list shared_queue \<times> u8 list shared_queue \<Rightarrow>
     (u8 list \<times> u8 list shared_queue \<times> u8 list shared_queue) option" where
  "extract_one C d rec_lvl in_data j state =
     (let (in_data_2b, replies, clear) = state in
      case (if rec_lvl = d then sq_pop_front replies else Some (drop (j * data_size C rec_lvl) in_data, replies)) of
        None \<Rightarrow> None
      | Some (data, replies) \<Rightarrow>
          (case crypto_decrypt C data rec_lvl (data_size C rec_lvl) (data_size2b C rec_lvl) of
             None \<Rightarrow> None
           | Some out_data \<Rightarrow>
               if rec_lvl > 1
               then if length out_data < data_size2b C rec_lvl then None
                    else map_option (\<lambda>m. (m, replies, clear))
                           (write_at in_data_2b (data_size2b C rec_lvl * j) (take (data_size2b C rec_lvl) out_data))
               else map_option (\<lambda>clear. (in_data_2b, replies, clear)) (sq_push out_data clear)))"

definition extract_level ::
    "'r crypto \<Rightarrow> nat \<Rightarrow> nat \<Rightarrow> nat \<Rightarrow> u8 list \<times> u8 list shared_queue \<times> u8 list shared_queue \<Rightarrow>
     (u8 list \<times> u8 list shared_queue \<times> u8 list shared_queue) option" where
  "extract_level C d aggregated rec_lvl state =
     (let (in_data, replies, clear) = state;
          ciphertext_nbr = ciphertext_count C aggregated rec_lvl;
          in_data_2b = (if rec_lvl > 1 then replicate (data_size2b C rec_lvl * ciphertext_nbr) 0 else [])
      in for_each (extract_one C d rec_lvl in_data) [0..<ciphertext_nbr] (in_data_2b, replies, clear))"

text \<open>The size is an \<open>int\<close>: from \<open>2^31\<close> on it would be negative, and its count undefined.\<close>

definition extractReply ::
    "nat \<Rightarrow> u8 list shared_queue \<Rightarrow> 'r reply_extraction \<Rightarrow> (u8 list shared_queue \<times> 'r reply_extraction) option" where
  "extractReply aggregated clear g =
     (if aggregated \<ge> 2 ^ 31 then None
      else case for_each (extract_level (re_crypto g) (pir_d (re_params g)) aggregated)
             (rev [1..<pir_d (re_params g) + 1]) ([], repliesBuffer g, clear) of
             None \<Rightarrow> None
           | Some (_, replies, clear) \<Rightarrow> Some (clear, g \<lparr> repliesBuffer := replies \<rparr>))"

section \<open>The library face\<close>

definition pushEncryptedReply :: "u8 list \<Rightarrow> 'r reply_extraction \<Rightarrow> 'r reply_extraction option" where
  "pushEncryptedReply rawBytes g = map_option (\<lambda>q. g \<lparr> repliesBuffer := q \<rparr>) (sq_push rawBytes (repliesBuffer g))"

definition getPlaintextReplyBytesize :: "'r reply_extraction \<Rightarrow> nat" where
  "getPlaintextReplyBytesize g = crypto_absorption (re_crypto g) 0 div kBitsPerByte"

definition getnbPlaintextReplies :: "nat \<Rightarrow> 'r reply_extraction \<Rightarrow> nat" where
  "getnbPlaintextReplies maxFileBytesize g =
     float_ceil_mult_div maxFileBytesize (pir_alpha (re_params g)) (getPlaintextReplyBytesize g)"

definition lib_extractReply :: "nat \<Rightarrow> 'r reply_extraction \<Rightarrow> 'r reply_extraction option" where
  "lib_extractReply maxFileBytesize g =
     map_option (\<lambda>(clear, g). g \<lparr> clearChunks := clear, nbPlaintextReplies := getnbPlaintextReplies maxFileBytesize g \<rparr>)
       (extractReply (pir_alpha (re_params g) * maxFileBytesize) (clearChunks g) g)"

definition popPlaintextResult :: "'r reply_extraction \<Rightarrow> (u8 list option \<times> 'r reply_extraction) option" where
  "popPlaintextResult g =
     (if nbPlaintextReplies g \<noteq> 0
      then map_option (\<lambda>(x, q). (Some x, g \<lparr> clearChunks := q, nbPlaintextReplies := nbPlaintextReplies g - 1 \<rparr>))
             (sq_pop_front (clearChunks g))
      else Some (None, g))"

section \<open>The levels of the extraction\<close>

text \<open>
  The recursion of \<open>PIRRecursion\<close> on byte strings: a reply of level \<open>i\<close> is the list of its
  ciphertexts, whose decryptions of recursion level \<open>i + 1\<close> are cut to the absorbed size.
\<close>

definition decrypt_one :: "'r crypto \<Rightarrow> nat \<Rightarrow> u8 list \<Rightarrow> u8 list option" where
  "decrypt_one C i x = crypto_decrypt C x (i + 1) (data_size C (i + 1)) (data_size2b C (i + 1))"

definition read_level :: "'r crypto \<Rightarrow> nat \<Rightarrow> u8 list list \<Rightarrow> u8 list" where
  "read_level C i rs = concat (map (\<lambda>x. take (data_size2b C (i + 1)) (the (decrypt_one C i x))) rs)"

definition parse_level :: "'r crypto \<Rightarrow> (nat \<Rightarrow> nat) \<Rightarrow> nat \<Rightarrow> u8 list \<Rightarrow> u8 list list" where
  "parse_level C N i v = map (\<lambda>j. drop (j * data_size C (i + 1)) v) [0..<N i]"

definition good_level :: "'r crypto \<Rightarrow> (nat \<Rightarrow> nat) \<Rightarrow> nat \<Rightarrow> u8 list list \<Rightarrow> bool" where
  "good_level C N i rs \<longleftrightarrow> length rs = N i \<and>
     (\<forall>x \<in> set rs. \<exists>out. decrypt_one C i x = Some out \<and> data_size2b C (i + 1) \<le> length out)"

text \<open>Where the ciphertexts of a level come from.\<close>

definition source :: "'r crypto \<Rightarrow> nat \<Rightarrow> nat \<Rightarrow> u8 list \<Rightarrow> u8 list list \<Rightarrow> nat \<Rightarrow> u8 list shared_queue \<Rightarrow> bool" where
  "source C d i in_data xs j replies \<longleftrightarrow>
     (if i + 1 = d then sq_ok replies \<and> queue_data replies = drop j xs
      else xs = map (\<lambda>j. drop (j * data_size C (i + 1)) in_data) [0..<length xs])"

lemma extract_one_fetch:
  assumes "source C d i in_data xs j replies" "j < length xs"
  obtains replies' where "source C d i in_data xs (Suc j) replies'"
    "(if i + 1 = d then sq_pop_front replies else Some (drop (j * data_size C (i + 1)) in_data, replies)) = Some (xs ! j, replies')"
proof (cases "i + 1 = d")
  case True
  then have "sq_ok replies" "queue_data replies = xs ! j # drop (Suc j) xs"
    using assms by (simp_all add: source_def Cons_nth_drop_Suc)
  from sq.get_some [OF this] obtain q where "sq_pop_front replies = Some (xs ! j, q)" "sq_ok q" "queue_data q = drop (Suc j) xs"
    by blast
  then show ?thesis using True that by (simp add: source_def)
next
  case False
  have nth: "zs = map f [0..<n] \<Longrightarrow> j < n \<Longrightarrow> zs ! j = f j" for zs :: "u8 list list" and f n by simp
  have "xs = map (\<lambda>j. drop (j * data_size C (i + 1)) in_data) [0..<length xs]" using assms(1) False by (simp add: source_def)
  then have "xs ! j = drop (j * data_size C (i + 1)) in_data" by (rule nth) (rule assms(2))
  then show ?thesis using False that assms(1) by (simp add: source_def)
qed

lemma write_at_next:
  assumes "length y = B" "B * j + B \<le> length m"
  shows "\<exists>m'. write_at m (B * j) y = Some m' \<and> length m' = length m \<and> take (B * Suc j) m' = take (B * j) m @ y"
  using assms by (simp add: write_at_def)

lemma read_level_append: "read_level C i (xs @ ys) = read_level C i xs @ read_level C i ys"
  by (simp add: read_level_def)

lemma length_read_level:
  assumes "good_level C N i xs"
  shows "length (read_level C i xs) = N i * data_size2b C (i + 1)"
proof -
  let ?f = "\<lambda>x. take (data_size2b C (i + 1)) (the (decrypt_one C i x))"
  have "length (?f x) = data_size2b C (i + 1)" if x: "x \<in> set xs" for x
  proof -
    obtain out where "decrypt_one C i x = Some out" "data_size2b C (i + 1) \<le> length out"
      using assms x unfolding good_level_def by blast
    then show ?thesis by simp
  qed
  then have "\<forall>y \<in> set (map ?f xs). length y = data_size2b C (i + 1)" by simp
  from length_concat_const [OF this] show ?thesis using assms by (simp add: read_level_def good_level_def)
qed

text \<open>A level above the first one fills \<open>in_data_2b\<close>.\<close>

lemma extract_upper:
  assumes i: "0 < i" and n: "ciphertext_count C aggregated (i + 1) = N i" and g: "good_level C N i xs"
    and s: "source C d i in_data xs 0 replies"
  shows "\<exists>replies'. extract_level C d aggregated (i + 1) (in_data, replies, clear) = Some (read_level C i xs, replies', clear) \<and>
    source C d i in_data xs (N i) replies' \<and> (i + 1 \<noteq> d \<longrightarrow> replies' = replies)"
proof -
  let ?B = "data_size2b C (i + 1)"
  let ?I = "\<lambda>j (out, replies', clear'). length out = ?B * N i \<and> take (?B * j) out = read_level C i (take j xs) \<and>
    clear' = clear \<and> source C d i in_data xs j replies' \<and> (i + 1 \<noteq> d \<longrightarrow> replies' = replies)"
  have len: "length xs = N i" using g by (simp add: good_level_def)
  have "\<exists>s'. for_each (extract_one C d (i + 1) in_data) [0..<N i] (replicate (?B * N i) 0, replies, clear) = Some s' \<and> ?I (N i) s'"
  proof (rule for_each_upt [where I = ?I])
    show "?I 0 (replicate (?B * N i) 0, replies, clear)" using s by (simp add: read_level_def)
    fix j and st :: "u8 list \<times> u8 list shared_queue \<times> u8 list shared_queue"
    assume j: "j < N i" and I: "?I j st"
    obtain out replies' where st: "st = (out, replies', clear)" "length out = ?B * N i"
      "take (?B * j) out = read_level C i (take j xs)" "source C d i in_data xs j replies'" "i + 1 \<noteq> d \<longrightarrow> replies' = replies"
      using I by (cases st) auto
    obtain q where q: "source C d i in_data xs (Suc j) q"
      "(if i + 1 = d then sq_pop_front replies' else Some (drop (j * data_size C (i + 1)) in_data, replies')) = Some (xs ! j, q)"
      using extract_one_fetch [OF st(4)] j len by auto
    have "xs ! j \<in> set xs" using j len by simp
    then obtain y where y: "decrypt_one C i (xs ! j) = Some y" "?B \<le> length y" using g by (auto simp: good_level_def)
    have "?B * Suc j \<le> ?B * N i" using j by (intro mult_le_mono2) simp
    then have "?B * j + ?B \<le> length out" using st(2) by simp
    from write_at_next [OF _ this, of "take ?B y"] y(2) obtain m where
      m: "write_at out (?B * j) (take ?B y) = Some m" "length m = length out" "take (?B * Suc j) m = take (?B * j) out @ take ?B y"
      by auto
    have "extract_one C d (i + 1) in_data j st = Some (m, q, clear)"
      unfolding extract_one_def st(1) Let_def split_conv q(2) using y m(1) i by (simp add: decrypt_one_def)
    moreover have "take (?B * Suc j) m = read_level C i (take (Suc j) xs)"
      using m(3) st(3) y(1) j len by (simp add: take_Suc_conv_app_nth read_level_append) (simp add: read_level_def)
    moreover have "i + 1 \<noteq> d \<longrightarrow> q = replies" using q(2) st(5) by auto
    ultimately show "\<exists>s'. extract_one C d (i + 1) in_data j st = Some s' \<and> ?I (Suc j) s'"
      using m(2) st(2) q(1) by (intro exI [of _ "(m, q, clear)"]) simp
  qed
  then show ?thesis using len n i by (auto simp: extract_level_def)
qed

text \<open>The first level hands out the clear chunks.\<close>

lemma extract_lowest:
  assumes n: "ciphertext_count C aggregated 1 = N 0" and g: "good_level C N 0 xs" and s: "source C d 0 in_data xs 0 replies"
    and q: "sq_ok clear" "length (queue_data clear) + N 0 \<le> sq_capacity clear"
  shows "\<exists>m replies' clear'. extract_level C d aggregated 1 (in_data, replies, clear) = Some (m, replies', clear') \<and>
    sq_ok clear' \<and> queue_data clear' = queue_data clear @ map (\<lambda>x. the (decrypt_one C 0 x)) xs"
proof -
  let ?I = "\<lambda>j (out :: u8 list, replies', clear'). source C d 0 in_data xs j replies' \<and> sq_ok clear' \<and>
    sq_capacity clear' = sq_capacity clear \<and> queue_data clear' = queue_data clear @ map (\<lambda>x. the (decrypt_one C 0 x)) (take j xs)"
  have len: "length xs = N 0" using g by (simp add: good_level_def)
  have "\<exists>s'. for_each (extract_one C d 1 in_data) [0..<N 0] ([], replies, clear) = Some s' \<and> ?I (N 0) s'"
  proof (rule for_each_upt [where I = ?I])
    show "?I 0 ([], replies, clear)" using s q by simp
    fix j and st :: "u8 list \<times> u8 list shared_queue \<times> u8 list shared_queue"
    assume j: "j < N 0" and I: "?I j st"
    obtain out replies' clear' where st: "st = (out, replies', clear')" "source C d 0 in_data xs j replies'" "sq_ok clear'"
      "sq_capacity clear' = sq_capacity clear" "queue_data clear' = queue_data clear @ map (\<lambda>x. the (decrypt_one C 0 x)) (take j xs)"
      using I by (cases st) auto
    obtain r where r: "source C d 0 in_data xs (Suc j) r"
      "(if 0 + 1 = d then sq_pop_front replies' else Some (drop (j * data_size C (0 + 1)) in_data, replies')) = Some (xs ! j, r)"
      using extract_one_fetch [OF st(2)] j len by auto
    have "xs ! j \<in> set xs" using j len by simp
    then obtain y where y: "decrypt_one C 0 (xs ! j) = Some y" using g by (auto simp: good_level_def)
    have "length (queue_data clear') < sq_capacity clear'" using st(4,5) q(2) j len by simp
    from sq.put_room [OF st(3) this, of y] obtain c where
      c: "sq_push y clear' = Some c" "sq_ok c" "queue_data c = queue_data clear' @ [y]" "sq_capacity c = sq_capacity clear'" by blast
    have "extract_one C d 1 in_data j st = Some (out, r, c)"
      unfolding extract_one_def st(1) Let_def split_conv r(2) [unfolded add_0]
      using y [unfolded decrypt_one_def add_0] c(1) by simp
    moreover have "?I (Suc j) (out, r, c)"
      using r(1) c(2,3,4) st(4,5) y j len by (simp add: take_Suc_conv_app_nth)
    ultimately show "\<exists>s'. extract_one C d 1 in_data j st = Some s' \<and> ?I (Suc j) s'" by blast
  qed
  then obtain st where st: "for_each (extract_one C d 1 in_data) [0..<N 0] ([], replies, clear) = Some st" "?I (N 0) st" by blast
  obtain m replies' clear' where "st = (m, replies', clear')" by (cases st)
  then show ?thesis using st len n by (simp add: extract_level_def)
qed

section \<open>All the levels\<close>

abbreviation client_value :: "'r crypto \<Rightarrow> (nat \<Rightarrow> nat) \<Rightarrow> nat \<Rightarrow> nat \<Rightarrow> u8 list list \<Rightarrow> u8 list" where
  "client_value C N \<equiv> client_levels (read_level C) (parse_level C N)"

abbreviation client_good :: "'r crypto \<Rightarrow> (nat \<Rightarrow> nat) \<Rightarrow> nat \<Rightarrow> nat \<Rightarrow> u8 list list \<Rightarrow> bool" where
  "client_good C N \<equiv> client_proper (good_level C N) (read_level C) (parse_level C N)"

text \<open>The last \<open>m + 1\<close> levels, down to level \<open>i > 0\<close>.\<close>

lemma extract_down:
  assumes "0 < i" "i + m + 1 = d" "\<forall>l < d. ciphertext_count C aggregated (l + 1) = N l"
    and "client_good C N i m rs" "sq_ok replies" "queue_data replies = rs"
  shows "\<exists>replies'. for_each (extract_level C d aggregated) (rev [i + 1..<d + 1]) (in_data, replies, clear) =
    Some (client_value C N i m rs, replies', clear)"
  using assms
proof (induction m arbitrary: i)
  case 0
  then have "source C d i in_data rs 0 replies" by (simp add: source_def)
  from extract_upper [OF 0(1) _ _ this, of aggregated N clear] 0 show ?case by fastforce
next
  case (Suc m)
  obtain r' where r': "for_each (extract_level C d aggregated) (rev [i + 1 + 1..<d + 1]) (in_data, replies, clear) =
    Some (client_value C N (i + 1) m rs, r', clear)"
    using Suc.IH [of "i + 1"] Suc.prems by fastforce
  let ?v = "client_value C N (i + 1) m rs"
  have s: "source C d i ?v (parse_level C N i ?v) 0 r'"
    using Suc.prems(2) by (simp add: source_def parse_level_def)
  have g: "good_level C N i (parse_level C N i ?v)" using Suc.prems(4) by simp
  have n: "ciphertext_count C aggregated (i + 1) = N i" using Suc.prems(2,3) by simp
  obtain r'' where "extract_level C d aggregated (i + 1) (?v, r', clear) = Some (client_value C N i (Suc m) rs, r'', clear)"
    using extract_upper [OF Suc.prems(1) n g s] by auto
  moreover have "rev [i + 1..<d + 1] = rev [i + 1 + 1..<d + 1] @ [i + 1]"
    using Suc.prems(2) upt_conv_Cons [of "i + 1" "d + 1"] by simp
  ultimately show ?case using r' by (simp add: for_each_append)
qed

text \<open>
  The clear chunks, each cut to the absorbed size, are what the recursion of the levels decrypts to.
\<close>

lemma extractReply_spec:
  fixes g :: "'r reply_extraction"
  defines "C \<equiv> re_crypto g" and "d \<equiv> pir_d (re_params g)"
  assumes d: "0 < d" and n: "\<forall>l < d. ciphertext_count C aggregated (l + 1) = N l" and a: "aggregated < 2 ^ 31"
    and rs: "client_good C N 0 (d - 1) rs" "sq_ok (repliesBuffer g)" "queue_data (repliesBuffer g) = rs"
    and q: "sq_ok clear" "length (queue_data clear) + N 0 \<le> sq_capacity clear"
  shows "\<exists>outs q clear'. extractReply aggregated clear g = Some (clear', g \<lparr> repliesBuffer := q \<rparr>) \<and> sq_ok clear' \<and>
    queue_data clear' = queue_data clear @ outs \<and> length outs = N 0 \<and> (\<forall>x \<in> set outs. data_size2b C 1 \<le> length x) \<and>
    concat (map (take (data_size2b C 1)) outs) = client_value C N 0 (d - 1) rs"
proof -
  have last: "\<exists>q clear'. extractReply aggregated clear g = Some (clear', g \<lparr> repliesBuffer := q \<rparr>) \<and> sq_ok clear' \<and>
      queue_data clear' = queue_data clear @ map (\<lambda>x. the (decrypt_one C 0 x)) xs"
    if f: "for_each (extract_level C d aggregated) (rev [2..<d + 1]) ([], repliesBuffer g, clear) = Some (in_data, r, clear)"
      and s: "source C d 0 in_data xs 0 r" and xs: "good_level C N 0 xs" for in_data r xs
  proof -
    obtain m r' clear' where e: "extract_level C d aggregated 1 (in_data, r, clear) = Some (m, r', clear')" "sq_ok clear'"
      "queue_data clear' = queue_data clear @ map (\<lambda>x. the (decrypt_one C 0 x)) xs"
      using extract_lowest [of C aggregated N xs d in_data r clear] n [rule_format, of 0] d s xs q by auto
    have "[1..<d + 1] = 1 # [2..<d + 1]" using d upt_conv_Cons [of 1 "d + 1"] by (simp add: numeral_2_eq_2 del: upt_Suc)
    then have "rev [1..<d + 1] = rev [2..<d + 1] @ [1]" by (simp del: upt_Suc)
    then show ?thesis
      using f e a unfolding extractReply_def C_def [symmetric] d_def [symmetric]
      by (auto simp: for_each_append simp del: upt_Suc)
  qed
  have out: "concat (map (take (data_size2b C 1)) (map (\<lambda>x. the (decrypt_one C 0 x)) xs)) = read_level C 0 xs"
    "\<forall>x \<in> set (map (\<lambda>x. the (decrypt_one C 0 x)) xs). data_size2b C 1 \<le> length x"
    "length (map (\<lambda>x. the (decrypt_one C 0 x)) xs) = N 0"
    if "good_level C N 0 xs" for xs
    using that by (auto simp: read_level_def comp_def good_level_def)
  show ?thesis
  proof (cases "d = 1")
    case True
    have "for_each (extract_level C d aggregated) (rev [2..<d + 1]) ([], repliesBuffer g, clear) = Some ([], repliesBuffer g, clear)"
      "source C d 0 [] rs 0 (repliesBuffer g)" "good_level C N 0 rs"
      using True rs by (simp_all add: source_def)
    from last [OF this] out [OF this(3)] show ?thesis using True by auto
  next
    case False
    then obtain m where m: "d = Suc (Suc m)" using d by (metis One_nat_def Suc_pred not_gr_zero diff_is_0_eq' le_numeral_extra(4) nat.exhaust)
    let ?v = "client_value C N 1 m rs"
    have c: "client_good C N 1 m rs" "good_level C N 0 (parse_level C N 0 ?v)" using rs(1) m by simp_all
    obtain r where r: "for_each (extract_level C d aggregated) (rev [2..<d + 1]) ([], repliesBuffer g, clear) = Some (?v, r, clear)"
      using extract_down [of 1 m d C aggregated N rs "repliesBuffer g" "[]" clear] c(1) m n rs(2,3)
      by (auto simp: numeral_2_eq_2)
    have s: "source C d 0 ?v (parse_level C N 0 ?v) 0 r" using m by (simp add: source_def parse_level_def)
    have "client_value C N 0 (d - 1) rs = read_level C 0 (parse_level C N 0 ?v)" using m by simp
    then show ?thesis using last [OF r s c(2)] out [OF c(2)] by metis
  qed
qed

end
