(* ===== verification/LibPIR.thy ===== *)
theory LibPIR
  imports ReplyGenCorrect ReplyExtraction
begin

text \<open>
  The public face of the server in \<open>pir/libpir.cpp\<close> and \<open>libpir.hpp\<close> (\<open>PIRReplyGenerator\<close>,
  \<open>imported_database\<close>), and the session of \<open>apps/simplepir/simplePIR.cpp\<close> that connects the query
  generator, the reply generator and the extraction. The cryptosystem is \<open>NFLLWE\<close>.
\<close>

section \<open>\<open>NFLLWE\<close> behind the interface of a cryptosystem\<close>

text \<open>The random words of one encryption are the noise and the mask.\<close>

definition lwe_crypto :: "lwe \<Rightarrow> (u64 list \<times> u64 list) crypto" where
  "lwe_crypto L =
     \<lparr> crypto_encrypt = (\<lambda>r ui d. cipher_bytes (encrypt_uint L (fst r) (snd r) (of_nat ui))),
       crypto_decrypt = (\<lambda>data lvl n m. Option.bind (chartocipher L data) (decrypt L)),
       crypto_absorption = (\<lambda>lvl. getAbsorptionBitsize L),
       crypto_ciph_bits = (\<lambda>lvl. getCiphBitsizeFromRecLvl L lvl) \<rparr>"

section \<open>The reply generator of the library\<close>

text \<open>The counters are not set by the constructor; \<open>generateReply\<close> sets them.\<close>

record reply_generator =
  rg :: nfl_generator
  nbRepliesToHandle :: u64
  nbRepliesGenerated :: nat
  currentReply :: nat

definition PIRReplyGenerator :: "pir_parameters \<Rightarrow> lwe \<Rightarrow> db_handler \<Rightarrow> reply_generator" where
  "PIRReplyGenerator P L db =
     \<lparr> rg = setPirParams P (setCryptoMethod L (PIRReplyGeneratorNFL P db)),
       nbRepliesToHandle = 0, nbRepliesGenerated = 0, currentReply = 0 \<rparr>"

definition lib_pushQuery :: "u8 list \<Rightarrow> reply_generator \<Rightarrow> reply_generator option" where
  "lib_pushQuery rawQuery g = map_option (\<lambda>r. g \<lparr> rg := r \<rparr>) (pushQuery rawQuery (rg g))"

definition importData :: "nat \<Rightarrow> nat \<Rightarrow> reply_generator \<Rightarrow> (imported_database \<times> reply_generator) option" where
  "importData offset bytes_per_db_element g =
     map_option (\<lambda>r.
         (\<lparr> imported_database_ptr = input_data r,
            nbElements = float_ceil_div (db_getNbStream (rg_db r)) (pir_alpha (rg_params r)),
            polysPerElement = currentMaxNbPolys r,
            beforeImportElementBytesize = bytes_per_db_element \<rparr>, g \<lparr> rg := r \<rparr>))
       (importDataNFL offset bytes_per_db_element (rg g))"

text \<open>What both versions of \<open>generateReply\<close> do before the generation.\<close>

definition prepare_reply :: "imported_database \<Rightarrow> reply_generator \<Rightarrow> reply_generator" where
  "prepare_reply idb g =
     (let r = freeResult (rg g);
          n = computeReplySizeInChunks (beforeImportElementBytesize idb) r
      in \<lparr> rg = r \<lparr> input_data := imported_database_ptr idb, currentMaxNbPolys := polysPerElement idb,
                    repliesAmount := n \<rparr>,
           nbRepliesToHandle = of_nat n, nbRepliesGenerated = n, currentReply = 0 \<rparr>)"

definition lib_generateReply :: "imported_database \<Rightarrow> reply_generator \<Rightarrow> reply_generator option" where
  "lib_generateReply idb g =
     (let g = prepare_reply idb g in map_option (\<lambda>r. g \<lparr> rg := r \<rparr>) (generateReply (rg g)))"

definition lib_generateReply_request :: "imported_database \<Rightarrow> u8 list list \<Rightarrow> reply_generator \<Rightarrow> reply_generator option" where
  "lib_generateReply_request idb request g =
     (let g = prepare_reply idb g
      in case charToLWECipher request (rg g) of
           None \<Rightarrow> None
         | Some subtract \<Rightarrow> map_option (\<lambda>r. g \<lparr> rg := r \<rparr>) (generateReply_subtract subtract (rg g)))"

definition lib_freeQueries :: "reply_generator \<Rightarrow> reply_generator" where
  "lib_freeQueries g = g \<lparr> rg := freeQueries (rg g) \<rparr>"

text \<open>
  \<open>nbRepliesToHandle--\<close> is unsigned: it also wraps around when it is 0. A reply that is not there
  (or beyond the array) is waited for for ever, or read outside: \<open>None\<close>.
\<close>

definition popReply :: "reply_generator \<Rightarrow> (u8 list option \<times> reply_generator) option" where
  "popReply g =
     (let n = nbRepliesToHandle g; g = g \<lparr> nbRepliesToHandle := n - 1 \<rparr>
      in if n = 0 then Some (None, g)
         else case repliesArray (rg g) of
                None \<Rightarrow> None
              | Some arr \<Rightarrow>
                  if currentReply g < length arr
                  then map_option (\<lambda>r. (Some (cipher_bytes r),
                         g \<lparr> rg := (rg g) \<lparr> repliesArray := Some (arr[currentReply g := None]) \<rparr>, currentReply := currentReply g + 1 \<rparr>))
                       (arr ! currentReply g)
                  else None)"

definition getnbRepliesGenerated :: "reply_generator \<Rightarrow> nat" where
  "getnbRepliesGenerated g = nbRepliesGenerated g"

definition getReplyElementBytesize :: "reply_generator \<Rightarrow> nat" where
  "getReplyElementBytesize g = getCiphertextBitsize (rg_crypto (rg g)) div 8"

section \<open>A session\<close>

text \<open>
  Loops that pop until there is nothing left, \<open>while (pop(x)) push(x)\<close>; \<open>None\<close> when they do not end.
\<close>

partial_function (option) pump ::
    "('a \<Rightarrow> ('x option \<times> 'a) option) \<Rightarrow> ('x \<Rightarrow> 'b \<Rightarrow> 'b option) \<Rightarrow> 'a \<Rightarrow> 'b \<Rightarrow> ('a \<times> 'b) option" where
  [code]: "pump pop push a b =
     (case pop a of
        None \<Rightarrow> None
      | Some (x, a) \<Rightarrow>
          (case x of
             None \<Rightarrow> Some (a, b)
           | Some x \<Rightarrow> (case push x b of None \<Rightarrow> None | Some b \<Rightarrow> pump pop push a b)))"

text \<open>The result buffer is filled chunk by chunk; a chunk shorter than the copy is \<open>None\<close>.\<close>

definition copy_chunk :: "nat \<Rightarrow> u8 list \<Rightarrow> u8 list \<times> nat \<Rightarrow> (u8 list \<times> nat) option" where
  "copy_chunk n tmp state =
     (let (result, outptr) = state
      in if length tmp < n then None else map_option (\<lambda>m. (m, outptr + n)) (write_at result outptr (take n tmp)))"

text \<open>
  \<open>run\<close>: the cryptosystem has its parameters; \<open>rnd\<close> are the random words of the query, \<open>room\<close> the
  capacity of the queues. The result is the buffer that the client has at the end.
\<close>

definition simplepir_run ::
    "(nat \<Rightarrow> nat \<Rightarrow> u64 list \<times> u64 list) \<Rightarrow> nat \<Rightarrow> db_handler \<Rightarrow> nat \<Rightarrow> pir_parameters \<Rightarrow> lwe \<Rightarrow> u8 list option" where
  "simplepir_run rnd room db chosen_element P L0 =
     (let L = snd (setandgetAbsBitPerCiphertext (pir_n P ! 0) L0);
          C = lwe_crypto L;
          bytes = db_getmaxFileBytesize db
      in Option.bind (lib_generateQuery rnd chosen_element (query_generator_new P C room)) (\<lambda>q_generator.
         Option.bind (pump popQuery lib_pushQuery q_generator (PIRReplyGenerator P L db)) (\<lambda>(_, r_generator).
         Option.bind (importData 0 bytes r_generator) (\<lambda>(imported_db, r_generator).
         Option.bind (lib_generateReply imported_db r_generator) (\<lambda>r_generator.
         Option.bind (pump popReply pushEncryptedReply r_generator (reply_extraction_new P C room)) (\<lambda>(_, r_extractor).
         Option.bind (lib_extractReply bytes r_extractor) (\<lambda>r_extractor.
           let n = getPlaintextReplyBytesize r_extractor
           in map_option (\<lambda>(_, result, _). result)
                (pump popPlaintextResult (copy_chunk n) r_extractor
                  (replicate (getnbPlaintextReplies bytes r_extractor * n) 0, 0)))))))))"

end
