(* ===== verification/RingPIR.thy ===== *)
theory RingPIR
  imports LibPIR QueryGen
begin

text \<open>
  The whole session of \<open>apps/simplepir/simplePIR.cpp\<close>: the query reaches the generator, the database
  is imported, the reply is generated, extracted and put together, and the client has the element
  it asked for.
\<close>

section \<open>The query reaches the generator\<close>

lemma pushQuery_step:
  assumes c: "cipher_shape (rg_crypto g) c" and b: "queriesBuf g = Some buf" "j < length buf" "i < length (buf ! j)"
    and at: "current_dim_index g = j" "current_query_index g = i" and n: "pir_n (rg_params g) ! j = length (buf ! j)"
  shows "pushQuery (cipher_bytes c) g = Some (g \<lparr>
    queriesBuf := Some (buf[j := (buf ! j)[i := Some (query_pair (rg_crypto g) c)]]),
    current_query_index := (if i + 1 = length (buf ! j) then 0 else i + 1),
    current_dim_index := (if i + 1 = length (buf ! j) then j + 1 else j) \<rparr>)"
proof -
  have "chartocipher (rg_crypto g) (cipher_bytes c) = Some c"
    by (rule chartocipher_bytes) (use c in \<open>simp_all add: cipher_shape_def\<close>)
  then show ?thesis
    using b at n by (simp add: pushQuery_def pushQuery_at_def query_pair_def)
qed

lemma pushQuery_dimension:
  assumes c: "\<forall>i < n. cipher_shape (rg_crypto g) (c i)" and b: "queriesBuf g = Some buf" "j < length buf" "length (buf ! j) = n"
    and at: "current_dim_index g = j" "current_query_index g = 0" and n: "pir_n (rg_params g) ! j = n" "0 < n"
  shows "for_each pushQuery (map (\<lambda>i. cipher_bytes (c i)) [0..<n]) g = Some (g \<lparr>
    queriesBuf := Some (buf[j := map (\<lambda>i. Some (query_pair (rg_crypto g) (c i))) [0..<n]]),
    current_query_index := 0, current_dim_index := j + 1 \<rparr>)"
proof -
  let ?row = "\<lambda>i. map (\<lambda>i. Some (query_pair (rg_crypto g) (c i))) [0..<i] @ drop i (buf ! j)"
  let ?st = "\<lambda>i. g \<lparr> queriesBuf := Some (buf[j := ?row i]), current_query_index := (if i = n then 0 else i),
      current_dim_index := (if i = n then j + 1 else j) \<rparr>"
  have "\<exists>s'. for_each (\<lambda>i. pushQuery (cipher_bytes (c i))) [0..<n] g = Some s' \<and> s' = ?st n"
  proof (rule for_each_upt [where I = "\<lambda>i s. s = ?st i"])
    show "g = ?st 0" using b at n(2) by simp
    fix i s assume i: "i < n" and s: "s = ?st i"
    have "(?row i)[i := x] = map (\<lambda>i. Some (query_pair (rg_crypto g) (c i))) [0..<i] @ x # drop (Suc i) (buf ! j)" for x
      using i b(3) by (simp add: list_update_append Cons_nth_drop_Suc [symmetric])
    then have row: "(?row i)[i := Some (query_pair (rg_crypto g) (c i))] = ?row (Suc i)" by simp
    have "pushQuery (cipher_bytes (c i)) s = Some (s \<lparr>
        queriesBuf := Some ((buf[j := ?row i])[j := ((buf[j := ?row i]) ! j)[i := Some (query_pair (rg_crypto s) (c i))]]),
        current_query_index := (if i + 1 = length ((buf[j := ?row i]) ! j) then 0 else i + 1),
        current_dim_index := (if i + 1 = length ((buf[j := ?row i]) ! j) then j + 1 else j) \<rparr>)"
      by (rule pushQuery_step) (use i s c b n in simp_all)
    then show "\<exists>s'. pushQuery (cipher_bytes (c i)) s = Some s' \<and> s' = ?st (Suc i)"
      using i b s row by simp
  qed
  then show ?thesis by (simp add: for_each_map b(3) [symmetric])
qed

text \<open>The whole query: dimension after dimension.\<close>

definition query_rows :: "lwe \<Rightarrow> (nat \<Rightarrow> nat \<Rightarrow> lwe_cipher) \<Rightarrow> nat list \<Rightarrow> (lwe_cipher \<times> lwe_cipher) option list list" where
  "query_rows L c ns = map (\<lambda>j. map (\<lambda>i. Some (query_pair L (c j i))) [0..<ns ! j]) [0..<length ns]"

lemma pushQuery_all:
  assumes c: "\<forall>j < length ns. \<forall>i < ns ! j. cipher_shape (rg_crypto g) (c j i)" and b: "queriesBuf g = Some buf"
    and l: "length buf = length ns" "\<forall>j < length ns. length (buf ! j) = ns ! j" and n: "pir_n (rg_params g) = ns" "\<forall>n \<in> set ns. 0 < n"
    and at: "current_dim_index g = 0" "current_query_index g = 0"
  shows "for_each pushQuery (concat (map (\<lambda>j. map (\<lambda>i. cipher_bytes (c j i)) [0..<ns ! j]) [0..<length ns])) g =
    Some (g \<lparr> queriesBuf := Some (query_rows (rg_crypto g) c ns), current_query_index := 0, current_dim_index := length ns \<rparr>)"
proof -
  let ?row = "\<lambda>j. map (\<lambda>i. Some (query_pair (rg_crypto g) (c j i))) [0..<ns ! j]"
  let ?st = "\<lambda>j. g \<lparr> queriesBuf := Some (map ?row [0..<j] @ drop j buf), current_query_index := 0, current_dim_index := j \<rparr>"
  have "\<exists>s'. for_each (\<lambda>j. for_each pushQuery (map (\<lambda>i. cipher_bytes (c j i)) [0..<ns ! j])) [0..<length ns] g = Some s' \<and>
      s' = ?st (length ns)"
  proof (rule for_each_upt [where I = "\<lambda>j s. s = ?st j"])
    show "g = ?st 0" using b at by simp
    fix j s assume j: "j < length ns" and s: "s = ?st j"
    let ?buf = "map ?row [0..<j] @ drop j buf"
    have bj: "?buf ! j = buf ! j" using j l(1) by (simp add: nth_append)
    have up: "?buf[j := x] = map ?row [0..<j] @ x # drop (Suc j) buf" for x
      using j l(1) by (simp add: list_update_append Cons_nth_drop_Suc [symmetric])
    have "0 < ns ! j" using n(2) j by simp
    have "for_each pushQuery (map (\<lambda>i. cipher_bytes (c j i)) [0..<ns ! j]) s = Some (s \<lparr>
        queriesBuf := Some (?buf[j := map (\<lambda>i. Some (query_pair (rg_crypto s) (c j i))) [0..<ns ! j]]),
        current_query_index := 0, current_dim_index := j + 1 \<rparr>)"
      by (rule pushQuery_dimension) (use j s c l n bj \<open>0 < ns ! j\<close> in simp_all)
    then show "\<exists>s'. for_each pushQuery (map (\<lambda>i. cipher_bytes (c j i)) [0..<ns ! j]) s = Some s' \<and> s' = ?st (Suc j)"
      using s up by simp
  qed
  then show ?thesis using l(1) by (simp add: for_each_concat for_each_map query_rows_def)
qed

text \<open>The rows select the coordinates when the ciphertexts encrypt 1 there and 0 elsewhere.\<close>

lemma query_rows_loaded:
  assumes u: "lwe_setup (rg_crypto g) k A" and d: "pir_d (rg_params g) \<le> length (pir_n (rg_params g))"
    and b: "queriesBuf g = Some (query_rows (rg_crypto g) c (dims (rg_params g)))"
    and n: "\<forall>n \<in> set (dims (rg_params g)). n \<le> 5"
    and cs: "length cs = pir_d (rg_params g)" "\<forall>j < pir_d (rg_params g). cs ! j < pir_n (rg_params g) ! j"
    and c: "\<forall>j < pir_d (rg_params g). \<forall>i < pir_n (rg_params g) ! j.
      c j i = encrypt_uint (rg_crypto g) (rb j i) (ra j i) (if i = cs ! j then 1 else 0)"
  shows "query_loaded g k A cs"
proof -
  let ?ns = "dims (rg_params g)" and ?L = "rg_crypto g"
  note len' = length_dims [OF d]
  have row: "query_rows ?L c ?ns ! j = map (\<lambda>i. Some (query_pair ?L (c j i))) [0..<?ns ! j]" if "j < length ?ns" for j
    using that by (simp add: query_rows_def)
  have len: "length (query_rows ?L c ?ns) = length ?ns" by (simp add: query_rows_def)
  have sel: "lwe_selects ?L k A (?ns ! j) (cs ! j) (map (\<lambda>i. query_pair ?L (c j i)) [0..<?ns ! j])" if j: "j < length ?ns" for j
    unfolding lwe_selects_def
  proof (intro conjI)
    show "lwe_setup ?L k A" by (rule u)
    show "?ns ! j \<le> 5" using n j by simp
    show "\<exists>rb ra. \<forall>u < ?ns ! j. map (\<lambda>i. query_pair ?L (c j i)) [0..<?ns ! j] ! u =
        query_pair ?L (encrypt_uint ?L (rb u) (ra u) (if u = cs ! j then 1 else 0))"
      by (rule exI [of _ "rb j"], rule exI [of _ "ra j"]) (use c j len' in simp)
  qed simp
  show ?thesis
    unfolding query_loaded_def
    by (intro conjI exI [of _ "query_rows ?L c ?ns"])
      (use cs b len' row len sel in \<open>auto simp: Let_def comp_def\<close>)
qed

section \<open>The database in the generator\<close>

lemma represents_zero:
  assumes "lwe_ok L k"
  shows "represents (nflInstance L) k (zero_poly L) (\<lambda>cm i. 0)"
proof -
  let ?N = "nflInstance L"
  note r = lwe_okD(1) [OF assms] and n = lwe_okD(2) [OF assms] and nb = lwe_okD(3) [OF assms]
  have z: "zero_poly L ! (cm * 2 ^ k + j) = 0" if "cm < nbModuli ?N" "j < 2 ^ k" for cm j
    using cell_index(1) [OF that] by (simp add: zero_poly_def n nb mult.commute)
  have "cells ?N k (zero_poly L) lazy"
    using z lwe_prime(1) [OF assms] nb by (simp add: cells_def lazy_def) (simp add: zero_poly_def n nb)
  then have "ntt_form ?N (zero_poly L)" using ntt_form_cells [OF r] by simp
  then show ?thesis
    unfolding represents_def using z ntt_readyD(1) [OF r] by (simp add: coeff_def eval_at_def)
qed

text \<open>Element \<open>s\<close>: the files of group \<open>s\<close> one after the other, filled up to whole blocks.\<close>

definition group_bytes :: "(nat \<Rightarrow> u8 list) \<Rightarrow> nat \<Rightarrow> nat \<Rightarrow> nat \<Rightarrow> nat \<Rightarrow> u8 list" where
  "group_bytes content alpha offset len s = concat (map (\<lambda>i. take len (drop offset (content (s * alpha + i)))) [0..<alpha])"

definition pad_to :: "nat \<Rightarrow> u8 list \<Rightarrow> u8 list" where
  "pad_to n v = v @ replicate (n - length v) 0"

definition element_polys :: "nat \<Rightarrow> nat \<Rightarrow> nat \<Rightarrow> nat" where
  "element_polys k A len = ceil_div (8 * len) (A * 2 ^ k)"

definition element_bytes :: "nat \<Rightarrow> (nat \<Rightarrow> u8 list) \<Rightarrow> nat \<Rightarrow> nat \<Rightarrow> u8 list" where
  "element_bytes n f nb s = (if s < nb then pad_to n (f s) else replicate n 0)"

lemma fold_max_const: "\<forall>x \<in> set xs. length x = n \<Longrightarrow> xs \<noteq> [] \<Longrightarrow> fold (\<lambda>p m. if length p > m then length p else m) xs 0 = n"
proof -
  have f: "fold (\<lambda>p m. if length p > m then length p else m) xs n = n" if "\<forall>x \<in> set xs. length x = n" for xs :: "'a list list"
    using that by (induction xs) simp_all
  assume "\<forall>x \<in> set xs. length x = n" "xs \<noteq> []"
  then show ?thesis using f by (cases xs) auto
qed

lemma element_blocks:
  assumes "1 \<le> A" "8 dvd 2 ^ k * A"
  shows "len \<le> element_polys k A len * block_bytes k A"
proof -
  have "8 * len \<le> element_polys k A len * (A * 2 ^ k)"
    unfolding element_polys_def using assms(1) by (intro ceil_div_mult_ge) simp
  also have "A * 2 ^ k = 8 * block_bytes k A" using assms(2) by (simp add: block_bytes_def mult.commute)
  finally show ?thesis by simp
qed

lemma import_element:
  assumes u: "lwe_setup L k A" and n: "8 \<le> length v" "8 * length v < 2 ^ 63"
  shows "\<exists>d. lwe_deserializeDataNFL L [v] (length v * kBitsPerByte) = Some d \<and> length d = element_polys k A (length v) \<and>
    element_holds L k A (element_polys k A (length v)) d (pad_to (element_polys k A (length v) * block_bytes k A) v)"
proof -
  note D = lwe_setupD [OF u]
  let ?N = "element_polys k A (length v)"
  obtain d where d: "deserializeDataNFL (nflInstance L) [v] (8 * length v) A = Some d"
    "length d = poly_number (8 * length v) 1 A (2 ^ k)"
    "\<forall>P < length d. represents (nflInstance L) k (d ! P) (\<lambda>cm i. int (chunk A (stream (8 * length v) [v]) (P * 2 ^ k + i)))"
    using deserializeDataNFL_represents [OF D(2), of A "8 * length v" "[v]"] n D(7,8) by auto
  have s: "stream (8 * length v) [v] = memval v" using stream_concat [of "[v]"] by simp
  have len: "length d = ?N" using d(2) by (simp add: poly_number_def element_polys_def)
  have "length v \<le> ?N * block_bytes k A" using D(7,10) by (intro element_blocks) (simp_all add: dvd_def, metis)
  then have "element_holds L k A ?N d (pad_to (?N * block_bytes k A) v)"
    using d(3) len unfolding s element_holds_def by (simp add: pad_to_def memval_append_zeros)
  then show ?thesis
    using d(1) len D(3,5) by (simp add: lwe_deserializeDataNFL_def kBitsPerByte_def mult.commute)
qed

text \<open>The import through any database that keeps its contract.\<close>

context database
begin

lemma length_group:
  "off \<le> db_getmaxFileBytesize db \<Longrightarrow> len \<le> db_getmaxFileBytesize db - off \<Longrightarrow>
   length (group_bytes content alpha off len s) = alpha * len"
  using length_concat_const [of "map (\<lambda>i. take len (drop off (content (s * alpha + i)))) [0..<alpha]" len]
  by (simp add: group_bytes_def length_content)

lemma importDataNFL_holds:
  fixes bytes off k A :: nat and g :: nfl_generator
  assumes g: "rg_db g = db" "lwe_setup (rg_crypto g) k A"
    and P: "0 < pir_alpha (rg_params g)" "db_getNbStream db = nb * pir_alpha (rg_params g)" "nb \<le> product_from 0 (rg_params g)" "0 < nb"
    and off: "off \<le> db_getmaxFileBytesize db"
  defines "len \<equiv> min bytes (db_getmaxFileBytesize db - off)"
  assumes sz: "8 \<le> pir_alpha (rg_params g) * len" "8 * (pir_alpha (rg_params g) * len) < 2 ^ 63"
  defines "N \<equiv> element_polys k A (pir_alpha (rg_params g) * len)"
  shows "\<exists>data. importDataNFL off bytes g = Some (g \<lparr> currentMaxNbPolys := N, input_data := Some data \<rparr>) \<and>
    length data = product_from 0 (rg_params g) \<and>
    (\<forall>u < length data. element_holds (rg_crypto g) k A N (data ! u)
      (element_bytes (N * block_bytes k A) (group_bytes content (pir_alpha (rg_params g)) off len) nb u))"
proof -
  let ?L = "rg_crypto g" and ?alpha = "pir_alpha (rg_params g)" and ?T = "product_from 0 (rg_params g)"
  let ?group = "group_bytes content ?alpha off len" and ?B = "block_bytes k A"
  note D = lwe_setupD [OF g(2)]
  have lg: "length (?group s) = ?alpha * len" for s using length_group [OF off, of len] by (simp add: len_def)
  let ?holds = "\<lambda>s d. length d = N \<and> element_holds ?L k A N d (pad_to (N * ?B) (?group s))"
  let ?body = "\<lambda>i (rawBits, elements). case db_readAggregatedStream db i ?alpha off bytes rawBits of
      None \<Rightarrow> None
    | Some rawBits \<Rightarrow> map_option (\<lambda>p. (rawBits, elements @ [p]))
        (lwe_deserializeDataNFL ?L [rawBits] (len * ?alpha * kBitsPerByte))"
  let ?I = "\<lambda>i (rawBits :: u8 list, elements). length rawBits = ?alpha * len \<and> length elements = i \<and> (\<forall>s < i. ?holds s (elements ! s))"
  have "\<exists>s'. for_each ?body [0..<nb] (replicate (len * ?alpha) 0, []) = Some s' \<and> ?I nb s'"
  proof (rule for_each_upt [where I = ?I])
    show "?I 0 (replicate (len * ?alpha) 0, [])" by (simp add: mult.commute)
    fix i and st :: "u8 list \<times> lwe_in_data list"
    assume i: "i < nb" and I: "?I i st"
    obtain raw elements where st: "st = (raw, elements)" "length raw = ?alpha * len" "length elements = i" "\<forall>s < i. ?holds s (elements ! s)"
      using I by (cases st) auto
    have "Suc i * ?alpha \<le> nb * ?alpha" using i by (intro mult_le_mono1) simp
    then have "db_readAggregatedStream db i ?alpha off bytes raw = Some (?group i)"
      using whole_group [of ?alpha i off raw bytes] P(1,2) off st(2) by (simp add: len_def group_bytes_def)
    moreover obtain d where "lwe_deserializeDataNFL ?L [?group i] (len * ?alpha * kBitsPerByte) = Some d" "?holds i d"
      using import_element [OF g(2), of "?group i"] sz by (auto simp: lg N_def mult.commute)
    ultimately show "\<exists>s'. ?body i st = Some s' \<and> ?I (Suc i) s'"
      using st by (intro exI [of _ "(?group i, elements @ [d])"]) (auto simp: lg nth_append less_Suc_eq)
  qed
  then obtain raw elements where el: "for_each ?body [0..<nb] (replicate (len * ?alpha) 0, []) = Some (raw, elements)"
    "length elements = nb" "\<forall>s < nb. ?holds s (elements ! s)" by auto
  have "fold (\<lambda>p m. if length p > m then length p else m) elements 0 = N"
    using el(2,3) P(4) by (intro fold_max_const) (auto simp: in_set_conv_nth)
  moreover have m: "min bytes (u64_diff (db_getmaxFileBytesize db) off) = len" using off by (simp add: len_def)
  moreover have c: "ceil_div (nb * ?alpha) ?alpha = nb" using P(1) by simp
  ultimately have res: "importDataNFL off bytes g = Some (g \<lparr> currentMaxNbPolys := N,
      input_data := Some (elements @ replicate (?T - nb) (replicate N (zero_poly ?L))) \<rparr>)"
    using el(1) P(1,3,4) unfolding importDataNFL_def Let_def g(1) P(2) m c by simp
  have zero: "element_holds ?L k A N (replicate N (zero_poly ?L)) (replicate (N * ?B) 0)"
    using represents_zero [OF D(1)] by (simp add: element_holds_def chunk_def)
  have "element_holds ?L k A N ((elements @ replicate (?T - nb) (replicate N (zero_poly ?L))) ! u)
      (element_bytes (N * ?B) ?group nb u)" if "u < ?T" for u
    using that el(2,3) zero by (simp add: nth_append element_bytes_def)
  then show ?thesis using res el(2) P(3) by auto
qed

end

section \<open>Moving what one side hands out to the other\<close>

inductive delivers :: "('a \<Rightarrow> ('x option \<times> 'a) option) \<Rightarrow> 'a \<Rightarrow> 'x list \<Rightarrow> 'a \<Rightarrow> bool" for pop where
  over: "pop a = Some (None, a') \<Longrightarrow> delivers pop a [] a'"
| item: "pop a = Some (Some x, a1) \<Longrightarrow> delivers pop a1 xs a' \<Longrightarrow> delivers pop a (x # xs) a'"

lemma pump_delivers:
  "delivers pop a xs a' \<Longrightarrow> for_each push xs b = Some b' \<Longrightarrow> pump pop push a b = Some (a', b')"
proof (induction arbitrary: b rule: delivers.induct)
  case (over a a')
  then show ?case by (subst pump.simps) simp
next
  case (item a x a1 xs a')
  then show ?case by (subst pump.simps) (simp split: option.splits)
qed

lemma popQuery_delivers:
  "sq_ok (queryBuffer g) \<Longrightarrow> queue_data (queryBuffer g) = xs \<Longrightarrow> nbQueries g = length xs \<Longrightarrow> \<exists>g'. delivers popQuery g xs g'"
proof (induction xs arbitrary: g)
  case Nil
  then have "popQuery g = Some (None, g)" by (simp add: popQuery_def)
  then show ?case by (blast intro: delivers.over)
next
  case (Cons x xs)
  then obtain q where q: "sq_pop_front (queryBuffer g) = Some (x, q)" "sq_ok q" "queue_data q = xs"
    using sq.get_some [of "queryBuffer g" x xs] by blast
  let ?g = "g \<lparr> queryBuffer := q, nbQueries := nbQueries g - 1 \<rparr>"
  have "popQuery g = Some (Some x, ?g)" using q(1) Cons.prems(3) by (simp add: popQuery_def)
  moreover obtain g' where "delivers popQuery ?g xs g'" using Cons.IH [of ?g] q Cons.prems(3) by auto
  ultimately show ?case by (blast intro: delivers.item)
qed

lemma popPlaintextResult_delivers:
  "sq_ok (clearChunks g) \<Longrightarrow> queue_data (clearChunks g) = xs \<Longrightarrow> nbPlaintextReplies g = length xs \<Longrightarrow>
   \<exists>g'. delivers popPlaintextResult g xs g'"
proof (induction xs arbitrary: g)
  case Nil
  then have "popPlaintextResult g = Some (None, g)" by (simp add: popPlaintextResult_def)
  then show ?case by (blast intro: delivers.over)
next
  case (Cons x xs)
  then obtain q where q: "sq_pop_front (clearChunks g) = Some (x, q)" "sq_ok q" "queue_data q = xs"
    using sq.get_some [of "clearChunks g" x xs] by blast
  let ?g = "g \<lparr> clearChunks := q, nbPlaintextReplies := nbPlaintextReplies g - 1 \<rparr>"
  have "popPlaintextResult g = Some (Some x, ?g)" using q(1) Cons.prems(3) by (simp add: popPlaintextResult_def)
  moreover obtain g' where "delivers popPlaintextResult ?g xs g'" using Cons.IH [of ?g] q Cons.prems(3) by auto
  ultimately show ?case by (blast intro: delivers.item)
qed

lemma popReply_delivers:
  assumes "repliesArray (rg g) = Some arr" "drop (currentReply g) arr = map Some rs @ rest" "nbRepliesToHandle g = of_nat (length rs)"
    and "length rs < 2 ^ 64" "currentReply g + length rs \<le> length arr"
  shows "\<exists>g'. delivers popReply g (map cipher_bytes rs) g' \<and> nbRepliesToHandle g' = - 1"
  using assms
proof (induction rs arbitrary: g arr)
  case Nil
  then have "popReply g = Some (None, g \<lparr> nbRepliesToHandle := - 1 \<rparr>)" by (simp add: popReply_def Let_def)
  then show ?case by (auto intro: delivers.over)
next
  case (Cons r rs)
  let ?i = "currentReply g"
  let ?g = "g \<lparr> nbRepliesToHandle := of_nat (length rs),
      rg := (rg g) \<lparr> repliesArray := Some (arr[?i := None]) \<rparr>, currentReply := ?i + 1 \<rparr>"
  have i: "?i < length arr" using Cons.prems(5) by simp
  have r: "arr ! ?i = Some r" "drop (Suc ?i) arr = map Some rs @ rest"
    using Cons.prems(2) Cons_nth_drop_Suc [OF i] by auto
  have "(of_nat (length (r # rs)) :: u64) \<noteq> 0"
    using Cons.prems(4) by (simp add: word_unat_eq_iff unat_of_nat del: of_nat_Suc)
  then have "popReply g = Some (Some (cipher_bytes r), ?g)"
    using Cons.prems(1,3) i r(1) by (simp add: popReply_def Let_def)
  moreover obtain g' where "delivers popReply ?g (map cipher_bytes rs) g'" "nbRepliesToHandle g' = - 1"
    using Cons.IH [of ?g "arr[?i := None]"] Cons.prems(4,5) r(2) by auto
  ultimately show ?case by (auto intro: delivers.item)
qed

lemma for_each_rg: "for_each lib_pushQuery xs g = map_option (\<lambda>r. g \<lparr> rg := r \<rparr>) (for_each pushQuery xs (rg g))"
proof (induction xs arbitrary: g)
  case Nil
  then show ?case by simp
next
  case (Cons x xs)
  then show ?case by (cases "pushQuery x (rg g)") (simp_all add: lib_pushQuery_def)
qed

lemma for_each_pushEncryptedReply:
  "sq_ok (repliesBuffer g) \<Longrightarrow> length (queue_data (repliesBuffer g)) + length xs \<le> sq_capacity (repliesBuffer g) \<Longrightarrow>
   \<exists>q. for_each pushEncryptedReply xs g = Some (g \<lparr> repliesBuffer := q \<rparr>) \<and> sq_ok q \<and>
     queue_data q = queue_data (repliesBuffer g) @ xs"
proof (induction xs arbitrary: g)
  case Nil
  then show ?case by (auto intro!: exI [of _ "repliesBuffer g"])
next
  case (Cons x xs)
  then have "length (queue_data (repliesBuffer g)) < sq_capacity (repliesBuffer g)" by simp
  from sq.put_room [OF Cons.prems(1) this, of x] obtain q where q: "sq_push x (repliesBuffer g) = Some q" "sq_ok q"
    "queue_data q = queue_data (repliesBuffer g) @ [x]" "sq_capacity q = sq_capacity (repliesBuffer g)" by blast
  then obtain q' where "for_each pushEncryptedReply xs (g \<lparr> repliesBuffer := q \<rparr>) = Some (g \<lparr> repliesBuffer := q' \<rparr>)" "sq_ok q'"
    "queue_data q' = queue_data q @ xs"
    using Cons.IH [of "g \<lparr> repliesBuffer := q \<rparr>"] Cons.prems(2) by auto
  moreover have "pushEncryptedReply x g = Some (g \<lparr> repliesBuffer := q \<rparr>)" using q(1) by (simp add: pushEncryptedReply_def)
  ultimately show ?case using q(3) by auto
qed

lemma for_each_copy_chunk:
  assumes "\<forall>x \<in> set outs. n \<le> length x" "length outs * n = length m"
  shows "\<exists>p. for_each (copy_chunk n) outs (m, 0) = Some (concat (map (take n) outs), p)"
proof -
  have "for_each (copy_chunk n) (take j outs) (m, 0) = Some (concat (map (take n) (take j outs)) @ drop (j * n) m, j * n)"
    if "j \<le> length outs" for j
    using that
  proof (induction j)
    case (Suc j)
    let ?pre = "concat (map (take n) (take j outs))" and ?x = "outs ! j"
    have x: "n \<le> length ?x" using assms(1) Suc.prems by simp
    have "\<forall>x \<in> set (take j outs). length (take n x) = n" using assms(1) by (metis in_set_takeD length_take min.absorb2)
    then have "length ?pre = j * n"
      using length_concat_const [of "map (take n) (take j outs)" n] Suc.prems by simp
    moreover have "j * n + n \<le> length m" using mult_le_mono1 [OF Suc.prems, of n] assms(2) by simp
    ultimately have "write_at (?pre @ drop (j * n) m) (j * n) (take n ?x) = Some (?pre @ take n ?x @ drop (j * n + n) m)"
      using x by (simp add: write_at_def add.commute)
    then have "copy_chunk n ?x (?pre @ drop (j * n) m, j * n) = Some (?pre @ take n ?x @ drop (Suc j * n) m, Suc j * n)"
      using x by (simp add: copy_chunk_def add.commute)
    then show ?case using Suc by (simp add: take_Suc_conv_app_nth for_each_append)
  qed simp
  from this [of "length outs"] show ?thesis using assms(2) by simp
qed

section \<open>The extraction on \<open>NFLLWE\<close>\<close>

lemma lwe_sizes:
  assumes "lwe_setup L k A"
  shows "data_size (lwe_crypto L) i = 16 * 2 ^ k" "data_size2b (lwe_crypto L) i = block_bytes k A"
    "crypto_absorption (lwe_crypto L) i div kBitsPerByte = block_bytes k A"
    "crypto_ciph_bits (lwe_crypto L) i div kBitsPerByte = 16 * 2 ^ k"
  using lwe_setupD(5,6,10) [OF assms]
  by (simp_all add: data_size_def data_size2b_def lwe_crypto_def kBitsPerByte_def getCiphBitsizeFromRecLvl_def block_bytes_def)

lemma lwe_decrypt_one: "decrypt_one (lwe_crypto L) i x = Option.bind (chartocipher L x) (decrypt L)"
  by (simp add: decrypt_one_def lwe_crypto_def)

lemma chartocipher_shape: "cipher_shape L c \<Longrightarrow> chartocipher L (cipher_bytes c) = Some c"
  by (rule chartocipher_bytes) (simp_all add: cipher_shape_def)

text \<open>A level of bytes that are read as the ciphertexts \<open>r\<close>.\<close>

lemma lwe_good_level:
  assumes r: "lwe_proper L k A (N i) r" and x: "length xs = length r" "\<forall>j < length r. chartocipher L (xs ! j) = Some (r ! j)"
  shows "good_level (lwe_crypto L) N i xs" "read_level (lwe_crypto L) i xs = read_reply L k A r"
proof -
  have u: "lwe_setup L k A" and len: "length r = N i"
    and d: "\<forall>c \<in> set r. \<exists>out. decrypt L c = Some out \<and> block_bytes k A \<le> length out"
    using r by (auto simp: lwe_proper_def)
  have one: "decrypt_one (lwe_crypto L) i (xs ! j) = decrypt L (r ! j)" if "j < length r" for j
    using x(2) that by (simp add: lwe_decrypt_one)
  show "good_level (lwe_crypto L) N i xs"
    unfolding good_level_def lwe_sizes [OF u]
  proof (intro conjI ballI)
    show "length xs = N i" using x(1) len by simp
    fix y assume "y \<in> set xs"
    then obtain j where j: "j < length r" "y = xs ! j" using x(1) by (metis in_set_conv_nth)
    then have "r ! j \<in> set r" by simp
    then show "\<exists>out. decrypt_one (lwe_crypto L) i y = Some out \<and> block_bytes k A \<le> length out"
      using d one [OF j(1)] j(2) by simp
  qed
  have "map (\<lambda>x. take (block_bytes k A) (the (decrypt_one (lwe_crypto L) i x))) xs =
      map (\<lambda>c. take (block_bytes k A) (the (decrypt L c))) r"
    using x(1) one by (intro nth_equalityI) simp_all
  then show "read_level (lwe_crypto L) i xs = read_reply L k A r"
    by (simp add: read_level_def read_reply_def lwe_sizes [OF u])
qed

lemma length_read_reply:
  assumes "lwe_proper L k A n r"
  shows "length (read_reply L k A r) = n * block_bytes k A"
proof -
  have "good_level (lwe_crypto L) (\<lambda>_. n) 0 (map cipher_bytes r)" "read_level (lwe_crypto L) 0 (map cipher_bytes r) = read_reply L k A r"
    using lwe_good_level [of L k A "\<lambda>_. n" 0 r "map cipher_bytes r"] assms chartocipher_shape by (auto simp: lwe_proper_def)
  from length_read_level [OF this(1)] this(2) show ?thesis
    using assms by (simp add: lwe_sizes lwe_proper_def)
qed

text \<open>The recursion on bytes is the recursion on ciphertexts.\<close>

lemma lwe_client_levels:
  fixes L k A N0
  defines "N \<equiv> level_polys k A N0" and "C \<equiv> lwe_crypto L"
  assumes "client_proper (\<lambda>i. lwe_proper L k A (N i)) (\<lambda>i. read_reply L k A) (\<lambda>i. parse_reply L k (N i)) i m r"
  shows "client_good C N i m (map cipher_bytes r) \<and> client_value C N i m (map cipher_bytes r) =
      client_levels (\<lambda>i. read_reply L k A) (\<lambda>i. parse_reply L k (N i)) i m r \<and>
    length (client_value C N i m (map cipher_bytes r)) = N i * block_bytes k A"
  using assms(3)
proof (induction m arbitrary: i)
  case 0
  then have p: "lwe_proper L k A (N i) r" by simp
  have x: "\<forall>j < length r. chartocipher L (map cipher_bytes r ! j) = Some (r ! j)"
    using p chartocipher_shape by (simp add: lwe_proper_def)
  show ?case using lwe_good_level [of L k A N i r, OF p length_map x] length_read_reply [OF p] by (simp add: C_def)
next
  case (Suc m)
  let ?v = "client_levels (\<lambda>i. read_reply L k A) (\<lambda>i. parse_reply L k (N i)) (Suc i) m r"
  let ?r = "parse_reply L k (N i) ?v"
  have IH: "client_good C N (Suc i) m (map cipher_bytes r)" "client_value C N (Suc i) m (map cipher_bytes r) = ?v"
    "length ?v = N (Suc i) * block_bytes k A"
    using Suc.IH [of "Suc i"] Suc.prems by auto
  have p: "lwe_proper L k A (N i) ?r" using Suc.prems by simp
  then have u: "lwe_setup L k A" by (simp add: lwe_proper_def)
  note D = lwe_setupD [OF u]
  have "8 dvd 2 ^ k * A" by (rule dvdI) (rule D(10) [symmetric])
  from level_polys_enough [OF D(7) this] have room: "N i * (16 * 2 ^ k) \<le> length ?v"
    unfolding IH(3) unfolding N_def level_bytes_def .
  have len: "length (parse_level C N i ?v) = length ?r" by (simp add: parse_level_def parse_reply_def)
  have "\<forall>j < length ?r. chartocipher L (parse_level C N i ?v ! j) = Some (?r ! j)"
  proof (intro allI impI)
    fix j assume "j < length ?r"
    then have j: "j < N i" by (simp add: parse_reply_def)
    then have "Suc j * (16 * 2 ^ k) \<le> N i * (16 * 2 ^ k)" by (intro mult_le_mono1) simp
    then have "16 * 2 ^ k \<le> length (drop (j * (16 * 2 ^ k)) ?v)" using room by simp
    then have "\<exists>c. chartocipher L (drop (j * (16 * 2 ^ k)) ?v) = Some c"
      by (simp add: chartocipher_def Let_def D(12) [simplified])
    then show "chartocipher L (parse_level C N i ?v ! j) = Some (?r ! j)"
      using j by (auto simp: parse_level_def parse_reply_def lwe_sizes [OF u] C_def)
  qed
  note L = lwe_good_level [of L k A N i ?r, OF p len this, folded C_def]
  show ?case using IH L length_read_reply [OF p] by simp
qed

section \<open>The counts\<close>

lemma level_polys_step:
  assumes "8 * B = 2 ^ k * A" "0 < B"
  shows "ceil_div (n * (16 * 2 ^ k)) B = poly_number (128 * 2 ^ k) n A (2 ^ k)"
proof -
  have "poly_number (128 * 2 ^ k) n A (2 ^ k) = ceil_div (8 * (n * (16 * 2 ^ k))) (8 * B)"
    unfolding poly_number_def assms(1) by (simp add: ac_simps)
  then show ?thesis using ceil_div_cancel [OF _ assms(2), of 8 "n * (16 * 2 ^ k)"] by (simp only: zero_less_numeral)
qed

lemma computeReplySize_levels:
  assumes u: "lwe_setup (rg_crypto g) k A" and d: "0 < pir_d (rg_params g)"
  shows "computeReplySizeInChunks m g = level_polys k A (element_polys k A (pir_alpha (rg_params g) * m)) (pir_d (rg_params g) - 1)"
proof -
  note D = lwe_setupD [OF u]
  let ?N = "element_polys k A (pir_alpha (rg_params g) * m)"
  have "fold (\<lambda>i out. ceil_div (out * (getCiphBitsizeFromRecLvl (rg_crypto g) i div kBitsPerByte)) (getAbsorptionBitsize (rg_crypto g) div kBitsPerByte))
      [1..<Suc j] ?N = level_polys k A ?N j" for j
    by (induction j)
      (simp_all add: getCiphBitsizeFromRecLvl_def D(5,6) kBitsPerByte_def
        level_polys_step [OF D(10) D(11), unfolded block_bytes_def])
  from this [of "pir_d (rg_params g) - 1"] d
  show ?thesis
    by (simp add: computeReplySizeInChunks_def Let_def element_polys_def D(5) kBitsPerByte_def ac_simps)
qed

lemma block_bytes_small:
  assumes "lwe_setup L k A"
  shows "block_bytes k A < 2 ^ 24" "A < 2 ^ 24"
proof -
  note D = lwe_setupD [OF assms]
  have "(2 :: nat) ^ k * A \<le> 2 ^ 13 * 57" using D(8,9) by (intro mult_le_mono power_increasing) simp_all
  then show "block_bytes k A < 2 ^ 24" using D(10) by simp
  show "A < 2 ^ 24" using D(8) by simp
qed

text \<open>The client computes the same numbers in \<open>float\<close> as long as they are below \<open>2^17\<close>.\<close>

lemma lwe_ciphertext_count:
  assumes u: "lwe_setup L k A" and a: "agg < 2 ^ 24" and b: "\<forall>j < i. level_polys k A (element_polys k A agg) j < 2 ^ 17"
  shows "ciphertext_count (lwe_crypto L) agg (i + 1) = level_polys k A (element_polys k A agg) i"
  using b
proof (induction i)
  case 0
  note D = lwe_setupD [OF u]
  have "float_ceil_div agg (block_bytes k A) = ceil_div agg (block_bytes k A)"
    using a D(11) block_bytes_small [OF u] by (intro float_ceil_div_exact)
  also have "\<dots> = element_polys k A agg"
    using D(11) by (simp add: element_polys_def D(10) [symmetric] mult.commute [of A] ceil_div_cancel)
  finally show ?case by (simp add: ciphertext_count_def lwe_sizes [OF u])
next
  case (Suc i)
  note D = lwe_setupD [OF u]
  let ?c = "level_polys k A (element_polys k A agg) i"
  have c: "?c < 2 ^ 17" using Suc.prems by simp
  have "float_ceil_mult_div ?c (1 * 2 ^ (k + 4)) (block_bytes k A * 2 ^ 0) = ceil_div (128 * ?c) A"
  proof (rule float_ceil_mult_div_words)
    have "?c * 1 * 2 ^ (k + 4) * A = 16 * ?c * (2 ^ k * A)" by (simp add: power_add)
    also have "\<dots> = 128 * ?c * (block_bytes k A * 2 ^ 0)" unfolding D(10) [symmetric] by simp
    finally show "?c * 1 * 2 ^ (k + 4) * A = 128 * ?c * (block_bytes k A * 2 ^ 0)" .
  qed (use c D(7,11) block_bytes_small [OF u] in simp_all)
  also have "\<dots> = ceil_div (2 ^ k * (128 * ?c)) (2 ^ k * A)" using D(7) by (simp add: ceil_div_cancel)
  also have "\<dots> = level_polys k A (element_polys k A agg) (Suc i)" by (simp add: poly_number_def ac_simps)
  finally have "float_ceil_mult_div ?c (16 * 2 ^ k) (block_bytes k A) = level_polys k A (element_polys k A agg) (Suc i)"
    by (simp add: power_add mult.commute)
  then show ?case using Suc by (simp add: ciphertext_count_def lwe_sizes [OF u])
qed

section \<open>Setting the absorption\<close>

lemma recompute_eq:
  assumes "length (Abit_mod L) = lwe_nbModuli L" "length (Abit_mod_shoup L) = lwe_nbModuli L"
  shows "recomputeNoiseAmplifiers L = L \<lparr> Abit_mod := replicate (lwe_nbModuli L) 0,
    Abit_mod_shoup := map (\<lambda>cm. shoup_quotient 0 (lwe_moduli L ! cm)) [0..<lwe_nbModuli L] \<rparr>"
proof -
  have "Abit_mod_shoup (recomputeNoiseAmplifiers L) = map (\<lambda>cm. shoup_quotient 0 (lwe_moduli L ! cm)) [0..<lwe_nbModuli L]"
    using recompute_amplifiers(2,3) [OF assms] by (intro nth_equalityI) simp_all
  then show ?thesis
    using recompute_amplifiers(1) [OF assms] by (simp add: recomputeNoiseAmplifiers_def split_beta Let_def)
qed

text \<open>\<open>setandgetAbsBitPerCiphertext\<close> is as good as giving the absorption with the parameters.\<close>

lemma setandget_setNewParameters:
  assumes "lwe_setNewParameters mpz_invert rnd degree bits a L00 = Inr L0"
  shows "lwe_setNewParameters mpz_invert rnd degree bits (fst (setandgetAbsBitPerCiphertext n L0)) L00 =
    Inr (snd (setandgetAbsBitPerCiphertext n L0))"
proof -
  let ?z = "fst (setandgetAbsBitPerCiphertext n L0)"
  obtain nfl where nfl: "setNewParameters mpz_invert degree bits (nflInstance L00) = Inr nfl"
    using assms by (cases "setNewParameters mpz_invert degree bits (nflInstance L00)") (simp_all add: lwe_setNewParameters_def)
  define W where "W a = (let nb = getnbModuli nfl; sk = map (\<lambda>cm. slice degree cm (allocBoundedRandomPoly nfl 0 True rnd)) [0..<nb] in
    (clearSecretKeys (L00 \<lparr> absPerCoordinateBitsize := a, noise_ub := of_nat (5 * securityBits L00 div 2), lwe_polyDegree := degree, nflInstance := nfl \<rparr>))
      \<lparr> lwe_nbModuli := nb, oldNbModuli := nb, lwe_moduli := getmoduli nfl, secretKey := sk,
         secretKeyShoup := map (\<lambda>cm. map (\<lambda>i. shoup_quotient (sk ! cm ! i) (getmoduli nfl ! cm)) [0..<degree]) [0..<nb],
         Abit_mod := replicate nb 0, Abit_mod_shoup := replicate nb 0 \<rparr>)" for a
  have set: "lwe_setNewParameters mpz_invert rnd degree bits a L00 = Inr (recomputeNoiseAmplifiers (W a))" for a
    using nfl by (simp add: lwe_setNewParameters_def W_def Let_def)
  have W: "W b = (W a) \<lparr> absPerCoordinateBitsize := b \<rparr>" for a b by (simp add: W_def Let_def clearSecretKeys_def)
  have len: "length (Abit_mod (W a)) = lwe_nbModuli (W a)" "length (Abit_mod_shoup (W a)) = lwe_nbModuli (W a)" for a
    by (simp_all add: W_def Let_def)
  have L0: "L0 = recomputeNoiseAmplifiers (W a)" using assms set by simp
  have "snd (setandgetAbsBitPerCiphertext n L0) = recomputeNoiseAmplifiers (L0 \<lparr> absPerCoordinateBitsize := ?z \<rparr>)"
    by (simp add: setandgetAbsBitPerCiphertext_def Let_def)
  also have "\<dots> = recomputeNoiseAmplifiers (W ?z)"
    unfolding W [of ?z a] unfolding L0 recompute_eq [OF len] by (subst (1 2) recompute_eq) (simp_all add: W_def Let_def)
  finally show ?thesis using set by simp
qed

lemma product_from_prod: "product_from 0 P = prod_list (map ((!) (pir_n P)) [0..<pir_d P])"
proof -
  have "fold (\<lambda>j r. r * f j) xs a = a * prod_list (map f xs)" for f :: "nat \<Rightarrow> nat" and xs :: "nat list" and a
    by (induction xs arbitrary: a) (simp_all add: mult.assoc)
  then show ?thesis by (simp add: product_from_def)
qed

section \<open>The session\<close>

lemma encrypt_uint_shape:
  assumes "lwe_setup L k A" "b \<in> {0, 1}"
  shows "cipher_shape L (encrypt_uint L rb ra b)"
proof -
  note D = lwe_setupD [OF assms(1)]
  have "0 < getAbsorptionBitsize L" using D(5,7) by simp
  then have b: "encrypt_uint_arg L b = b" using assms(2) by (auto simp: encrypt_uint_arg_def log2_ceil_def)
  have "1 < unat (lwe_moduli L ! cm)" if "cm < lwe_nbModuli L" for cm
    using ntt_readyD(3) [OF D(2), of cm] that lwe_okD(3,4) [OF D(1)] by simp
  then have "reduced (nflInstance L) (constant_poly L (ucast b))"
    using assms(2) by (intro constant_poly_reduced [OF D(1)]) fastforce
  then have "reduced (nflInstance L) (cipher_a (encrypt_uint L rb ra b))" "reduced (nflInstance L) (cipher_b (encrypt_uint L rb ra b))"
    using enc_correct(2,3) [OF D(1)] by (simp_all add: encrypt_uint_def b)
  then show ?thesis
    using lwe_okD(3) [OF D(1)] ntt_readyD(1) [OF D(2)] D(3) by (simp add: cipher_shape_def reduced_def)
qed

text \<open>The client's part until the generator has the whole query.\<close>

lemma session_query:
  fixes P x rnd room db L
  defines "C \<equiv> lwe_crypto L" and "ns \<equiv> pir_n P"
  assumes u: "lwe_setup L k A" and P: "pir_d P = length ns" "\<forall>n \<in> set ns. 0 < n \<and> n \<le> 5" and room: "sum_list ns \<le> room"
  shows "\<exists>q q' g. lib_generateQuery rnd x (query_generator_new P C room) = Some q \<and>
    pump popQuery lib_pushQuery q (PIRReplyGenerator P L db) = Some (q', g) \<and>
    query_loaded (rg g) k A (coordinates ns x) \<and> rg_params (rg g) = P \<and> rg_crypto (rg g) = L \<and> rg_db (rg g) = db \<and> repliesIndex (rg g) = 0"
proof -
  let ?cs = "coordinates ns x" and ?init = "rg (PIRReplyGenerator P L db)"
  define c where "c j i = encrypt_uint L (fst (rnd j i)) (snd (rnd j i)) (if i = ?cs ! j then 1 else 0)" for j i
  let ?S = "concat (map (\<lambda>j. map (\<lambda>i. cipher_bytes (c j i)) [0..<ns ! j]) [0..<length ns])"
  have pos: "\<forall>n \<in> set ns. 0 < n" using P(2) by blast
  obtain q where q: "lib_generateQuery rnd x (query_generator_new P C room) = Some q" "sq_ok (queryBuffer q)"
    "queue_data (queryBuffer q) = query_stream C rnd ns ?cs" "nbQueries q = length (query_stream C rnd ns ?cs)"
    using lib_generateQuery_spec [of "query_generator_new P C room" rnd x] P(1) pos room
    by (auto simp: query_generator_new_def ns_def)
  have S: "query_stream C rnd ns ?cs = ?S"
    unfolding query_stream_def query_dimension_def C_def lwe_crypto_def c_def
    by (intro arg_cong [where f = concat] map_cong refl) auto
  have g0: "rg_params ?init = P" "rg_crypto ?init = L" "rg_db ?init = db" "repliesIndex ?init = 0" "current_dim_index ?init = 0" "current_query_index ?init = 0"
    "queriesBuf ?init = Some (map (\<lambda>i. replicate (ns ! i) None) [0..<length ns])"
    using P(1) by (simp_all add: PIRReplyGenerator_def setPirParams_def setCryptoMethod_def PIRReplyGeneratorNFL_def initQueriesBuffer_def
        freeQueriesBuffer_def freeQueries_def ns_def)
  have shape: "cipher_shape L (c j i)" for j i unfolding c_def by (rule encrypt_uint_shape [OF u]) simp
  let ?g = "?init \<lparr> queriesBuf := Some (query_rows L c ns), current_query_index := 0, current_dim_index := length ns \<rparr>"
  have push: "for_each pushQuery ?S ?init = Some ?g"
    by (rule pushQuery_all [of ns ?init c "map (\<lambda>i. replicate (ns ! i) None) [0..<length ns]", unfolded g0(2)])
      (use g0 shape pos in \<open>simp_all add: ns_def\<close>)
  have loaded: "query_loaded ?g k A ?cs"
    by (rule query_rows_loaded [where c = c and rb = "\<lambda>j i. fst (rnd j i)" and ra = "\<lambda>j i. snd (rnd j i)"])
      (use u P pos coordinates_less [OF pos] in \<open>simp_all add: g0 c_def ns_def [symmetric] dims_def\<close>)
  obtain q' where "delivers popQuery q ?S q'" using popQuery_delivers [OF q(2)] q(3,4) S by auto
  moreover have "for_each lib_pushQuery ?S (PIRReplyGenerator P L db) = Some ((PIRReplyGenerator P L db) \<lparr> rg := ?g \<rparr>)"
    unfolding for_each_rg push by simp
  ultimately have "pump popQuery lib_pushQuery q (PIRReplyGenerator P L db) = Some (q', (PIRReplyGenerator P L db) \<lparr> rg := ?g \<rparr>)"
    by (rule pump_delivers)
  then show ?thesis using q(1) loaded g0 by fastforce
qed

text \<open>The client's part from the replies on.\<close>

lemma element_polys_count:
  assumes "lwe_setup L k A"
  shows "element_polys k A n = ceil_div n (block_bytes k A)"
  using lwe_setupD(10,11) [OF assms] ceil_div_cancel [of 8 "block_bytes k A" n]
  by (simp add: element_polys_def mult.commute [of A])

lemma session_client:
  fixes P M q L k A r room
  defines "C \<equiv> lwe_crypto L" and "N \<equiv> level_polys k A (element_polys k A (pir_alpha P * M))"
  assumes u: "lwe_setup L k A" and d: "0 < pir_d P" and sz: "0 < pir_alpha P * M" "pir_alpha P * M < 2 ^ 24"
    and small: "\<forall>l < pir_d P. N l < 2 ^ 17" and room: "N 0 \<le> room"
    and r: "client_proper (\<lambda>i. lwe_proper L k A (N i)) (\<lambda>i. read_reply L k A) (\<lambda>i. parse_reply L k (N i)) 0 (pir_d P - 1) r"
    and q: "sq_ok q" "queue_data q = map cipher_bytes r"
  shows "\<exists>g. lib_extractReply M ((reply_extraction_new P C room) \<lparr> repliesBuffer := q \<rparr>) = Some g \<and>
    (\<exists>g' p. pump popPlaintextResult (copy_chunk (getPlaintextReplyBytesize g)) g
        (replicate (getnbPlaintextReplies M g * getPlaintextReplyBytesize g) 0, 0) =
      Some (g', client_levels (\<lambda>i. read_reply L k A) (\<lambda>i. parse_reply L k (N i)) 0 (pir_d P - 1) r, p))"
proof -
  note D = lwe_setupD [OF u]
  let ?g = "(reply_extraction_new P C room) \<lparr> repliesBuffer := q \<rparr>" and ?B = "block_bytes k A"
  have sel: "re_crypto ?g = C" "re_params ?g = P" "repliesBuffer ?g = q" "clearChunks ?g = shared_queue_new room"
    by (simp_all add: reply_extraction_new_def)
  have "\<forall>l < pir_d P. ciphertext_count C (pir_alpha P * M) (l + 1) = N l"
    using lwe_ciphertext_count [OF u sz(2)] small by (simp add: C_def N_def)
  moreover have "pir_alpha P * M < 2 ^ 31" using sz(2) by simp
  moreover note cl = lwe_client_levels [of L k A "element_polys k A (pir_alpha P * M)" 0 "pir_d P - 1" r, folded N_def C_def, OF r]
  ultimately obtain outs q' clear where e: "extractReply (pir_alpha P * M) (shared_queue_new room) ?g = Some (clear, ?g \<lparr> repliesBuffer := q' \<rparr>)"
    "sq_ok clear" "queue_data clear = outs" "length outs = N 0" "\<forall>x \<in> set outs. data_size2b C 1 \<le> length x"
    "concat (map (take (data_size2b C 1)) outs) = client_value C N 0 (pir_d P - 1) (map cipher_bytes r)"
    using extractReply_spec [of ?g "pir_alpha P * M" N "map cipher_bytes r" "shared_queue_new room"] d q room sel by auto
  let ?h = "(?g \<lparr> repliesBuffer := q' \<rparr>) \<lparr> clearChunks := clear, nbPlaintextReplies := getnbPlaintextReplies M (?g \<lparr> repliesBuffer := q' \<rparr>) \<rparr>"
  have ext: "lib_extractReply M ?g = Some ?h" using e(1) sel by (simp add: lib_extractReply_def)
  have n: "getPlaintextReplyBytesize ?h = ?B" using sel by (simp add: getPlaintextReplyBytesize_def C_def lwe_sizes [OF u])
  have a: "0 < M" "0 < pir_alpha P" using sz(1) by simp_all
  have "M \<le> pir_alpha P * M" using a by simp
  then have le: "M < 2 ^ 24" using sz(2) by (rule le_less_trans)
  have "float_ceil_mult_div M (pir_alpha P * 2 ^ 0) (?B * 2 ^ 0) = ceil_div (M * pir_alpha P) ?B"
    by (rule float_ceil_mult_div_words)
      (use sz a le D(11) block_bytes_small [OF u] in \<open>simp_all add: mult.commute\<close>)
  then have cnt: "float_ceil_mult_div M (pir_alpha P) ?B = N 0"
    by (simp add: N_def element_polys_count [OF u] mult.commute)
  have nb: "getnbPlaintextReplies M ?h = N 0" "nbPlaintextReplies ?h = N 0"
    using sel n cnt by (simp_all add: getnbPlaintextReplies_def getPlaintextReplyBytesize_def C_def)
  obtain g' where "delivers popPlaintextResult ?h outs g'"
    using popPlaintextResult_delivers [of ?h outs] e(2,3,4) nb(2) by auto
  moreover obtain p where "for_each (copy_chunk ?B) outs (replicate (N 0 * ?B) 0, 0) = Some (concat (map (take ?B) outs), p)"
    using for_each_copy_chunk [of outs ?B "replicate (N 0 * ?B) 0"] e(4,5) by (auto simp: C_def lwe_sizes [OF u])
  ultimately have "pump popPlaintextResult (copy_chunk ?B) ?h (replicate (N 0 * ?B) 0, 0) = Some (g', concat (map (take ?B) outs), p)"
    by (rule pump_delivers)
  moreover have "concat (map (take ?B) outs) = client_levels (\<lambda>i. read_reply L k A) (\<lambda>i. parse_reply L k (N i)) 0 (pir_d P - 1) r"
    using e(6) cl by (simp add: C_def lwe_sizes [OF u])
  ultimately show ?thesis using ext n nb(1) by (intro exI [of _ ?h]) auto
qed

text \<open>The server's part and the whole session, on any database that keeps its contract.\<close>

context database
begin

lemma session:
  fixes P :: pir_parameters and L0 :: lwe and rnd k A room nb x
  defines "alpha \<equiv> pir_alpha P" and "ns \<equiv> pir_n P" and "M \<equiv> db_getmaxFileBytesize db"
  defines "N \<equiv> level_polys k A (element_polys k A (alpha * M))"
  assumes L: "lwe_setup (snd (setandgetAbsBitPerCiphertext (ns ! 0) L0)) k A"
    and P: "pir_d P = length ns" "ns \<noteq> []" "\<forall>n \<in> set ns. 0 < n \<and> n \<le> 5"
    and dbs: "db_getNbStream db = nb * alpha" "nb \<le> prod_list ns" "x < nb"
    and sz: "8 \<le> alpha * M" "alpha * M < 2 ^ 24" "\<forall>l < length ns. N l < 2 ^ 17"
    and room: "sum_list ns \<le> room" "N 0 \<le> room" "N (length ns - 1) \<le> room"
  shows "simplepir_run rnd room db x P L0 =
    Some (pad_to (N 0 * block_bytes k A) (concat (map (\<lambda>i. content (x * alpha + i)) [0..<alpha])))"
proof -
  define L where "L = snd (setandgetAbsBitPerCiphertext (ns ! 0) L0)"
  have u: "lwe_setup L k A" using L by (simp add: L_def)
  let ?C = "lwe_crypto L" and ?cs = "coordinates ns x" and ?d = "length ns"
  have pos: "\<forall>n \<in> set ns. 0 < n" and d: "0 < ?d" using P(2,3) by auto
  obtain q q' g where Q: "lib_generateQuery rnd x (query_generator_new P ?C room) = Some q"
    "pump popQuery lib_pushQuery q (PIRReplyGenerator P L db) = Some (q', g)"
    "query_loaded (rg g) k A ?cs" "rg_params (rg g) = P" "rg_crypto (rg g) = L" "rg_db (rg g) = db" "repliesIndex (rg g) = 0"
    using session_query [of L k A P room rnd x db] u P room(1) by (auto simp: ns_def)
  have prod: "product_from 0 P = prod_list ns"
    using P(1) by (simp add: product_from_prod map_nth ns_def)
  let ?N0 = "element_polys k A (alpha * M)"
  have al: "0 < alpha" using sz(1) by (cases alpha) simp_all
  have am: "0 < pir_alpha P \<and> 0 < M" using sz(1) by (cases M) (simp_all add: alpha_def al [unfolded alpha_def])
  let ?vs = "element_bytes (?N0 * block_bytes k A) (group_bytes content alpha 0 M) nb"
  have bits: "M * alpha < 1152921504606846976" using sz(2) by (simp add: mult.commute)
  have "\<exists>data. importDataNFL 0 M (rg g) = Some ((rg g) \<lparr> currentMaxNbPolys := ?N0, input_data := Some data \<rparr>) \<and>
    length data = product_from 0 P \<and> (\<forall>v < length data. element_holds L k A ?N0 (data ! v) (?vs v))"
    using importDataNFL_holds [of "rg g" k A nb 0 M] Q(4-6) u al dbs sz(1) bits prod
    by (simp add: M_def [symmetric] alpha_def [symmetric])
  then obtain data where data: "importDataNFL 0 M (rg g) = Some ((rg g) \<lparr> currentMaxNbPolys := ?N0, input_data := Some data \<rparr>)"
    "length data = product_from 0 P" "\<forall>v < length data. element_holds L k A ?N0 (data ! v) (?vs v)" by blast
  let ?r = "(rg g) \<lparr> currentMaxNbPolys := ?N0, input_data := Some data \<rparr>"
  let ?idb = "\<lparr> imported_database_ptr = Some data, nbElements = float_ceil_div (db_getNbStream db) alpha,
      polysPerElement = ?N0, beforeImportElementBytesize = M \<rparr>"
  have imp: "importData 0 M g = Some (?idb, g \<lparr> rg := ?r \<rparr>)"
    using data(1) Q(4,6) by (simp add: importData_def alpha_def)
  define h where "h = prepare_reply ?idb (g \<lparr> rg := ?r \<rparr>)"
  have amount: "computeReplySizeInChunks M (freeResult ?r) = N (?d - 1)"
    using computeReplySize_levels [of "freeResult ?r" k A M] u Q(4,5) P(1) d
    by (simp add: freeResult_def N_def alpha_def ns_def)
  have h: "rg_params (rg h) = P" "rg_crypto (rg h) = L" "currentMaxNbPolys (rg h) = ?N0" "repliesIndex (rg h) = 0"
    "input_data (rg h) = Some data" "repliesAmount (rg h) = N (?d - 1)" "nbRepliesToHandle h = of_nat (N (?d - 1))" "currentReply h = 0"
    "queriesBuf (rg h) = queriesBuf (rg g)" "repliesArray (rg h) = None"
    using Q(4,5,7) amount by (simp_all add: h_def prepare_reply_def Let_def freeResult_def)
  have "query_loaded (rg h) k A ?cs" using Q(3-5) h(1,2,9) by (simp add: query_loaded_def)
  moreover have "data_loaded (rg h) k A ?vs" using data(2,3) h(1-5) by (simp add: data_loaded_def)
  ultimately have "\<exists>r polys. generateReply (rg h) = Some ((rg h) \<lparr> repliesArray := Some (map Some r @ replicate (repliesAmount (rg h) - length r) None),
      currentMaxNbPolys := polys \<rparr>) \<and>
    client_proper (\<lambda>i. lwe_proper L k A (N i)) (\<lambda>i. read_reply L k A) (\<lambda>i. parse_reply L k (N i)) 0 (?d - 1) r \<and> length r = N (?d - 1) \<and>
    client_levels (\<lambda>i. read_reply L k A) (\<lambda>i. parse_reply L k (N i)) 0 (?d - 1) r = ?vs (mixed_index (map ((!) ns) [0..<?d]) ?cs)"
    using generateReply_answers [of "rg h" k A ?cs ?vs] h P(1) d by (simp add: N_def ns_def freeResult_inside_def)
  then obtain r polys where r: "generateReply (rg h) = Some ((rg h) \<lparr> repliesArray := Some (map Some r), currentMaxNbPolys := polys \<rparr>)"
    "client_proper (\<lambda>i. lwe_proper L k A (N i)) (\<lambda>i. read_reply L k A) (\<lambda>i. parse_reply L k (N i)) 0 (?d - 1) r" "length r = N (?d - 1)"
    "client_levels (\<lambda>i. read_reply L k A) (\<lambda>i. parse_reply L k (N i)) 0 (?d - 1) r = ?vs (mixed_index ns ?cs)"
    using h(6) by (auto simp: map_nth)
  let ?h = "h \<lparr> rg := (rg h) \<lparr> repliesArray := Some (map Some r), currentMaxNbPolys := polys \<rparr> \<rparr>"
  have gen: "lib_generateReply ?idb (g \<lparr> rg := ?r \<rparr>) = Some ?h" using r(1) by (simp add: lib_generateReply_def Let_def h_def)
  have "N (?d - 1) < 2 ^ 17" using sz(3) d by simp
  then obtain h' where "delivers popReply ?h (map cipher_bytes r) h'"
    using popReply_delivers [of ?h "map Some r" r "[]"] h r(3) by auto
  moreover obtain b where b: "for_each pushEncryptedReply (map cipher_bytes r) (reply_extraction_new P ?C room) =
      Some ((reply_extraction_new P ?C room) \<lparr> repliesBuffer := b \<rparr>)" "sq_ok b" "queue_data b = map cipher_bytes r"
    using for_each_pushEncryptedReply [of "reply_extraction_new P ?C room" "map cipher_bytes r"] room(3) r(3)
    by (auto simp: reply_extraction_new_def)
  ultimately have pop: "pump popReply pushEncryptedReply ?h (reply_extraction_new P ?C room) =
      Some (h', (reply_extraction_new P ?C room) \<lparr> repliesBuffer := b \<rparr>)" by (intro pump_delivers)
  obtain e e' p where e: "lib_extractReply M ((reply_extraction_new P ?C room) \<lparr> repliesBuffer := b \<rparr>) = Some e"
    "pump popPlaintextResult (copy_chunk (getPlaintextReplyBytesize e)) e
       (replicate (getnbPlaintextReplies M e * getPlaintextReplyBytesize e) 0, 0) = Some (e', ?vs (mixed_index ns ?cs), p)"
    using session_client [of L k A P M room r b] u P(1) d am sz room(2) r(2,4) b(2,3)
    by (auto simp: N_def alpha_def ns_def)
  have "x < prod_list ns" using dbs by simp
  then have "mixed_index ns ?cs = x" using mixed_index_coordinates [OF pos] by simp
  moreover have "group_bytes content alpha 0 M x = concat (map (\<lambda>i. content (x * alpha + i)) [0..<alpha])"
    by (simp add: group_bytes_def M_def length_content)
  ultimately have "?vs (mixed_index ns ?cs) = pad_to (N 0 * block_bytes k A) (concat (map (\<lambda>i. content (x * alpha + i)) [0..<alpha]))"
    using dbs(3) by (simp add: element_bytes_def N_def)
  then show ?thesis
    using Q(1,2) imp gen pop e
    by (simp add: simplepir_run_def Let_def M_def [symmetric] ns_def [symmetric] L_def [symmetric])
qed

end

section \<open>Properties\<close>

lemma lwe_setup_run:
  assumes "k \<le> 13" "lwe_setNewParameters mpz_invert rndk (2 ^ k) 60 a L00 = Inr L0"
    and "fst (setandgetAbsBitPerCiphertext n L0) = int A" "1 \<le> A" "A \<le> 57" "64 dvd 2 ^ k * A"
  shows "lwe_setup (snd (setandgetAbsBitPerCiphertext n L0)) k A"
  using assms setandget_setNewParameters [OF assms(2), of n] unfolding lwe_setup_def by metis

text \<open>
  C1: The whole session of the example application: for a directory of files (\<open>alpha\<close> files per
  element, whole groups), up to five elements in each of any number of dimensions, and any
  randomness, \<open>run\<close> ends and the client's buffer holds exactly the files of the element it chose,
  padded to the longest file, and zeros after them. The sizes are those for which the \<open>float\<close> counts
  of the client are exact.
\<close>
theorem simplepir_retrieves:
  assumes "k \<le> 13" "lwe_setNewParameters mpz_invert rndk (2 ^ k) 60 a L00 = Inr L0"
    and "fst (setandgetAbsBitPerCiphertext (pir_n P ! 0) L0) = int A" "1 \<le> A" "A \<le> 57" "64 dvd 2 ^ k * A"
    and P: "pir_d P = length (pir_n P)" "pir_n P \<noteq> []" "\<forall>n \<in> set (pir_n P). 0 < n \<and> n \<le> 5"
    and db: "length (file_list D) = nb * pir_alpha P" "nb \<le> prod_list (pir_n P)" "x < nb"
    and sz: "8 \<le> pir_alpha P * maxFileBytesize D" "pir_alpha P * maxFileBytesize D < 2 ^ 24"
      "\<forall>l < length (pir_n P). level_polys k A (element_polys k A (pir_alpha P * maxFileBytesize D)) l < 2 ^ 17"
    and room: "2 ^ 17 \<le> room" "sum_list (pir_n P) \<le> room"
  shows "simplepir_run rnd room (directory_handler fs (\<lambda>r. Suc (avail r)) D) x P L0 =
    Some (pad_to (element_polys k A (pir_alpha P * maxFileBytesize D) * block_bytes k A)
      (concat (map (\<lambda>i. directory_content fs D (x * pir_alpha P + i)) [0..<pir_alpha P])))"
proof -
  let ?N = "level_polys k A (element_polys k A (pir_alpha P * maxFileBytesize D))"
  have "0 < length (pir_n P)" using P(2) by simp
  then have "?N 0 < 2 ^ 17" "?N (length (pir_n P) - 1) < 2 ^ 17" using sz(3) by (blast, simp)
  then have "?N 0 \<le> room" "?N (length (pir_n P) - 1) \<le> room" using room(1) by linarith+
  then show ?thesis
    using directory.session [where P = P and k = k and A = A and nb = nb and x = x and room = room,
        OF lwe_setup_run [OF assms(1-6)] P] db sz room(2)
    by (simp add: directory_handler_def getNbStream_def getmaxFileBytesize_def)
qed

definition example_session_dir :: directory_processor where
  "example_session_dir = DBDirectoryProcessor (Some [(''1'', [1, 2, 3]), (''2'', [4, 5, 6, 7, 8, 9, 10, 11, 12]), (''3'', [13]), (''4'', [14, 15])])"

definition example_session_fs :: "string \<Rightarrow> u8 list" where
  "example_session_fs path = (if path = ''db/1'' then [1, 2, 3] else if path = ''db/2'' then [4, 5, 6, 7, 8, 9, 10, 11, 12]
     else if path = ''db/3'' then [13] else if path = ''db/4'' then [14, 15] else [])"

lemma example_session_dir: "file_list example_session_dir = [''1'', ''2'', ''3'', ''4'']" "maxFileBytesize example_session_dir = 9"
  by code_simp+

lemma bit_scan_reverse_unique:
  assumes "2 ^ b \<le> n" "n < 2 ^ Suc b"
  shows "bit_scan_reverse n = b"
proof -
  have "0 < n" using assms(1) by (metis not_gr0 not_less zero_less_numeral zero_less_power le_zero_eq)
  then have "(2 :: nat) ^ bit_scan_reverse n < 2 ^ Suc b" "(2 :: nat) ^ b < 2 ^ Suc (bit_scan_reverse n)"
    using bit_scan_reverse_bounds [of n] assms by linarith+
  then have "bit_scan_reverse n < Suc b" "b < Suc (bit_scan_reverse n)"
    by (simp_all only: power_strict_increasing_iff one_less_numeral_iff semiring_norm(76))
  then show ?thesis by simp
qed

definition example_session_params :: pir_parameters where
  "example_session_params = \<lparr> pir_alpha = 1, pir_d = 2, pir_n = [2, 2], crypto_params = [] \<rparr>"

theorem simplepir_retrieves_witness:
  "\<exists>L0. lwe_setNewParameters euclid_invert [3] (2 ^ 6) 60 (- 1) (NFLLWE_new \<lparr> securityBits := 80 \<rparr>) = Inr L0 \<and>
    simplepir_run (\<lambda>j i. ([5], [7])) (2 ^ 17) (directory_handler example_session_fs (\<lambda>r. Suc (r div 2)) example_session_dir)
      1 example_session_params L0 = Some ([4, 5, 6, 7, 8, 9, 10, 11, 12] @ replicate 167 0)"
proof -
  obtain L0 where L0: "lwe_setNewParameters euclid_invert [3] (2 ^ 6) 60 (- 1) (NFLLWE_new \<lparr> securityBits := 80 \<rparr>) = Inr L0"
    using lwe_setNewParameters_ok [of 6 60 euclid_invert "[3]" "- 1" "NFLLWE_new \<lparr> securityBits := 80 \<rparr>"] by auto
  note p = lwe_parameterised [OF _ _ _ L0, simplified]
  have "abs_bits 60 25600 = 22"
    using bit_scan_reverse_unique [of 44 "2 ^ 59 div 25600"] by (simp add: abs_bits_def)
  then have abs: "fst (setandgetAbsBitPerCiphertext (pir_n example_session_params ! 0) L0) = int 22"
    using p lwe_okD(2) [OF p(1)]
    by (simp add: setandgetAbsBitPerCiphertext_def Let_def example_session_params_def getmodulusBitsize_def kModulusBitsize_def)
  have "\<forall>l < length (pir_n example_session_params). level_polys 6 22 (element_polys 6 22 (pir_alpha example_session_params * maxFileBytesize example_session_dir)) l < 2 ^ 17"
    by (auto simp: example_session_params_def example_session_dir element_polys_def poly_number_def ceil_div_def less_Suc_eq)
  note S = simplepir_retrieves [where k = 6 and A = 22 and D = example_session_dir and nb = 4 and x = 1 and room = "2 ^ 17"
      and P = example_session_params and fs = example_session_fs and avail = "\<lambda>r. r div 2"
      and rnd = "\<lambda>j i. ([5], [7])", OF _ L0 abs _ _ _ _ _ _ _ _ _ _ _ this]
  have c: "directory_content example_session_fs example_session_dir 1 = [4, 5, 6, 7, 8, 9, 10, 11, 12]" by code_simp
  have "pad_to (element_polys 6 22 (1 * 9) * block_bytes 6 22) [4, 5, 6, 7, 8, 9, 10, 11, 12 :: u8] =
      [4, 5, 6, 7, 8, 9, 10, 11, 12] @ replicate 167 0" by code_simp
  then show ?thesis
    using L0 S by (auto simp: example_session_params_def example_session_dir c [simplified])
qed

text \<open>What \<open>generateReply\<close> leaves: the counter is the length of the array.\<close>

definition reply_ready :: "reply_generator \<Rightarrow> bool" where
  "reply_ready h \<longleftrightarrow> (\<exists>arr. repliesArray (rg h) = Some arr \<and> length arr = currentReply h + unat (nbRepliesToHandle h))"

lemma write_at_length: "write_at mem off xs = Some mem' \<Longrightarrow> length mem' = length mem"
  by (rule write_at_nth(1))

lemma for_each_length:
  assumes "\<And>x s s'. f x s = Some s' \<Longrightarrow> h s' = h s" "for_each f xs s = Some s'"
  shows "h s' = h s"
  using assms(2) by (induction xs arbitrary: s) (auto split: option.splits dest: assms(1))

lemma generate_level_length:
  assumes "generate_level g sub buf i st = Some st'"
  shows "length (snd (snd st')) = length (snd (snd st))"
proof -
  obtain a b r where st: "st = (a, b, r)" by (cases st)
  have w: "for_each (\<lambda>x arr. write_at arr off (map Some x)) xs arr = Some arr' \<Longrightarrow> length arr' = length arr" for off xs arr arr'
    by (rule for_each_length [where h = length]) (rule write_at_length)
  show ?thesis
    using assms unfolding st generate_level_def Let_def split_conv
    by (auto dest!: w split: if_splits option.splits)
qed

lemma generateReply_ready:
  assumes g: "lib_generateReply idb g = Some h" and n: "computeReplySizeInChunks (beforeImportElementBytesize idb) (rg g) < 2 ^ 64"
  shows "reply_ready h"
proof -
  let ?p = "prepare_reply idb g"
  have p: "currentReply ?p = 0" "unat (nbRepliesToHandle ?p) = repliesAmount (rg ?p)"
    using n by (simp_all add: prepare_reply_def Let_def freeResult_def computeReplySizeInChunks_def unat_of_nat take_bit_nat_eq_self)
  obtain r where r: "generateReply (rg ?p) = Some r" "h = ?p \<lparr> rg := r \<rparr>"
    using g by (auto simp: lib_generateReply_def Let_def)
  then obtain data buf st where st: "for_each (generate_level (rg ?p) None buf) [0..<pir_d (rg_params (rg ?p))]
      (data, currentMaxNbPolys (rg ?p), replicate (repliesAmount (rg ?p)) None) = Some st"
    "repliesArray r = Some (snd (snd st))"
    by (auto simp: generateReply_def generateReply_with_def split: option.splits if_splits)
  have "length (snd (snd st)) = repliesAmount (rg ?p)"
    using for_each_length [where h = "\<lambda>st. length (snd (snd st))", OF generate_level_length st(1)] by simp
  then show ?thesis using r(2) st(2) p by (simp add: reply_ready_def)
qed



text \<open>
  C29: The counts of the two sides differ: with plaintexts of 4096 bytes, an element of \<open>2^24 + 1\<close>
  bytes needs 4097 ciphertexts and the generator makes as many, but the client, whose size is
  rounded to \<open>float\<close>, waits for 4096, and its last byte is lost.
\<close>
theorem float_counts_differ:
  assumes "lwe_setup L k A" "block_bytes k A = 4096" "rg_crypto g = L" "pir_alpha (rg_params g) = 1" "pir_d (rg_params g) = 1"
  shows "computeReplySizeInChunks (2 ^ 24 + 1) g = 4097 \<and> ciphertext_count (lwe_crypto L) (2 ^ 24 + 1) 1 = 4096"
proof
  have u: "lwe_setup (rg_crypto g) k A" using assms(1,3) by simp
  show "computeReplySizeInChunks (2 ^ 24 + 1) g = 4097"
    unfolding computeReplySize_levels [OF u, of "2 ^ 24 + 1", unfolded assms(5), OF zero_less_one]
    using assms(2,4) by (simp add: element_polys_count [OF assms(1)] ceil_div_def)
  have f: "float_ceil_div 16777217 4096 = 4096"
    using to_float_nat [of 4096] by (simp add: float_ceil_div_def to_float_rounds_down)
  show "ciphertext_count (lwe_crypto L) (2 ^ 24 + 1) 1 = 4096"
    using f assms(2) by (simp add: ciphertext_count_def lwe_sizes [OF assms(1)])
qed

theorem float_counts_differ_witness:
  "\<exists>L. lwe_setup L 11 16 \<and> (let g = rg (PIRReplyGenerator (example_params \<lparr> pir_d := 1, pir_n := [2] \<rparr>) L
      (directory_handler example_session_fs (\<lambda>r. r) example_session_dir))
    in computeReplySizeInChunks (2 ^ 24 + 1) g = 4097 \<and> ciphertext_count (lwe_crypto L) (2 ^ 24 + 1) 1 = 4096)"
proof -
  obtain L where "lwe_setNewParameters euclid_invert [3] (2 ^ 11) 60 (int 16) (NFLLWE_new \<lparr> securityBits := 80 \<rparr>) = Inr L"
    using lwe_setNewParameters_ok [of 11 60 euclid_invert "[3]" "int 16" "NFLLWE_new \<lparr> securityBits := 80 \<rparr>"] by auto
  then have u: "lwe_setup L 11 16" unfolding lwe_setup_def by auto
  let ?g = "rg (PIRReplyGenerator (example_params \<lparr> pir_d := 1, pir_n := [2] \<rparr>) L (directory_handler example_session_fs (\<lambda>r. r) example_session_dir))"
  have "rg_crypto ?g = L" "pir_alpha (rg_params ?g) = 1" "pir_d (rg_params ?g) = 1" "block_bytes 11 16 = 4096"
    by (simp_all add: PIRReplyGenerator_def setPirParams_def setCryptoMethod_def PIRReplyGeneratorNFL_def initQueriesBuffer_def
        freeQueriesBuffer_def freeQueries_def example_params_def block_bytes_def)
  with float_counts_differ [OF u, of ?g] u show ?thesis by (auto simp: Let_def)
qed

end
