(* ===== verification/ReplyGeneric.thy ===== *)
theory ReplyGeneric
  imports RingPIR
begin

text \<open>
  The operations of the reply generator that a server calls (\<open>generateReplyGeneric\<close> and its
  variants in \<open>PIRReplyGeneratorNFL_internal.cpp\<close>, defined in \<open>ReplyGenNFL\<close>): a kept database gives
  the reply that a fresh import gives, a database that does not fit into memory loses all of the
  reply but its last part, and the timing simulation cannot run.
\<close>

section \<open>What a generation depends on\<close>

lemma generate_level_fields:
  assumes "rg_params g' = rg_params g" "rg_crypto g' = rg_crypto g" "repliesIndex g' = repliesIndex g"
  shows "generate_level g' s buf = generate_level g s buf"
  by (intro ext) (unfold generate_level_def assms, rule refl)

lemma generateReply_with_fields:
  assumes "rg_params g' = rg_params g" "rg_crypto g' = rg_crypto g" "repliesIndex g' = repliesIndex g"
    "repliesAmount g' = repliesAmount g" "queriesBuf g' = queriesBuf g" "input_data g' = input_data g"
    "currentMaxNbPolys g' = currentMaxNbPolys g" "freeResult_inside g'"
    and g: "generateReply_with s g = Some h"
  shows "\<exists>h'. generateReply_with s g' = Some h' \<and> repliesArray h' = repliesArray h"
  using assms(8) g
  by (auto simp: generateReply_with_def assms(1-7) generate_level_fields [OF assms(1-3)] split: option.splits if_splits)

lemma generateReply_with_result:
  assumes "generateReply_with s g = Some h"
  shows "\<exists>arr polys. h = g \<lparr> repliesArray := Some arr, currentMaxNbPolys := polys \<rparr> \<and> length arr = repliesAmount g"
proof -
  obtain data buf es polys arr where st: "for_each (generate_level g s buf) [0..<pir_d (rg_params g)]
      (data, currentMaxNbPolys g, replicate (repliesAmount g) None) = Some (es, polys, arr)"
    "h = g \<lparr> repliesArray := Some arr, currentMaxNbPolys := polys \<rparr>"
    using assms by (auto simp: generateReply_with_def split: option.splits if_splits)
  then show ?thesis
    using for_each_length [where h = "\<lambda>st. length (snd (snd st))", OF generate_level_length st(1)] by auto
qed

lemma importDataNFL_result:
  assumes "importDataNFL offset bytes g = Some h"
  shows "\<exists>polys data. h = g \<lparr> currentMaxNbPolys := polys, input_data := data \<rparr>"
  using assms by (auto simp: importDataNFL_def Let_def split: if_splits option.splits)

lemma computeReplySize_fields:
  "rg_params g' = rg_params g \<Longrightarrow> rg_crypto g' = rg_crypto g \<Longrightarrow> computeReplySizeInChunks n g' = computeReplySizeInChunks n g"
  by (simp add: computeReplySizeInChunks_def)

section \<open>A kept database\<close>

text \<open>
  C30: A database that \<open>generateReplyGeneric\<close> keeps gives, for the same query, the reply that the
  import gave: \<open>generateReplyGenericFromData\<close> on it ends with the same reply array.
\<close>
theorem kept_database_same_reply:
  assumes "generateReplyGeneric memory True False g = Some (db, h)" "fst (import_plan memory g) = 1"
  shows "\<exists>h'. generateReplyGenericFromData db (h \<lparr> queriesBuf := queriesBuf g \<rparr>) = Some h' \<and> repliesArray h' = repliesArray h"
proof -
  obtain readable where plan: "import_plan memory g = (1, readable)" using assms(2) by (cases "import_plan memory g") auto
  let ?g1 = "g \<lparr> repliesIndex := computeReplySizeInChunks 0 g \<rparr>"
  obtain g2 where g2: "importDataNFL 0 readable ?g1 = Some g2"
    using assms(1) plan
    by (auto simp: generateReplyGeneric_def generateReplyGeneric_with_def import_iteration_def Let_def split: if_splits option.splits)
  obtain polys data where g2': "g2 = ?g1 \<lparr> currentMaxNbPolys := polys, input_data := data \<rparr>"
    using importDataNFL_result [OF g2] by blast
  let ?amount = "computeReplySizeInChunks (db_getmaxFileBytesize (rg_db g2)) g2"
  obtain g4 where g4: "generateReply_with None (g2 \<lparr> repliesAmount := ?amount \<rparr>) = Some g4"
    and db: "db = empty_database \<lparr> polysPerElement := polys, imported_database_ptr := input_data g4,
      beforeImportElementBytesize := db_getmaxFileBytesize (rg_db g4), nbElements := db_getNbStream (rg_db g4) \<rparr>"
    and h: "h = freeQueries g4"
    using assms(1) plan g2 g2'
    by (auto simp: generateReplyGeneric_def generateReplyGeneric_with_def import_iteration_def Let_def split: if_splits option.splits)
  obtain arr ps where g4': "g4 = g2 \<lparr> repliesAmount := ?amount, repliesArray := Some arr, currentMaxNbPolys := ps \<rparr>" "length arr = ?amount"
    using generateReply_with_result [OF g4] by auto
  have "\<exists>h'. generateReply_with None (load_database db (h \<lparr> queriesBuf := queriesBuf g \<rparr>)) = Some h' \<and> repliesArray h' = repliesArray g4"
  proof (rule generateReply_with_fields [OF _ _ _ _ _ _ _ _ g4])
    have c: "computeReplySizeInChunks n (load_database db (h \<lparr> queriesBuf := queriesBuf g \<rparr>)) = computeReplySizeInChunks n g2" for n
      by (rule computeReplySize_fields) (simp_all add: load_database_def Let_def h freeQueries_def g4' g2')
    have a: "repliesAmount (load_database db (h \<lparr> queriesBuf := queriesBuf g \<rparr>)) = ?amount"
      unfolding c [symmetric] by (simp add: load_database_def Let_def db g4' g2' computeReplySizeInChunks_def)
    then show "repliesAmount (load_database db (h \<lparr> queriesBuf := queriesBuf g \<rparr>)) = repliesAmount (g2 \<lparr> repliesAmount := ?amount \<rparr>)"
      by simp
    have "repliesArray (load_database db (h \<lparr> queriesBuf := queriesBuf g \<rparr>)) = Some arr"
      by (simp add: load_database_def Let_def h freeQueries_def g4')
    then show "freeResult_inside (load_database db (h \<lparr> queriesBuf := queriesBuf g \<rparr>))"
      using a g4'(2) by (simp add: freeResult_inside_def)
  qed (simp_all add: load_database_def Let_def h db freeQueries_def g4' g2')
  then show ?thesis
    by (auto simp: generateReplyGenericFromData_def generateReply_def h freeQueries_def)
qed


section \<open>Several iterations\<close>

text \<open>What is read at once is a whole number of blocks, unless it is the whole file.\<close>

lemma max_readable_blocks:
  assumes "lwe_setup (rg_crypto g) k A" "db_getmaxFileBytesize (rg_db g) \<noteq> max_readable memory g"
  shows "\<exists>c. 0 < c \<and> max_readable memory g = c * block_bytes k A"
proof -
  note D = lwe_setupD [OF assms(1)]
  let ?B = "block_bytes k A"
  have abs: "getAbsorptionBitsize (rg_crypto g) = 8 * ?B" using D(5,10) by simp
  let ?q = "(memory div 2 div db_getNbStream (rg_db g) div 4) * 8 div (8 * ?B)"
  have "q * (8 * b) div 8 = q * b" for q b :: nat by simp
  then have "?q * (8 * ?B) div 8 = ?q * ?B" .
  then have "max_readable memory g = min (if ?q * ?B = 0 then 8 * ?B else ?q * ?B) (db_getmaxFileBytesize (rg_db g))"
    unfolding max_readable_def Let_def abs kBitsPerByte_def by presburger
  then have "max_readable memory g = (if ?q * ?B = 0 then 8 * ?B else ?q * ?B)"
    using assms(2) unfolding min_def by presburger
  then show ?thesis by (cases "?q * ?B = 0") (use D(11) in auto)
qed

lemma reply_count:
  assumes u: "lwe_setup (rg_crypto g) k A" and P: "pir_alpha (rg_params g) = 1" "pir_d (rg_params g) = 1"
  shows "computeReplySizeInChunks n g = ceil_div n (block_bytes k A)"
  using computeReplySize_levels [OF u, of n] P by (simp add: element_polys_count [OF u])

context database
begin

text \<open>One iteration writes the part of the reply it has the data for, in an array that is otherwise empty.\<close>

lemma import_iteration_runs:
  fixes g w k A readable
  defines "B \<equiv> block_bytes k A" and "whole \<equiv> db_getmaxFileBytesize db"
  defines "amount \<equiv> ceil_div whole B" and "len \<equiv> (\<lambda>it. min readable (whole - it * readable))"
  assumes g: "rg_db g = db" "lwe_setup (rg_crypto g) k A" "pir_alpha (rg_params g) = 1" "pir_d (rg_params g) = 1"
    and nb: "0 < db_getNbStream db" "db_getNbStream db \<le> pir_n (rg_params g) ! 0"
    and q: "query_loaded g k A cs" and arr: "\<forall>arr. repliesArray g = Some arr \<longrightarrow> length arr = amount"
    and it: "it * readable < whole" and sz: "8 \<le> len it" "whole < 2 ^ 60"
    and room: "ceil_div (it * readable) B + ceil_div (len it) B \<le> amount"
  shows "\<exists>r w' g'. import_iteration keep False None count readable it (w, g) = Some (w', g') \<and> length r = ceil_div (len it) B \<and>
    repliesArray g' = Some (replicate (ceil_div (it * readable) B) None @ map Some r @
      replicate (amount - (ceil_div (it * readable) B + length r)) None) \<and>
    (\<not> keep \<longrightarrow> w' = w) \<and> rg_db g' = rg_db g \<and> rg_crypto g' = rg_crypto g \<and> rg_params g' = rg_params g \<and> queriesBuf g' = queriesBuf g"
proof -
  let ?i = "ceil_div (it * readable) B" and ?N = "ceil_div (len it) B"
  let ?g1 = "g \<lparr> repliesIndex := computeReplySizeInChunks (it * readable) g \<rparr>"
  have p: "product_from 0 (rg_params g) = pir_n (rg_params g) ! 0"
    using g(4) by (simp add: product_from_Suc product_from_end)
  have cnt: "computeReplySizeInChunks n h = ceil_div n B" if "rg_crypto h = rg_crypto g" "rg_params h = rg_params g" for n h
    using reply_count [of h k A n] that g(2-4) by (simp add: B_def)
  have "\<exists>data. importDataNFL (it * readable) readable ?g1 = Some (?g1 \<lparr> currentMaxNbPolys := ?N, input_data := Some data \<rparr>) \<and>
      length data = product_from 0 (rg_params ?g1) \<and> (\<forall>u < length data. element_holds (rg_crypto ?g1) k A ?N (data ! u)
        (element_bytes (?N * block_bytes k A) (group_bytes content 1 (it * readable) (len it)) (db_getNbStream db) u))"
    using importDataNFL_holds [of ?g1 k A "db_getNbStream db" "it * readable" readable] g nb p it sz
    by (simp add: element_polys_count [OF g(2)] B_def len_def whole_def)
  then obtain data where data: "importDataNFL (it * readable) readable ?g1 = Some (?g1 \<lparr> currentMaxNbPolys := ?N, input_data := Some data \<rparr>)"
    "length data = product_from 0 (rg_params g)" "\<forall>u < length data. element_holds (rg_crypto g) k A ?N (data ! u)
        (element_bytes (?N * block_bytes k A) (group_bytes content 1 (it * readable) (len it)) (db_getNbStream db) u)" by auto
  define g2 where "g2 = ?g1 \<lparr> currentMaxNbPolys := ?N, input_data := Some data \<rparr>"
  define g3 where "g3 = g2 \<lparr> repliesAmount := amount \<rparr>"
  have g3: "rg_params g3 = rg_params g" "rg_crypto g3 = rg_crypto g" "rg_db g3 = db" "queriesBuf g3 = queriesBuf g" "input_data g3 = Some data"
    "currentMaxNbPolys g3 = ?N" "repliesIndex g3 = ?i" "repliesAmount g3 = amount" "repliesArray g3 = repliesArray g"
    using g(1) cnt [of g] by (simp_all add: g3_def g2_def)
  have q3: "query_loaded g3 k A cs" using q by (simp add: query_loaded_def g3)
  have f3: "freeResult_inside g3" using arr by (auto simp: freeResult_inside_def g3 split: option.splits)
  have "\<exists>r polys. length r = ?N \<and> generateReply_with None g3 = Some (g3 \<lparr> repliesArray := Some (reply_places g3 r), currentMaxNbPolys := polys \<rparr>)"
    using generateReply_with_refines [OF q3 g3(5) g3(6) _ _ _ _ f3, of "element_bytes (?N * block_bytes k A) (group_bytes content 1 (it * readable) (len it)) (db_getNbStream db)"]
      data(2,3) g(4) room by (auto simp: g3)
  then obtain r polys where r: "length r = ?N"
    "generateReply_with None g3 = Some (g3 \<lparr> repliesArray := Some (reply_places g3 r), currentMaxNbPolys := polys \<rparr>)" by blast
  have "computeReplySizeInChunks (db_getmaxFileBytesize (rg_db g2)) g2 = amount"
    using cnt [of g2] g(1) by (simp add: g2_def amount_def whole_def)
  then have "generateReply_with None (g2 \<lparr> repliesAmount := computeReplySizeInChunks (db_getmaxFileBytesize (rg_db g2)) g2 \<rparr>) =
      Some (g3 \<lparr> repliesArray := Some (reply_places g3 r), currentMaxNbPolys := polys \<rparr>)"
    using r(2) by (simp add: g3_def)
  then show ?thesis
    using data(1) r(1) g3(3)
    by (auto simp: import_iteration_def Let_def g2_def [symmetric] g3 reply_places_def freeInputData_def g(1) intro!: exI [of _ r])
qed

end


lemma ceil_div_blocks: "0 < b \<Longrightarrow> m * b \<le> a \<Longrightarrow> m + ceil_div (a - m * b) b \<le> ceil_div a b"
proof -
  assume b: "0 < b" "m * b \<le> a"
  have "a - m * b \<le> (ceil_div a b - m) * b"
    using ceil_div_mult_ge [OF b(1), of a] by (simp add: diff_mult_distrib)
  then have "ceil_div (a - m * b) b \<le> ceil_div a b - m" by (simp add: ceil_div_le_iff [OF b(1)])
  moreover have "m \<le> ceil_div a b"
    using b ceil_div_mono [OF b(1), of "m * b" a] by simp
  ultimately show ?thesis by linarith
qed

lemma min_blocks: "0 < b \<Longrightarrow> m * b < a \<Longrightarrow> m + ceil_div (min n (a - m * b)) b \<le> ceil_div a b"
  using ceil_div_blocks [of b m a] ceil_div_mono [of b "min n (a - m * b)" "a - m * b"] by simp

text \<open>The last of several iterations: the array is new, and all the places before its part are empty.\<close>

context database
begin

lemma generateReplyGeneric_last:
  fixes g k A memory
  defines "B \<equiv> block_bytes k A" and "whole \<equiv> db_getmaxFileBytesize db"
  defines "readable \<equiv> max_readable memory g" and "count \<equiv> nbr_of_iterations memory g"
  assumes g: "rg_db g = db" "lwe_setup (rg_crypto g) k A" "pir_alpha (rg_params g) = 1" "pir_d (rg_params g) = 1"
    and nb: "0 < db_getNbStream db" "db_getNbStream db \<le> pir_n (rg_params g) ! 0"
    and q: "query_loaded g k A cs" and arr: "repliesArray g = None"
    and sz: "8 \<le> whole - (count - 1) * readable" "whole < 2 ^ 60" "1 < count"
  shows "\<exists>h r. generateReplyGeneric memory keep False g = Some (empty_database, h) \<and> r \<noteq> [] \<and>
    repliesArray h = Some (replicate (ceil_div ((count - 1) * readable) B) None @ map Some r) \<and>
    ceil_div ((count - 1) * readable) B + length r = ceil_div whole B \<and> 0 < ceil_div ((count - 1) * readable) B"
proof -
  note D = lwe_setupD [OF g(2)]
  have B: "0 < B" using D(11) by (simp add: B_def)
  have count: "count = ceil_div whole readable" by (simp add: count_def readable_def nbr_of_iterations_def whole_def g(1))
  have "ceil_div whole whole \<le> 1" using ceil_div_mult [of whole 1] by (cases "whole = 0") (simp_all add: ceil_div_def)
  then have "readable \<noteq> whole" using sz(3) unfolding count by (metis not_le)
  then obtain c where c: "0 < c" "readable = c * B"
    using max_readable_blocks [OF g(2), of memory] g(1) by (auto simp: readable_def whole_def B_def)
  then have r: "0 < readable" using B by simp
  have less: "it * readable < whole" if "it < count" for it using that less_ceil_div_iff [OF r] by (simp add: count)
  have fits: "whole \<le> count * readable" using ceil_div_mult_ge [OF r] by (simp add: count)
  have big: "8 \<le> min readable (whole - it * readable)" if it: "it < count" for it
  proof (cases "it = count - 1")
    case True
    have "(count - 1) * readable + readable = count * readable" using sz(3) by (cases count) simp_all
    then have "whole - (count - 1) * readable \<le> readable" using fits by linarith
    then show ?thesis using sz(1) True by simp
  next
    case False
    then have "Suc it < count" using it by simp
    then have "Suc it * readable < whole" by (rule less)
    then have m: "min readable (whole - it * readable) = readable" by simp
    have "(count - 1) * readable + readable = count * readable" using sz(3) by (cases count) simp_all
    then have "whole - (count - 1) * readable \<le> readable" using fits by linarith
    then show ?thesis using m sz(1) by simp
  qed
  let ?amount = "ceil_div whole B"
  let ?places = "\<lambda>it r. replicate (ceil_div (it * readable) B) None @ map Some r @
    replicate (?amount - (ceil_div (it * readable) B + length r)) None"
  let ?I = "\<lambda>it (w, h). w = empty_database \<and> rg_db h = rg_db g \<and> rg_crypto h = rg_crypto g \<and> rg_params h = rg_params g \<and>
    queriesBuf h = queriesBuf g \<and> (it = 0 \<longrightarrow> repliesArray h = None) \<and>
    (0 < it \<longrightarrow> (\<exists>r. length r = ceil_div (min readable (whole - (it - 1) * readable)) B \<and> repliesArray h = Some (?places (it - 1) r)))"
  have room: "ceil_div (it * readable) B + ceil_div (min readable (whole - it * readable)) B \<le> ?amount" if "it < count" for it
    using min_blocks [OF B, of "it * c" whole readable] less [OF that] ceil_div_mult [OF B, of "it * c"] c(2)
    by (simp add: mult.assoc)
  have "\<exists>s'. for_each (import_iteration False False None count readable) [0..<count] (empty_database, g) = Some s' \<and> ?I count s'"
  proof (rule for_each_upt [where I = ?I])
    show "?I 0 (empty_database, g)" using arr by simp
    fix it and st :: "imported_database \<times> nfl_generator"
    assume it: "it < count" and I: "?I it st"
    obtain h where st: "st = (empty_database, h)" "rg_db h = rg_db g" "rg_crypto h = rg_crypto g" "rg_params h = rg_params g"
      "queriesBuf h = queriesBuf g" using I by (cases st) auto
    have len: "\<forall>arr. repliesArray h = Some arr \<longrightarrow> length arr = ?amount"
    proof (cases it)
      case 0
      then show ?thesis using I st(1) by simp
    next
      case (Suc j)
      then obtain r where r: "length r = ceil_div (min readable (whole - j * readable)) B" "repliesArray h = Some (?places j r)"
        using I st(1) by auto
      then show ?thesis using room [of j] it Suc by simp
    qed
    have "query_loaded h k A cs" using q st(3-5) by (simp add: query_loaded_def)
    then obtain r w' h' where "import_iteration False False None count readable it (empty_database, h) = Some (w', h')"
      "length r = ceil_div (min readable (whole - it * readable)) B" "repliesArray h' = Some (?places it r)"
      "w' = empty_database" "rg_db h' = rg_db h" "rg_crypto h' = rg_crypto h" "rg_params h' = rg_params h" "queriesBuf h' = queriesBuf h"
      using import_iteration_runs [of h k A cs it readable False count empty_database] g nb st len less [OF it] big [OF it] sz(2) room [OF it]
      by (auto simp: B_def whole_def)
    then show "\<exists>s'. import_iteration False False None count readable it st = Some s' \<and> ?I (Suc it) s'"
      using st by (intro exI [of _ "(w', h')"]) auto
  qed
  then obtain h r where h: "for_each (import_iteration False False None count readable) [0..<count] (empty_database, g) = Some (empty_database, h)"
    "length r = ceil_div (min readable (whole - (count - 1) * readable)) B" "repliesArray h = Some (?places (count - 1) r)"
    using sz(3) by fastforce
  have plan: "import_plan memory g = (count, readable)" using g(3,4) by (simp add: import_plan_def count_def readable_def)
  have "whole \<noteq> 0" using less [of 0] sz(3) by simp
  then have res: "generateReplyGeneric memory keep False g = Some (empty_database, freeQueries h)"
    using h(1) nb(1) D(5,7) g(1) sz(3)
    by (simp add: generateReplyGeneric_def generateReplyGeneric_with_def plan whole_def)
  have "(count - 1) * readable + readable = count * readable" using sz(3) by (cases count) simp_all
  then have m: "min readable (whole - (count - 1) * readable) = whole - (count - 1) * readable" using fits by linarith
  have lost: "(count - 1) * readable = ((count - 1) * c) * B" using c(2) by (simp add: mult.assoc)
  then have idx: "ceil_div ((count - 1) * readable) B = (count - 1) * c"
    by (simp only: ceil_div_mult [OF B])
  have "whole - (count - 1) * readable \<le> length r * B"
    using ceil_div_mult_ge [OF B, of "whole - (count - 1) * readable"] unfolding h(2) m .
  then have "whole \<le> ((count - 1) * c + length r) * B" unfolding lost add_mult_distrib by linarith
  then have "?amount \<le> (count - 1) * c + length r" by (simp add: ceil_div_le_iff [OF B])
  then have "repliesArray h = Some (replicate (ceil_div ((count - 1) * readable) B) None @ map Some r)" unfolding h(3) idx by simp
  moreover have "0 < length r" unfolding h(2) m ceil_div_pos [OF B] using sz(1) by linarith
  then have "r \<noteq> []" by simp
  moreover have "0 < (count - 1) * c" using sz(3) c(1) by simp
  moreover have "(count - 1) * c + length r = ?amount"
    using \<open>?amount \<le> (count - 1) * c + length r\<close> room [of "count - 1"] sz(3) unfolding idx h(2) by linarith
  ultimately show ?thesis
    unfolding idx by (intro exI [of _ "freeQueries h"] exI [of _ r] conjI res) (simp_all add: freeQueries_def)
qed

end



definition example_big_dir :: directory_processor where
  "example_big_dir = DBDirectoryProcessor (Some [(''1'', replicate 16 7)])"

definition example_one_params :: pir_parameters where
  "example_one_params = \<lparr> pir_alpha = 1, pir_d = 1, pir_n = [1], crypto_params = [] \<rparr>"

definition example_generator :: "lwe \<Rightarrow> nfl_generator" where
  "example_generator L = rg (PIRReplyGenerator example_one_params L
     (directory_handler (\<lambda>_. replicate 16 7) (\<lambda>r. Suc r) example_big_dir))
       \<lparr> queriesBuf := Some (query_rows L (\<lambda>j i. encrypt_uint L [7] [5] 1) [1]) \<rparr>"

lemma example_generator:
  assumes "lwe_setup L k A"
  shows "rg_db (example_generator L) = directory_handler (\<lambda>_. replicate 16 7) (\<lambda>r. Suc r) example_big_dir"
    "rg_crypto (example_generator L) = L" "rg_params (example_generator L) = example_one_params"
    "repliesArray (example_generator L) = None" "query_loaded (example_generator L) k A [0]"
proof -
  show f: "rg_db (example_generator L) = directory_handler (\<lambda>_. replicate 16 7) (\<lambda>r. Suc r) example_big_dir"
    "rg_crypto (example_generator L) = L" "rg_params (example_generator L) = example_one_params"
    "repliesArray (example_generator L) = None"
    by (simp_all add: example_generator_def PIRReplyGenerator_def setPirParams_def setCryptoMethod_def PIRReplyGeneratorNFL_def
        initQueriesBuffer_def freeQueriesBuffer_def freeQueries_def)
  have b: "queriesBuf (example_generator L) = Some (query_rows L (\<lambda>j i. encrypt_uint L [7] [5] 1) [1])"
    by (simp add: example_generator_def)
  show "query_loaded (example_generator L) k A [0]"
    by (rule query_rows_loaded [where c = "\<lambda>j i. encrypt_uint L [7] [5] 1" and rb = "\<lambda>j i. [7]" and ra = "\<lambda>j i. [5]"])
      (use assms b in \<open>simp_all add: f example_one_params_def\<close>)
qed

lemma example_big_dir: "file_list example_big_dir = [''1'']" "maxFileBytesize example_big_dir = 16"
  by code_simp+

lemma example_setup: "\<exists>L. lwe_setup L 1 32"
proof -
  obtain L where "lwe_setNewParameters euclid_invert [3] (2 ^ 1) 60 (int 32) (NFLLWE_new \<lparr> securityBits := 80 \<rparr>) = Inr L"
    using lwe_setNewParameters_ok [of 1 60 euclid_invert "[3]" "int 32" "NFLLWE_new \<lparr> securityBits := 80 \<rparr>"] by auto
  then show ?thesis unfolding lwe_setup_def by fastforce
qed



theorem kept_database_same_reply_witness:
  "\<exists>L db h h'. generateReplyGeneric 1000 True False (example_generator L) = Some (db, h) \<and>
    generateReplyGenericFromData db (h \<lparr> queriesBuf := queriesBuf (example_generator L) \<rparr>) = Some h' \<and> repliesArray h' = repliesArray h"
proof -
  obtain L where L: "lwe_setup L 1 32" using example_setup by blast
  note e = example_generator [OF L]
  let ?g = "example_generator L"
  have a: "getAbsorptionBitsize L = 64" using lwe_setupD(5) [OF L] by simp
  then have m: "max_readable 1000 ?g = 16" "nbr_of_iterations 1000 ?g = 1"
    by (simp_all add: max_readable_def nbr_of_iterations_def e directory_handler_def getNbStream_def getmaxFileBytesize_def
        example_big_dir kBitsPerByte_def ceil_div_def)
  then have plan: "import_plan 1000 ?g = (1, 16)" by (simp add: import_plan_def)
  have b: "block_bytes 1 32 = 8" "ceil_div 16 8 = 2" by (simp_all add: block_bytes_def ceil_div_def)
  have db: "db_getNbStream (rg_db ?g) = 1" "db_getmaxFileBytesize (rg_db ?g) = 16"
    by (simp_all add: e directory_handler_def getNbStream_def getmaxFileBytesize_def example_big_dir)
  have p: "pir_alpha (rg_params ?g) = 1" "pir_d (rg_params ?g) = 1" "pir_n (rg_params ?g) ! 0 = 1"
    by (simp_all add: e example_one_params_def)
  have u: "lwe_setup (rg_crypto ?g) 1 32" using L by (simp add: e)
  obtain w' g' where it: "import_iteration True False None 1 16 0 (empty_database, ?g) = Some (w', g')"
    using directory.import_iteration_runs [OF e(1) u p(1,2) _ _ e(5), of 0 16 True 1 empty_database, folded e(1), unfolded db p(3) b(1)]
      e(4) b(2) by auto
  then have run: "generateReplyGeneric 1000 True False ?g = Some (w', freeQueries g')"
    using it a db by (simp add: generateReplyGeneric_def generateReplyGeneric_with_def plan e(2))
  from kept_database_same_reply [OF run] plan run show ?thesis by fastforce
qed

section \<open>The simulation\<close>

lemma pushFakeQuery_input:
  assumes "pushFakeQuery rnd g = Some h"
  shows "input_data h = input_data g"
proof -
  have "input_data h = input_data g" if "pushQuery_at q dm j g = Some h" for q dm j and g h :: nfl_generator
    using that by (auto simp: pushQuery_at_def Let_def split: option.splits if_splits)
  note push = this
  show ?thesis
  proof (rule for_each_length [where h = input_data, OF _ assms [unfolded pushFakeQuery_def]])
    fix dm and s s' :: nfl_generator
    assume "for_each (\<lambda>j g. pushQuery_at (cipher_bytes (encrypt_uint (rg_crypto g) (fst (rnd dm j)) (snd (rnd dm j)) 0)) dm j g)
      [0..<pir_n (rg_params g) ! dm] s = Some s'"
    from for_each_length [where h = input_data, OF _ this] push show "input_data s' = input_data s" by blast
  qed
qed


end
