(* ===== verification/Catalog.thy ===== *)
theory Catalog
  imports DBHandlers CStrings
begin

text \<open>
  The catalog of files as the client reads it: \<open>apps/client/DESC.cpp\<close>, with the operations of
  \<open>std::stringstream\<close> it uses. The state of a stream is what is left of it and whether no error or
  end was met. \<open>None\<close> is undefined behaviour: an uninitialised value that is used, a number that
  does not fit into the \<open>int\<close> of \<open>atoi\<close>, a pointer past the end of a string.
\<close>

section \<open>Streams\<close>

record istream =
  rest :: string
  good :: bool

text \<open>The constructor from a C string stops at the first null character.\<close>

definition istream_of :: "string \<Rightarrow> istream" where
  "istream_of buf = \<lparr> rest = takeWhile (\<lambda>c. c \<noteq> CHR 0x00) buf, good = True \<rparr>"

text \<open>
  \<open>s >> v\<close> for an unsigned \<open>v\<close> of \<open>w\<close> bits: the new value, or \<open>None\<close> when \<open>v\<close> is left as it was.
\<close>

definition extract_uint :: "nat \<Rightarrow> istream \<Rightarrow> nat option \<times> istream" where
  "extract_uint w s =
     (let r = dropWhile is_space (rest s)
      in if \<not> good s then (None, s)
         else if r = [] then (None, \<lparr> rest = [], good = False \<rparr>)
         else let signed = (hd r = CHR ''-'' \<or> hd r = CHR ''+'');
                  digits = (if signed then tl r else r);
                  v = digits_val digits;
                  left = dropWhile is_digit digits
              in if digits = left then (Some 0, \<lparr> rest = left, good = False \<rparr>)
                 else if v \<ge> 2 ^ w then (Some (2 ^ w - 1), \<lparr> rest = left, good = False \<rparr>)
                 else (Some (if hd r = CHR ''-'' then (2 ^ w - v) mod 2 ^ w else v), \<lparr> rest = left, good = (left \<noteq> []) \<rparr>))"

text \<open>\<open>s.getline(buf, n)\<close>: the line, \<open>gcount\<close>, and the stream.\<close>

definition stream_getline :: "nat \<Rightarrow> istream \<Rightarrow> string \<times> nat \<times> istream" where
  "stream_getline n s =
     (if \<not> good s then ([], 0, s)
      else let line = take (n - 1) (takeWhile (\<lambda>c. c \<noteq> CHR 0x0A) (rest s));
               left = drop (length line) (rest s)
           in case left of
                [] \<Rightarrow> (line, length line, \<lparr> rest = [], good = False \<rparr>)
              | c # left' \<Rightarrow>
                  if c = CHR 0x0A then (line, length line + 1, \<lparr> rest = left', good = True \<rparr>)
                  else (line, length line, \<lparr> rest = left, good = False \<rparr>))"

section \<open>DESC\<close>

record desc =
  desc_fileList :: "string list"
  desc_fileSize :: "u64 list"
  desc_maxFileSize :: u64
  desc_nbFiles :: nat

text \<open>\<open>nbFiles\<close> is not set by the constructor.\<close>

definition DESC :: desc where
  "DESC = \<lparr> desc_fileList = [], desc_fileSize = [], desc_maxFileSize = 0, desc_nbFiles = 0 \<rparr>"

definition FILENAME_MAX_BYTE_SIZE :: nat where
  "FILENAME_MAX_BYTE_SIZE = 1023"

text \<open>A size goes through the \<open>int\<close> that \<open>atoi\<close> returns.\<close>

definition atoi_size :: "string \<Rightarrow> u64 option" where
  "atoi_size s = (let z = atoi s in if - (2 ^ 31) \<le> z \<and> z < 2 ^ 31 then Some (of_int z) else None)"

definition read_entry :: "nat \<Rightarrow> istream \<times> desc \<Rightarrow> (istream \<times> desc) option" where
  "read_entry i state =
     (let (ss, d) = state;
          (fileName, _, ss) = stream_getline FILENAME_MAX_BYTE_SIZE ss;
          (tmpSize, gcount, ss) = stream_getline FILENAME_MAX_BYTE_SIZE ss
      in if gcount > 0
         then map_option (\<lambda>bytes.
             (ss, d \<lparr> desc_fileList := desc_fileList d @ [fileName], desc_fileSize := desc_fileSize d @ [bytes],
                     desc_nbFiles := desc_nbFiles d + 1,
                     desc_maxFileSize := (if desc_maxFileSize d < bytes then bytes else desc_maxFileSize d) \<rparr>))
           (atoi_size tmpSize)
         else Some (ss, d))"

text \<open>
  The result says whether an error event was sent. The number of an unknown type is added to the
  pointer to the message, which has 22 characters with its end.
\<close>

definition makeMenu :: "string \<Rightarrow> desc \<Rightarrow> (desc \<times> bool) option" where
  "makeMenu receivedBuffer d =
     (let d = d \<lparr> desc_maxFileSize := 0 \<rparr>; (catalogType, ss) = extract_uint 32 (istream_of receivedBuffer)
      in case catalogType of
           None \<Rightarrow> None
         | Some catalogType \<Rightarrow>
             if catalogType = 0 then
               (let (fileCount, ss) = extract_uint 64 ss; (_, _, ss) = stream_getline FILENAME_MAX_BYTE_SIZE ss
                in map_option (\<lambda>(_, d). (d, False))
                     (for_each read_entry [0..<case fileCount of None \<Rightarrow> 0 | Some n \<Rightarrow> n] (ss, d \<lparr> desc_nbFiles := 0 \<rparr>)))
             else if catalogType = 1 then
               (let (fileCount, ss) = extract_uint 64 ss; n = (case fileCount of None \<Rightarrow> 0 | Some n \<Rightarrow> n);
                    (_, _, ss) = stream_getline FILENAME_MAX_BYTE_SIZE ss;
                    (tmpSize, _, ss) = stream_getline FILENAME_MAX_BYTE_SIZE ss
                in map_option (\<lambda>bytes.
                     (d \<lparr> desc_maxFileSize := bytes, desc_fileList := desc_fileList d @ map to_string [0..<n],
                         desc_fileSize := desc_fileSize d @ replicate n bytes, desc_nbFiles := n \<rparr>, False))
                     (atoi_size tmpSize))
             else if catalogType \<le> 22 then Some (d, True) else None)"

definition desc_getFileName :: "nat \<Rightarrow> desc \<Rightarrow> string" where
  "desc_getFileName index d = (if index < desc_nbFiles d then desc_fileList d ! index else ''None'')"

definition desc_getFileSize :: "nat \<Rightarrow> desc \<Rightarrow> u64" where
  "desc_getFileSize index d = (if index < length (desc_fileSize d) then desc_fileSize d ! index else - 1)"

definition file_exists :: "nat \<Rightarrow> desc \<Rightarrow> bool" where
  "file_exists index d \<longleftrightarrow> index < desc_nbFiles d"

definition getFilesNum :: "desc \<Rightarrow> nat" where
  "getFilesNum d = desc_nbFiles d"

definition getMaxFileSize :: "desc \<Rightarrow> u64" where
  "getMaxFileSize d = desc_maxFileSize d"

definition getFileList :: "desc \<Rightarrow> string list" where
  "getFileList d = desc_fileList d"

section \<open>Reading what the server prints\<close>

lemma digits_not_special:
  assumes "is_digit c"
  shows "\<not> is_space c" "c \<noteq> CHR 0x0A" "c \<noteq> CHR ''-''" "c \<noteq> CHR ''+''" "c \<noteq> CHR 0x00"
  using assms by (auto simp: is_digit_def is_space_def)

lemma to_string_digits: "c \<in> set (to_string n) \<Longrightarrow> is_digit c"
  using to_string_chars [of n] by (simp add: list_all_iff)

lemma newline_special [simp]: "is_space (CHR 0x0A)" "\<not> is_digit (CHR 0x0A)"
  by (simp_all add: is_space_def is_digit_def)

text \<open>A printed number before a line end.\<close>

lemma digits_val_line: "digits_val (to_string n @ CHR 0x0A # r) = n"
proof -
  have "takeWhile is_digit (to_string n @ CHR 0x0A # r) = to_string n"
    using to_string_digits by (subst takeWhile_append2) simp_all
  then show ?thesis by (simp add: digits_val_def to_string_value)
qed

lemma extract_uint_line:
  assumes "n < 2 ^ w" "good s" "rest s = sp @ to_string n @ CHR 0x0A # r" "\<forall>c \<in> set sp. is_space c"
  shows "extract_uint w s = (Some n, \<lparr> rest = CHR 0x0A # r, good = True \<rparr>)"
proof -
  obtain d ds where d: "to_string n = d # ds" by (cases "to_string n") simp_all
  have "is_digit d" using to_string_digits [of d n] d by simp
  note dd = digits_not_special [OF this]
  have drop: "dropWhile is_space (rest s) = to_string n @ CHR 0x0A # r"
    using assms(3,4) d dd by (simp add: dropWhile_append3) 
  have left: "dropWhile is_digit (to_string n @ CHR 0x0A # r) = CHR 0x0A # r"
    using to_string_digits by (simp add: dropWhile_append3)
  have ne: "to_string n @ CHR 0x0A # r \<noteq> CHR 0x0A # r" by simp
  show ?thesis
    unfolding extract_uint_def drop Let_def using assms(1,2) d dd left digits_val_line [of n r] by simp
qed

lemma getline_line:
  assumes "good s" "rest s = line @ CHR 0x0A # r" "CHR 0x0A \<notin> set line" "length line < n"
  shows "stream_getline n s = (line, length line + 1, \<lparr> rest = r, good = True \<rparr>)"
proof -
  have "takeWhile (\<lambda>c. c \<noteq> CHR 0x0A) (line @ CHR 0x0A # r) = line"
    using assms(3) by (subst takeWhile_append2) auto
  then show ?thesis using assms by (simp add: stream_getline_def)
qed


lemma to_string_length: "n < 10 ^ Suc k \<Longrightarrow> length (to_string n) \<le> Suc k"
proof (induction k arbitrary: n)
  case 0
  then show ?case by (simp add: to_string.simps [of n])
next
  case (Suc k)
  then have "n div 10 < 10 ^ Suc k" by (simp add: less_mult_imp_div_less)
  then show ?case using Suc.IH [of "n div 10"] by (simp add: to_string.simps [of n])
qed

lemma atoi_size_to_string: "n < 2 ^ 31 \<Longrightarrow> atoi_size (to_string n) = Some (of_nat n)"
  by (simp add: atoi_size_def Let_def)

lemma newline_not_in_to_string: "CHR 0x0A \<notin> set (to_string n)"
  using to_string_digits [of "CHR 0x0A" n] by auto

definition catalog_text :: "(string \<times> nat) list \<Rightarrow> string" where
  "catalog_text es = concat (map (\<lambda>(f, n). f @ newline @ to_string n @ newline) es)"

definition line_name :: "string \<Rightarrow> bool" where
  "line_name f \<longleftrightarrow> CHR 0x0A \<notin> set f \<and> CHR 0x00 \<notin> set f \<and> length f < FILENAME_MAX_BYTE_SIZE"

lemma read_entry_line:
  assumes "good s" "rest s = f @ newline @ to_string n @ newline @ r" "line_name f" "n < 2 ^ 31"
  shows "read_entry i (s, d) = Some (\<lparr> rest = r, good = True \<rparr>,
    d \<lparr> desc_fileList := desc_fileList d @ [f], desc_fileSize := desc_fileSize d @ [of_nat n], desc_nbFiles := desc_nbFiles d + 1,
        desc_maxFileSize := max (desc_maxFileSize d) (of_nat n) \<rparr>)"
proof -
  have f: "stream_getline FILENAME_MAX_BYTE_SIZE s = (f, length f + 1, \<lparr> rest = to_string n @ CHR 0x0A # r, good = True \<rparr>)"
    using assms(1-3) by (intro getline_line) (simp_all add: newline_def line_name_def)
  have "length (to_string n) \<le> Suc 9" using assms(4) by (intro to_string_length) simp
  then have n: "stream_getline FILENAME_MAX_BYTE_SIZE \<lparr> rest = to_string n @ CHR 0x0A # r, good = True \<rparr> =
      (to_string n, length (to_string n) + 1, \<lparr> rest = r, good = True \<rparr>)"
    using newline_not_in_to_string by (intro getline_line) (simp_all add: FILENAME_MAX_BYTE_SIZE_def)
  have m: "(if a < b then b else a) = max a b" for a b :: u64 by (auto simp: max_def)
  show ?thesis unfolding read_entry_def Let_def split_conv f n using atoi_size_to_string [OF assms(4)] m by simp
qed

definition menu_entries :: "(string \<times> nat) list \<Rightarrow> desc \<Rightarrow> desc" where
  "menu_entries es d = d \<lparr> desc_fileList := desc_fileList d @ map fst es, desc_fileSize := desc_fileSize d @ map (of_nat \<circ> snd) es,
     desc_nbFiles := desc_nbFiles d + length es, desc_maxFileSize := fold (\<lambda>(f, n) m. max m (of_nat n)) es (desc_maxFileSize d) \<rparr>"

lemma read_entries:
  assumes "good s" "rest s = catalog_text es @ r" "\<forall>(f, n) \<in> set es. line_name f \<and> n < 2 ^ 31" "length is = length es"
  shows "for_each read_entry is (s, d) = Some (\<lparr> rest = r, good = True \<rparr>, menu_entries es d)"
  using assms
proof (induction es arbitrary: s d "is")
  case Nil
  then show ?case by (simp add: catalog_text_def menu_entries_def)
next
  case (Cons e es)
  obtain f n where e: "e = (f, n)" by (cases e)
  obtain i "is'" where i: "is = i # is'" "length is' = length es" using Cons.prems(4) by (cases "is") auto
  have "rest s = f @ newline @ to_string n @ newline @ catalog_text es @ r" using Cons.prems(2) by (simp add: catalog_text_def e)
  note E = read_entry_line [OF Cons.prems(1) this, of i d]
  show ?case
    using E Cons.IH [of "\<lparr> rest = catalog_text es @ r, good = True \<rparr>" "is'"] Cons.prems(3) i
    by (simp add: e menu_entries_def)
qed

lemma catalog_chars:
  assumes "\<forall>(f, n) \<in> set es. line_name f"
  shows "CHR 0x00 \<notin> set (catalog_text es)"
  using assms to_string_digits [of "CHR 0x00"] by (auto simp: catalog_text_def newline_def line_name_def is_digit_def)

text \<open>The head of a full catalog.\<close>

lemma makeMenu_head:
  assumes "\<forall>(f, n) \<in> set es. line_name f" "length es < 2 ^ 64"
  shows "makeMenu (to_string 0 @ newline @ to_string (length es) @ newline @ catalog_text es) d =
    map_option (\<lambda>(_, d). (d, False)) (for_each read_entry [0..<length es]
      (\<lparr> rest = catalog_text es, good = True \<rparr>, d \<lparr> desc_maxFileSize := 0, desc_nbFiles := 0 \<rparr>))"
proof -
  let ?n = "length es" and ?text = "to_string 0 @ newline @ to_string (length es) @ newline @ catalog_text es"
  have "CHR 0x00 \<notin> set (catalog_text es)" using assms(1) by (rule catalog_chars)
  moreover have "CHR 0x00 \<notin> set (to_string n)" for n
    using to_string_digits [of "CHR 0x00" n] digits_not_special(5) by blast
  ultimately have "\<forall>c \<in> set ?text. c \<noteq> CHR 0x00" by (auto simp: newline_def)
  then have s: "istream_of ?text = \<lparr> rest = ?text, good = True \<rparr>"
    unfolding istream_of_def by (simp only: takeWhile_eq_all_conv [THEN iffD2])
  have t: "extract_uint 32 (istream_of ?text) = (Some 0, \<lparr> rest = CHR 0x0A # to_string ?n @ newline @ catalog_text es, good = True \<rparr>)"
    unfolding s by (rule extract_uint_line [where sp = "[]"]) (simp_all add: newline_def)
  have c: "extract_uint 64 \<lparr> rest = CHR 0x0A # to_string ?n @ newline @ catalog_text es, good = True \<rparr> =
      (Some ?n, \<lparr> rest = CHR 0x0A # catalog_text es, good = True \<rparr>)"
    by (rule extract_uint_line [where sp = "[CHR 0x0A]"]) (use assms(2) in \<open>simp_all add: newline_def\<close>)
  have l: "stream_getline FILENAME_MAX_BYTE_SIZE \<lparr> rest = CHR 0x0A # catalog_text es, good = True \<rparr> =
      ([], 0 + 1, \<lparr> rest = catalog_text es, good = True \<rparr>)"
    using getline_line [of "\<lparr> rest = CHR 0x0A # catalog_text es, good = True \<rparr>" "[]" "catalog_text es"] by (simp add: FILENAME_MAX_BYTE_SIZE_def)
  show ?thesis unfolding makeMenu_def Let_def t c l split_conv option.case by simp
qed

lemma makeMenu_names:
  assumes "\<forall>(f, n) \<in> set es. line_name f \<and> n < 2 ^ 31" "length es < 2 ^ 64"
  shows "makeMenu (to_string 0 @ newline @ to_string (length es) @ newline @ catalog_text es) d =
    Some (menu_entries es (d \<lparr> desc_maxFileSize := 0, desc_nbFiles := 0 \<rparr>), False)"
proof -
  have "\<forall>(f, n) \<in> set es. line_name f" using assms(1) by auto
  note H = makeMenu_head [OF this assms(2), of d]
  have "for_each read_entry [0..<length es] (\<lparr> rest = catalog_text es, good = True \<rparr>, d') =
      Some (\<lparr> rest = [], good = True \<rparr>, menu_entries es d')" for d'
    by (rule read_entries) (use assms(1) in simp_all)
  then show ?thesis unfolding H by simp
qed

definition file_size :: "(string \<Rightarrow> u8 list) \<Rightarrow> directory_processor \<Rightarrow> string \<Rightarrow> nat" where
  "file_size fs D f = (if \<not> filesSplitting D then length (fs (''db/'' @ f)) else getmaxFileBytesize D)"

lemma getCatalog_text:
  "getCatalog fs D True = to_string 0 @ newline @ to_string (length (map (\<lambda>f. (f, file_size fs D f)) (file_list D))) @ newline @
     catalog_text (map (\<lambda>f. (f, file_size fs D f)) (file_list D))"
  by (simp add: getCatalog_def getNbStream_def catalog_text_def file_size_def comp_def)

lemma fold_max_u64:
  assumes "\<forall>(f, n) \<in> set es. n < 2 ^ 31" "m < 2 ^ 31"
  shows "unat (fold (\<lambda>(f, n) m. max m (of_nat n)) es (of_nat m :: u64)) = fold max (map snd es) m"
  using assms
proof (induction es arbitrary: m)
  case (Cons e es)
  obtain f n where e: "e = (f, n)" by (cases e)
  have n: "n < 2 ^ 31" using Cons.prems(1) e by simp
  have "max (of_nat m) (of_nat n :: u64) = of_nat (max m n)"
    using n Cons.prems(2) by (auto simp: max_def word_le_nat_alt unat_of_nat take_bit_nat_eq_self)
  then show ?case using Cons.IH [of "max m n"] Cons.prems n by (simp add: e max.commute)
qed (simp add: unat_of_nat take_bit_nat_eq_self)

text \<open>
  C33: The full catalog that the server prints for its directory is read back by the client: the same
  number of files, and for each the same name and size; the maximum size is the maximum of the sizes.
  Names have no line end and at most 1022 characters, sizes are below 2 GB.
\<close>
theorem catalog_round_trip:
  assumes "\<forall>f \<in> set (file_list D). line_name f \<and> file_size fs D f < 2 ^ 31" "length (file_list D) < 2 ^ 64"
  shows "\<exists>d. makeMenu (getCatalog fs D True) DESC = Some (d, False) \<and> getFilesNum d = getNbStream D \<and>
    (\<forall>i < getNbStream D. file_exists i d \<and> desc_getFileName i d = file_list D ! i \<and>
       desc_getFileSize i d = of_nat (file_size fs D (file_list D ! i))) \<and>
    unat (getMaxFileSize d) = fold max (map (file_size fs D) (file_list D)) 0"
proof -
  let ?es = "map (\<lambda>f. (f, file_size fs D f)) (file_list D)"
  let ?d = "menu_entries ?es (DESC \<lparr> desc_maxFileSize := 0, desc_nbFiles := 0 \<rparr>)"
  have "makeMenu (getCatalog fs D True) DESC = Some (?d, False)"
    unfolding getCatalog_text by (rule makeMenu_names) (use assms in auto)
  moreover have "unat (getMaxFileSize ?d) = fold max (map (file_size fs D) (file_list D)) 0"
    using fold_max_u64 [of ?es 0] assms(1) by (simp add: getMaxFileSize_def menu_entries_def DESC_def comp_def)
  ultimately show ?thesis
    by (intro exI [of _ ?d])
      (simp add: menu_entries_def DESC_def getFilesNum_def getNbStream_def file_exists_def desc_getFileName_def desc_getFileSize_def)
qed

theorem catalog_round_trip_witness:
  "\<exists>d. makeMenu (getCatalog (\<lambda>p. if p = ''db/a'' then [1, 2, 3] else [4]) (DBDirectoryProcessor (Some [(''a'', [1, 2, 3]), (''b'', [4])])) True) DESC =
      Some (d, False) \<and> getFilesNum d = 2 \<and> desc_getFileName 0 d = ''a'' \<and> desc_getFileSize 0 d = 3 \<and>
      desc_getFileSize 1 d = 1 \<and> unat (getMaxFileSize d) = 3"
proof -
  let ?fs = "\<lambda>p. if p = ''db/a'' then [1, 2, 3] else [4 :: u8]"
  let ?D = "DBDirectoryProcessor (Some [(''a'', [1, 2, 3]), (''b'', [4 :: u8])])"
  have D: "file_list ?D = [''a'', ''b'']" "filesSplitting ?D = False" by code_simp+
  from catalog_round_trip [of ?D ?fs]
  show ?thesis by (auto simp: D line_name_def FILENAME_MAX_BYTE_SIZE_def file_size_def getNbStream_def less_Suc_eq)
qed

text \<open>The short catalog: as many names as files, all of the maximal size.\<close>

lemma makeMenu_short:
  assumes "n < 2 ^ 64" "m < 2 ^ 31"
  shows "makeMenu (to_string 1 @ newline @ to_string n @ newline @ to_string m @ newline) d =
    Some (d \<lparr> desc_maxFileSize := of_nat m, desc_fileList := desc_fileList d @ map to_string [0..<n],
      desc_fileSize := desc_fileSize d @ replicate n (of_nat m), desc_nbFiles := n \<rparr>, False)"
proof -
  let ?text = "to_string 1 @ newline @ to_string n @ newline @ to_string m @ newline"
  have "CHR 0x00 \<notin> set (to_string j)" for j
    using to_string_digits [of "CHR 0x00" j] digits_not_special(5) by blast
  then have "\<forall>c \<in> set ?text. c \<noteq> CHR 0x00" by (auto simp: newline_def)
  then have s: "istream_of ?text = \<lparr> rest = ?text, good = True \<rparr>"
    unfolding istream_of_def by (simp only: takeWhile_eq_all_conv [THEN iffD2])
  have t: "extract_uint 32 (istream_of ?text) = (Some 1, \<lparr> rest = CHR 0x0A # to_string n @ newline @ to_string m @ newline, good = True \<rparr>)"
    unfolding s by (rule extract_uint_line [where sp = "[]"]) (simp_all add: newline_def)
  have c: "extract_uint 64 \<lparr> rest = CHR 0x0A # to_string n @ newline @ to_string m @ newline, good = True \<rparr> =
      (Some n, \<lparr> rest = CHR 0x0A # to_string m @ newline, good = True \<rparr>)"
    by (rule extract_uint_line [where sp = "[CHR 0x0A]"]) (use assms(1) in \<open>simp_all add: newline_def\<close>)
  have l: "stream_getline FILENAME_MAX_BYTE_SIZE \<lparr> rest = CHR 0x0A # to_string m @ newline, good = True \<rparr> =
      ([], 0 + 1, \<lparr> rest = to_string m @ newline, good = True \<rparr>)"
    using getline_line [of "\<lparr> rest = CHR 0x0A # to_string m @ newline, good = True \<rparr>" "[]" "to_string m @ newline"]
    by (simp add: FILENAME_MAX_BYTE_SIZE_def)
  have "length (to_string m) \<le> Suc 9" using assms(2) by (intro to_string_length) simp
  then have z: "stream_getline FILENAME_MAX_BYTE_SIZE \<lparr> rest = to_string m @ newline, good = True \<rparr> =
      (to_string m, length (to_string m) + 1, \<lparr> rest = [], good = True \<rparr>)"
    using newline_not_in_to_string by (intro getline_line) (simp_all add: FILENAME_MAX_BYTE_SIZE_def newline_def)
  show ?thesis
    unfolding makeMenu_def Let_def t c l z split_conv option.case by (simp add: atoi_size_to_string [OF assms(2)])
qed

text \<open>A file of 2 GB or more: its size does not fit into the \<open>int\<close> of \<open>atoi\<close>.\<close>

lemma large_file_undefined:
  assumes "\<forall>(f, n) \<in> set (es @ es'). line_name f" "\<forall>(f, n) \<in> set es. n < 2 ^ 31" "line_name f" "2 ^ 31 \<le> n" "n < 10 ^ 20"
    "length (es @ (f, n) # es') < 2 ^ 64"
  shows "makeMenu (to_string 0 @ newline @ to_string (length (es @ (f, n) # es')) @ newline @ catalog_text (es @ (f, n) # es')) d = None"
proof -
  let ?es = "es @ (f, n) # es'"
  have "\<forall>(f, n) \<in> set ?es. line_name f" using assms(1,3) by auto
  note H = makeMenu_head [OF this assms(6), of d]
  let ?n = "length ?es" and ?s = "\<lparr> rest = f @ newline @ to_string n @ newline @ catalog_text es', good = True \<rparr>"
  have split: "catalog_text ?es = catalog_text es @ f @ newline @ to_string n @ newline @ catalog_text es'"
    by (simp add: catalog_text_def)
  have e1: "for_each read_entry [0..<length es] (\<lparr> rest = catalog_text ?es, good = True \<rparr>, d') = Some (?s, menu_entries es d')" for d'
    by (rule read_entries) (use assms(1,2) in \<open>auto simp: split\<close>)
  have fl: "stream_getline FILENAME_MAX_BYTE_SIZE ?s = (f, length f + 1, \<lparr> rest = to_string n @ CHR 0x0A # catalog_text es', good = True \<rparr>)"
    using assms(3) by (intro getline_line) (simp_all add: newline_def line_name_def)
  have "length (to_string n) \<le> Suc 19" using assms(5) by (intro to_string_length) simp
  then have nl: "stream_getline FILENAME_MAX_BYTE_SIZE \<lparr> rest = to_string n @ CHR 0x0A # catalog_text es', good = True \<rparr> =
      (to_string n, length (to_string n) + 1, \<lparr> rest = catalog_text es', good = True \<rparr>)"
    using newline_not_in_to_string by (intro getline_line) (simp_all add: FILENAME_MAX_BYTE_SIZE_def)
  have "read_entry i (?s, d') = None" for i d'
    unfolding read_entry_def Let_def split_conv fl nl using assms(4) by (simp add: atoi_size_def)
  moreover have "[0..<?n] = [0..<length es] @ length es # [Suc (length es)..<?n]"
    using upt_add_eq_append [of 0 "length es" "Suc (length es')"] upt_conv_Cons [of "length es" "length es + Suc (length es')"] by simp
  ultimately have "for_each read_entry [0..<?n] (\<lparr> rest = catalog_text ?es, good = True \<rparr>, d') = None" for d'
    using e1 by (simp only: for_each_append option.case for_each.simps)
  then show ?thesis unfolding H by simp
qed

end
