(* ===== verification/ReplyWriter.thy ===== *)
theory ReplyWriter
  imports ReplyExtraction Catalog
begin

text \<open>
  The last step of the client: \<open>pir/replyExtraction/PIRReplyWriter.cpp\<close> writes the file it asked for
  out of the decrypted chunks. The thread and the progress events are left out; a call that blocks
  for ever, a read or write outside a buffer and a division by zero are \<open>None\<close>. Sizes are below
  \<open>2^63\<close>, so the counters of bytes do not wrap around. A failed write to an open file ends the program
  and is not part of the model.
\<close>

section \<open>State\<close>

record reply_writer =
  dontWrite :: bool
  rw_params :: pir_parameters
  rw_chunks :: "u8 list shared_queue"
  rw_filePath :: string

definition kDefaultFolder :: string where
  "kDefaultFolder = ''reception''"

definition PIRReplyWriter :: "pir_parameters \<Rightarrow> nat \<Rightarrow> reply_writer" where
  "PIRReplyWriter P max_size =
     \<lparr> dontWrite = False, rw_params = P, rw_chunks = shared_queue_new max_size, rw_filePath = kDefaultFolder \<rparr>"

definition setdontWrite :: "bool \<Rightarrow> reply_writer \<Rightarrow> reply_writer" where
  "setdontWrite newvalue w = w \<lparr> dontWrite := newvalue \<rparr>"

definition getClearDataQueue :: "reply_writer \<Rightarrow> u8 list shared_queue" where
  "getClearDataQueue w = rw_chunks w"

text \<open>The file system: the files, and the paths that can be opened for writing.\<close>

record file_system =
  fs_files :: "string \<Rightarrow> u8 list option"
  fs_writable :: "string \<Rightarrow> bool"

section \<open>Writing\<close>

partial_function (option) skip_chunks ::
    "nat \<Rightarrow> nat \<Rightarrow> u8 list shared_queue \<Rightarrow> (nat \<times> u8 list shared_queue) option" where
  [code]: "skip_chunks chunkSize bytestoskip q =
     (if bytestoskip > chunkSize
      then (case sq_pop_front q of None \<Rightarrow> None | Some (_, q) \<Rightarrow> skip_chunks chunkSize (bytestoskip - chunkSize) q)
      else Some (bytestoskip, q))"

text \<open>The loop over \<open>leftChars\<close>; \<open>out\<close> is what was written.\<close>

partial_function (option) write_loop ::
    "nat \<Rightarrow> nat \<Rightarrow> nat \<Rightarrow> u8 list shared_queue \<Rightarrow> u8 list \<Rightarrow> (nat \<times> u8 list shared_queue \<times> u8 list) option" where
  [code]: "write_loop chunkSize leftChars bytestoskip q out =
     (if leftChars = 0 then Some (bytestoskip, q, out)
      else case sq_front q of
        None \<Rightarrow> None
      | Some tmp \<Rightarrow>
          (let writtenchars = (if bytestoskip \<noteq> 0 then min leftChars (chunkSize - bytestoskip) else min leftChars chunkSize);
               skip = (if bytestoskip \<noteq> 0 then chunkSize - (writtenchars + bytestoskip)
                       else if writtenchars < chunkSize then writtenchars else bytestoskip)
           in if length tmp < bytestoskip + writtenchars then None
              else case (if skip = 0 then sq_pop_front q else Some (tmp, q)) of
                     None \<Rightarrow> None
                   | Some (_, q) \<Rightarrow>
                       write_loop chunkSize (leftChars - writtenchars) skip q (out @ take writtenchars (drop bytestoskip tmp))))"

definition path_of :: "reply_writer \<Rightarrow> nat \<Rightarrow> desc \<Rightarrow> string" where
  "path_of w element catalog = rw_filePath w @ ''/'' @ desc_getFileName element catalog"

text \<open>A path that cannot be written leaves everything as it was.\<close>

definition writeFileSecurely ::
    "reply_writer \<Rightarrow> nat \<Rightarrow> nat \<Rightarrow> desc \<Rightarrow> nat \<times> u8 list shared_queue \<times> file_system \<Rightarrow>
     (nat \<times> u8 list shared_queue \<times> file_system) option" where
  "writeFileSecurely w chunkSize element catalog state =
     (let (bytestoskip, q, fs) = state; path = path_of w element catalog
      in if fs_writable fs path
         then (case skip_chunks chunkSize bytestoskip q of
                 None \<Rightarrow> None
               | Some (bytestoskip, q) \<Rightarrow>
                   map_option (\<lambda>(bytestoskip, q, out). (bytestoskip, q, fs \<lparr> fs_files := (fs_files fs)(path := Some out) \<rparr>))
                     (write_loop chunkSize (unat (getMaxFileSize catalog)) bytestoskip q []))
         else Some state)"

text \<open>\<open>truncate\<close> of a file that exists also extends it with zeros.\<close>

definition truncate :: "string \<Rightarrow> nat \<Rightarrow> file_system \<Rightarrow> file_system" where
  "truncate path n fs =
     (case fs_files fs path of
        None \<Rightarrow> fs
      | Some c \<Rightarrow> fs \<lparr> fs_files := (fs_files fs)(path := Some (take n c @ replicate (n - length c) 0)) \<rparr>)"

text \<open>The build option \<open>MORE_SIDE_CHANNEL_RESISTANCE\<close> is the argument \<open>resist\<close>.\<close>

definition aggregated_element ::
    "bool \<Rightarrow> reply_writer \<Rightarrow> nat \<Rightarrow> nat \<Rightarrow> desc \<Rightarrow> nat \<Rightarrow> nat \<times> u8 list shared_queue \<times> file_system \<Rightarrow>
     (nat \<times> u8 list shared_queue \<times> file_system) option" where
  "aggregated_element resist w chunkSize chosenElement catalog i state =
     (if resist \<or> (i = chosenElement \<and> \<not> dontWrite w) then writeFileSecurely w chunkSize i catalog state
      else let (bytestoskip, q, fs) = state in Some (bytestoskip + unat (getMaxFileSize catalog), q, fs))"

definition writeAggregatedFileSecurely ::
    "bool \<Rightarrow> 'r crypto \<Rightarrow> nat \<Rightarrow> desc \<Rightarrow> reply_writer \<times> file_system \<Rightarrow> (reply_writer \<times> file_system) option" where
  "writeAggregatedFileSecurely resist C chosenElement catalog state =
     (let (w, fs) = state; alpha = pir_alpha (rw_params w);
          firstElement = chosenElement - chosenElement mod alpha;
          chunkSize = crypto_absorption C 0 div kBitsPerByte
      in if alpha = 0 then None
         else case for_each (aggregated_element resist w chunkSize chosenElement catalog) [firstElement..<firstElement + alpha]
                     (0, rw_chunks w, fs) of
                None \<Rightarrow> None
              | Some (bytestoskip, q, fs) \<Rightarrow>
                  map_option (\<lambda>(_, q).
                      let fs = truncate (path_of w chosenElement catalog) (unat (desc_getFileSize chosenElement catalog)) fs;
                          others = filter (\<lambda>i. i \<noteq> chosenElement) [firstElement..<firstElement + alpha];
                          fs = (if resist then fold (\<lambda>i fs. fs \<lparr> fs_files := (fs_files fs)(path_of w i catalog := None) \<rparr>) others fs else fs)
                      in (w \<lparr> rw_chunks := q \<rparr>, fs))
                    (skip_chunks chunkSize bytestoskip q))"

text \<open>
  \<open>extractResponse\<close> returns the file as a string in a new array of \<open>maxFileSize + 1\<close> bytes, whose first
  contents are the argument \<open>fresh\<close>.
\<close>

definition response_element ::
    "nat \<Rightarrow> nat \<Rightarrow> nat \<Rightarrow> nat \<Rightarrow> nat \<times> u8 list shared_queue \<times> u8 list \<Rightarrow> (nat \<times> u8 list shared_queue \<times> u8 list) option" where
  "response_element chosenElement maxFileSize chunkSize i state =
     (let (bytestoskip, q, out) = state
      in if i = chosenElement
         then Option.bind (skip_chunks chunkSize bytestoskip q) (\<lambda>(bytestoskip, q). write_loop chunkSize maxFileSize bytestoskip q out)
         else Some (bytestoskip + maxFileSize, q, out))"

definition extractResponse ::
    "nat \<Rightarrow> nat \<Rightarrow> nat \<Rightarrow> nat \<Rightarrow> u8 list \<Rightarrow> reply_writer \<Rightarrow> (u8 list \<times> reply_writer) option" where
  "extractResponse chosenElement maxFileSize alpha chunkSize fresh w =
     (let firstElement = chosenElement - chosenElement mod alpha
      in if alpha = 0 then None
         else case for_each (response_element chosenElement maxFileSize chunkSize) [firstElement..<firstElement + alpha] (0, rw_chunks w, []) of
                None \<Rightarrow> None
              | Some (_, q, out) \<Rightarrow>
                  if chunkSize > maxFileSize then None
                  else Some ((out @ drop (length out) (take (maxFileSize + 1) fresh))[chunkSize := 0], w \<lparr> rw_chunks := q \<rparr>))"

section \<open>The loops\<close>

text \<open>The bytes of the chunks, each cut to the size of a chunk.\<close>

definition chunk_bytes :: "nat \<Rightarrow> u8 list list \<Rightarrow> u8 list" where
  "chunk_bytes B ys = concat (map (take B) ys)"

lemma length_chunk_bytes: "\<forall>y \<in> set ys. B \<le> length y \<Longrightarrow> length (chunk_bytes B ys) = length ys * B"
  using length_concat_const [of "map (take B) ys" B] by (simp add: chunk_bytes_def)

lemma sq_front_Cons: "sq_ok q \<Longrightarrow> queue_data q = x # xs \<Longrightarrow> sq_front q = Some x"
  by (simp add: sq_front_def sq_ok_def)

lemma skip_chunks_spec:
  assumes "0 < B" "sq_ok q" "skip \<le> B * (length (queue_data q) + 1)"
  shows "\<exists>q'. skip_chunks B skip q = Some (skip - (skip - 1) div B * B, q') \<and> sq_ok q' \<and> queue_data q' = drop ((skip - 1) div B) (queue_data q)"
  using assms(2,3)
proof (induction "queue_data q" arbitrary: q skip)
  case Nil
  then have "skip \<le> B" by simp
  moreover from this have "(skip - 1) div B = 0" using assms(1) by simp
  ultimately show ?case using Nil by (subst skip_chunks.simps) simp
next
  case (Cons x xs)
  show ?case
  proof (cases "skip \<le> B")
    case True
    then have "(skip - 1) div B = 0" using assms(1) by simp
    then show ?thesis using Cons.prems True by (subst skip_chunks.simps) simp
  next
    case False
    obtain q' where q': "sq_pop_front q = Some (x, q')" "sq_ok q'" "queue_data q' = xs"
      using sq.get_some [OF Cons.prems(1) Cons.hyps(2) [symmetric]] by blast
    have "skip - B \<le> B * (length (queue_data q') + 1)" using Cons.prems(2) Cons.hyps(2) [symmetric] q'(3) by simp
    from Cons.hyps(1) [OF q'(3) [symmetric] q'(2) this] obtain q'' where
      q'': "skip_chunks B (skip - B) q' = Some (skip - B - (skip - B - 1) div B * B, q'')" "sq_ok q''"
        "queue_data q'' = drop ((skip - B - 1) div B) (queue_data q')" by blast
    have d: "(skip - 1) div B = Suc ((skip - B - 1) div B)"
      using False assms(1) by (simp add: div_if [of B "skip - 1"] le_div_geq)
    then show ?thesis
      using q' q'' False Cons.hyps(2) [symmetric] by (subst skip_chunks.simps) simp
  qed
qed

lemma write_loop_spec:
  assumes "0 < B" "\<forall>y \<in> set (queue_data q). B \<le> length y" "sq_ok q" "skip \<le> B" "skip + left \<le> B * length (queue_data q)"
  shows "\<exists>skip' q' c. write_loop B left skip q out = Some (skip', q', out @ take left (drop skip (chunk_bytes B (queue_data q)))) \<and>
    sq_ok q' \<and> queue_data q' = drop c (queue_data q) \<and> skip' \<le> B \<and> c * B \<le> skip + left"
  using assms(2-)
proof (induction "queue_data q" arbitrary: q skip left out)
  case Nil
  then show ?case by (subst write_loop.simps) (auto intro: exI [of _ 0])
next
  case (Cons y ys)
  note q = Cons.hyps(2) [symmetric]
  have y: "B \<le> length y" using Cons.prems(1) q by simp
  have bytes: "chunk_bytes B (queue_data q) = take B y @ chunk_bytes B ys" using q by (simp add: chunk_bytes_def)
  have front: "sq_front q = Some y" by (rule sq_front_Cons [OF Cons.prems(2) q])
  obtain q1 where q1: "sq_pop_front q = Some (y, q1)" "sq_ok q1" "queue_data q1 = ys"
    using sq.get_some [OF Cons.prems(2) q] by blast
  let ?w = "min left (B - skip)"
  show ?case
  proof (cases "left = 0")
    case True
    then show ?thesis using Cons.prems by (subst write_loop.simps) (auto intro!: exI [of _ 0])
  next
    case nz: False
    show ?thesis
    proof (cases "left < B - skip")
      case True
      have t: "take left (drop skip (chunk_bytes B (queue_data q))) = take left (drop skip y)"
        using True y unfolding bytes by (simp add: min_def take_drop)
      have "write_loop B left skip q out = Some (if skip = 0 then left else B - (left + skip), q, out @ take left (drop skip y))"
        using True nz y by (subst write_loop.simps) (auto simp: front Let_def min_def write_loop.simps [of B 0])
      then show ?thesis using t Cons.prems(2) True by (intro exI [of _ "if skip = 0 then left else B - (left + skip)"] exI [of _ q] exI [of _ 0]) auto
    next
      case False
      have step: "write_loop B left skip q out = write_loop B (left - (B - skip)) 0 q1 (out @ take (B - skip) (drop skip y))"
        using False nz y Cons.prems(3) assms(1) by (subst write_loop.simps) (auto simp: front Let_def min_def q1)
      have "\<forall>y \<in> set (queue_data q1). B \<le> length y" using Cons.prems(1) q q1(3) by simp
      moreover have room: "0 + (left - (B - skip)) \<le> B * length (queue_data q1)" using Cons.prems(3,4) q q1(3) False by simp
      ultimately obtain skip' q' c where r: "write_loop B (left - (B - skip)) 0 q1 (out @ take (B - skip) (drop skip y)) =
          Some (skip', q', (out @ take (B - skip) (drop skip y)) @ take (left - (B - skip)) (drop 0 (chunk_bytes B (queue_data q1))))"
        "sq_ok q'" "queue_data q' = drop c (queue_data q1)" "skip' \<le> B" "c * B \<le> 0 + (left - (B - skip))"
        using Cons.hyps(1) [OF q1(3) [symmetric], of 0 "left - (B - skip)" "out @ take (B - skip) (drop skip y)"] q1(2) by auto
      have "take left (drop skip (chunk_bytes B (queue_data q))) =
          take (B - skip) (drop skip y) @ take (left - (B - skip)) (chunk_bytes B ys)"
      proof -
        have "drop skip (chunk_bytes B (queue_data q)) = take (B - skip) (drop skip y) @ chunk_bytes B ys"
          unfolding bytes using y Cons.prems(3) by (simp add: drop_take)
        then show ?thesis using False y Cons.prems(3) by simp
      qed
      moreover have "Suc c * B \<le> skip + left" using r(5) False Cons.prems(3) by simp
      moreover have "queue_data q' = drop (Suc c) (queue_data q)" using r(3) q1(3) q by simp
      ultimately show ?thesis using step r q1(3) by (intro exI [of _ skip'] exI [of _ q'] exI [of _ "Suc c"]) simp
    qed
  qed
qed


section \<open>The file that is written\<close>

text \<open>The elements of the aggregate before and after the chosen one are only counted.\<close>

lemma skip_others:
  assumes "chosen \<notin> set is" "\<not> resist"
  shows "for_each (aggregated_element resist w B chosen catalog) is (skip, z) =
    Some (skip + length is * unat (getMaxFileSize catalog), z)"
  using assms by (induction "is" arbitrary: skip) (cases z, simp_all add: aggregated_element_def)+

lemma skip_response:
  assumes "chosen \<notin> set is"
  shows "for_each (response_element chosen m B) is (skip, z) = Some (skip + length is * m, z)"
  using assms by (induction "is" arbitrary: skip) (cases z, auto simp: response_element_def)+

lemma aggregate_split:
  assumes "0 < alpha"
  shows "[c - c mod alpha..<c - c mod alpha + alpha] = [c - c mod alpha..<c] @ c # [Suc c..<c - c mod alpha + alpha]"
proof -
  have m: "c mod alpha < alpha" "c mod alpha \<le> c" using assms by simp_all
  then have "[c - c mod alpha..<c - c mod alpha + alpha] = [c - c mod alpha..<c] @ [c..<c - c mod alpha + alpha]"
    using upt_add_eq_append [of "c - c mod alpha" c "alpha - c mod alpha"] by simp
  then show ?thesis using m by (simp add: upt_conv_Cons)
qed

text \<open>Skipping to the chosen element and writing it, from the chunks of the whole aggregate.\<close>

lemma skip_and_write:
  assumes B: "0 < B" and q: "sq_ok q" "\<forall>y \<in> set (queue_data q). B \<le> length y"
    and room: "t * m + m \<le> B * length (queue_data q)"
  shows "\<exists>s q1 s' q' c. skip_chunks B (t * m) q = Some (s, q1) \<and>
    write_loop B m s q1 out = Some (s', q', out @ take m (drop (t * m) (chunk_bytes B (queue_data q)))) \<and>
    sq_ok q' \<and> queue_data q' = drop c (queue_data q) \<and> s' \<le> B \<and> c * B \<le> t * m + m"
proof -
  let ?k = "(t * m - 1) div B" and ?ys = "queue_data q"
  have "t * m \<le> B * (length ?ys + 1)" using room by simp
  from skip_chunks_spec [OF B q(1) this] obtain q1 where q1: "skip_chunks B (t * m) q = Some (t * m - ?k * B, q1)" "sq_ok q1"
    "queue_data q1 = drop ?k ?ys" by blast
  have k: "?k * B \<le> t * m" by (rule le_trans [OF div_times_less_eq_dividend]) simp
  have s: "t * m - ?k * B \<le> B"
  proof (cases "t * m = 0")
    case False
    have "t * m - 1 < Suc ?k * B" using B by (metis dividend_less_div_times mult.commute mult_Suc_right add.commute)
    then show ?thesis using False by simp
  qed auto
  have kl: "?k \<le> length ?ys"
  proof (cases "t * m = 0")
    case False
    then have "t * m - 1 < B * length ?ys" using room by linarith
    then have "?k < length ?ys" using B by (simp add: less_mult_imp_div_less mult.commute)
    then show ?thesis by simp
  qed auto
  have "?k * B + B * length (drop ?k ?ys) = B * length ?ys" using kl by (simp add: diff_mult_distrib2 mult.commute)
  moreover have "b + L = T \<Longrightarrow> a + m \<le> T \<Longrightarrow> b \<le> a \<Longrightarrow> a - b + m \<le> L" for a b L T :: nat by linarith
  ultimately have r: "t * m - ?k * B + m \<le> B * length (queue_data q1)" using room k unfolding q1(3) by blast
  have "\<forall>y \<in> set (queue_data q1). B \<le> length y" using q(2) q1(3) by (auto dest: in_set_dropD)
  from write_loop_spec [OF B this q1(2) s r, of out] obtain s' q' c where
    w: "write_loop B m (t * m - ?k * B) q1 out =
      Some (s', q', out @ take m (drop (t * m - ?k * B) (chunk_bytes B (queue_data q1))))"
    "sq_ok q'" "queue_data q' = drop c (queue_data q1)" "s' \<le> B" "c * B \<le> t * m - ?k * B + m" by blast
  have "chunk_bytes B ?ys = chunk_bytes B (take ?k ?ys) @ chunk_bytes B (drop ?k ?ys)"
    by (simp add: chunk_bytes_def flip: concat_append map_append)
  moreover have "length (chunk_bytes B (take ?k ?ys)) = ?k * B"
    using length_chunk_bytes [of "take ?k ?ys" B] q(2) kl by (auto dest: in_set_takeD)
  ultimately have d: "drop (t * m - ?k * B) (chunk_bytes B (queue_data q1)) = drop (t * m) (chunk_bytes B ?ys)"
    using q1(3) k by simp
  show ?thesis
    using q1(1) w unfolding d
    by (intro exI [of _ "t * m - ?k * B"] exI [of _ q1] exI [of _ s'] exI [of _ q'] exI [of _ "c + ?k"])
      (use k q1(3) in \<open>simp add: add_mult_distrib\<close>)
qed


lemma writes_chosen_file:
  fixes w C catalog x
  defines "B \<equiv> crypto_absorption C 0 div kBitsPerByte" and "alpha \<equiv> pir_alpha (rw_params w)"
    and "m \<equiv> unat (getMaxFileSize catalog)" and "path \<equiv> path_of w x catalog"
  assumes B: "0 < B" and alpha: "0 < alpha" and w: "\<not> dontWrite w" "fs_writable fs path"
    and q: "sq_ok (rw_chunks w)" "\<forall>y \<in> set (queue_data (rw_chunks w)). B \<le> length y"
    and room: "alpha * m \<le> B * length (queue_data (rw_chunks w))"
    and n: "unat (desc_getFileSize x catalog) \<le> m"
  shows "\<exists>w'. writeAggregatedFileSecurely False C x catalog (w, fs) = Some (w', fs \<lparr> fs_files := (fs_files fs)(path \<mapsto>
    take (unat (desc_getFileSize x catalog)) (drop (x mod alpha * m) (chunk_bytes B (queue_data (rw_chunks w))))) \<rparr>)"
proof -
  let ?q = "rw_chunks w" and ?t = "x mod alpha" and ?S = "chunk_bytes B (queue_data (rw_chunks w))"
  let ?after = "alpha - 1 - ?t"
  have t: "?t < alpha" "?t \<le> x" using alpha by simp_all
  have tm: "?t * m + m + ?after * m = alpha * m"
  proof -
    have "?t + 1 + ?after = alpha" using t by simp
    then have "(?t + 1 + ?after) * m = alpha * m" by simp
    then show ?thesis by (simp add: add_mult_distrib)
  qed
  then have "?t * m + m \<le> B * length (queue_data ?q)" using room by linarith
  from skip_and_write [OF B q this, of "[]"] obtain s q1 s' q' c where W: "skip_chunks B (?t * m) ?q = Some (s, q1)"
    "write_loop B m s q1 [] = Some (s', q', take m (drop (?t * m) ?S))" "sq_ok q'" "queue_data q' = drop c (queue_data ?q)"
    "s' \<le> B" "c * B \<le> ?t * m + m" by auto
  let ?file = "take m (drop (?t * m) ?S)" and ?fs = "fs \<lparr> fs_files := (fs_files fs)(path \<mapsto> take m (drop (?t * m) ?S)) \<rparr>"
  have before: "for_each (aggregated_element False w B x catalog) [x - ?t..<x] (0, ?q, fs) = Some (?t * m, ?q, fs)"
    using skip_others [of x "[x - ?t..<x]" False w B catalog 0 "(?q, fs)"] t by (simp add: m_def)
  have this_one: "aggregated_element False w B x catalog x (?t * m, ?q, fs) = Some (s', q', ?fs)"
    using w W(1,2) by (simp add: aggregated_element_def writeFileSecurely_def path_def m_def)
  have after: "for_each (aggregated_element False w B x catalog) [Suc x..<x - ?t + alpha] (s', q', ?fs) = Some (s' + ?after * m, q', ?fs)"
    using skip_others [of x "[Suc x..<x - ?t + alpha]" False w B catalog s' "(q', ?fs)"] t by (simp add: m_def)
  have loop: "for_each (aggregated_element False w B x catalog) [x - ?t..<x - ?t + alpha] (0, ?q, fs) = Some (s' + ?after * m, q', ?fs)"
    unfolding aggregate_split [OF alpha] using before this_one after by (simp add: for_each_append)
  have "B * length (queue_data q') + c * B \<ge> B * length (queue_data ?q)"
    using W(4) by (simp add: diff_mult_distrib2 mult.commute)
  then have "?after * m \<le> B * length (queue_data q')" using W(6) room tm by linarith
  then have "s' + ?after * m \<le> B * (length (queue_data q') + 1)" using W(5) by simp
  from skip_chunks_spec [OF B W(3) this] obtain s2 q2 where E: "skip_chunks B (s' + ?after * m) q' = Some (s2, q2)" by blast
  have "length ?S = length (queue_data ?q) * B" by (rule length_chunk_bytes) (rule q(2))
  then have "?t * m + m \<le> length ?S" using room tm by (simp add: mult.commute)
  then have len: "length ?file = m" by simp
  have "truncate path (unat (desc_getFileSize x catalog)) ?fs =
      fs \<lparr> fs_files := (fs_files fs)(path \<mapsto> take (unat (desc_getFileSize x catalog)) (drop (?t * m) ?S)) \<rparr>"
    using n len by (simp add: truncate_def min_def)
  then show ?thesis
    using alpha loop E by (simp add: writeAggregatedFileSecurely_def B_def alpha_def path_def Let_def)
qed


definition example_writer :: reply_writer where
  "example_writer = (PIRReplyWriter \<lparr> pir_alpha = 3, pir_d = 1, pir_n = [1], crypto_params = [] \<rparr> 10)
     \<lparr> rw_chunks := \<lparr> num_stored = 2, num_space = 8, queue_mutex = False, queue_data = [[1, 2, 3, 4], [5, 6, 0, 0]] \<rparr> \<rparr>"

definition example_catalog :: desc where
  "example_catalog = \<lparr> desc_fileList = [''a'', ''b'', ''c''], desc_fileSize = [2, 1, 2], desc_maxFileSize = 2, desc_nbFiles = 3 \<rparr>"

definition example_fs :: file_system where
  "example_fs = \<lparr> fs_files = Map.empty, fs_writable = (\<lambda>_. True) \<rparr>"

definition four_byte_crypto :: "unit crypto" where
  "four_byte_crypto = \<lparr> crypto_encrypt = (\<lambda>r ui d. []), crypto_decrypt = (\<lambda>data lvl n k. Some data),
     crypto_absorption = (\<lambda>_. 32), crypto_ciph_bits = (\<lambda>_. 32) \<rparr>"

lemmas example_writer_defs = example_writer_def example_catalog_def example_fs_def four_byte_crypto_def PIRReplyWriter_def
  kDefaultFolder_def path_of_def desc_getFileName_def desc_getFileSize_def getMaxFileSize_def kBitsPerByte_def


section \<open>The response as a string\<close>

text \<open>
  C35: \<open>extractResponse\<close> ends its string at the size of a chunk instead of the size of the file: the byte
  at that place is lost, and when chunks are larger than files it writes outside its array.
\<close>
theorem extractResponse_cuts:
  assumes B: "0 < B" and alpha: "0 < alpha"
    and q: "sq_ok (rw_chunks w)" "\<forall>y \<in> set (queue_data (rw_chunks w)). B \<le> length y"
    and room: "alpha * m \<le> B * length (queue_data (rw_chunks w))" and fresh: "length fresh = m + 1"
  shows "if m < B then extractResponse x m alpha B fresh w = None
    else \<exists>w'. extractResponse x m alpha B fresh w =
      Some ((take m (drop (x mod alpha * m) (chunk_bytes B (queue_data (rw_chunks w)))) @ [last fresh])[B := 0], w')"
proof -
  let ?q = "rw_chunks w" and ?t = "x mod alpha" and ?S = "chunk_bytes B (queue_data (rw_chunks w))"
  have t: "?t < alpha" "?t \<le> x" using alpha by simp_all
  have tm: "?t * m + m \<le> alpha * m"
    using mult_le_mono1 [of "Suc ?t" alpha m] t by simp
  then have "?t * m + m \<le> B * length (queue_data ?q)" using room by linarith
  from skip_and_write [OF B q this, of "[]"] obtain s q1 s' q' where W: "skip_chunks B (?t * m) ?q = Some (s, q1)"
    "write_loop B m s q1 [] = Some (s', q', take m (drop (?t * m) ?S))" by auto
  let ?file = "take m (drop (?t * m) ?S)"
  have before: "for_each (response_element x m B) [x - ?t..<x] (0, ?q, []) = Some (?t * m, ?q, [])"
    using skip_response [of x "[x - ?t..<x]" m B 0 "(?q, [])"] t by simp
  have this_one: "response_element x m B x (?t * m, ?q, []) = Some (s', q', ?file)"
    using W by (simp add: response_element_def)
  have after: "for_each (response_element x m B) [Suc x..<x - ?t + alpha] (s', q', ?file) = Some (s' + (alpha - 1 - ?t) * m, q', ?file)"
    using skip_response [of x "[Suc x..<x - ?t + alpha]" m B s' "(q', ?file)"] t by simp
  have loop: "for_each (response_element x m B) [x - ?t..<x - ?t + alpha] (0, ?q, []) = Some (s' + (alpha - 1 - ?t) * m, q', ?file)"
    unfolding aggregate_split [OF alpha] using before this_one after by (simp add: for_each_append)
  have "length ?S = length (queue_data ?q) * B" by (rule length_chunk_bytes) (rule q(2))
  then have "?t * m + m \<le> length ?S" using room tm by (simp add: mult.commute)
  then have len: "length ?file = m" by simp
  have "fresh \<noteq> []" using fresh by auto
  then have "drop m fresh = [last fresh]"
    using fresh by (metis append_butlast_last_id append_eq_conv_conj diff_add_inverse2 length_butlast)
  then show ?thesis
    using alpha loop len fresh by (simp add: extractResponse_def)
qed

theorem extractResponse_cuts_witness:
  "extractResponse 1 6 2 4 [9, 9, 9, 9, 9, 9, 9] (example_writer \<lparr> rw_chunks :=
      \<lparr> num_stored = 3, num_space = 7, queue_mutex = False, queue_data = [[1, 2, 3, 4], [5, 6, 7, 8], [9, 10, 11, 12]] \<rparr> \<rparr>) \<noteq> None \<and>
   fst (the (extractResponse 1 6 2 4 [9, 9, 9, 9, 9, 9, 9] (example_writer \<lparr> rw_chunks :=
      \<lparr> num_stored = 3, num_space = 7, queue_mutex = False, queue_data = [[1, 2, 3, 4], [5, 6, 7, 8], [9, 10, 11, 12]] \<rparr> \<rparr>))) =
   [7, 8, 9, 10, 0, 12, 9]"
proof -
  let ?w = "example_writer \<lparr> rw_chunks :=
      \<lparr> num_stored = 3, num_space = 7, queue_mutex = False, queue_data = [[1, 2, 3, 4], [5, 6, 7, 8], [9, 10, 11, 12]] \<rparr> \<rparr>"
  have "if (6 :: nat) < 4 then extractResponse 1 6 2 4 [9, 9, 9, 9, 9, 9, 9] ?w = None
    else \<exists>w'. extractResponse 1 6 2 4 [9, 9, 9, 9, 9, 9, 9] ?w =
      Some ((take 6 (drop (1 mod 2 * 6) (chunk_bytes 4 (queue_data (rw_chunks ?w)))) @ [last [9, 9, 9, 9, 9, 9, 9]])[4 := 0], w')"
    by (rule extractResponse_cuts) (simp_all add: sq_ok_def)
  then show ?thesis by (auto simp: chunk_bytes_def)
qed

text \<open>
  With the build option that writes all the files of the aggregate, the place in a shared chunk is
  wrong after the second file: the third one starts two bytes too early.
\<close>

lemma resistant_writer_wrong:
  "\<exists>q'. write_loop 10 3 0 \<lparr> num_stored = 1, num_space = 0, queue_mutex = False, queue_data = [[1, 2, 3, 4, 5, 6, 7, 8, 9, 10]] \<rparr> [] =
      Some (3, q', [1, 2, 3]) \<and>
    write_loop 10 3 3 q' [] = Some (4, q', [4, 5, 6]) \<and> write_loop 10 3 4 q' [] = Some (3, q', [5, 6, 7])"
proof -
  let ?q = "\<lparr> num_stored = 1, num_space = 0, queue_mutex = False, queue_data = [[1, 2, 3, 4, 5, 6, 7, 8, 9, 10 :: u8]] \<rparr>"
  have "write_loop 10 3 0 ?q [] = Some (3, ?q, [1, 2, 3])" "write_loop 10 3 3 ?q [] = Some (4, ?q, [4, 5, 6])"
    "write_loop 10 3 4 ?q [] = Some (3, ?q, [5, 6, 7])"
    by (simp_all add: write_loop.simps [of 10 3] write_loop.simps [of 10 0] sq_front_def)
  then show ?thesis by blast
qed

end
