(* ===== verification/Wire.thy ===== *)
theory Wire
  imports ReplyGeneric ReplyWriter
begin

text \<open>
  What goes over the network: the socket as two byte streams, C++ integers in the order of the
  machine (least significant byte first), strings, and the results of code that may throw. The
  interface of a message that is written by one side and read by the other is a locale.
\<close>

section \<open>Sockets\<close>

text \<open>
  The bytes that were sent and not yet read, in each direction. A read of \<open>n\<close> bytes
  (\<open>boost::asio::read\<close>) waits for all of them, and throws when the other side closes first.
\<close>

record socket =
  to_server :: "u8 list"
  to_client :: "u8 list"

definition idle :: socket where
  "idle = \<lparr> to_server = [], to_client = [] \<rparr>"

definition put_uint :: "nat \<Rightarrow> nat \<Rightarrow> u8 list" where
  "put_uint n v = map (\<lambda>i. of_nat (v div 256 ^ i)) [0..<n]"

fun get_uint :: "u8 list \<Rightarrow> nat" where
  "get_uint [] = 0"
| "get_uint (b # bs) = unat b + 256 * get_uint bs"

definition string_bytes :: "string \<Rightarrow> u8 list" where
  "string_bytes s = map (\<lambda>c. of_nat (of_char c)) s"

definition bytes_string :: "u8 list \<Rightarrow> string" where
  "bytes_string bs = map (\<lambda>b. char_of (unat b)) bs"

lemma length_put_uint [simp]: "length (put_uint n v) = n"
  by (simp add: put_uint_def)

lemma length_string_bytes [simp]: "length (string_bytes s) = length s"
  by (simp add: string_bytes_def)

lemma bytes_string_bytes [simp]: "bytes_string (string_bytes s) = s"
proof -
  have "unat (of_nat (of_char c) :: u8) = of_char c" for c
    by (simp add: unat_of_nat of_char_mod_256 flip: take_bit_eq_mod)
  then show ?thesis by (simp add: bytes_string_def string_bytes_def comp_def)
qed

lemma put_uint_Suc: "put_uint (Suc n) v = of_nat v # put_uint n (v div 256)"
proof -
  have "[0..<Suc n] = 0 # map Suc [0..<n]" by (simp add: map_Suc_upt upt_conv_Cons del: upt_Suc)
  then show ?thesis by (simp add: put_uint_def comp_def div_mult2_eq del: upt_Suc)
qed

lemma get_put_uint [simp]: "get_uint (put_uint n v) = v mod 256 ^ n"
proof (induction n arbitrary: v)
  case (Suc n)
  have "unat (of_nat v :: u8) = v mod 256" by (simp add: unat_of_nat)
  then show ?case by (simp add: put_uint_Suc Suc mod_mult2_eq)
qed (simp add: put_uint_def)

lemma get_put_uint_small: "v < 256 ^ n \<Longrightarrow> get_uint (put_uint n v) = v"
  by simp

section \<open>Messages\<close>

text \<open>
  A message: how it is written, how it is read off the front of a stream, and for which values both
  agree. The fields of a message compose to messages.
\<close>

locale message =
  fixes emit :: "'a \<Rightarrow> u8 list" and parse :: "u8 list \<Rightarrow> ('a \<times> u8 list) option" and valid :: "'a \<Rightarrow> bool"
  assumes reads_back: "valid x \<Longrightarrow> parse (emit x @ later) = Some (x, later)"
begin

lemma reads_exactly: "valid x \<Longrightarrow> parse (emit x) = Some (x, [])"
  using reads_back [of x "[]"] by simp

lemma emit_inject:
  assumes "valid x" "valid y" "emit x = emit y"
  shows "x = y"
proof -
  have "parse (emit y) = Some (x, [])" using reads_exactly [OF assms(1)] unfolding assms(3) .
  then show ?thesis using reads_exactly [OF assms(2)] by simp
qed

lemma reads_all: "\<forall>x \<in> set xs. valid x \<Longrightarrow> take_all parse (length xs) (concat (map emit xs) @ later) = Some (xs, later)"
proof (induction xs)
  case (Cons x xs)
  then show ?case using reads_back [of x "concat (map emit xs) @ later"] by simp
qed simp

end

definition read_bytes :: "nat \<Rightarrow> u8 list \<Rightarrow> (u8 list \<times> u8 list) option" where
  "read_bytes n bs = (if n \<le> length bs then Some (take n bs, drop n bs) else None)"

definition read_uint :: "nat \<Rightarrow> u8 list \<Rightarrow> (nat \<times> u8 list) option" where
  "read_uint n bs = map_option (\<lambda>(b, bs). (get_uint b, bs)) (read_bytes n bs)"

text \<open>A string is preceded by its length, an integer of \<open>w\<close> bytes.\<close>

definition put_string :: "nat \<Rightarrow> string \<Rightarrow> u8 list" where
  "put_string w s = put_uint w (length s) @ string_bytes s"

definition read_string :: "nat \<Rightarrow> u8 list \<Rightarrow> (string \<times> u8 list) option" where
  "read_string w bs =
     Option.bind (read_uint w bs) (\<lambda>(n, bs). map_option (\<lambda>(b, bs). (bytes_string b, bs)) (read_bytes n bs))"

lemma read_bytes_append [simp]: "read_bytes (length bs) (bs @ later) = Some (bs, later)"
  by (simp add: read_bytes_def)

interpretation uint: message "put_uint n" "read_uint n" "\<lambda>v. v < 256 ^ n" for n
proof unfold_locales
  fix x n :: nat and later assume "x < 256 ^ n"
  then show "read_uint n (put_uint n x @ later) = Some (x, later)"
    using read_bytes_append [of "put_uint n x" later] by (simp add: read_uint_def)
qed

interpretation text_message: message "put_string w" "read_string w" "\<lambda>s. length s < 256 ^ w" for w
proof unfold_locales
  fix s :: string and w :: nat and later assume "length s < 256 ^ w"
  then show "read_string w (put_string w s @ later) = Some (s, later)"
    using uint.reads_back [of "length s" w "string_bytes s @ later"] read_bytes_append [of "string_bytes s" later]
    by (simp add: read_string_def put_string_def)
qed

section \<open>Code that may throw\<close>

text \<open>
  The outcome of a piece of the server: it returns, it throws with the state it has reached, it waits
  for ever, it ends the process (\<open>exit\<close>), it is undefined behaviour, or it goes on in code that is not
  part of the model.
\<close>

datatype 's outcome = Done 's | Thrown 's | Blocked | Exited | Undefined | Elsewhere

fun and_then :: "'s outcome \<Rightarrow> ('s \<Rightarrow> 's outcome) \<Rightarrow> 's outcome" where
  "and_then (Done s) f = f s"
| "and_then r f = r"

fun catching :: "('s \<Rightarrow> 's) \<Rightarrow> 's outcome \<Rightarrow> 's outcome" where
  "catching handler (Thrown s) = Done (handler s)"
| "catching handler r = r"

fun outcome_each :: "('a \<Rightarrow> 's \<Rightarrow> 's outcome) \<Rightarrow> 'a list \<Rightarrow> 's \<Rightarrow> 's outcome" where
  "outcome_each f [] s = Done s"
| "outcome_each f (x # xs) s = and_then (f x s) (outcome_each f xs)"

lemma outcome_each_append: "outcome_each f (xs @ ys) s = and_then (outcome_each f xs s) (outcome_each f ys)"
proof (induction xs arbitrary: s)
  case (Cons x xs)
  then show ?case by (cases "f x s") simp_all
qed simp

text \<open>The invariant rule of a counting loop that does not stop early.\<close>

lemma outcome_each_upt:
  assumes "I 0 s" "\<And>i s. i < n \<Longrightarrow> I i s \<Longrightarrow> \<exists>s'. f i s = Done s' \<and> I (Suc i) s'"
  shows "\<exists>s'. outcome_each f [0..<n] s = Done s' \<and> I n s'"
  using assms
proof (induction n)
  case (Suc n)
  then obtain s' where "outcome_each f [0..<n] s = Done s'" "I n s'" by auto
  moreover then obtain s'' where "f n s' = Done s''" "I (Suc n) s''" using Suc.prems(2) by blast
  ultimately show ?case by (simp add: outcome_each_append)
qed simp

section \<open>The factories\<close>

text \<open>
  \<open>crypto/HomomorphicCryptoFactory_internal.cpp\<close> and
  \<open>pir/replyGenerator/PIRReplyGeneratorFactory.cpp\<close>: the cryptosystem and the generator of a name;
  an unknown name gives a null pointer.
\<close>

datatype crypto_system = PaillierAdapter | NFLLWE_system | NFLFV | NoCryptography

datatype generator_class = GeneratorNFL | GeneratorGMP | GeneratorTrivial

definition getCrypto :: "string \<Rightarrow> crypto_system option" where
  "getCrypto cryptoType =
     (if cryptoType = ''Paillier'' then Some PaillierAdapter
      else if cryptoType = ''LWE'' then Some NFLLWE_system
      else if cryptoType = ''FV'' then Some NFLFV
      else if cryptoType = ''NoCryptography'' then Some NoCryptography
      else None)"

definition getAllCryptoSystems :: "crypto_system list" where
  "getAllCryptoSystems = [PaillierAdapter, NFLLWE_system, NFLFV]"

definition crypto_method_name_vec :: "string list" where
  "crypto_method_name_vec = [''Paillier'', ''LWE'', ''FV'']"

definition getPIRReplyGenerator :: "string \<Rightarrow> generator_class option" where
  "getPIRReplyGenerator gen_name =
     (if gen_name = ''LWE'' then Some GeneratorNFL
      else if gen_name = ''FV'' then Some GeneratorNFL
      else if gen_name = ''Paillier'' then Some GeneratorGMP
      else if gen_name = ''NoCryptography'' then Some GeneratorTrivial
      else None)"

text \<open>The version for the optimizer.\<close>

definition getPIRReplyGenerator_optim :: "string \<Rightarrow> generator_class option" where
  "getPIRReplyGenerator_optim gen_name =
     (if gen_name = ''LWE'' then Some GeneratorNFL
      else if gen_name = ''Paillier'' then Some GeneratorGMP
      else None)"

text \<open>Every cryptosystem of a session has a generator, but the optimizer has none for \<open>FV\<close>, which it measures.\<close>

lemma session_generator_exists: "getCrypto name \<noteq> None \<longleftrightarrow> getPIRReplyGenerator name \<noteq> None"
  by (simp add: getCrypto_def getPIRReplyGenerator_def)

lemma optim_generator_missing: "filter (\<lambda>name. getPIRReplyGenerator_optim name = None) crypto_method_name_vec = [''FV'']"
  by (simp add: crypto_method_name_vec_def getPIRReplyGenerator_optim_def)

end
