(* ===== verification/OptimWire.thy ===== *)
theory OptimWire
  imports Wire
begin

text \<open>
  What the optimizer sends over the socket: the commands that the server obeys
  (\<open>controlAndCommand\<close> of \<open>pir/replyGenerator/PIROptimizer.cpp\<close>) and the requests of the client
  (\<open>apps/optim/PIROptimizer.cpp\<close>). The choice that the optimizer makes is an argument of the session.
\<close>

section \<open>The server obeys\<close>

datatype opti_com = ABS | DATA | SPEED | EXIT | NOP

text \<open>The numbers of the enumeration, sent as a \<open>size_t\<close>.\<close>

definition com_code :: "opti_com \<Rightarrow> nat" where
  "com_code c = (case c of ABS \<Rightarrow> 0 | DATA \<Rightarrow> 1 | SPEED \<Rightarrow> 2 | EXIT \<Rightarrow> 3 | NOP \<Rightarrow> 4)"

definition MEGA_BYTE :: nat where
  "MEGA_BYTE = 1000000"

text \<open>
  Each command has its own handler of exceptions: after one there is nothing left to read. The files of
  costs, by the name of the cryptosystem, are an argument; \<open>readEntireFile\<close> reads up to the byte 255
  and reports a missing file by 1, but the caller tests for a negative number.
\<close>

definition readEntireFile :: "string option \<Rightarrow> int \<times> string" where
  "readEntireFile file = (case file of None \<Rightarrow> (1, []) | Some c \<Rightarrow> (0, takeWhile (\<lambda>c. c \<noteq> CHR 0xFF) c))"

definition sendAbsAndPrecomputeCaches :: "(string \<Rightarrow> string option) \<Rightarrow> socket \<Rightarrow> socket" where
  "sendAbsAndPrecomputeCaches files k =
     (case read_string 4 (to_server k) of
        None \<Rightarrow> k \<lparr> to_server := [] \<rparr>
      | Some (crypto_name, later) \<Rightarrow>
          (let (r, file_content) = readEntireFile (files (takeWhile (\<lambda>c. c \<noteq> CHR 0x00) crypto_name))
           in if r < 0 then k \<lparr> to_server := later \<rparr>
              else \<lparr> to_server = later, to_client = to_client k @ put_string 4 file_content \<rparr>))"

text \<open>The megabyte that was received is sent back.\<close>

definition speedTest :: "socket \<Rightarrow> socket" where
  "speedTest k =
     (case read_bytes MEGA_BYTE (to_server k) of
        None \<Rightarrow> k \<lparr> to_server := [] \<rparr>
      | Some (msg, later) \<Rightarrow> \<lparr> to_server = later, to_client = to_client k @ msg \<rparr>)"

definition sendDatabaseInfos :: "db_handler \<Rightarrow> socket \<Rightarrow> socket" where
  "sendDatabaseInfos db k =
     k \<lparr> to_client := to_client k @ put_uint 8 (db_getNbStream db) @ put_uint 8 (db_getmaxFileBytesize db) \<rparr>"

text \<open>One round of the loop; it goes on unless the command was \<open>EXIT\<close> or the client has left.\<close>

definition control_step :: "(string \<Rightarrow> string option) \<Rightarrow> db_handler \<Rightarrow> socket \<Rightarrow> bool \<times> socket" where
  "control_step files db k =
     (case read_uint 8 (to_server k) of
        None \<Rightarrow> (False, k \<lparr> to_server := [] \<rparr>)
      | Some (cmd, later) \<Rightarrow>
          (let k = k \<lparr> to_server := later \<rparr>
           in if cmd = com_code ABS then (True, sendAbsAndPrecomputeCaches files k)
              else if cmd = com_code SPEED then (True, speedTest k)
              else if cmd = com_code EXIT then (False, k)
              else if cmd = com_code DATA then (True, sendDatabaseInfos db k)
              else (True, k)))"

lemma read_bytes_shorter: "read_bytes n bs = Some (x, later) \<Longrightarrow> length later \<le> length bs"
  by (auto simp: read_bytes_def split: if_splits)

lemma read_uint_shorter: "read_uint n bs = Some (x, later) \<Longrightarrow> length later + n = length bs"
  by (auto simp: read_uint_def read_bytes_def split: if_splits)

lemma read_string_shorter: "read_string w bs = Some (x, later) \<Longrightarrow> length later \<le> length bs"
  by (auto simp: read_string_def bind_eq_Some_conv dest!: read_uint_shorter read_bytes_shorter)

lemma control_step_consumes:
  assumes "control_step files db k = (True, k')"
  shows "length (to_server k') < length (to_server k)"
proof -
  obtain cmd later where r: "read_uint 8 (to_server k) = Some (cmd, later)"
    using assms by (cases "read_uint 8 (to_server k)") (auto simp: control_step_def)
  let ?k = "k \<lparr> to_server := later \<rparr>"
  have "k' \<in> {sendAbsAndPrecomputeCaches files ?k, speedTest ?k, sendDatabaseInfos db ?k, ?k}"
    using assms r by (auto simp: control_step_def Let_def split: if_splits)
  moreover have "length (to_server (sendAbsAndPrecomputeCaches files ?k)) \<le> length later"
    by (auto simp: sendAbsAndPrecomputeCaches_def split: option.split prod.split dest: read_string_shorter)
  moreover have "length (to_server (speedTest ?k)) \<le> length later"
    by (auto simp: speedTest_def split: option.split prod.split dest: read_bytes_shorter)
  moreover have "to_server (sendDatabaseInfos db ?k) = later" by (simp add: sendDatabaseInfos_def)
  ultimately have "length (to_server k') \<le> length later" by auto
  then show ?thesis using read_uint_shorter [OF r] by linarith
qed

function controlAndCommand :: "(string \<Rightarrow> string option) \<Rightarrow> db_handler \<Rightarrow> socket \<Rightarrow> socket" where
  "controlAndCommand files db k =
     (case control_step files db k of (True, k') \<Rightarrow> controlAndCommand files db k' | (False, k') \<Rightarrow> k')"
  by pat_completeness auto
termination
  by (relation "measure (\<lambda>(_, _, k). length (to_server k))") (auto dest!: sym [of "(True, _)"] control_step_consumes)

declare controlAndCommand.simps [simp del]

section \<open>The client asks\<close>

definition opt_write :: "u8 list \<Rightarrow> socket \<Rightarrow> socket" where
  "opt_write bs k = k \<lparr> to_server := to_server k @ bs \<rparr>"

definition client_take :: "(u8 list \<Rightarrow> ('a \<times> u8 list) option) \<Rightarrow> socket \<Rightarrow> ('a \<times> socket) option" where
  "client_take parse k = map_option (\<lambda>(x, later). (x, k \<lparr> to_client := later \<rparr>)) (parse (to_client k))"

text \<open>
  The requests, each followed by the answer of the server (an argument, as both sides alternate). The
  size of the files is turned into bits in 64 bits.
\<close>

definition getFixedVarsFromServer :: "(socket \<Rightarrow> socket) \<Rightarrow> socket \<Rightarrow> ((nat \<times> nat) \<times> socket) option" where
  "getFixedVarsFromServer answer k =
     Option.bind (client_take (read_uint 8) (answer (opt_write (put_uint 8 (com_code DATA)) k))) (\<lambda>(n, k).
     Option.bind (client_take (read_uint 8) k) (\<lambda>(l, k). Some ((n, l * 8 mod 2 ^ 64), k)))"

definition getNetworkInfos :: "(socket \<Rightarrow> socket) \<Rightarrow> socket \<Rightarrow> socket option" where
  "getNetworkInfos answer k =
     map_option snd (client_take (read_bytes MEGA_BYTE)
       (answer (opt_write (put_uint 8 (com_code SPEED) @ replicate MEGA_BYTE 1) k)))"

definition getAbsAndPreCachesFromServer :: "(socket \<Rightarrow> socket) \<Rightarrow> string \<Rightarrow> socket \<Rightarrow> (string \<times> socket) option" where
  "getAbsAndPreCachesFromServer answer crypto_name k =
     client_take (read_string 4) (answer (opt_write (put_uint 8 (com_code ABS) @ put_string 4 crypto_name) k))"

definition sendExitCommand :: "socket \<Rightarrow> socket" where
  "sendExitCommand k = opt_write (put_uint 8 (com_code EXIT)) k"

text \<open>
  \<open>optimizeFromServer\<close> with the server in its loop: \<open>names\<close> are the cryptosystems that have parameters
  to be tried, one after the other.
\<close>

definition optimizer_exchange ::
    "(string \<Rightarrow> string option) \<Rightarrow> db_handler \<Rightarrow> string list \<Rightarrow> socket \<Rightarrow> ((nat \<times> nat) \<times> string list \<times> socket) option" where
  "optimizer_exchange files db names k =
     (let answer = (\<lambda>k. snd (control_step files db k))
      in Option.bind (getFixedVarsFromServer answer k) (\<lambda>(fixed, k).
         Option.bind (getNetworkInfos answer k) (\<lambda>k.
         map_option (\<lambda>(costs, k). (fixed, costs, answer (sendExitCommand k)))
           (for_each (\<lambda>name (costs, k). map_option (\<lambda>(c, k). (costs @ [c], k)) (getAbsAndPreCachesFromServer answer name k))
             names ([], k)))))"

section \<open>Both sides stay in step\<close>

lemma com_code_bound [simp]: "com_code c < 18446744073709551616"
  by (cases c) (simp_all add: com_code_def)

lemma control_step_command:
  "control_step files db \<lparr> to_server = put_uint 8 (com_code c) @ later, to_client = out \<rparr> =
    (let k = \<lparr> to_server = later, to_client = out \<rparr>
     in case c of ABS \<Rightarrow> (True, sendAbsAndPrecomputeCaches files k) | SPEED \<Rightarrow> (True, speedTest k) | EXIT \<Rightarrow> (False, k)
        | DATA \<Rightarrow> (True, sendDatabaseInfos db k) | NOP \<Rightarrow> (True, k))"
proof -
  have "read_uint 8 (put_uint 8 (com_code c) @ later) = Some (com_code c, later)"
    by (rule uint.reads_back) simp
  then show ?thesis by (cases c) (simp_all add: control_step_def Let_def com_code_def)
qed

text \<open>The answer to a request for the costs of a cryptosystem.\<close>

definition cost_file :: "(string \<Rightarrow> string option) \<Rightarrow> string \<Rightarrow> string" where
  "cost_file files name = snd (readEntireFile (files name))"

definition cost_request :: "(string \<Rightarrow> string option) \<Rightarrow> string \<Rightarrow> bool" where
  "cost_request files name \<longleftrightarrow> CHR 0x00 \<notin> set name \<and> length name < 256 ^ 4 \<and> length (cost_file files name) < 256 ^ 4"

lemma sendAbs_answer:
  assumes "cost_request files name"
  shows "sendAbsAndPrecomputeCaches files \<lparr> to_server = put_string 4 name @ later, to_client = out \<rparr> =
    \<lparr> to_server = later, to_client = out @ put_string 4 (cost_file files name) \<rparr>"
proof -
  have t: "takeWhile (\<lambda>c. c \<noteq> CHR 0x00) name = name"
    using assms by (auto simp: cost_request_def takeWhile_eq_all_conv)
  have r: "read_string 4 (put_string 4 name @ later) = Some (name, later)"
    using assms by (intro text_message.reads_back) (simp add: cost_request_def)
  have f: "\<not> fst (readEntireFile (files name)) < 0" by (simp add: readEntireFile_def split: option.split)
  show ?thesis
    using f by (cases "readEntireFile (files name)") (simp add: sendAbsAndPrecomputeCaches_def cost_file_def r t del: takeWhile_eq_all_conv)
qed

lemma speedTest_answer:
  "length msg = MEGA_BYTE \<Longrightarrow> speedTest \<lparr> to_server = msg @ later, to_client = out \<rparr> = \<lparr> to_server = later, to_client = out @ msg \<rparr>"
  using read_bytes_append [of msg later] by (simp add: speedTest_def)

text \<open>The whole exchange: the client knows the database and the costs, and nothing is left on the way.\<close>

lemma optimizer_exchange_in_step:
  assumes "\<forall>name \<in> set names. cost_request files name" "db_getNbStream db < 2 ^ 64" "db_getmaxFileBytesize db < 2 ^ 64"
  shows "optimizer_exchange files db names idle =
    Some ((db_getNbStream db, db_getmaxFileBytesize db * 8 mod 2 ^ 64), map (cost_file files) names, idle)"
proof -
  let ?answer = "\<lambda>k. snd (control_step files db k)" and ?n = "db_getNbStream db" and ?l = "db_getmaxFileBytesize db"
  have one: "getAbsAndPreCachesFromServer ?answer name idle = Some (cost_file files name, idle)" if "name \<in> set names" for name
  proof -
    have r: "cost_request files name" using assms(1) that by blast
    have "sendAbsAndPrecomputeCaches files \<lparr> to_server = put_string 4 name, to_client = [] \<rparr> =
        \<lparr> to_server = [], to_client = put_string 4 (cost_file files name) \<rparr>"
      using sendAbs_answer [OF r, of "[]" "[]"] by simp
    moreover have "read_string 4 (put_string 4 (cost_file files name)) = Some (cost_file files name, [])"
      using r by (intro text_message.reads_exactly) (simp add: cost_request_def)
    ultimately show ?thesis
      by (simp add: getAbsAndPreCachesFromServer_def opt_write_def idle_def client_take_def control_step_command Let_def)
  qed
  have costs: "for_each (\<lambda>name (costs, k). map_option (\<lambda>(c, k). (costs @ [c], k)) (getAbsAndPreCachesFromServer ?answer name k))
      ns (cs, idle) = Some (cs @ map (cost_file files) ns, idle)" if "set ns \<subseteq> set names" for ns cs
    using that one by (induction ns arbitrary: cs) simp_all
  have "256 ^ 8 = (2 :: nat) ^ 64" by simp
  then have uints: "read_uint 8 (put_uint 8 ?n @ put_uint 8 ?l) = Some (?n, put_uint 8 ?l)" "read_uint 8 (put_uint 8 ?l) = Some (?l, [])"
    using uint.reads_back [of ?n 8] uint.reads_exactly [of ?l 8] assms(2,3) by simp_all
  have fixed: "getFixedVarsFromServer ?answer idle = Some ((?n, ?l * 8 mod 2 ^ 64), idle)"
    using control_step_command [of files db DATA "[]" "[]"] uints
    by (simp add: getFixedVarsFromServer_def opt_write_def idle_def client_take_def Let_def sendDatabaseInfos_def)
  let ?msg = "replicate MEGA_BYTE (1 :: u8)"
  have "speedTest \<lparr> to_server = ?msg, to_client = [] \<rparr> = \<lparr> to_server = [], to_client = ?msg \<rparr>"
    using speedTest_answer [of ?msg "[]" "[]"] by simp
  moreover have "read_bytes MEGA_BYTE ?msg = Some (?msg, [])" using read_bytes_append [of ?msg "[]"] by simp
  ultimately have net: "getNetworkInfos ?answer idle = Some idle"
    by (simp add: getNetworkInfos_def opt_write_def idle_def client_take_def control_step_command Let_def)
  have exit: "?answer (sendExitCommand idle) = idle"
    using control_step_command [of files db EXIT "[]" "[]"] by (simp add: sendExitCommand_def opt_write_def idle_def Let_def)
  show ?thesis
    using costs [OF order.refl, of "[]"] by (simp add: optimizer_exchange_def Let_def fixed net exit)
qed

text \<open>The loop of the server does the same on the whole stream, and leaves what follows \<open>EXIT\<close>.\<close>

lemma controlAndCommand_requests:
  assumes "\<forall>name \<in> set names. cost_request files name" "length msg = MEGA_BYTE"
  shows "controlAndCommand files db \<lparr> to_server = put_uint 8 (com_code DATA) @ put_uint 8 (com_code SPEED) @ msg @
      concat (map (\<lambda>name. put_uint 8 (com_code ABS) @ put_string 4 name) names) @ put_uint 8 (com_code EXIT) @ later, to_client = out \<rparr> =
    \<lparr> to_server = later, to_client = out @ put_uint 8 (db_getNbStream db) @ put_uint 8 (db_getmaxFileBytesize db) @ msg @
      concat (map (\<lambda>name. put_string 4 (cost_file files name)) names) \<rparr>"
proof -
  have costs: "controlAndCommand files db \<lparr> to_server = concat (map (\<lambda>name. put_uint 8 (com_code ABS) @ put_string 4 name) ns) @
      put_uint 8 (com_code EXIT) @ later, to_client = out \<rparr> =
    \<lparr> to_server = later, to_client = out @ concat (map (\<lambda>name. put_string 4 (cost_file files name)) ns) \<rparr>"
    if "\<forall>name \<in> set ns. cost_request files name" for ns out
    using that
  proof (induction ns arbitrary: out)
    case Nil
    then show ?case by (subst controlAndCommand.simps) (simp add: control_step_command Let_def)
  next
    case (Cons name ns)
    then show ?case by (subst controlAndCommand.simps) (simp add: control_step_command Let_def sendAbs_answer)
  qed
  have "controlAndCommand files db \<lparr> to_server = put_uint 8 (com_code DATA) @ put_uint 8 (com_code SPEED) @ msg @ x, to_client = out \<rparr> =
      controlAndCommand files db \<lparr> to_server = x, to_client = out @ put_uint 8 (db_getNbStream db) @ put_uint 8 (db_getmaxFileBytesize db) @ msg \<rparr>" for x
    by (subst controlAndCommand.simps, simp add: control_step_command Let_def sendDatabaseInfos_def,
        subst controlAndCommand.simps, simp add: control_step_command Let_def speedTest_answer [OF assms(2)])
  then show ?thesis using costs [OF assms(1)] by simp
qed

end
