(* ===== verification/NetServer.thy ===== *)
theory NetServer
  imports OptimWire
begin

text \<open>
  The server's side of a session over the network: \<open>apps/server/PIRSession.cpp\<close>, without pipelining
  (the threads of the pipelined mode run the same functions). Every function that talks to the client
  is here, with the exceptions it throws and where it catches them. Writes to the socket do not fail in
  the model; arrays on the stack are large enough for what the client announces.
\<close>

section \<open>State\<close>

definition CLIENT_DRIVEN :: nat where
  "CLIENT_DRIVEN = 0"

definition SERVER_DRIVEN :: nat where
  "SERVER_DRIVEN = 1"

record session_option =
  driven_mode :: bool
  keep_database :: bool
  got_preimported_database :: bool
  so_data :: imported_database

text \<open>
  \<open>ps_unlocked\<close> is the mutex of the generator, which its constructor locks. The generator has a reference
  to the parameters of the session; the array \<open>n\<close> has ten places.
\<close>

record pir_session =
  ps_net :: socket
  ps_db :: db_handler
  ps_params :: pir_parameters
  ps_maxFileBytesize :: nat
  ps_crypto :: "lwe option"
  ps_generator :: "nfl_generator option"
  ps_unlocked :: bool
  handmadeExceptionRaised :: bool
  ps_finished :: bool
  savedDatabase :: imported_database

definition PIRSession :: "db_handler \<Rightarrow> pir_parameters \<Rightarrow> socket \<Rightarrow> pir_session" where
  "PIRSession db P k =
     \<lparr> ps_net = k, ps_db = db, ps_params = P, ps_maxFileBytesize = 0, ps_crypto = None, ps_generator = None,
       ps_unlocked = False, handmadeExceptionRaised = False, ps_finished = False, savedDatabase = empty_database \<rparr>"

section \<open>Reading and writing\<close>

definition ps_write :: "u8 list \<Rightarrow> pir_session \<Rightarrow> pir_session" where
  "ps_write bs s = s \<lparr> ps_net := (ps_net s) \<lparr> to_client := to_client (ps_net s) @ bs \<rparr> \<rparr>"

text \<open>
  Reading throws when the client closes before everything has come; what has come is lost, and the
  variable is taken as unchanged.
\<close>

definition ps_read :: "(u8 list \<Rightarrow> ('a \<times> u8 list) option) \<Rightarrow> pir_session \<Rightarrow> ('a \<Rightarrow> pir_session \<Rightarrow> pir_session outcome) \<Rightarrow> pir_session outcome" where
  "ps_read parse s f =
     (case parse (to_server (ps_net s)) of
        None \<Rightarrow> Thrown (s \<lparr> ps_net := (ps_net s) \<lparr> to_server := [] \<rparr> \<rparr>)
      | Some (x, later) \<Rightarrow> f x (s \<lparr> ps_net := (ps_net s) \<lparr> to_server := later \<rparr> \<rparr>))"

definition exitWithErrorMessage :: "pir_session \<Rightarrow> pir_session" where
  "exitWithErrorMessage s = s \<lparr> handmadeExceptionRaised := True \<rparr>"

section \<open>The parameters\<close>

definition sendCatalog :: "pir_session \<Rightarrow> pir_session" where
  "sendCatalog s =
     ps_write (put_string 8 (if db_getNbStream (ps_db s) > 1000 then db_getCatalog (ps_db s) False else db_getCatalog (ps_db s) True)) s"

definition sendPIRParamsExchangeMethod :: "nat \<Rightarrow> pir_session \<Rightarrow> pir_session" where
  "sendPIRParamsExchangeMethod exchange_method s = ps_write (put_uint 2 exchange_method) s"

definition ps_sendCryptoParams :: "pir_session \<Rightarrow> pir_session" where
  "ps_sendCryptoParams s = ps_write (put_string 4 (crypto_params (ps_params s))) s"

text \<open>
  The cryptosystem of a descriptor and its generator. An unknown name is a null pointer that is
  followed, a descriptor with less than four fields is read past its end, and a size of the modulus
  that is not a multiple of 60 ends the process.
\<close>

definition load_crypto :: "(int \<Rightarrow> int \<Rightarrow> int) \<Rightarrow> u64 list \<Rightarrow> string \<Rightarrow> lwe outcome" where
  "load_crypto invert key descriptor =
     (let fields = split_on (CHR '':'') descriptor
      in case getCrypto (fields ! 0) of
           None \<Rightarrow> Undefined
         | Some c \<Rightarrow>
             if c \<noteq> NFLLWE_system then Elsewhere
             else if length fields < 4 then Undefined
             else (case lwe_setNewParameters_str invert key descriptor NFLLWE_new of Inl _ \<Rightarrow> Exited | Inr L \<Rightarrow> Done L))"

definition make_generator :: "(int \<Rightarrow> int \<Rightarrow> int) \<Rightarrow> u64 list \<Rightarrow> string \<Rightarrow> pir_session \<Rightarrow> pir_session outcome" where
  "make_generator invert key descriptor s =
     (case load_crypto invert key descriptor of
        Done L \<Rightarrow> Done (s \<lparr> ps_crypto := Some L,
          ps_generator := Some (setCryptoMethod L (PIRReplyGeneratorNFL (ps_params s) (ps_db s))), ps_unlocked := False \<rparr>)
      | Exited \<Rightarrow> Exited | Elsewhere \<Rightarrow> Elsewhere | _ \<Rightarrow> Undefined)"

text \<open>The key material of \<open>NFLLWE\<close> is ignored (\<open>setModulus\<close>).\<close>

definition receive_key :: "pir_session \<Rightarrow> pir_session outcome" where
  "receive_key s =
     ps_read (read_uint 4) s (\<lambda>n s.
       if n = 0 then Done s
       else ps_read (read_bytes n) s (\<lambda>key s. if ps_crypto s = None then Undefined else Done s))"

definition ps_rcvCryptoParams :: "(int \<Rightarrow> int \<Rightarrow> int) \<Rightarrow> u64 list \<Rightarrow> bool \<Rightarrow> pir_session \<Rightarrow> pir_session outcome" where
  "ps_rcvCryptoParams invert key paramsandkey s =
     catching exitWithErrorMessage
       (and_then (if paramsandkey
                  then ps_read (read_string 4) s (\<lambda>desc. make_generator invert key (takeWhile (\<lambda>c. c \<noteq> CHR 0x00) desc))
                  else Done s)
          receive_key)"

text \<open>\<open>setPirParams\<close> after the last place of \<open>n\<close> is set to 1.\<close>

definition close_params :: "pir_session \<Rightarrow> pir_session outcome" where
  "close_params s =
     (let P = ps_params s; d = pir_d P; P = P \<lparr> pir_n := (pir_n P)[d := 1] \<rparr>
      in if d < length (pir_n P)
         then (case ps_generator s of
                 None \<Rightarrow> Undefined
               | Some g \<Rightarrow> Done (s \<lparr> ps_params := P, ps_generator := Some (setPirParams P g) \<rparr>))
         else Undefined)"

text \<open>The number of dimensions is not compared with the size of \<open>n\<close>.\<close>

definition read_dimension :: "nat \<Rightarrow> pir_session \<Rightarrow> pir_session outcome" where
  "read_dimension i s =
     ps_read (read_uint 4) s (\<lambda>v s.
       if i < length (pir_n (ps_params s)) then Done (s \<lparr> ps_params := (ps_params s) \<lparr> pir_n := (pir_n (ps_params s))[i := v] \<rparr> \<rparr>)
       else Undefined)"

definition ps_rcvPirParams :: "pir_session \<Rightarrow> pir_session outcome" where
  "ps_rcvPirParams s =
     catching exitWithErrorMessage
       (ps_read (read_uint 4) s (\<lambda>d s.
        ps_read (read_uint 4) (s \<lparr> ps_params := (ps_params s) \<lparr> pir_d := d \<rparr> \<rparr>) (\<lambda>alpha s.
        and_then (outcome_each read_dimension [0..<d] (s \<lparr> ps_params := (ps_params s) \<lparr> pir_alpha := alpha \<rparr> \<rparr>)) close_params)))"

definition put_pir_params :: "pir_parameters \<Rightarrow> u8 list" where
  "put_pir_params P =
     put_uint 4 (pir_d P) @ put_uint 4 (pir_alpha P) @ concat (map (\<lambda>i. put_uint 4 (pir_n P ! i)) [0..<pir_d P])"

definition ps_sendPirParams :: "pir_session \<Rightarrow> pir_session outcome" where
  "ps_sendPirParams s =
     (if length (pir_n (ps_params s)) < pir_d (ps_params s) then Undefined
      else close_params (ps_write (put_pir_params (ps_params s)) s))"

section \<open>The query and the reply\<close>

definition receive_element :: "nat \<Rightarrow> nat \<Rightarrow> pir_session \<Rightarrow> pir_session outcome" where
  "receive_element j i s =
     (case (ps_crypto s, ps_generator s) of
        (Some L, Some g) \<Rightarrow>
          ps_read (read_bytes (getQuerySizeFromRecLvl L (j + 1) div 8)) s (\<lambda>buf s.
            case pushQuery_at buf j i g of None \<Rightarrow> Undefined | Some g \<Rightarrow> Done (s \<lparr> ps_generator := Some g \<rparr>))
      | _ \<Rightarrow> Undefined)"

text \<open>When the client leaves, the function returns before it unlocks the generator.\<close>

definition ps_downloadWorker :: "pir_session \<Rightarrow> pir_session outcome" where
  "ps_downloadWorker s =
     (case ps_generator s of
        None \<Rightarrow> Undefined
      | Some g \<Rightarrow>
          catching exitWithErrorMessage
            (and_then
              (outcome_each (\<lambda>j. outcome_each (receive_element j) [0..<pir_n (ps_params s) ! j]) [0..<pir_d (ps_params s)]
                 (s \<lparr> ps_generator := Some (initQueriesBuffer g) \<rparr>))
              (\<lambda>s. Done (s \<lparr> ps_unlocked := True \<rparr>))))"

text \<open>
  The reply is generated under the mutex; when it is still locked the server waits for ever (it has
  imported the database before, which the client does not see).
\<close>

definition generate_reply :: "nat \<Rightarrow> session_option \<Rightarrow> pir_session \<Rightarrow> pir_session outcome" where
  "generate_reply memory opt s =
     (case ps_generator s of
        None \<Rightarrow> Undefined
      | Some g \<Rightarrow>
          if \<not> ps_unlocked s then Blocked
          else if got_preimported_database opt
          then (case generateReplyGenericFromData (so_data opt) g of None \<Rightarrow> Undefined | Some g \<Rightarrow> Done (s \<lparr> ps_generator := Some g \<rparr>))
          else (case generateReplyGeneric memory (keep_database opt) False g of
                  None \<Rightarrow> Undefined
                | Some (db, g) \<Rightarrow>
                    Done (s \<lparr> ps_generator := Some g, savedDatabase := (if keep_database opt then db else savedDatabase s) \<rparr>)))"

text \<open>One ciphertext; the server waits until it is there.\<close>

definition send_reply :: "nat \<Rightarrow> nat \<Rightarrow> pir_session \<Rightarrow> pir_session outcome" where
  "send_reply byteSize i s =
     (case ps_generator s of
        None \<Rightarrow> Undefined
      | Some g \<Rightarrow>
          (case repliesArray g of
             None \<Rightarrow> Blocked
           | Some arr \<Rightarrow>
               if i < length arr
               then (case arr ! i of
                       None \<Rightarrow> Blocked
                     | Some r \<Rightarrow>
                         if length (cipher_bytes r) < byteSize then Undefined
                         else Done (ps_write (take byteSize (cipher_bytes r))
                                (s \<lparr> ps_generator := Some (g \<lparr> repliesArray := Some (arr[i := None]) \<rparr>) \<rparr>)))
               else Undefined))"

definition ps_uploadWorker :: "pir_session \<Rightarrow> pir_session outcome" where
  "ps_uploadWorker s =
     (case (ps_crypto s, ps_generator s) of
        (Some L, Some g) \<Rightarrow>
          outcome_each (send_reply (getCiphBitsizeFromRecLvl L (pir_d (ps_params s)) div kBitsPerByte))
            [0..<computeReplySizeInChunks (ps_maxFileBytesize s) g] s
      | _ \<Rightarrow> Undefined)"

definition ps_startProcessResult :: "nat \<Rightarrow> session_option \<Rightarrow> pir_session \<Rightarrow> pir_session outcome" where
  "ps_startProcessResult memory opt s = and_then (generate_reply memory opt s) ps_uploadWorker"

section \<open>A session\<close>

text \<open>
  \<open>rcvIsClient\<close>: 1 is a client, anything else an optimizer. After an exception the function ends without
  a value.
\<close>

definition rcvIsClient :: "pir_session \<Rightarrow> (bool \<times> pir_session) option" where
  "rcvIsClient s =
     map_option (\<lambda>(v, later). (v = 1, s \<lparr> ps_net := (ps_net s) \<lparr> to_server := later \<rparr> \<rparr>)) (read_uint 4 (to_server (ps_net s)))"

definition serve_optimizer :: "(string \<Rightarrow> string option) \<Rightarrow> pir_session \<Rightarrow> pir_session" where
  "serve_optimizer costs s = s \<lparr> ps_net := controlAndCommand costs (ps_db s) (ps_net s) \<rparr>"

text \<open>The parts of \<open>start\<close>: the greeting, the parameters in both modes, and the query.\<close>

definition ps_greet :: "session_option \<Rightarrow> pir_session \<Rightarrow> pir_session" where
  "ps_greet opt s = sendPIRParamsExchangeMethod (if driven_mode opt then CLIENT_DRIVEN else SERVER_DRIVEN) (sendCatalog s)"

definition ps_client_driven :: "(int \<Rightarrow> int \<Rightarrow> int) \<Rightarrow> u64 list \<Rightarrow> pir_session \<Rightarrow> pir_session outcome" where
  "ps_client_driven invert key s = and_then (ps_rcvCryptoParams invert key True s) ps_rcvPirParams"

definition ps_offer :: "(int \<Rightarrow> int \<Rightarrow> int) \<Rightarrow> u64 list \<Rightarrow> pir_session \<Rightarrow> pir_session outcome" where
  "ps_offer invert key s =
     and_then (make_generator invert key (crypto_params (ps_params s)) s) (\<lambda>s. Done (ps_sendCryptoParams s))"

definition ps_server_driven :: "pir_session \<Rightarrow> pir_session outcome" where
  "ps_server_driven s = and_then (ps_rcvCryptoParams (\<lambda>_ _. 0) [] False s) ps_sendPirParams"

definition ps_answer :: "nat \<Rightarrow> session_option \<Rightarrow> pir_session \<Rightarrow> pir_session outcome" where
  "ps_answer memory opt s =
     and_then
       (if handmadeExceptionRaised s then Done s
        else and_then (ps_downloadWorker s) (ps_startProcessResult memory opt))
       (\<lambda>s. Done (s \<lparr> ps_finished := True \<rparr>))"

definition PIRSession_start ::
    "(int \<Rightarrow> int \<Rightarrow> int) \<Rightarrow> u64 list \<Rightarrow> nat \<Rightarrow> (string \<Rightarrow> string option) \<Rightarrow> session_option \<Rightarrow> pir_session \<Rightarrow> pir_session outcome" where
  "PIRSession_start invert key memory costs opt s =
     (case rcvIsClient (s \<lparr> ps_maxFileBytesize := db_getmaxFileBytesize (ps_db s) \<rparr>) of
        None \<Rightarrow> Undefined
      | Some (False, s) \<Rightarrow> Done (serve_optimizer costs s \<lparr> ps_finished := True \<rparr>)
      | Some (True, s) \<Rightarrow>
          and_then
            (if driven_mode opt then ps_client_driven invert key (serve_optimizer costs (ps_greet opt s))
             else and_then (ps_offer invert key (ps_greet opt s)) ps_server_driven)
            (ps_answer memory opt))"

definition getPIRParams :: "pir_session \<Rightarrow> pir_parameters option" where
  "getPIRParams s = map_option (\<lambda>L. (ps_params s) \<lparr> crypto_params := getSerializedParams L False \<rparr>) (ps_crypto s)"

end
