(* ===== verification/NetClient.thy ===== *)
theory NetClient
  imports NetServer
begin

text \<open>
  The client of a session over the network: \<open>apps/client/PIRClient.cpp\<close> in the order of
  \<open>apps/client/main.cpp\<close>, without pipelining, and the two sides together. \<open>None\<close> is a client that ends
  early (\<open>exit\<close> after a network error), waits for ever or meets undefined behaviour, and a session in
  which the server does not return.
\<close>

section \<open>State\<close>

text \<open>What does not come from the two programs: random words, memory, costs, the choice of the optimizer.\<close>

record environment =
  env_invert :: "int \<Rightarrow> int \<Rightarrow> int"
  env_server_key :: "u64 list"
  env_client_key :: "u64 list"
  env_query :: "nat \<Rightarrow> nat \<Rightarrow> u64 list \<times> u64 list"
  env_memory :: nat
  env_beyond :: "u8 list"
  env_room :: nat
  env_costs :: "string \<Rightarrow> string option"
  env_names :: "string list"
  env_choice :: "nat \<times> nat \<Rightarrow> string list \<Rightarrow> pir_parameters"

record pir_client =
  pc_params :: pir_parameters
  exchange_method :: nat
  pc_crypto :: lwe
  pc_catalog :: desc
  pc_chosen :: nat
  pc_writer :: reply_writer

definition PIRClient :: "pir_parameters \<Rightarrow> bool \<Rightarrow> nat \<Rightarrow> pir_client" where
  "PIRClient P dontwrite room =
     \<lparr> pc_params = P, exchange_method = 0, pc_crypto = NFLLWE_new, pc_catalog = DESC, pc_chosen = 0,
       pc_writer = setdontWrite dontwrite (PIRReplyWriter P room) \<rparr>"

definition pc_write :: "u8 list \<Rightarrow> socket \<Rightarrow> socket" where
  "pc_write bs k = k \<lparr> to_server := to_server k @ bs \<rparr>"

section \<open>Before the query\<close>

definition pc_connect :: "socket \<Rightarrow> socket" where
  "pc_connect k = pc_write (put_uint 4 1) k"

definition downloadCatalog :: "pir_client \<Rightarrow> socket \<Rightarrow> (pir_client \<times> socket) option" where
  "downloadCatalog c k =
     Option.bind (client_take (read_string 8) k) (\<lambda>(buf, k).
     Option.bind (makeMenu buf (pc_catalog c)) (\<lambda>(d, _).
       if getFilesNum d = 0 then None else Some (c \<lparr> pc_catalog := d \<rparr>, k)))"

definition rcvPIRParamsExchangeMethod :: "pir_client \<Rightarrow> socket \<Rightarrow> (pir_client \<times> socket) option" where
  "rcvPIRParamsExchangeMethod c k = map_option (\<lambda>(m, k). (c \<lparr> exchange_method := m \<rparr>, k)) (client_take (read_uint 2) k)"

definition getCryptoMethod :: "(int \<Rightarrow> int \<Rightarrow> int) \<Rightarrow> u64 list \<Rightarrow> string \<Rightarrow> lwe option" where
  "getCryptoMethod invert key descriptor = (case load_crypto invert key descriptor of Done L \<Rightarrow> Some L | _ \<Rightarrow> None)"

text \<open>
  \<open>getByteModulus\<close> copies \<open>polyDegree\<close> words from the table of the 17 moduli; \<open>beyond\<close> is what the
  memory holds after it.
\<close>

definition getByteModulus :: "u8 list \<Rightarrow> lwe \<Rightarrow> u8 list option" where
  "getByteModulus beyond L =
     (let memory = concat (map word_bytes P64) @ beyond; n = lwe_polyDegree L * 8
      in if n \<le> length memory then Some (take n memory) else None)"

definition pc_sendCryptoParams :: "u8 list \<Rightarrow> bool \<Rightarrow> pir_client \<Rightarrow> socket \<Rightarrow> socket option" where
  "pc_sendCryptoParams beyond paramsandkey c k =
     (let L = pc_crypto c;
          k = (if paramsandkey then pc_write (put_string 4 (getSerializedParams L False)) k else k);
          n = ceil_div (getSerializedModulusBitsize L) kBitsPerByte
      in case getByteModulus beyond L of
           None \<Rightarrow> None
         | Some key \<Rightarrow> if length key < n then None else Some (pc_write (put_uint 4 n @ take n key) k))"

definition pc_rcvCryptoParams :: "pir_client \<Rightarrow> socket \<Rightarrow> (pir_client \<times> socket) option" where
  "pc_rcvCryptoParams c k =
     map_option (\<lambda>(s, k). (c \<lparr> pc_params := (pc_params c) \<lparr> crypto_params := takeWhile (\<lambda>c. c \<noteq> CHR 0x00) s \<rparr> \<rparr>, k))
       (client_take (read_string 4) k)"

definition processCryptoParams :: "environment \<Rightarrow> pir_client \<Rightarrow> socket \<Rightarrow> (pir_client \<times> socket) option" where
  "processCryptoParams env c k =
     Option.bind (if exchange_method c = CLIENT_DRIVEN then Some (c, k) else pc_rcvCryptoParams c k) (\<lambda>(c, k).
     Option.bind (getCryptoMethod (env_invert env) (env_client_key env) (crypto_params (pc_params c))) (\<lambda>L.
       let c = c \<lparr> pc_crypto := L \<rparr>
       in map_option (\<lambda>k. (c, k)) (pc_sendCryptoParams (env_beyond env) (exchange_method c = CLIENT_DRIVEN) c k)))"

definition pc_rcvPirParams :: "pir_client \<Rightarrow> socket \<Rightarrow> (pir_client \<times> socket) option" where
  "pc_rcvPirParams c k =
     Option.bind (client_take (read_uint 4) k) (\<lambda>(d, k).
     Option.bind (client_take (read_uint 4) k) (\<lambda>(alpha, k).
       for_each (\<lambda>i (c, k).
           Option.bind (client_take (read_uint 4) k) (\<lambda>(v, k).
             if i < length (pir_n (pc_params c))
             then Some (c \<lparr> pc_params := (pc_params c) \<lparr> pir_n := (pir_n (pc_params c))[i := v] \<rparr> \<rparr>, k) else None))
         [0..<d] (c \<lparr> pc_params := (pc_params c) \<lparr> pir_d := d, pir_alpha := alpha \<rparr> \<rparr>, k)))"

definition processPIRParams :: "pir_client \<Rightarrow> socket \<Rightarrow> (pir_client \<times> socket) option" where
  "processPIRParams c k =
     (if exchange_method c = CLIENT_DRIVEN
      then if length (pir_n (pc_params c)) < pir_d (pc_params c) then None
           else Some (c, pc_write (put_pir_params (pc_params c)) k)
      else pc_rcvPirParams c k)"

definition chooseFile :: "bool \<Rightarrow> nat \<Rightarrow> pir_client \<Rightarrow> pir_client" where
  "chooseFile autochoice choice c = c \<lparr> pc_chosen := (if autochoice then 0 else choice) \<rparr>"

section \<open>The query and the reply\<close>

text \<open>The query elements in the order they are made, each of the size announced for its dimension.\<close>

definition pc_uploadWorker ::
    "pir_client \<Rightarrow> (u64 list \<times> u64 list) query_generator \<Rightarrow> socket \<Rightarrow> socket option" where
  "pc_uploadWorker c q k =
     map_option snd
       (for_each (\<lambda>j. for_each (\<lambda>i (q, k).
            let n = getQuerySizeFromRecLvl (pc_crypto c) (j + 1) div kBitsPerByte
            in case sq_pop_front (queryBuffer q) of
                 None \<Rightarrow> None
               | Some (tmp, b) \<Rightarrow> if length tmp < n then None else Some (q \<lparr> queryBuffer := b \<rparr>, pc_write (take n tmp) k))
          [0..<pir_n (pc_params c) ! j]) [0..<pir_d (pc_params c)] (q, k))"

definition pc_startProcessQuery :: "environment \<Rightarrow> pir_client \<Rightarrow> socket \<Rightarrow> socket option" where
  "pc_startProcessQuery env c k =
     Option.bind (generateQuery (env_query env)
         (setChosenElement (pc_chosen c) (query_generator_new (pc_params c) (lwe_crypto (pc_crypto c)) (env_room env))))
       (\<lambda>q. pc_uploadWorker c q k)"

text \<open>The number of ciphertexts, computed in \<open>double\<close>.\<close>

definition pc_packet_number :: "pir_client \<Rightarrow> nat" where
  "pc_packet_number c =
     (let L = pc_crypto c; P = pc_params c
      in fold (\<lambda>i n. ceil_div (n * (getCiphBitsizeFromRecLvl L i div kBitsPerByte)) (getAbsorptionBitsize L div kBitsPerByte))
           [1..<pir_d P] (ceil_div (unat (getMaxFileSize (pc_catalog c)) * pir_alpha P) (getAbsorptionBitsize L div kBitsPerByte)))"

definition pc_downloadWorker ::
    "pir_client \<Rightarrow> (u64 list \<times> u64 list) reply_extraction \<Rightarrow> socket \<Rightarrow> ((u64 list \<times> u64 list) reply_extraction \<times> socket) option" where
  "pc_downloadWorker c e k =
     (if getAbsorptionBitsize (pc_crypto c) div kBitsPerByte = 0 then None
      else for_each (\<lambda>i (e, k).
          Option.bind (client_take (read_bytes (getCiphBitsizeFromRecLvl (pc_crypto c) (pir_d (pc_params c)) div kBitsPerByte)) k)
            (\<lambda>(buf, k). map_option (\<lambda>e. (e, k)) (pushEncryptedReply buf e)))
        [0..<pc_packet_number c] (e, k))"

text \<open>The writer shares the parameters and the queue of the clear chunks. The size of the file is an \<open>int\<close>.\<close>

definition pc_startProcessResult ::
    "environment \<Rightarrow> bool \<Rightarrow> pir_client \<Rightarrow> socket \<Rightarrow> file_system \<Rightarrow> (pir_client \<times> socket \<times> file_system) option" where
  "pc_startProcessResult env resist c k fs =
     (let P = pc_params c; x = pc_chosen c; cat = pc_catalog c; C = lwe_crypto (pc_crypto c)
      in Option.bind (setFileParam (desc_getFileName x cat) (sint (ucast (desc_getFileSize x cat) :: 32 word))
             (reply_extraction_new P C (env_room env))) (\<lambda>e.
         Option.bind (pc_downloadWorker c e k) (\<lambda>(e, k).
         Option.bind (extractReply (unat (getMaxFileSize cat) * pir_alpha P) (rw_chunks (pc_writer c)) e) (\<lambda>(clear, e).
         map_option (\<lambda>(w, fs). (c \<lparr> pc_writer := w \<rparr>, k, fs))
           (writeAggregatedFileSecurely resist C x cat ((pc_writer c) \<lparr> rw_params := P, rw_chunks := clear \<rparr>, fs))))))"

section \<open>Both sides\<close>

text \<open>
  The two programs run in turns: each part is a stretch of one program between two points where it has
  to wait for the other, and the parts of each program are in its order. As a read waits for its bytes
  and nothing is lost on the way, other interleavings give the same.
\<close>

definition client_part :: "(pir_client \<Rightarrow> socket \<Rightarrow> (pir_client \<times> socket) option) \<Rightarrow> pir_client \<times> pir_session \<Rightarrow> (pir_client \<times> pir_session) option" where
  "client_part f state = (let (c, s) = state in map_option (\<lambda>(c, k). (c, s \<lparr> ps_net := k \<rparr>)) (f c (ps_net s)))"

definition server_part :: "(pir_session \<Rightarrow> pir_session outcome) \<Rightarrow> pir_client \<times> pir_session \<Rightarrow> (pir_client \<times> pir_session) option" where
  "server_part f state = (let (c, s) = state in case f s of Done s \<Rightarrow> Some (c, s) | _ \<Rightarrow> None)"

text \<open>The optimizer of the client chooses the parameters after its exchange with the server.\<close>

definition optimize_part :: "environment \<Rightarrow> pir_client \<times> pir_session \<Rightarrow> (pir_client \<times> pir_session) option" where
  "optimize_part env state =
     (let (c, s) = state
      in if exchange_method c = CLIENT_DRIVEN
         then map_option (\<lambda>(fixed, costs, k). (c \<lparr> pc_params := env_choice env fixed costs \<rparr>, s \<lparr> ps_net := k \<rparr>))
                (optimizer_exchange (env_costs env) (ps_db s) (env_names env) (ps_net s))
         else Some (c, s))"

text \<open>The catalog and the parameters, in both modes; then the query, the reply and the file.\<close>

definition handshake :: "environment \<Rightarrow> session_option \<Rightarrow> pir_client \<times> pir_session \<Rightarrow> (pir_client \<times> pir_session) option" where
  "handshake env opt st =
     Option.bind (client_part downloadCatalog st) (\<lambda>st.
     Option.bind (client_part rcvPIRParamsExchangeMethod st) (\<lambda>st.
     Option.bind (optimize_part env st) (\<lambda>st.
     if driven_mode opt
     then Option.bind (client_part (processCryptoParams env) st) (\<lambda>st.
          Option.bind (client_part processPIRParams st) (\<lambda>st.
          server_part (ps_client_driven (env_invert env) (env_server_key env)) st))
     else Option.bind (server_part (ps_offer (env_invert env) (env_server_key env)) st) (\<lambda>st.
          Option.bind (client_part (processCryptoParams env) st) (\<lambda>st.
          Option.bind (server_part ps_server_driven st) (\<lambda>st.
          client_part processPIRParams st))))))"

definition retrieval ::
    "environment \<Rightarrow> session_option \<Rightarrow> bool \<Rightarrow> bool \<Rightarrow> nat \<Rightarrow> file_system \<Rightarrow> pir_client \<times> pir_session \<Rightarrow>
     (pir_client \<times> pir_session \<times> file_system) option" where
  "retrieval env opt resist autochoice choice fs st =
     Option.bind (client_part (\<lambda>c k. map_option (\<lambda>k. (chooseFile autochoice choice c, k))
                    (pc_startProcessQuery env (chooseFile autochoice choice c) k)) st) (\<lambda>st.
     Option.bind (server_part (ps_answer (env_memory env) opt) st) (\<lambda>(c, s).
       map_option (\<lambda>(c, k, fs). (c, s \<lparr> ps_net := k \<rparr>, fs)) (pc_startProcessResult env resist c (ps_net s) fs)))"

definition network_session ::
    "environment \<Rightarrow> session_option \<Rightarrow> bool \<Rightarrow> bool \<Rightarrow> nat \<Rightarrow> db_handler \<Rightarrow> pir_parameters \<Rightarrow> pir_parameters \<Rightarrow> file_system \<Rightarrow>
     (pir_client \<times> pir_session \<times> file_system) option" where
  "network_session env opt resist autochoice choice db PS PC fs =
     (let c = PIRClient PC False (env_room env);
          s = (PIRSession db PS (pc_connect idle)) \<lparr> ps_maxFileBytesize := db_getmaxFileBytesize db \<rparr>
      in case rcvIsClient s of
           Some (True, s) \<Rightarrow>
             Option.bind (handshake env opt (c, ps_greet opt s)) (retrieval env opt resist autochoice choice fs)
         | _ \<Rightarrow> None)"

end
