(* ===== verification/NetAnswer.thy ===== *)
theory NetAnswer
  imports NetClient
begin

text \<open>
  The server of a network session makes a key of its own, which none of its operations reads: its
  reply is the one that a generator with the client's key would make, and answers the query.
\<close>

section \<open>The server's key\<close>

text \<open>The same cryptosystem with another secret key.\<close>

definition rekey :: "lwe \<Rightarrow> lwe \<Rightarrow> lwe" where
  "rekey K L = L \<lparr> secretKey := secretKey K, secretKeyShoup := secretKeyShoup K \<rparr>"

lemma rekey_fields [simp]:
  "nflInstance (rekey K L) = nflInstance L" "lwe_nbModuli (rekey K L) = lwe_nbModuli L"
  "lwe_polyDegree (rekey K L) = lwe_polyDegree L" "lwe_moduli (rekey K L) = lwe_moduli L"
  "absPerCoordinateBitsize (rekey K L) = absPerCoordinateBitsize L" "securityBits (rekey K L) = securityBits L"
  by (simp_all add: rekey_def)

lemma rekey_public [simp]:
  "getAbsorptionBitsize (rekey K L) = getAbsorptionBitsize L" "getCiphertextBitsize (rekey K L) = getCiphertextBitsize L"
  "getCiphBitsizeFromRecLvl (rekey K L) = getCiphBitsizeFromRecLvl L"
  "getQuerySizeFromRecLvl (rekey K L) = getQuerySizeFromRecLvl L" "lwe_shape (rekey K L) = lwe_shape L"
  "zero_cipher (rekey K L) = zero_cipher L" "zero_poly (rekey K L) = zero_poly L"
  by (simp_all add: getAbsorptionBitsize_def getCiphertextBitsize_def getModulusRepresentationBitsize_def getmodulusBitsize_def
      getCiphBitsizeFromRecLvl_def getQuerySizeFromRecLvl_def lwe_shape_def zero_cipher_def zero_poly_def fun_eq_iff)

lemma rekey_operations [simp]:
  "chartocipher (rekey K L) = chartocipher L" "lwe_deserializeDataNFL (rekey K L) = lwe_deserializeDataNFL L"
  "query_quotients (rekey K L) = query_quotients L" "lwe_mulandadd_shoup (rekey K L) = lwe_mulandadd_shoup L"
  "lwe_sub (rekey K L) = lwe_sub L"
  by (simp_all add: chartocipher_def lwe_deserializeDataNFL_def query_quotients_def lwe_mulandadd_shoup_def lwe_sub_def fun_eq_iff)

lemma rekey_reply [simp]:
  "absorb_poly (rekey K L) = absorb_poly L" "reply_element (rekey K L) = reply_element L"
  "fromResulttoInData (rekey K L) = fromResulttoInData L"
proof -
  show a: "absorb_poly (rekey K L) = absorb_poly L" by (simp add: absorb_poly_def fun_eq_iff)
  show "reply_element (rekey K L) = reply_element L"
    by (intro ext) (unfold reply_element_def a rekey_operations, rule refl)
  show "fromResulttoInData (rekey K L) = fromResulttoInData L" by (simp add: fromResulttoInData_def fun_eq_iff)
qed

lemma rekey_rekey: "rekey L (rekey K L) = L"
  by (simp add: rekey_def)

text \<open>What a parameterisation gives depends on the random words only in the keys.\<close>

lemma setNewParameters_rekey:
  assumes "lwe_setNewParameters invert rnd degree bits a L0 = Inr L" "lwe_setNewParameters invert rnd' degree bits a L0 = Inr L'"
  shows "L' = rekey L' L"
proof -
  obtain nfl where nfl: "setNewParameters invert degree bits (nflInstance L0) = Inr nfl"
    using assms by (cases "setNewParameters invert degree bits (nflInstance L0)") (simp_all add: lwe_setNewParameters_def)
  define W where "W rnd = (let nb = getnbModuli nfl; sk = map (\<lambda>cm. slice degree cm (allocBoundedRandomPoly nfl 0 True rnd)) [0..<nb] in
    (clearSecretKeys (L0 \<lparr> absPerCoordinateBitsize := a, noise_ub := of_nat (5 * securityBits L0 div 2), lwe_polyDegree := degree, nflInstance := nfl \<rparr>))
      \<lparr> lwe_nbModuli := nb, oldNbModuli := nb, lwe_moduli := getmoduli nfl, secretKey := sk,
         secretKeyShoup := map (\<lambda>cm. map (\<lambda>i. shoup_quotient (sk ! cm ! i) (getmoduli nfl ! cm)) [0..<degree]) [0..<nb],
         Abit_mod := replicate nb 0, Abit_mod_shoup := replicate nb 0 \<rparr>)" for rnd
  have set: "lwe_setNewParameters invert rnd degree bits a L0 = Inr (recomputeNoiseAmplifiers (W rnd))" for rnd
    using nfl by (simp add: lwe_setNewParameters_def W_def Let_def)
  have len: "length (Abit_mod (W r)) = lwe_nbModuli (W r)" "length (Abit_mod_shoup (W r)) = lwe_nbModuli (W r)" for r
    by (simp_all add: W_def Let_def)
  have W: "W rnd' = rekey (W rnd') (W rnd)" by (simp add: W_def Let_def rekey_def)
  have "L = recomputeNoiseAmplifiers (W rnd)" "L' = recomputeNoiseAmplifiers (W rnd')" using assms set by simp_all
  then show ?thesis
    unfolding recompute_eq [OF len] by (simp add: rekey_def W_def Let_def clearSecretKeys_def)
qed

section \<open>The generator of a server with another key\<close>

definition rekeyed :: "lwe \<Rightarrow> nfl_generator \<Rightarrow> nfl_generator" where
  "rekeyed K g = g \<lparr> rg_crypto := rekey K (rg_crypto g) \<rparr>"

lemma rekeyed_fields [simp]:
  "rg_params (rekeyed K g) = rg_params g" "rg_db (rekeyed K g) = rg_db g" "rg_crypto (rekeyed K g) = rekey K (rg_crypto g)"
  "repliesArray (rekeyed K g) = repliesArray g" "repliesAmount (rekeyed K g) = repliesAmount g"
  "repliesIndex (rekeyed K g) = repliesIndex g" "currentMaxNbPolys (rekeyed K g) = currentMaxNbPolys g"
  "queriesBuf (rekeyed K g) = queriesBuf g" "input_data (rekeyed K g) = input_data g"
  by (simp_all add: rekeyed_def)

lemma rekeyed_updates [simp]:
  "rekeyed K g \<lparr> repliesArray := a \<rparr> = rekeyed K (g \<lparr> repliesArray := a \<rparr>)"
  "rekeyed K g \<lparr> repliesAmount := n \<rparr> = rekeyed K (g \<lparr> repliesAmount := n \<rparr>)"
  "rekeyed K g \<lparr> repliesIndex := n \<rparr> = rekeyed K (g \<lparr> repliesIndex := n \<rparr>)"
  "rekeyed K g \<lparr> currentMaxNbPolys := n \<rparr> = rekeyed K (g \<lparr> currentMaxNbPolys := n \<rparr>)"
  "rekeyed K g \<lparr> queriesBuf := b \<rparr> = rekeyed K (g \<lparr> queriesBuf := b \<rparr>)"
  "rekeyed K g \<lparr> input_data := e \<rparr> = rekeyed K (g \<lparr> input_data := e \<rparr>)"
  "rekeyed K g \<lparr> current_query_index := n \<rparr> = rekeyed K (g \<lparr> current_query_index := n \<rparr>)"
  "rekeyed K g \<lparr> current_dim_index := n \<rparr> = rekeyed K (g \<lparr> current_dim_index := n \<rparr>)"
  "rekeyed K g \<lparr> rg_params := P \<rparr> = rekeyed K (g \<lparr> rg_params := P \<rparr>)"
  by (simp_all add: rekeyed_def)

lemma rekeyed_free [simp]:
  "freeInputData (rekeyed K g) = rekeyed K (freeInputData g)" "freeQueries (rekeyed K g) = rekeyed K (freeQueries g)"
  "freeResult_inside (rekeyed K g) = freeResult_inside g" "initQueriesBuffer (rekeyed K g) = rekeyed K (initQueriesBuffer g)"
  by (simp_all add: freeInputData_def freeQueries_def freeResult_inside_def initQueriesBuffer_def rekeyed_def split: option.split)

lemma rekeyed_sizes [simp]:
  "computeReplySizeInChunks n (rekeyed K g) = computeReplySizeInChunks n g"
  "max_readable memory (rekeyed K g) = max_readable memory g"
  "nbr_of_iterations memory (rekeyed K g) = nbr_of_iterations memory g"
  "import_plan memory (rekeyed K g) = import_plan memory g"
proof -
  show "computeReplySizeInChunks n (rekeyed K g) = computeReplySizeInChunks n g"
    unfolding computeReplySizeInChunks_def Let_def rekeyed_fields rekey_public ..
  show m: "max_readable memory (rekeyed K g) = max_readable memory g"
    unfolding max_readable_def Let_def rekeyed_fields rekey_public ..
  show i: "nbr_of_iterations memory (rekeyed K g) = nbr_of_iterations memory g"
    unfolding nbr_of_iterations_def m rekeyed_fields ..
  show "import_plan memory (rekeyed K g) = import_plan memory g"
    unfolding import_plan_def m i rekeyed_fields ..
qed

lemma setPirParams_rekeyed: "setPirParams P (rekeyed K g) = rekeyed K (setPirParams P g)"
  by (simp add: setPirParams_def freeQueriesBuffer_def)

lemma pushQuery_at_rekeyed: "pushQuery_at q j i (rekeyed K g) = map_option (rekeyed K) (pushQuery_at q j i g)"
  by (cases "queriesBuf g") (simp_all add: pushQuery_at_def Let_def option.map_comp comp_def)

lemma generateReply_rekeyed: "generateReply_with s (rekeyed K g) = map_option (rekeyed K) (generateReply_with s g)"
proof -
  have "generate_level (rekeyed K g) s buf = generate_level g s buf" for buf
    by (intro ext) (unfold generate_level_def Let_def rekeyed_fields rekey_reply, rule refl)
  then show ?thesis
    by (simp add: generateReply_with_def split: option.split)
qed

lemma importDataNFL_rekeyed: "importDataNFL off n (rekeyed K g) = map_option (rekeyed K) (importDataNFL off n g)"
  unfolding importDataNFL_def Let_def rekeyed_fields rekey_public rekey_operations
  by (simp split: option.split)

lemma import_iteration_rekeyed:
  "import_iteration keep only s count readable it (w, rekeyed K g) =
    map_option (\<lambda>(w, g). (w, rekeyed K g)) (import_iteration keep only s count readable it (w, g))"
proof -
  let ?g = "if only then g else g \<lparr> repliesIndex := computeReplySizeInChunks (it * readable) g \<rparr>"
  have g: "(if only then rekeyed K g else rekeyed K g \<lparr> repliesIndex := computeReplySizeInChunks (it * readable) (rekeyed K g) \<rparr>) = rekeyed K ?g"
    by simp
  show ?thesis
  proof (cases "importDataNFL (it * readable) readable ?g")
    case None
    then show ?thesis by (simp only: import_iteration_def Let_def split_conv g importDataNFL_rekeyed option.case option.map)
  next
    case (Some g2)
    let ?h = "if only then Some g2 else generateReply_with s
        (g2 \<lparr> repliesAmount := computeReplySizeInChunks (db_getmaxFileBytesize (rg_db g2)) g2 \<rparr>)"
    have h: "(if only then Some (rekeyed K g2) else generateReply_with s (rekeyed K g2
        \<lparr> repliesAmount := computeReplySizeInChunks (db_getmaxFileBytesize (rg_db (rekeyed K g2))) (rekeyed K g2) \<rparr>)) = map_option (rekeyed K) ?h"
      by (simp add: generateReply_rekeyed)
    note r = import_iteration_def Let_def split_conv g importDataNFL_rekeyed Some option.case option.map h
    show ?thesis
    proof (cases ?h)
      case None
      show ?thesis by (simp only: r None)
    next
      case (Some g3)
      show ?thesis unfolding r Some by (cases "keep \<and> it = count - 1"; simp only: if_True if_False simp_thms option.map split_conv rekeyed_free rekeyed_sizes rekeyed_fields)
    qed
  qed
qed

lemma import_iterations_rekeyed:
  "for_each (import_iteration keep only s count readable) its (w, rekeyed K g) =
    map_option (\<lambda>(w, g). (w, rekeyed K g)) (for_each (import_iteration keep only s count readable) its (w, g))"
proof (induction its arbitrary: w g)
  case (Cons it its)
  show ?case
    by (cases "import_iteration keep only s count readable it (w, g)")
      (auto simp: import_iteration_rekeyed Cons.IH split: prod.split)
qed simp

lemma generateReplyGeneric_rekeyed:
  "generateReplyGeneric memory keep only (rekeyed K g) =
    map_option (\<lambda>(w, g). (w, rekeyed K g)) (generateReplyGeneric memory keep only g)"
proof -
  obtain count readable where plan: "import_plan memory g = (count, readable)" by (cases "import_plan memory g")
  show ?thesis
    by (simp add: generateReplyGeneric_def generateReplyGeneric_with_def plan import_iterations_rekeyed option.map_comp comp_def split_beta)
qed

section \<open>Generating the reply\<close>

lemma level_polys_none: "0 < A \<Longrightarrow> level_polys k A 0 i = 0"
  by (induction i) (simp_all add: poly_number_def)

text \<open>The import is done in one iteration when there are dimensions or aggregates, or when the memory is large enough.\<close>

lemma import_plan_one:
  assumes u: "lwe_setup (rg_crypto g) k A" and M: "0 < db_getmaxFileBytesize (rg_db g)" and nb: "0 < db_getNbStream (rg_db g)"
    and big: "pir_alpha (rg_params g) = 1 \<and> pir_d (rg_params g) = 1 \<Longrightarrow>
      8 * db_getNbStream (rg_db g) * (db_getmaxFileBytesize (rg_db g) + block_bytes k A) \<le> memory"
    and d: "0 < pir_d (rg_params g)"
  shows "import_plan memory g = (1, db_getmaxFileBytesize (rg_db g))"
proof -
  let ?M = "db_getmaxFileBytesize (rg_db g)" and ?n = "db_getNbStream (rg_db g)" and ?B = "block_bytes k A"
  note D = lwe_setupD [OF u]
  show ?thesis
  proof (cases "(pir_alpha (rg_params g) \<noteq> 1 \<or> pir_d (rg_params g) > 1) \<and> nbr_of_iterations memory g > 1")
    case True
    then show ?thesis by (simp add: import_plan_def)
  next
    case False
    have "max_readable memory g = ?M"
    proof (rule ccontr)
      assume ne: "max_readable memory g \<noteq> ?M"
      have le: "max_readable memory g \<le> ?M" by (simp add: max_readable_def Let_def)
      then have lt: "max_readable memory g < ?M" using ne by simp
      have pos: "0 < max_readable memory g" using max_readable_blocks [OF u] ne D(11) by (metis nat_0_less_mult_iff)
      then have "1 < nbr_of_iterations memory g"
        using lt unfolding nbr_of_iterations_def by (simp add: less_ceil_div_iff)
      then have "pir_alpha (rg_params g) = 1 \<and> pir_d (rg_params g) = 1" using False d by auto
      from big [OF this] have "8 * ?n * (?M + ?B) \<le> memory" .
      then have "4 * (?n * (?M + ?B)) \<le> memory div 2" by simp
      then have "?n * (4 * (?M + ?B)) \<le> memory div 2" by (simp add: algebra_simps)
      then have "4 * (?M + ?B) \<le> memory div 2 div ?n" using nb by (simp add: less_eq_div_iff_mult_less_eq mult.commute)
      then have room: "?M + ?B \<le> memory div 2 div ?n div 4" by simp
      have abs: "getAbsorptionBitsize (rg_crypto g) = 8 * ?B" using D(5,10) by simp
      let ?x = "memory div 2 div ?n div 4"
      have q: "?x * 8 div (8 * ?B) = ?x div ?B" by (metis mult.commute nonzero_mult_div_cancel_left div_mult_mult1 zero_neq_numeral)
      have "?x div ?B * (8 * ?B) div 8 = ?x div ?B * ?B" by (metis mult.left_commute nonzero_mult_div_cancel_left zero_neq_numeral)
      moreover have "?x - ?B \<le> ?x div ?B * ?B"
        using mod_less_divisor [OF D(11), of ?x] div_mult_mod_eq [of ?x ?B] by linarith
      ultimately have "?M \<le> (?x * 8 div (8 * ?B)) * (8 * ?B) div 8" unfolding q using room by linarith
      then have "max_readable memory g = ?M"
        using M D(11) by (cases "?x div ?B = 0") (simp_all add: max_readable_def Let_def abs kBitsPerByte_def)
      then show False using ne by contradiction
    qed
    moreover have "ceil_div ?M ?M = 1" using ceil_div_mult [OF M, of 1] by simp
    ultimately show ?thesis using False M by (auto simp: import_plan_def nbr_of_iterations_def)
  qed
qed

lemma generic_once:
  assumes "import_plan memory g = (1, M)" "db_getNbStream (rg_db g) \<noteq> 0" "getAbsorptionBitsize (rg_crypto g) \<noteq> 0"
    and "importDataNFL 0 M (g \<lparr> repliesIndex := computeReplySizeInChunks 0 g \<rparr>) = Some g2"
    and "generateReply_with None (g2 \<lparr> repliesAmount := computeReplySizeInChunks (db_getmaxFileBytesize (rg_db g2)) g2 \<rparr>) = Some g3"
    and "db_getmaxFileBytesize (rg_db g) \<noteq> 0"
  shows "\<exists>w g'. generateReplyGeneric memory keep False g = Some (w, g') \<and> repliesArray g' = repliesArray g3 \<and>
    rg_params g' = rg_params g3 \<and> rg_crypto g' = rg_crypto g3"
proof -
  have "\<exists>w g'. import_iteration keep' False None 1 M 0 (empty_database, g) = Some (w, g') \<and> repliesArray g' = repliesArray g3 \<and>
      rg_params g' = rg_params g3 \<and> rg_crypto g' = rg_crypto g3" for keep'
    using assms(4,5) by (cases keep') (simp_all add: import_iteration_def Let_def freeInputData_def)
  then obtain w g' where it: "import_iteration keep False None 1 M 0 (empty_database, g) = Some (w, g')"
    "repliesArray g' = repliesArray g3" "rg_params g' = rg_params g3" "rg_crypto g' = rg_crypto g3" by blast
  have "generateReplyGeneric memory keep False g = Some (w, freeQueries g')"
    using assms(1-3,6) it(1) by (simp add: generateReplyGeneric_def generateReplyGeneric_with_def)
  then show ?thesis using it(2-4) by (auto simp: freeQueries_def)
qed

context database
begin

text \<open>One iteration answers the query that is loaded.\<close>

lemma generates_answer:
  fixes g :: nfl_generator and k A memory nb cs
  defines "P \<equiv> rg_params g" and "L \<equiv> rg_crypto g" and "M \<equiv> db_getmaxFileBytesize db"
  defines "alpha \<equiv> pir_alpha P" and "d \<equiv> pir_d P"
  defines "N \<equiv> level_polys k A (element_polys k A (alpha * M))"
  assumes u: "lwe_setup L k A" and g: "rg_db g = db" "repliesArray g = None" "query_loaded g k A cs"
    and dbs: "db_getNbStream db = nb * alpha" "0 < nb" "nb \<le> product_from 0 P" and d: "0 < d"
    and sz: "8 \<le> alpha * M" "alpha * M < 2 ^ 24"
    and big: "alpha = 1 \<and> d = 1 \<Longrightarrow> 8 * db_getNbStream db * (M + block_bytes k A) \<le> memory"
  shows "\<exists>w g' r. generateReplyGeneric memory keep False g = Some (w, g') \<and> repliesArray g' = Some (map Some r) \<and>
    rg_params g' = P \<and> rg_crypto g' = L \<and> length r = N (d - 1) \<and>
    client_proper (\<lambda>i. lwe_proper L k A (N i)) (\<lambda>i. read_reply L k A) (\<lambda>i. parse_reply L k (N i)) 0 (d - 1) r \<and>
    client_levels (\<lambda>i. read_reply L k A) (\<lambda>i. parse_reply L k (N i)) 0 (d - 1) r =
      element_bytes (N 0 * block_bytes k A) (group_bytes content alpha 0 M) nb (mixed_index (map ((!) (pir_n P)) [0..<d]) cs)"
proof -
  let ?N0 = "element_polys k A (alpha * M)" and ?g1 = "g \<lparr> repliesIndex := computeReplySizeInChunks 0 g \<rparr>"
  let ?vs = "element_bytes (?N0 * block_bytes k A) (group_bytes content alpha 0 M) nb"
  have al: "0 < alpha" "0 < M" using sz(1) by (auto intro: Nat.gr0I)
  have idx: "repliesIndex ?g1 = 0"
    using computeReplySize_levels [of g k A 0] u d lwe_setupD [OF u] by (simp add: L_def P_def d_def element_polys_def level_polys_none)
  have bits: "8 * (alpha * M) < 2 ^ 63" using sz(2) less_trans [of "alpha * M" "2 ^ 24" "2 ^ 60"] by (simp add: mult.commute)
  have "\<exists>data. importDataNFL 0 M ?g1 = Some (?g1 \<lparr> currentMaxNbPolys := ?N0, input_data := Some data \<rparr>) \<and>
      length data = product_from 0 P \<and> (\<forall>v < length data. element_holds L k A ?N0 (data ! v) (?vs v))"
    using importDataNFL_holds [of ?g1 k A nb 0 M] g(1) u al dbs sz(1) bits
    by (simp add: M_def [symmetric] alpha_def [symmetric] P_def [symmetric] L_def [symmetric])
  then obtain data where data: "importDataNFL 0 M ?g1 = Some (?g1 \<lparr> currentMaxNbPolys := ?N0, input_data := Some data \<rparr>)"
    "length data = product_from 0 P" "\<forall>v < length data. element_holds L k A ?N0 (data ! v) (?vs v)" by blast
  define h where "h = ?g1 \<lparr> currentMaxNbPolys := ?N0, input_data := Some data, repliesAmount := N (d - 1) \<rparr>"
  have h: "rg_params h = P" "rg_crypto h = L" "rg_db h = db" "currentMaxNbPolys h = ?N0" "repliesIndex h = 0" "input_data h = Some data"
    "repliesAmount h = N (d - 1)" "queriesBuf h = queriesBuf g" "repliesArray h = None"
    using g idx by (simp_all add: h_def P_def L_def)
  have q: "query_loaded h k A cs" using g(3) by (simp add: query_loaded_def h P_def L_def)
  have dl: "data_loaded h k A ?vs" using data(2,3) by (simp add: data_loaded_def h)
  have "\<exists>r polys. generateReply h = Some (h \<lparr> repliesArray := Some (map Some r @ replicate (repliesAmount h - length r) None),
      currentMaxNbPolys := polys \<rparr>) \<and>
    client_proper (\<lambda>i. lwe_proper L k A (N i)) (\<lambda>i. read_reply L k A) (\<lambda>i. parse_reply L k (N i)) 0 (d - 1) r \<and> length r = N (d - 1) \<and>
    client_levels (\<lambda>i. read_reply L k A) (\<lambda>i. parse_reply L k (N i)) 0 (d - 1) r = ?vs (mixed_index (map ((!) (pir_n P)) [0..<d]) cs)"
    using generateReply_answers [OF q dl] h d by (simp add: N_def d_def freeResult_inside_def)
  then obtain r polys where r: "generateReply h = Some (h \<lparr> repliesArray := Some (map Some r), currentMaxNbPolys := polys \<rparr>)"
    "client_proper (\<lambda>i. lwe_proper L k A (N i)) (\<lambda>i. read_reply L k A) (\<lambda>i. parse_reply L k (N i)) 0 (d - 1) r" "length r = N (d - 1)"
    "client_levels (\<lambda>i. read_reply L k A) (\<lambda>i. parse_reply L k (N i)) 0 (d - 1) r = ?vs (mixed_index (map ((!) (pir_n P)) [0..<d]) cs)"
    using h(7) by auto
  let ?g2 = "?g1 \<lparr> currentMaxNbPolys := ?N0, input_data := Some data \<rparr>"
  have "computeReplySizeInChunks (db_getmaxFileBytesize (rg_db ?g2)) ?g2 = N (d - 1)"
    using computeReplySize_levels [of ?g2 k A M] u d g(1) by (simp add: L_def P_def d_def N_def alpha_def M_def)
  then have gen: "generateReply_with None (?g2 \<lparr> repliesAmount := computeReplySizeInChunks (db_getmaxFileBytesize (rg_db ?g2)) ?g2 \<rparr>) =
      Some (h \<lparr> repliesArray := Some (map Some r), currentMaxNbPolys := polys \<rparr>)"
    using r(1) by (simp add: generateReply_def h_def)
  have plan: "import_plan memory g = (1, M)"
    unfolding M_def g(1) [symmetric]
    by (rule import_plan_one [OF u [unfolded L_def]])
      (use al dbs d big g(1) in \<open>simp_all add: M_def P_def d_def alpha_def\<close>)
  have s1: "db_getNbStream (rg_db g) \<noteq> 0" using dbs al g(1) by simp
  have s2: "getAbsorptionBitsize (rg_crypto g) \<noteq> 0" using lwe_setupD(5,7) [OF u] by (simp add: L_def)
  have i1: "importDataNFL 0 M (g \<lparr> repliesIndex := computeReplySizeInChunks 0 g \<rparr>) = Some ?g2" by (rule data(1))
  obtain w g' where "generateReplyGeneric memory keep False g = Some (w, g')" "repliesArray g' = Some (map Some r)"
    "rg_params g' = P" "rg_crypto g' = L"
    using generic_once [OF plan s1 s2 i1 gen, of keep] al(2) g(1) h(1,2) by (auto simp: M_def)
  moreover have "N 0 = ?N0" by (simp add: N_def)
  ultimately show ?thesis using r(2-4) by (intro exI [of _ w] exI [of _ g'] exI [of _ r] conjI) simp_all
qed

end

end
