(* ===== verification/NetSession.thy ===== *)
theory NetSession
  imports NetAnswer
begin

text \<open>
  Correctness of a session over the network: both sides agree on the parameters in either mode, the
  query and the reply cross the socket, and the client writes its file.
\<close>

section \<open>Reading from the socket\<close>

lemma ps_read_append:
  assumes "to_server (ps_net s) = m @ later" "parse (m @ later) = Some (x, later)"
  shows "ps_read parse s f = f x (s \<lparr> ps_net := (ps_net s) \<lparr> to_server := later \<rparr> \<rparr>)"
  using assms by (simp add: ps_read_def)

lemma ps_read_uint:
  "to_server (ps_net s) = put_uint n v @ later \<Longrightarrow> v < 256 ^ n \<Longrightarrow>
   ps_read (read_uint n) s f = f v (s \<lparr> ps_net := (ps_net s) \<lparr> to_server := later \<rparr> \<rparr>)"
  by (erule ps_read_append) (rule uint.reads_back)

lemma ps_read_string:
  "to_server (ps_net s) = put_string n v @ later \<Longrightarrow> length v < 256 ^ n \<Longrightarrow>
   ps_read (read_string n) s f = f v (s \<lparr> ps_net := (ps_net s) \<lparr> to_server := later \<rparr> \<rparr>)"
  by (erule ps_read_append) (rule text_message.reads_back)

lemma ps_read_bytes:
  "to_server (ps_net s) = bs @ later \<Longrightarrow> length bs = n \<Longrightarrow>
   ps_read (read_bytes n) s f = f bs (s \<lparr> ps_net := (ps_net s) \<lparr> to_server := later \<rparr> \<rparr>)"
  by (erule ps_read_append) auto

lemma client_take_uint: "to_client k = put_uint n v @ later \<Longrightarrow> v < 256 ^ n \<Longrightarrow> client_take (read_uint n) k = Some (v, k \<lparr> to_client := later \<rparr>)"
  using uint.reads_back [of v n later] by (simp add: client_take_def)

lemma client_take_string: "to_client k = put_string n v @ later \<Longrightarrow> length v < 256 ^ n \<Longrightarrow>
    client_take (read_string n) k = Some (v, k \<lparr> to_client := later \<rparr>)"
  using text_message.reads_back [of v n later] by (simp add: client_take_def)

lemma client_take_bytes: "to_client k = bs @ later \<Longrightarrow> length bs = n \<Longrightarrow> client_take (read_bytes n) k = Some (bs, k \<lparr> to_client := later \<rparr>)"
  using read_bytes_append [of bs later] by (auto simp: client_take_def)

section \<open>Descriptors\<close>

text \<open>The descriptor of a parameterised cryptosystem with one modulus.\<close>

definition lwe_descriptor :: "nat \<Rightarrow> nat \<Rightarrow> nat \<Rightarrow> string" where
  "lwe_descriptor sb k A = join_with (CHR '':'') [''LWE'', to_string sb, to_string (2 ^ k), to_string 60, to_string A]"

lemma split_lwe_descriptor:
  "split_on (CHR '':'') (lwe_descriptor sb k A) = [''LWE'', to_string sb, to_string (2 ^ k), to_string 60, to_string A]"
  unfolding lwe_descriptor_def by (rule split_join) simp_all

lemma lwe_descriptor_wire:
  assumes "sb < 2 ^ 32" "k \<le> 13" "A \<le> 57"
  shows "length (lwe_descriptor sb k A) < 256 ^ 4" "takeWhile (\<lambda>c. c \<noteq> CHR 0x00) (lwe_descriptor sb k A) = lwe_descriptor sb k A"
proof -
  have "length (to_string sb) \<le> Suc 9" using assms(1) by (intro to_string_length) simp
  moreover have "(2 :: nat) ^ k \<le> 2 ^ 13" using assms(2) by (rule power_increasing) simp
  then have "length (to_string (2 ^ k)) \<le> Suc 3" by (intro to_string_length) simp
  moreover have "length (to_string 60) \<le> Suc 1" "length (to_string A) \<le> Suc 1" using assms(3) by (intro to_string_length; simp)+
  ultimately show "length (lwe_descriptor sb k A) < 256 ^ 4" by (simp add: lwe_descriptor_def)
  have "CHR 0x00 \<notin> set (to_string n)" for n
    using to_string_digits [of "CHR 0x00" n] digits_not_special(5) by blast
  then show "takeWhile (\<lambda>c. c \<noteq> CHR 0x00) (lwe_descriptor sb k A) = lwe_descriptor sb k A"
    by (auto simp: takeWhile_eq_all_conv lwe_descriptor_def)
qed

lemma load_lwe_descriptor:
  assumes "k \<le> 13" "1 \<le> A" "A \<le> 57" "64 dvd 2 ^ k * A"
  shows "\<exists>L. load_crypto invert key (lwe_descriptor sb k A) = Done L \<and>
    lwe_setNewParameters invert key (2 ^ k) 60 (int A) (NFLLWE_new \<lparr> securityBits := sb \<rparr>) = Inr L \<and>
    lwe_setup L k A \<and> getSerializedParams L False = lwe_descriptor sb k A"
proof -
  let ?L0 = "NFLLWE_new \<lparr> securityBits := sb \<rparr>"
  obtain L where L: "lwe_setNewParameters invert key (2 ^ k) 60 (int A) ?L0 = Inr L"
    "absPerCoordinateBitsize L = int A" "securityBits L = sb"
    using lwe_setNewParameters_ok [OF assms(1), of 60 invert key "int A" ?L0] by auto
  have set: "lwe_setup L k A" using assms L(1) unfolding lwe_setup_def by blast
  have "getSerializedParams L False = lwe_descriptor sb k A"
    using L(2,3) lwe_setupD(3,4) [OF set]
    by (simp add: getSerializedParams_def lwe_descriptor_def to_string_int_def getmodulusBitsize_def kModulusBitsize_def)
  moreover have "load_crypto invert key (lwe_descriptor sb k A) = Done L"
    using L(1) by (simp add: nat_power_eq load_crypto_def lwe_setNewParameters_str_def split_lwe_descriptor getCrypto_def Let_def)
  ultimately show ?thesis using L(1) set by blast
qed

section \<open>The key\<close>

lemma getByteModulus_some:
  assumes "lwe_setup L k A" "8 * 2 ^ k \<le> 136 + length beyond"
  shows "\<exists>key. getByteModulus beyond L = Some key \<and> length key = 8 * 2 ^ k"
proof -
  have "length (concat (map word_bytes P64)) = 136" by (simp add: length_concat comp_def P64_def)
  then have "8 * 2 ^ k \<le> length (concat (map word_bytes P64) @ beyond)" using assms(2) by simp
  then show ?thesis
    using lwe_setupD(3) [OF assms(1)] unfolding getByteModulus_def Let_def by (simp only: mult.commute [of _ 8] if_True length_take min_absorb2 option.inject ex_simps simp_thms)
qed

lemma key_length: "lwe_setup L k A \<Longrightarrow> ceil_div (getSerializedModulusBitsize L) kBitsPerByte = 8"
  using lwe_setupD(4) [of L k A]
  by (simp add: getSerializedModulusBitsize_def getModulusRepresentationBitsize_def getmodulusBitsize_def kModulusRepresentationBitsize_def
      kModulusBitsize_def ceil_div_def kBitsPerByte_def)

lemma pc_sendCryptoParams_some:
  assumes "lwe_setup (pc_crypto c) k A" "8 * 2 ^ k \<le> 136 + length beyond"
  shows "\<exists>key. length key = 8 \<and> pc_sendCryptoParams beyond both c w =
    Some (pc_write ((if both then put_string 4 (getSerializedParams (pc_crypto c) False) else []) @ put_uint 4 8 @ key) w)"
proof -
  obtain key where key: "getByteModulus beyond (pc_crypto c) = Some key" "length key = 8 * 2 ^ k"
    using getByteModulus_some [OF assms] by blast
  have "1 \<le> (2 :: nat) ^ k" by simp
  then have "\<not> length key < 8" using key(2) by linarith
  then show ?thesis
    using key(1) by (intro exI [of _ "take 8 key"]) (auto simp: pc_sendCryptoParams_def Let_def key_length [OF assms(1)] pc_write_def)
qed

lemma receive_key_done:
  assumes "ps_crypto s \<noteq> None" "length key = 8" "to_server (ps_net s) = put_uint 4 8 @ key @ later"
  shows "receive_key s = Done (s \<lparr> ps_net := (ps_net s) \<lparr> to_server := later \<rparr> \<rparr>)"
proof -
  let ?s = "s \<lparr> ps_net := (ps_net s) \<lparr> to_server := key @ later \<rparr> \<rparr>"
  have "ps_read (read_bytes 8) ?s (\<lambda>key s. if ps_crypto s = None then Undefined else Done s) = Done (s \<lparr> ps_net := (ps_net s) \<lparr> to_server := later \<rparr> \<rparr>)"
    using ps_read_bytes [of ?s key later 8] assms(1,2) by simp
  then show ?thesis unfolding receive_key_def using ps_read_uint [OF assms(3)] by simp
qed

section \<open>The dimensions\<close>

lemma concat_upt_split: "i < d \<Longrightarrow> concat (map f [i..<d]) = f i @ concat (map f [Suc i..<d])"
  by (simp add: upt_conv_Cons)

lemma update_drop: "i < length n \<Longrightarrow> (map v [0..<i] @ drop i n)[i := v i] = map v [0..<Suc i] @ drop (Suc i) n"
  by (simp add: list_update_append Cons_nth_drop_Suc [symmetric])

lemma read_dimensions:
  assumes d: "d \<le> length (pir_n (ps_params s))" and v: "\<forall>i < d. v i < 2 ^ 32"
    and w: "to_server (ps_net s) = concat (map (\<lambda>i. put_uint 4 (v i)) [0..<d]) @ later"
  shows "outcome_each read_dimension [0..<d] s = Done (s \<lparr> ps_net := (ps_net s) \<lparr> to_server := later \<rparr>,
    ps_params := (ps_params s) \<lparr> pir_n := map v [0..<d] @ drop d (pir_n (ps_params s)) \<rparr> \<rparr>)"
proof -
  let ?n = "pir_n (ps_params s)" and ?w = "\<lambda>i. concat (map (\<lambda>i. put_uint 4 (v i)) [i..<d]) @ later"
  let ?st = "\<lambda>i. s \<lparr> ps_net := (ps_net s) \<lparr> to_server := ?w i \<rparr>, ps_params := (ps_params s) \<lparr> pir_n := map v [0..<i] @ drop i ?n \<rparr> \<rparr>"
  have "\<exists>s'. outcome_each read_dimension [0..<d] s = Done s' \<and> s' = ?st d"
  proof (rule outcome_each_upt [where I = "\<lambda>i s'. s' = ?st i"])
    show "s = ?st 0" using w by simp
    fix i s' assume i: "i < d" and s': "s' = ?st i"
    have "v i < 256 ^ 4" using v i by simp
    then have "read_dimension i s' = Done (?st (Suc i))"
      using ps_read_uint [of s' 4 "v i" "?w (Suc i)"] i d update_drop [of i ?n v] unfolding s' read_dimension_def
      by (simp add: concat_upt_split [OF i] del: upt_Suc)
    then show "\<exists>s''. read_dimension i s' = Done s'' \<and> s'' = ?st (Suc i)" by blast
  qed
  then show ?thesis by simp
qed

text \<open>The parameters that go over the wire: the number of dimensions, the aggregation, the dimensions in use.\<close>

definition wire_params :: "pir_parameters \<Rightarrow> bool" where
  "wire_params P \<longleftrightarrow> 0 < pir_d P \<and> pir_d P < 10 \<and> length (pir_n P) = 10 \<and> pir_alpha P < 2 ^ 32 \<and> (\<forall>i < pir_d P. pir_n P ! i < 2 ^ 32)"

definition take_params :: "pir_parameters \<Rightarrow> pir_parameters \<Rightarrow> pir_parameters" where
  "take_params P Q = Q \<lparr> pir_d := pir_d P, pir_alpha := pir_alpha P, pir_n := dims P @ drop (pir_d P) (pir_n Q) \<rparr>"

lemma dims_map: "pir_d P \<le> length (pir_n P) \<Longrightarrow> map ((!) (pir_n P)) [0..<pir_d P] = dims P"
  by (simp add: dims_def nth_image_take)

lemma take_params_dims: "pir_d P \<le> length (pir_n P) \<Longrightarrow> dims (take_params P Q) = dims P"
  by (simp add: take_params_def dims_def)

lemma ps_rcvPirParams_done:
  assumes P: "wire_params P" "length (pir_n (ps_params s)) = 10" and g: "ps_generator s = Some g"
    and w: "to_server (ps_net s) = put_pir_params P @ later"
  shows "ps_rcvPirParams s = Done (s \<lparr> ps_net := (ps_net s) \<lparr> to_server := later \<rparr>,
    ps_params := (take_params P (ps_params s)) \<lparr> pir_n := (pir_n (take_params P (ps_params s))) [pir_d P := 1] \<rparr>,
    ps_generator := Some (setPirParams ((take_params P (ps_params s)) \<lparr> pir_n := (pir_n (take_params P (ps_params s))) [pir_d P := 1] \<rparr>) g) \<rparr>)"
proof -
  let ?d = "pir_d P" and ?a = "pir_alpha P" and ?dims = "concat (map (\<lambda>i. put_uint 4 (pir_n P ! i)) [0..<pir_d P]) @ later"
  let ?s1 = "s \<lparr> ps_net := (ps_net s) \<lparr> to_server := put_uint 4 ?a @ ?dims \<rparr>, ps_params := (ps_params s) \<lparr> pir_d := ?d \<rparr> \<rparr>"
  let ?s2 = "s \<lparr> ps_net := (ps_net s) \<lparr> to_server := ?dims \<rparr>, ps_params := (ps_params s) \<lparr> pir_d := ?d, pir_alpha := ?a \<rparr> \<rparr>"
  let ?s3 = "s \<lparr> ps_net := (ps_net s) \<lparr> to_server := later \<rparr>, ps_params := take_params P (ps_params s) \<rparr>"
  have d: "?d < 256 ^ 4" "?a < 256 ^ 4" "?d < 10" "\<forall>i < ?d. pir_n P ! i < 2 ^ 32" "length (pir_n P) = 10"
    using P by (simp_all add: wire_params_def)
  have dims: "outcome_each read_dimension [0..<?d] ?s2 = Done ?s3"
    using read_dimensions [of ?d ?s2 "(!) (pir_n P)" later] d P(2) dims_map [of P] by (simp add: take_params_def)
  have close: "close_params ?s3 = Done (s \<lparr> ps_net := (ps_net s) \<lparr> to_server := later \<rparr>,
      ps_params := (take_params P (ps_params s)) \<lparr> pir_n := (pir_n (take_params P (ps_params s))) [pir_d P := 1] \<rparr>,
      ps_generator := Some (setPirParams ((take_params P (ps_params s)) \<lparr> pir_n := (pir_n (take_params P (ps_params s))) [pir_d P := 1] \<rparr>) g) \<rparr>)"
    using g d P(2) by (simp add: close_params_def Let_def take_params_def)
  have alpha: "ps_read (read_uint 4) ?s1 f = f ?a (?s1 \<lparr> ps_net := (ps_net ?s1) \<lparr> to_server := ?dims \<rparr> \<rparr>)" for f
    by (rule ps_read_uint) (use d(2) in simp_all)
  have "to_server (ps_net s) = put_uint 4 ?d @ put_uint 4 ?a @ ?dims" using w by (simp add: put_pir_params_def)
  from ps_read_uint [OF this d(1)] have first: "ps_read (read_uint 4) s f = f ?d (s \<lparr> ps_net := (ps_net s) \<lparr> to_server := put_uint 4 ?a @ ?dims \<rparr> \<rparr>)" for f .
  show ?thesis unfolding ps_rcvPirParams_def first using alpha dims close by simp
qed

lemma close_params_done:
  assumes "wire_params (ps_params s)" "ps_generator s = Some g"
  shows "ps_sendPirParams s = Done (s \<lparr> ps_net := (ps_net s) \<lparr> to_client := to_client (ps_net s) @ put_pir_params (ps_params s) \<rparr>,
    ps_params := (ps_params s) \<lparr> pir_n := (pir_n (ps_params s)) [pir_d (ps_params s) := 1] \<rparr>,
    ps_generator := Some (setPirParams ((ps_params s) \<lparr> pir_n := (pir_n (ps_params s)) [pir_d (ps_params s) := 1] \<rparr>) g) \<rparr>)"
  using assms by (simp add: ps_sendPirParams_def close_params_def ps_write_def Let_def wire_params_def)

lemma pc_rcvPirParams_some:
  assumes P: "wire_params P" "length (pir_n (pc_params c)) = 10" and w: "to_client k = put_pir_params P @ later"
  shows "pc_rcvPirParams c k = Some (c \<lparr> pc_params := take_params P (pc_params c) \<rparr>, k \<lparr> to_client := later \<rparr>)"
proof -
  let ?d = "pir_d P" and ?a = "pir_alpha P" and ?w = "\<lambda>i. concat (map (\<lambda>i. put_uint 4 (pir_n P ! i)) [i..<pir_d P]) @ later"
  let ?body = "\<lambda>i (c, k). Option.bind (client_take (read_uint 4) k) (\<lambda>(v, k).
      if i < length (pir_n (pc_params c)) then Some (c \<lparr> pc_params := (pc_params c) \<lparr> pir_n := (pir_n (pc_params c))[i := v] \<rparr> \<rparr>, k) else None)"
  let ?st = "\<lambda>i. (c \<lparr> pc_params := (pc_params c) \<lparr> pir_d := ?d, pir_alpha := ?a,
      pir_n := map ((!) (pir_n P)) [0..<i] @ drop i (pir_n (pc_params c)) \<rparr> \<rparr>, k \<lparr> to_client := ?w i \<rparr>)"
  have d: "?d < 256 ^ 4" "?a < 256 ^ 4" "?d < 10" "\<forall>i < ?d. pir_n P ! i < 2 ^ 32" "length (pir_n P) = 10"
    using P by (simp_all add: wire_params_def)
  have "\<exists>s. for_each ?body [0..<?d] (?st 0) = Some s \<and> s = ?st ?d"
  proof (rule for_each_upt [where I = "\<lambda>i s. s = ?st i"])
    fix i s assume i: "i < ?d" and s: "s = ?st i"
    have "pir_n P ! i < 256 ^ 4" using d(4) i by simp
    then have "?body i s = Some (?st (Suc i))"
      using client_take_uint [of "snd s" 4 "pir_n P ! i" "?w (Suc i)"] i d(3) P(2) update_drop [of i "pir_n (pc_params c)" "(!) (pir_n P)"]
      unfolding s by (simp add: concat_upt_split [OF i] del: upt_Suc)
    then show "\<exists>s'. ?body i s = Some s' \<and> s' = ?st (Suc i)" by blast
  qed simp
  then have loop: "for_each ?body [0..<?d] (c \<lparr> pc_params := (pc_params c) \<lparr> pir_d := ?d, pir_alpha := ?a \<rparr> \<rparr>, k \<lparr> to_client := ?w 0 \<rparr>) =
      Some (c \<lparr> pc_params := take_params P (pc_params c) \<rparr>, k \<lparr> to_client := later \<rparr>)"
    using d(3,5) dims_map [of P] by (simp add: take_params_def)
  have "to_client k = put_uint 4 ?d @ put_uint 4 ?a @ ?w 0" using w by (simp add: put_pir_params_def)
  note first = client_take_uint [OF this d(1)]
  have second: "client_take (read_uint 4) (k \<lparr> to_client := put_uint 4 ?a @ ?w 0 \<rparr>) = Some (?a, k \<lparr> to_client := ?w 0 \<rparr>)"
    using client_take_uint [of "k \<lparr> to_client := put_uint 4 ?a @ ?w 0 \<rparr>" 4 ?a "?w 0"] d(2) by simp
  show ?thesis unfolding pc_rcvPirParams_def first by (simp only: bind.bind_lunit split_conv second loop)
qed

section \<open>The catalog\<close>

definition directory_entries :: "(string \<Rightarrow> u8 list) \<Rightarrow> directory_processor \<Rightarrow> (string \<times> nat) list" where
  "directory_entries fs D = map (\<lambda>f. (f, file_size fs D f)) (file_list D)"

definition directory_menu :: "(string \<Rightarrow> u8 list) \<Rightarrow> directory_processor \<Rightarrow> desc" where
  "directory_menu fs D = menu_entries (directory_entries fs D) (DESC \<lparr> desc_maxFileSize := 0, desc_nbFiles := 0 \<rparr>)"

text \<open>A directory whose catalog is sent with all the names.\<close>

definition listed :: "(string \<Rightarrow> u8 list) \<Rightarrow> directory_processor \<Rightarrow> bool" where
  "listed fs D \<longleftrightarrow> file_list D \<noteq> [] \<and> length (file_list D) \<le> 1000 \<and> (\<forall>f \<in> set (file_list D). line_name f \<and> file_size fs D f < 2 ^ 31)"

lemma catalog_length: "\<forall>(f, n) \<in> set es. line_name f \<and> n < 2 ^ 31 \<Longrightarrow> length (catalog_text es) \<le> length es * 1100"
proof (induction es)
  case (Cons e es)
  obtain f n where e: "e = (f, n)" by (cases e)
  have "length (to_string n) \<le> Suc 9" using Cons.prems by (intro to_string_length) (simp add: e)
  then show ?case using Cons by (simp add: e catalog_text_def newline_def line_name_def FILENAME_MAX_BYTE_SIZE_def)
qed (simp add: catalog_text_def)

lemma listed_catalog:
  assumes "listed fs D"
  shows "length (getCatalog fs D True) < 256 ^ 8" "makeMenu (getCatalog fs D True) DESC = Some (directory_menu fs D, False)"
proof -
  let ?es = "directory_entries fs D"
  have es: "\<forall>(f, n) \<in> set ?es. line_name f \<and> n < 2 ^ 31" "length ?es \<le> 1000" using assms by (auto simp: listed_def directory_entries_def)
  have t: "getCatalog fs D True = to_string 0 @ newline @ to_string (length ?es) @ newline @ catalog_text ?es"
    unfolding getCatalog_text directory_entries_def ..
  have "length (to_string (length ?es)) \<le> Suc 3" "length (to_string 0) \<le> Suc 0" using es(2) by (intro to_string_length; simp)+
  moreover have "length (catalog_text ?es) \<le> 1000 * 1100" using catalog_length [OF es(1)] es(2) by linarith
  ultimately show "length (getCatalog fs D True) < 256 ^ 8" unfolding t by (simp add: newline_def)
  show "makeMenu (getCatalog fs D True) DESC = Some (directory_menu fs D, False)"
    unfolding t directory_menu_def by (rule makeMenu_names) (use es in auto)
qed

lemma directory_menu_simps:
  assumes "i < length (file_list D)"
  shows "desc_getFileName i (directory_menu fs D) = file_list D ! i"
    "desc_getFileSize i (directory_menu fs D) = of_nat (file_size fs D (file_list D ! i))"
    "getFilesNum (directory_menu fs D) = length (file_list D)"
  using assms by (simp_all add: directory_menu_def directory_entries_def menu_entries_def DESC_def desc_getFileName_def desc_getFileSize_def getFilesNum_def)

lemma directory_menu_max:
  assumes "listed fs D"
  shows "unat (getMaxFileSize (directory_menu fs D)) = fold max (map (file_size fs D) (file_list D)) 0"
  using fold_max_u64 [of "directory_entries fs D" 0] assms
  by (auto simp: listed_def getMaxFileSize_def directory_menu_def directory_entries_def menu_entries_def DESC_def comp_def)

lemma downloadCatalog_some:
  assumes "listed fs D" "pc_catalog c = DESC" "to_client k = put_string 8 (getCatalog fs D True) @ later"
  shows "downloadCatalog c k = Some (c \<lparr> pc_catalog := directory_menu fs D \<rparr>, k \<lparr> to_client := later \<rparr>)"
proof -
  have n: "getFilesNum (directory_menu fs D) \<noteq> 0"
    using assms(1) directory_menu_simps(3) [of 0 D fs] by (simp add: listed_def)
  show ?thesis
    unfolding downloadCatalog_def client_take_string [OF assms(3) listed_catalog(1) [OF assms(1)]]
    using n by (simp add: assms(2) listed_catalog(2) [OF assms(1)])
qed

section \<open>The query crosses\<close>

abbreviation upload_step ::
    "nat \<Rightarrow> 'i \<Rightarrow> 'r query_generator \<times> socket \<Rightarrow> ('r query_generator \<times> socket) option" where
  "upload_step n i \<equiv> \<lambda>(q, k). case sq_pop_front (queryBuffer q) of
      None \<Rightarrow> None
    | Some (tmp, b) \<Rightarrow> if length tmp < n then None else Some (q \<lparr> queryBuffer := b \<rparr>, pc_write (take n tmp) k)"

lemma pc_write_append: "pc_write ys (pc_write xs k) = pc_write (xs @ ys) k"
  by (simp add: pc_write_def)

lemma upload_row:
  assumes "sq_ok (queryBuffer q)" "queue_data (queryBuffer q) = xs @ ys" "length is = length xs" "\<forall>x \<in> set xs. length x = n"
  shows "\<exists>b. for_each (upload_step n) is (q, k) = Some (q \<lparr> queryBuffer := b \<rparr>, pc_write (concat xs) k) \<and> sq_ok b \<and> queue_data b = ys"
  using assms
proof (induction xs arbitrary: q k "is")
  case Nil
  then show ?case by (auto simp: pc_write_def intro!: exI [of _ "queryBuffer q"])
next
  case (Cons x xs)
  obtain i "is'" where i: "is = i # is'" "length is' = length xs" using Cons.prems(3) by (cases "is") auto
  obtain b where b: "sq_pop_front (queryBuffer q) = Some (x, b)" "sq_ok b" "queue_data b = xs @ ys"
    using sq.get_some [OF Cons.prems(1), of x "xs @ ys"] Cons.prems(2) by auto
  obtain b' where "for_each (upload_step n) is' (q \<lparr> queryBuffer := b \<rparr>, pc_write x k) =
      Some (q \<lparr> queryBuffer := b' \<rparr>, pc_write (concat xs) (pc_write x k))" "sq_ok b'" "queue_data b' = ys"
    using Cons.IH [of "q \<lparr> queryBuffer := b \<rparr>" "is'" "pc_write x k"] b(2,3) i(2) Cons.prems(4) by auto
  then show ?case using b(1) i(1) Cons.prems(4) by (intro exI [of _ b']) (simp add: pc_write_append)
qed

lemma upload_rows:
  assumes "sq_ok (queryBuffer q)" "queue_data (queryBuffer q) = concat (map f js) @ ys"
    and "\<forall>j \<in> set js. length (f j) = m j \<and> (\<forall>x \<in> set (f j). length x = n j)"
  shows "\<exists>b. for_each (\<lambda>j. for_each (upload_step (n j)) [0..<m j]) js (q, k) =
    Some (q \<lparr> queryBuffer := b \<rparr>, pc_write (concat (concat (map f js))) k)"
  using assms
proof (induction js arbitrary: q k)
  case Nil
  then show ?case by (auto simp: pc_write_def intro!: exI [of _ "queryBuffer q"])
next
  case (Cons j js)
  obtain b where b: "for_each (upload_step (n j)) [0..<m j] (q, k) = Some (q \<lparr> queryBuffer := b \<rparr>, pc_write (concat (f j)) k)" "sq_ok b"
    "queue_data b = concat (map f js) @ ys"
    using upload_row [of q "f j" "concat (map f js) @ ys" "[0..<m j]" "n j" k] Cons.prems by auto
  obtain b' where "for_each (\<lambda>j. for_each (upload_step (n j)) [0..<m j]) js (q \<lparr> queryBuffer := b \<rparr>, pc_write (concat (f j)) k) =
      Some (q \<lparr> queryBuffer := b' \<rparr>, pc_write (concat (concat (map f js))) (pc_write (concat (f j)) k))"
    using Cons.IH [of "q \<lparr> queryBuffer := b \<rparr>" "pc_write (concat (f j)) k"] b(2,3) Cons.prems(3) by auto
  then show ?case using b(1) by (intro exI [of _ b']) (simp add: pc_write_append)
qed

lemma concat_concat_map: "concat (concat (map f js)) = concat (map (\<lambda>j. concat (f j)) js)"
  by (induction js) simp_all

text \<open>The ciphertexts of a query in the order in which they are sent.\<close>

definition query_cipher :: "lwe \<Rightarrow> (nat \<Rightarrow> nat \<Rightarrow> u64 list \<times> u64 list) \<Rightarrow> nat list \<Rightarrow> nat \<Rightarrow> nat \<Rightarrow> lwe_cipher" where
  "query_cipher L rnd cs j i = encrypt_uint L (fst (rnd j i)) (snd (rnd j i)) (if i = cs ! j then 1 else 0)"

definition query_wire :: "lwe \<Rightarrow> (nat \<Rightarrow> nat \<Rightarrow> u64 list \<times> u64 list) \<Rightarrow> nat list \<Rightarrow> nat list \<Rightarrow> u8 list" where
  "query_wire L rnd ns cs = concat (map (\<lambda>j. concat (map (\<lambda>i. cipher_bytes (query_cipher L rnd cs j i)) [0..<ns ! j])) [0..<length ns])"

lemma query_cipher_shape: "lwe_setup L k A \<Longrightarrow> cipher_shape L (query_cipher L rnd cs j i)"
  unfolding query_cipher_def by (rule encrypt_uint_shape) auto

lemma shape_bytes: "lwe_setup L k A \<Longrightarrow> cipher_shape L c \<Longrightarrow> length (cipher_bytes c) = 16 * 2 ^ k"
  using lwe_setupD(12) [of L k A] by (simp add: cipher_shape_def length_cipher_bytes)

lemma query_stream_ciphers:
  "query_stream (lwe_crypto L) rnd ns cs = concat (map (\<lambda>j. map (\<lambda>i. cipher_bytes (query_cipher L rnd cs j i)) [0..<ns ! j]) [0..<length ns])"
  unfolding query_stream_def query_dimension_def lwe_crypto_def query_cipher_def
  by (intro arg_cong [where f = concat] map_cong refl) auto

lemma query_bits: "lwe_setup L k A \<Longrightarrow> getQuerySizeFromRecLvl L i div kBitsPerByte = 16 * 2 ^ k"
  using lwe_setupD(6) [of L k A] by (simp add: getQuerySizeFromRecLvl_def kBitsPerByte_def)

lemma pc_startProcessQuery_some:
  fixes c :: pir_client
  defines "P \<equiv> pc_params c"
  assumes u: "lwe_setup (pc_crypto c) k A" and P: "pir_d P \<le> length (pir_n P)" "\<forall>n \<in> set (dims P). 0 < n"
    and room: "sum_list (dims P) \<le> env_room env"
  shows "pc_startProcessQuery env c w =
    Some (pc_write (query_wire (pc_crypto c) (env_query env) (dims P) (coordinates (dims P) (pc_chosen c))) w)"
proof -
  let ?ns = "dims P" and ?cs = "coordinates (dims P) (pc_chosen c)" and ?L = "pc_crypto c"
  let ?g = "setChosenElement (pc_chosen c) (query_generator_new P (lwe_crypto ?L) (env_room env))"
  let ?f = "\<lambda>j. map (\<lambda>i. cipher_bytes (query_cipher ?L (env_query env) ?cs j i)) [0..<?ns ! j]"
  have g: "qg_params ?g = P" "qg_crypto ?g = lwe_crypto ?L" "chosenElement ?g = pc_chosen c" "queryBuffer ?g = shared_queue_new (env_room env)"
    by (simp_all add: query_generator_new_def setChosenElement_def)
  obtain q where q: "generateQuery (env_query env) ?g = Some (?g \<lparr> queryBuffer := q \<rparr>)" "sq_ok q"
    "queue_data q = query_stream (lwe_crypto ?L) (env_query env) ?ns ?cs"
    using generateQuery_spec [of ?g "env_query env"] P room g by auto
  have len: "length ?ns = pir_d P" using P(1) by simp
  have rows: "\<forall>j \<in> set [0..<pir_d P]. length (?f j) = pir_n P ! j \<and> (\<forall>x \<in> set (?f j). length x = getQuerySizeFromRecLvl ?L (j + 1) div kBitsPerByte)"
    using query_bits [OF u] shape_bytes [OF u query_cipher_shape [OF u]] by auto
  have data: "queue_data (queryBuffer (?g \<lparr> queryBuffer := q \<rparr>)) = concat (map ?f [0..<pir_d P]) @ []"
    using q(3) len by (simp add: query_stream_ciphers)
  obtain b where up: "for_each (\<lambda>j. for_each (upload_step (getQuerySizeFromRecLvl ?L (j + 1) div kBitsPerByte)) [0..<pir_n P ! j]) [0..<pir_d P]
      (?g \<lparr> queryBuffer := q \<rparr>, w) = Some (b, pc_write (concat (concat (map ?f [0..<pir_d P]))) w)"
    using upload_rows [OF _ data rows, of w] q(2) by auto
  have all: "concat (concat (map ?f [0..<pir_d P])) = query_wire ?L (env_query env) ?ns ?cs"
    using len by (simp add: query_wire_def concat_concat_map)
  have "pc_uploadWorker c (?g \<lparr> queryBuffer := q \<rparr>) w = Some (pc_write (query_wire ?L (env_query env) ?ns ?cs) w)"
    unfolding pc_uploadWorker_def P_def [symmetric] Let_def up all by simp
  then show ?thesis using q(1) by (simp add: pc_startProcessQuery_def P_def [symmetric])
qed

section \<open>The server receives the query\<close>

lemma receive_element_done:
  assumes u: "lwe_setup L k A" and g: "ps_crypto s = Some L" "ps_generator s = Some g" "rg_crypto g = L"
    and b: "queriesBuf g = Some buf" "j < length buf" "i < length (buf ! j)"
    and e: "cipher_shape L e" and w: "to_server (ps_net s) = cipher_bytes e @ later"
  shows "receive_element j i s = Done (s \<lparr> ps_net := (ps_net s) \<lparr> to_server := later \<rparr>,
    ps_generator := Some (g \<lparr> queriesBuf := Some (buf[j := (buf ! j)[i := Some (query_pair L e)]]) \<rparr>) \<rparr>)"
proof -
  have n: "length (cipher_bytes e) = getQuerySizeFromRecLvl L (j + 1) div 8"
    using shape_bytes [OF u e] query_bits [OF u, of "j + 1"] by (simp add: kBitsPerByte_def)
  have "pushQuery_at (cipher_bytes e) j i g = Some (g \<lparr> queriesBuf := Some (buf[j := (buf ! j)[i := Some (query_pair L e)]]) \<rparr>)"
    using b g(3) chartocipher_shape [OF e] by (simp add: pushQuery_at_def query_pair_def)
  then show ?thesis unfolding receive_element_def using g(1,2) ps_read_bytes [OF w n] by simp
qed

lemma receive_row:
  assumes u: "lwe_setup L k A" and g: "ps_crypto s = Some L" "ps_generator s = Some g" "rg_crypto g = L"
    and b: "queriesBuf g = Some buf" "j < length buf" "length (buf ! j) = m" and e: "\<forall>i < m. cipher_shape L (e i)"
    and w: "to_server (ps_net s) = concat (map (\<lambda>i. cipher_bytes (e i)) [0..<m]) @ later"
  shows "outcome_each (receive_element j) [0..<m] s = Done (s \<lparr> ps_net := (ps_net s) \<lparr> to_server := later \<rparr>,
    ps_generator := Some (g \<lparr> queriesBuf := Some (buf[j := map (\<lambda>i. Some (query_pair L (e i))) [0..<m]]) \<rparr>) \<rparr>)"
proof -
  let ?row = "\<lambda>i. map (\<lambda>i. Some (query_pair L (e i))) [0..<i] @ drop i (buf ! j)"
  let ?w = "\<lambda>i. concat (map (\<lambda>i. cipher_bytes (e i)) [i..<m]) @ later"
  let ?st = "\<lambda>i. s \<lparr> ps_net := (ps_net s) \<lparr> to_server := ?w i \<rparr>, ps_generator := Some (g \<lparr> queriesBuf := Some (buf[j := ?row i]) \<rparr>) \<rparr>"
  have "\<exists>s'. outcome_each (receive_element j) [0..<m] s = Done s' \<and> s' = ?st m"
  proof (rule outcome_each_upt [where I = "\<lambda>i s'. s' = ?st i"])
    show "s = ?st 0" using w b g(2) by simp
    fix i s' assume i: "i < m" and s': "s' = ?st i"
    have row: "(?row i)[i := Some (query_pair L (e i))] = ?row (Suc i)" by (rule update_drop) (use i b(3) in simp)
    have "receive_element j i s' = Done (s' \<lparr> ps_net := (ps_net s') \<lparr> to_server := ?w (Suc i) \<rparr>,
        ps_generator := Some (g \<lparr> queriesBuf := Some ((buf[j := ?row i])[j := ((buf[j := ?row i]) ! j)[i := Some (query_pair L (e i))]]) \<rparr>) \<rparr>)"
      using receive_element_done [OF u, of s' "g \<lparr> queriesBuf := Some (buf[j := ?row i]) \<rparr>" "buf[j := ?row i]" j i "e i" "?w (Suc i)"]
        g b e i s' by (simp add: concat_upt_split [OF i] del: upt_Suc)
    then show "\<exists>s''. receive_element j i s' = Done s'' \<and> s'' = ?st (Suc i)" using b(2) row s' by (simp del: upt_Suc)
  qed
  then show ?thesis using b(3) by simp
qed

lemma receive_rows:
  assumes u: "lwe_setup L k A" and g: "ps_crypto s = Some L" "ps_generator s = Some g" "rg_crypto g = L"
    and b: "queriesBuf g = Some buf" "length buf = length ns" "\<forall>j < length ns. length (buf ! j) = ns ! j"
    and e: "\<forall>j < length ns. \<forall>i < ns ! j. cipher_shape L (e j i)"
    and w: "to_server (ps_net s) = concat (map (\<lambda>j. concat (map (\<lambda>i. cipher_bytes (e j i)) [0..<ns ! j])) [0..<length ns]) @ later"
  shows "outcome_each (\<lambda>j. outcome_each (receive_element j) [0..<ns ! j]) [0..<length ns] s =
    Done (s \<lparr> ps_net := (ps_net s) \<lparr> to_server := later \<rparr>, ps_generator := Some (g \<lparr> queriesBuf := Some (query_rows L e ns) \<rparr>) \<rparr>)"
proof -
  let ?row = "\<lambda>j. map (\<lambda>i. Some (query_pair L (e j i))) [0..<ns ! j]"
  let ?w = "\<lambda>j. concat (map (\<lambda>j. concat (map (\<lambda>i. cipher_bytes (e j i)) [0..<ns ! j])) [j..<length ns]) @ later"
  let ?buf = "\<lambda>j. map ?row [0..<j] @ drop j buf"
  let ?st = "\<lambda>j. s \<lparr> ps_net := (ps_net s) \<lparr> to_server := ?w j \<rparr>, ps_generator := Some (g \<lparr> queriesBuf := Some (?buf j) \<rparr>) \<rparr>"
  have "\<exists>s'. outcome_each (\<lambda>j. outcome_each (receive_element j) [0..<ns ! j]) [0..<length ns] s = Done s' \<and> s' = ?st (length ns)"
  proof (rule outcome_each_upt [where I = "\<lambda>j s'. s' = ?st j"])
    show "s = ?st 0" using w b(1) g(2) by simp
    fix j s' assume j: "j < length ns" and s': "s' = ?st j"
    have bj: "?buf j ! j = buf ! j" using j b(2) by (simp add: nth_append)
    have row: "(?buf j)[j := ?row j] = ?buf (Suc j)" by (rule update_drop) (use j b(2) in simp)
    have "outcome_each (receive_element j) [0..<ns ! j] s' = Done (s' \<lparr> ps_net := (ps_net s') \<lparr> to_server := ?w (Suc j) \<rparr>,
        ps_generator := Some (g \<lparr> queriesBuf := Some ((?buf j)[j := ?row j]) \<rparr>) \<rparr>)"
      using receive_row [OF u, of s' "g \<lparr> queriesBuf := Some (?buf j) \<rparr>" "?buf j" j "ns ! j" "e j" "?w (Suc j)"]
        g b e j s' bj by (simp add: concat_upt_split [OF j] del: upt_Suc)
    then show "\<exists>s''. outcome_each (receive_element j) [0..<ns ! j] s' = Done s'' \<and> s'' = ?st (Suc j)"
      unfolding row using s' by simp
  qed
  then show ?thesis using b(2) by (simp add: query_rows_def)
qed

lemma initQueriesBuffer_buf:
  assumes "pir_d (rg_params g) \<le> length (pir_n (rg_params g))"
  shows "queriesBuf (initQueriesBuffer g) = Some (map (\<lambda>i. replicate (dims (rg_params g) ! i) None) [0..<pir_d (rg_params g)])"
  by (simp add: initQueriesBuffer_def)

lemma outcome_each_cong: "(\<And>x s. x \<in> set xs \<Longrightarrow> f x s = g x s) \<Longrightarrow> outcome_each f xs s = outcome_each g xs s"
proof (induction xs arbitrary: s)
  case (Cons x xs)
  then have "f x s = g x s" "outcome_each f xs = outcome_each g xs" by (auto simp: fun_eq_iff)
  then show ?case by simp
qed simp

lemma ps_downloadWorker_done:
  fixes e :: "nat \<Rightarrow> nat \<Rightarrow> lwe_cipher"
  assumes u: "lwe_setup L k A" and g: "ps_crypto s = Some L" "ps_generator s = Some g" "rg_crypto g = L" "rg_params g = ps_params s"
    and d: "pir_d (ps_params s) \<le> length (pir_n (ps_params s))" and e: "\<forall>j i. cipher_shape L (e j i)"
    and w: "to_server (ps_net s) = concat (map (\<lambda>j. concat (map (\<lambda>i. cipher_bytes (e j i)) [0..<dims (ps_params s) ! j])) [0..<pir_d (ps_params s)]) @ later"
  shows "ps_downloadWorker s = Done (s \<lparr> ps_net := (ps_net s) \<lparr> to_server := later \<rparr>,
    ps_generator := Some (g \<lparr> queriesBuf := Some (query_rows L e (dims (ps_params s))) \<rparr>), ps_unlocked := True \<rparr>)"
proof -
  let ?ns = "dims (ps_params s)" and ?s = "s \<lparr> ps_generator := Some (initQueriesBuffer g) \<rparr>"
  have len: "length ?ns = pir_d (ps_params s)" using d by simp
  have rows: "outcome_each (\<lambda>j. outcome_each (receive_element j) [0..<?ns ! j]) [0..<length ?ns] ?s =
      Done (?s \<lparr> ps_net := (ps_net ?s) \<lparr> to_server := later \<rparr>, ps_generator := Some (initQueriesBuffer g \<lparr> queriesBuf := Some (query_rows L e ?ns) \<rparr>) \<rparr>)"
    by (rule receive_rows [OF u, where buf = "map (\<lambda>i. replicate (?ns ! i) None) [0..<pir_d (ps_params s)]"])
      (use g d e w len initQueriesBuffer_buf [of g] in \<open>simp_all add: initQueriesBuffer_def\<close>)
  have same: "outcome_each (\<lambda>j. outcome_each (receive_element j) [0..<?ns ! j]) [0..<length ?ns] ?s =
      outcome_each (\<lambda>j. outcome_each (receive_element j) [0..<pir_n (ps_params s) ! j]) [0..<pir_d (ps_params s)] ?s"
    unfolding len by (rule outcome_each_cong) simp
  show ?thesis
    unfolding ps_downloadWorker_def g(2) option.case trans [OF same [symmetric] rows] by (simp add: initQueriesBuffer_def)
qed

section \<open>The server answers\<close>

lemma send_replies:
  assumes g: "ps_generator s = Some g" "repliesArray g = Some (map Some r)" and B: "\<forall>c \<in> set r. length (cipher_bytes c) = B"
  shows "outcome_each (send_reply B) [0..<length r] s =
    Done (s \<lparr> ps_net := (ps_net s) \<lparr> to_client := to_client (ps_net s) @ concat (map cipher_bytes r) \<rparr>,
      ps_generator := Some (g \<lparr> repliesArray := Some (replicate (length r) None) \<rparr>) \<rparr>)"
proof -
  let ?arr = "\<lambda>i. replicate i None @ map Some (drop i r)"
  let ?st = "\<lambda>i. s \<lparr> ps_net := (ps_net s) \<lparr> to_client := to_client (ps_net s) @ concat (map cipher_bytes (take i r)) \<rparr>,
      ps_generator := Some (g \<lparr> repliesArray := Some (?arr i) \<rparr>) \<rparr>"
  have "\<exists>s'. outcome_each (send_reply B) [0..<length r] s = Done s' \<and> s' = ?st (length r)"
  proof (rule outcome_each_upt [where I = "\<lambda>i s'. s' = ?st i"])
    show "s = ?st 0" using g by simp
    fix i s' assume i: "i < length r" and s': "s' = ?st i"
    have arr: "(?arr i)[i := None] = ?arr (Suc i)" "?arr i ! i = Some (r ! i)"
      using i by (simp_all add: list_update_append nth_append Cons_nth_drop_Suc [symmetric] replicate_append_same [symmetric])
    have "length (cipher_bytes (r ! i)) = B" using B i by simp
    then have "send_reply B i s' = Done (?st (Suc i))"
      using i arr by (simp add: s' send_reply_def ps_write_def take_Suc_conv_app_nth del: replicate.simps)
    then show "\<exists>s''. send_reply B i s' = Done s'' \<and> s'' = ?st (Suc i)" by blast
  qed
  then show ?thesis by simp
qed

lemma proper_last:
  "client_proper proper recover parse i m r \<Longrightarrow> proper (i + m) r"
proof (induction m arbitrary: i)
  case (Suc m)
  then show ?case using Suc.IH [of "Suc i"] by simp
qed simp

lemma ciph_bytes_lwe: "lwe_setup L k A \<Longrightarrow> getCiphBitsizeFromRecLvl L i div kBitsPerByte = 16 * 2 ^ k"
  using lwe_setupD(6) [of L k A] by (simp add: getCiphBitsizeFromRecLvl_def kBitsPerByte_def)

context database
begin

lemma server_answers:
  fixes s :: pir_session and gc :: nfl_generator and k A memory nb cs K opt
  defines "P \<equiv> ps_params s" and "L \<equiv> rg_crypto gc" and "M \<equiv> db_getmaxFileBytesize db"
  defines "alpha \<equiv> pir_alpha P" and "d \<equiv> pir_d P"
  defines "N \<equiv> level_polys k A (element_polys k A (alpha * M))"
  assumes u: "lwe_setup L k A" and s: "ps_crypto s = Some (rekey K L)" "ps_generator s = Some (rekeyed K gc)" "ps_unlocked s"
      "ps_maxFileBytesize s = M" and opt: "\<not> got_preimported_database opt"
    and g: "rg_db gc = db" "repliesArray gc = None" "query_loaded gc k A cs" "rg_params gc = P"
    and dbs: "db_getNbStream db = nb * alpha" "0 < nb" "nb \<le> product_from 0 P" and d: "0 < d"
    and sz: "8 \<le> alpha * M" "alpha * M < 2 ^ 24"
    and big: "alpha = 1 \<and> d = 1 \<Longrightarrow> 8 * db_getNbStream db * (M + block_bytes k A) \<le> memory"
  shows "\<exists>s' r. ps_startProcessResult memory opt s = Done s' \<and>
    ps_net s' = (ps_net s) \<lparr> to_client := to_client (ps_net s) @ concat (map cipher_bytes r) \<rparr> \<and>
    length r = N (d - 1) \<and> (\<forall>c \<in> set r. cipher_shape L c) \<and>
    client_proper (\<lambda>i. lwe_proper L k A (N i)) (\<lambda>i. read_reply L k A) (\<lambda>i. parse_reply L k (N i)) 0 (d - 1) r \<and>
    client_levels (\<lambda>i. read_reply L k A) (\<lambda>i. parse_reply L k (N i)) 0 (d - 1) r =
      element_bytes (N 0 * block_bytes k A) (group_bytes content alpha 0 M) nb (mixed_index (map ((!) (pir_n P)) [0..<d]) cs)"
proof -
  obtain w g' r where r: "generateReplyGeneric memory (keep_database opt) False gc = Some (w, g')" "repliesArray g' = Some (map Some r)"
    "rg_params g' = P" "rg_crypto g' = L" "length r = N (d - 1)"
    "client_proper (\<lambda>i. lwe_proper L k A (N i)) (\<lambda>i. read_reply L k A) (\<lambda>i. parse_reply L k (N i)) 0 (d - 1) r"
    "client_levels (\<lambda>i. read_reply L k A) (\<lambda>i. parse_reply L k (N i)) 0 (d - 1) r =
      element_bytes (N 0 * block_bytes k A) (group_bytes content alpha 0 M) nb (mixed_index (map ((!) (pir_n P)) [0..<d]) cs)"
    using generates_answer [of gc k A cs nb memory "keep_database opt"] assms by (auto simp: ac_simps)
  have gen: "generateReplyGeneric memory (keep_database opt) False (rekeyed K gc) = Some (w, rekeyed K g')"
    using r(1) by (simp add: generateReplyGeneric_rekeyed)
  let ?s = "s \<lparr> ps_generator := Some (rekeyed K g'), savedDatabase := (if keep_database opt then w else savedDatabase s) \<rparr>"
  have reply: "generate_reply memory opt s = Done ?s" using s opt gen by (simp add: generate_reply_def)
  have shape: "\<forall>c \<in> set r. cipher_shape L c" using proper_last [OF r(6)] by (simp add: lwe_proper_def)
  then have B: "\<forall>c \<in> set r. length (cipher_bytes c) = 16 * 2 ^ k" using shape_bytes [OF u] by blast
  have count: "computeReplySizeInChunks M (rekeyed K g') = length r"
    using computeReplySize_levels [of g' k A M] u d r(3-5) by (simp add: N_def alpha_def d_def)
  have bytes: "getCiphBitsizeFromRecLvl (rekey K L) i div kBitsPerByte = 16 * 2 ^ k" for i
    using ciph_bytes_lwe [OF u] by simp
  have "ps_uploadWorker ?s = Done (?s \<lparr> ps_net := (ps_net ?s) \<lparr> to_client := to_client (ps_net ?s) @ concat (map cipher_bytes r) \<rparr>,
      ps_generator := Some (rekeyed K g' \<lparr> repliesArray := Some (replicate (length r) None) \<rparr>) \<rparr>)"
    using send_replies [of ?s "rekeyed K g'" r "16 * 2 ^ k"] B s count bytes r(2) by (simp add: ps_uploadWorker_def)
  then have "\<exists>s'. ps_startProcessResult memory opt s = Done s' \<and>
      ps_net s' = (ps_net s) \<lparr> to_client := to_client (ps_net s) @ concat (map cipher_bytes r) \<rparr>"
    unfolding ps_startProcessResult_def reply by simp
  then show ?thesis using r(5-7) shape by blast
qed

end

section \<open>The client has its file\<close>

text \<open>Both sides count the ciphertexts of the reply in the same way.\<close>

lemma pc_packet_number_levels:
  assumes u: "lwe_setup (pc_crypto c) k A" and d: "0 < pir_d (pc_params c)"
  shows "pc_packet_number c =
    level_polys k A (element_polys k A (pir_alpha (pc_params c) * unat (getMaxFileSize (pc_catalog c)))) (pir_d (pc_params c) - 1)"
proof -
  let ?m = "unat (getMaxFileSize (pc_catalog c))" and ?a = "pir_alpha (pc_params c)"
  let ?g = "setCryptoMethod (pc_crypto c) (PIRReplyGeneratorNFL (pc_params c) undefined)"
  note D = lwe_setupD [OF u]
  have "ceil_div (?m * ?a) (block_bytes k A) = ceil_div (8 * (?m * ?a)) (8 * block_bytes k A)" using D(11) by (simp add: ceil_div_cancel)
  also have "\<dots> = ceil_div (?m * kBitsPerByte * ?a) (getAbsorptionBitsize (pc_crypto c))" unfolding D(5,10) by (simp add: kBitsPerByte_def ac_simps)
  also have "ceil_div (?m * ?a) (block_bytes k A) = ceil_div (?m * ?a) (getAbsorptionBitsize (pc_crypto c) div kBitsPerByte)"
    by (simp add: D(5) block_bytes_def kBitsPerByte_def)
  finally have "pc_packet_number c = computeReplySizeInChunks ?m ?g"
    by (simp add: pc_packet_number_def computeReplySizeInChunks_def Let_def setCryptoMethod_def PIRReplyGeneratorNFL_def)
  then show ?thesis
    using computeReplySize_levels [of ?g k A ?m] u d by (simp add: setCryptoMethod_def PIRReplyGeneratorNFL_def)
qed

lemma download_replies:
  assumes "\<forall>c \<in> set r. length (cipher_bytes c) = B" "length is = length r"
    and "sq_ok (repliesBuffer e)" "length (queue_data (repliesBuffer e)) + length r \<le> sq_capacity (repliesBuffer e)"
    and "to_client w = concat (map cipher_bytes r) @ later"
  shows "\<exists>b. for_each (\<lambda>i (e, k). Option.bind (client_take (read_bytes B) k) (\<lambda>(buf, k). map_option (\<lambda>e. (e, k)) (pushEncryptedReply buf e)))
      is (e, w) = Some (e \<lparr> repliesBuffer := b \<rparr>, w \<lparr> to_client := later \<rparr>) \<and> sq_ok b \<and>
    queue_data b = queue_data (repliesBuffer e) @ map cipher_bytes r"
  using assms
proof (induction r arbitrary: e w "is")
  case Nil
  then show ?case by (auto intro!: exI [of _ "repliesBuffer e"])
next
  case (Cons c r)
  obtain i "is'" where i: "is = i # is'" "length is' = length r" using Cons.prems(2) by (cases "is") auto
  let ?w = "w \<lparr> to_client := concat (map cipher_bytes r) @ later \<rparr>"
  have read: "client_take (read_bytes B) w = Some (cipher_bytes c, ?w)"
    by (rule client_take_bytes) (use Cons.prems in simp_all)
  have "length (queue_data (repliesBuffer e)) < sq_capacity (repliesBuffer e)" using Cons.prems(4) by simp
  from sq.put_room [OF Cons.prems(3) this, of "cipher_bytes c"] obtain q where q: "sq_push (cipher_bytes c) (repliesBuffer e) = Some q" "sq_ok q"
    "queue_data q = queue_data (repliesBuffer e) @ [cipher_bytes c]" "sq_capacity q = sq_capacity (repliesBuffer e)" by blast
  obtain b where b: "for_each (\<lambda>i (e, k). Option.bind (client_take (read_bytes B) k) (\<lambda>(buf, k). map_option (\<lambda>e. (e, k)) (pushEncryptedReply buf e)))
      is' (e \<lparr> repliesBuffer := q \<rparr>, ?w) = Some (e \<lparr> repliesBuffer := b \<rparr>, w \<lparr> to_client := later \<rparr>)" "sq_ok b"
    "queue_data b = queue_data q @ map cipher_bytes r"
    using Cons.IH [of "is'" "e \<lparr> repliesBuffer := q \<rparr>" ?w] Cons.prems i(2) q by auto
  then show ?case using q i(1) read by (intro exI [of _ b]) (simp add: pushEncryptedReply_def)
qed

lemma sint_file_size:
  fixes v :: u64
  assumes "unat v < 2 ^ 31"
  shows "sint (ucast v :: 32 word) = int (unat v)"
proof -
  have "ucast v = (of_nat (unat v) :: 32 word)" by (rule of_nat_unat [symmetric])
  then show ?thesis using assms by (simp only: signed_of_nat) (simp add: signed_take_bit_int_eq_self)
qed

lemma pc_startProcessResult_some:
  fixes c :: pir_client and k A :: nat
  defines "P \<equiv> pc_params c" and "L \<equiv> pc_crypto c" and "cat \<equiv> pc_catalog c" and "x \<equiv> pc_chosen c" and "w \<equiv> pc_writer c"
  defines "M \<equiv> unat (getMaxFileSize cat)" and "path \<equiv> path_of w x cat"
  defines "N \<equiv> level_polys k A (element_polys k A (pir_alpha P * M))"
  assumes u: "lwe_setup L k A" and d: "0 < pir_d P" and sz: "0 < pir_alpha P" "0 < M" "pir_alpha P * M < 2 ^ 24"
    and small: "\<forall>l < pir_d P. N l < 2 ^ 17" and room: "N 0 \<le> env_room env" "N (pir_d P - 1) \<le> env_room env"
    and w: "\<not> dontWrite w" "rw_chunks w = shared_queue_new (env_room env)" "fs_writable fs path"
    and name: "desc_getFileName x cat \<noteq> []" "unat (desc_getFileSize x cat) \<le> M" "unat (desc_getFileSize x cat) < 2 ^ 31"
    and r: "client_proper (\<lambda>i. lwe_proper L k A (N i)) (\<lambda>i. read_reply L k A) (\<lambda>i. parse_reply L k (N i)) 0 (pir_d P - 1) r"
      "length r = N (pir_d P - 1)" "\<forall>c \<in> set r. cipher_shape L c"
    and k: "to_client net = concat (map cipher_bytes r) @ later"
  shows "\<exists>w'. pc_startProcessResult env False c net fs = Some (c \<lparr> pc_writer := w' \<rparr>, net \<lparr> to_client := later \<rparr>,
    fs \<lparr> fs_files := (fs_files fs)(path \<mapsto> take (unat (desc_getFileSize x cat)) (drop (x mod pir_alpha P * M)
      (client_levels (\<lambda>i. read_reply L k A) (\<lambda>i. parse_reply L k (N i)) 0 (pir_d P - 1) r))) \<rparr>)"
proof -
  note D = lwe_setupD [OF u]
  let ?C = "lwe_crypto L" and ?B = "block_bytes k A" and ?z = "sint (ucast (desc_getFileSize x cat) :: 32 word)"
  let ?e = "reply_extraction_new P ?C (env_room env) \<lparr> re_filename := desc_getFileName x cat, re_fileSize := ?z \<rparr>"
  have agg: "M * pir_alpha P = pir_alpha P * M" by (rule mult.commute)
  have "?z = int (unat (desc_getFileSize x cat))" by (rule sint_file_size) (rule name(3))
  then have e: "setFileParam (desc_getFileName x cat) ?z (reply_extraction_new P ?C (env_room env)) = Some ?e"
    using name(1) by (simp add: setFileParam_def)
  have sel: "re_crypto ?e = ?C" "re_params ?e = P" "repliesBuffer ?e = shared_queue_new (env_room env)"
    by (simp_all add: reply_extraction_new_def)
  have new: "sq_ok (shared_queue_new n)" "queue_data (shared_queue_new n) = []" "sq_capacity (shared_queue_new n) = n" for n
    by (simp_all add: sq_ok_def shared_queue_new_def sq_capacity_def)
  have B: "\<forall>c \<in> set r. length (cipher_bytes c) = 16 * 2 ^ k" using r(3) shape_bytes [OF u] by blast
  have number: "pc_packet_number c = length r"
    using pc_packet_number_levels [of c k A] u d r(2) by (simp add: N_def M_def P_def L_def cat_def)
  have sizes: "getCiphBitsizeFromRecLvl (pc_crypto c) (pir_d (pc_params c)) div kBitsPerByte = 16 * 2 ^ k"
    "getAbsorptionBitsize (pc_crypto c) div kBitsPerByte \<noteq> 0"
    using ciph_bytes_lwe [OF u] D(11) by (simp_all add: L_def [symmetric] D(5) block_bytes_def kBitsPerByte_def)
  obtain b where b: "for_each (\<lambda>i (e, k'). Option.bind (client_take (read_bytes (16 * 2 ^ k)) k') (\<lambda>(buf, k'). map_option (\<lambda>e. (e, k')) (pushEncryptedReply buf e)))
      [0..<length r] (?e, net) = Some (?e \<lparr> repliesBuffer := b \<rparr>, net \<lparr> to_client := later \<rparr>)" "sq_ok b" "queue_data b = map cipher_bytes r"
    using download_replies [OF B, of "[0..<length r]" ?e net later] sel new k r(2) room(2) by auto
  have dw: "pc_downloadWorker c ?e net = Some (?e \<lparr> repliesBuffer := b \<rparr>, net \<lparr> to_client := later \<rparr>)"
    unfolding pc_downloadWorker_def number sizes(1) using sizes(2) b(1) by simp
  have "\<forall>l < pir_d P. ciphertext_count ?C (pir_alpha P * M) (l + 1) = N l"
    using lwe_ciphertext_count [OF u sz(3)] small by (simp add: N_def)
  moreover have "pir_alpha P * M < 2 ^ 31" using sz(3) by simp
  moreover note cl = lwe_client_levels [of L k A "element_polys k A (pir_alpha P * M)" 0 "pir_d P - 1" r, folded N_def, OF r(1)]
  ultimately obtain outs q clear where ext: "extractReply (pir_alpha P * M) (rw_chunks w) (?e \<lparr> repliesBuffer := b \<rparr>) = Some (clear, ?e \<lparr> repliesBuffer := q \<rparr>)"
    "sq_ok clear" "queue_data clear = outs" "length outs = N 0" "\<forall>x \<in> set outs. data_size2b ?C 1 \<le> length x"
    "concat (map (take (data_size2b ?C 1)) outs) = client_value ?C N 0 (pir_d P - 1) (map cipher_bytes r)"
    using extractReply_spec [of "?e \<lparr> repliesBuffer := b \<rparr>" "pir_alpha P * M" N "map cipher_bytes r" "rw_chunks w"] d b sel new room(1) w(2) by auto
  let ?v = "client_levels (\<lambda>i. read_reply L k A) (\<lambda>i. parse_reply L k (N i)) 0 (pir_d P - 1) r"
  have outs: "\<forall>x \<in> set outs. ?B \<le> length x" "chunk_bytes ?B outs = ?v"
    using ext(5,6) cl by (simp_all add: lwe_sizes [OF u] chunk_bytes_def)
  let ?w = "w \<lparr> rw_params := P, rw_chunks := clear \<rparr>"
  have "8 dvd 2 ^ k * A" using D(10) by (metis dvd_triv_left)
  then have "pir_alpha P * M \<le> ?B * length outs"
    using element_blocks [OF D(7), of k "pir_alpha P * M"] ext(4) by (simp add: N_def mult.commute)
  then obtain w' where "writeAggregatedFileSecurely False ?C x cat (?w, fs) = Some (w', fs \<lparr> fs_files := (fs_files fs)(path \<mapsto>
      take (unat (desc_getFileSize x cat)) (drop (x mod pir_alpha P * M) ?v)) \<rparr>)"
    using writes_chosen_file [of ?C ?w fs x cat] w(1,3) sz(1) D(11) ext(2,3) outs name(2)
    by (auto simp: lwe_sizes [OF u] path_of_def path_def M_def)
  then show ?thesis
    using e dw ext(1) [folded agg] unfolding pc_startProcessResult_def Let_def
    by (intro exI [of _ w']) (simp add: P_def [symmetric] L_def [symmetric] cat_def [symmetric] x_def [symmetric] w_def [symmetric] M_def [symmetric])
qed

section \<open>The parameters in both modes\<close>

text \<open>
  What the exchange of the parameters promises: nothing is left on the way, both sides have the same
  dimensions and aggregation, and the server has a generator for the client's cryptosystem, up to the key.
\<close>

definition same_layout :: "pir_parameters \<Rightarrow> pir_parameters \<Rightarrow> bool" where
  "same_layout P Q \<longleftrightarrow> pir_d Q = pir_d P \<and> pir_alpha Q = pir_alpha P \<and> dims Q = dims P \<and> length (pir_n Q) = 10"

definition agreed :: "nat \<Rightarrow> nat \<Rightarrow> pir_parameters \<Rightarrow> pir_client \<times> pir_session \<Rightarrow> bool" where
  "agreed k A P st \<longleftrightarrow> (case st of (c, s) \<Rightarrow>
     lwe_setup (pc_crypto c) k A \<and> same_layout P (pc_params c) \<and> same_layout P (ps_params s) \<and>
     (\<exists>K g. lwe_setup (rekey K (pc_crypto c)) k A \<and> ps_crypto s = Some (rekey K (pc_crypto c)) \<and> ps_generator s = Some g \<and> rg_crypto g = rekey K (pc_crypto c) \<and>
        rg_params g = ps_params s \<and> rg_db g = ps_db s \<and> repliesArray g = None) \<and>
     ps_net s = idle \<and> \<not> handmadeExceptionRaised s \<and> \<not> ps_unlocked s)"

text \<open>The parameters of the server after the place behind the last dimension is set.\<close>

abbreviation closed :: "pir_parameters \<Rightarrow> pir_parameters" where
  "closed P \<equiv> P \<lparr> pir_n := (pir_n P)[pir_d P := 1] \<rparr>"

lemma dims_closed: "dims (closed P) = dims P"
  by (simp add: dims_def)

lemma same_layout_closed: "same_layout P Q \<Longrightarrow> same_layout P (closed Q)"
  using dims_closed [of Q] by (simp add: same_layout_def)

lemma same_layout_take: "wire_params P \<Longrightarrow> length (pir_n Q) = 10 \<Longrightarrow> same_layout P (take_params P Q)"
  by (simp add: same_layout_def take_params_dims wire_params_def) (simp add: take_params_def)

lemma same_layout_refl: "wire_params P \<Longrightarrow> same_layout P P"
  by (simp add: same_layout_def wire_params_def)

lemma load_same_key:
  assumes "k \<le> 13" "1 \<le> A" "A \<le> 57" "64 dvd 2 ^ k * A"
  shows "\<exists>L K. load_crypto invert key (lwe_descriptor sb k A) = Done L \<and> lwe_setup L k A \<and> getSerializedParams L False = lwe_descriptor sb k A \<and>
    load_crypto invert key' (lwe_descriptor sb k A) = Done (rekey K L) \<and> lwe_setup (rekey K L) k A"
proof -
  obtain L where L: "load_crypto invert key (lwe_descriptor sb k A) = Done L" "lwe_setup L k A" "getSerializedParams L False = lwe_descriptor sb k A"
    "lwe_setNewParameters invert key (2 ^ k) 60 (int A) (NFLLWE_new \<lparr> securityBits := sb \<rparr>) = Inr L"
    using load_lwe_descriptor [OF assms] by blast
  obtain L' where L': "load_crypto invert key' (lwe_descriptor sb k A) = Done L'"
    "lwe_setNewParameters invert key' (2 ^ k) 60 (int A) (NFLLWE_new \<lparr> securityBits := sb \<rparr>) = Inr L'" "lwe_setup L' k A"
    using load_lwe_descriptor [OF assms] by blast
  have "L' = rekey L' L" using L(4) L'(2) by (rule setNewParameters_rekey)
  then show ?thesis using L(1-3) L'(1,3) by metis
qed

lemma make_generator_done:
  "load_crypto invert key desc = Done L \<Longrightarrow> make_generator invert key desc s =
    Done (s \<lparr> ps_crypto := Some L, ps_generator := Some (setCryptoMethod L (PIRReplyGeneratorNFL (ps_params s) (ps_db s))), ps_unlocked := False \<rparr>)"
  by (simp add: make_generator_def)

lemma new_generator:
  "rg_crypto (setPirParams P (setCryptoMethod L (PIRReplyGeneratorNFL Q db))) = L"
  "rg_params (setPirParams P (setCryptoMethod L (PIRReplyGeneratorNFL Q db))) = P"
  "rg_db (setPirParams P (setCryptoMethod L (PIRReplyGeneratorNFL Q db))) = db"
  "repliesArray (setPirParams P (setCryptoMethod L (PIRReplyGeneratorNFL Q db))) = None"
  by (simp_all add: setPirParams_def setCryptoMethod_def PIRReplyGeneratorNFL_def initQueriesBuffer_def freeQueriesBuffer_def freeQueries_def)

text \<open>Client-driven: the server reads the descriptor, the key and the dimensions.\<close>

lemma ps_client_driven_done:
  assumes L: "load_crypto invert skey (lwe_descriptor sb k A) = Done L" and desc: "sb < 2 ^ 32" "k \<le> 13" "A \<le> 57"
    and P: "wire_params P" "length (pir_n (ps_params s)) = 10" and key: "length key = 8"
    and w: "to_server (ps_net s) = put_string 4 (lwe_descriptor sb k A) @ put_uint 4 8 @ key @ put_pir_params P"
  shows "ps_client_driven invert skey s = Done (s \<lparr> ps_net := (ps_net s) \<lparr> to_server := [] \<rparr>, ps_crypto := Some L,
    ps_params := closed (take_params P (ps_params s)), ps_unlocked := False,
    ps_generator := Some (setPirParams (closed (take_params P (ps_params s))) (setCryptoMethod L (PIRReplyGeneratorNFL (ps_params s) (ps_db s)))) \<rparr>)"
proof -
  note D = lwe_descriptor_wire [OF desc]
  let ?g = "setCryptoMethod L (PIRReplyGeneratorNFL (ps_params s) (ps_db s))"
  let ?s1 = "s \<lparr> ps_net := (ps_net s) \<lparr> to_server := put_uint 4 8 @ key @ put_pir_params P \<rparr>, ps_crypto := Some L,
      ps_generator := Some ?g, ps_unlocked := False \<rparr>"
  let ?s2 = "?s1 \<lparr> ps_net := (ps_net s) \<lparr> to_server := put_pir_params P \<rparr> \<rparr>"
  have "ps_read (read_string 4) s (\<lambda>desc. make_generator invert skey (takeWhile (\<lambda>c. c \<noteq> CHR 0x00) desc)) = Done ?s1"
    using ps_read_string [OF w D(1)] make_generator_done [OF L] by (simp add: D(2))
  moreover have "receive_key ?s1 = Done ?s2" using receive_key_done [of ?s1 key "put_pir_params P"] key by simp
  ultimately have crypto: "ps_rcvCryptoParams invert skey True s = Done ?s2" by (simp add: ps_rcvCryptoParams_def)
  have d: "pir_d (take_params P Q) = pir_d P" for Q by (simp add: take_params_def)
  have "ps_rcvPirParams ?s2 = Done (?s2 \<lparr> ps_net := (ps_net ?s2) \<lparr> to_server := [] \<rparr>,
      ps_params := closed (take_params P (ps_params s)), ps_generator := Some (setPirParams (closed (take_params P (ps_params s))) ?g) \<rparr>)"
    using ps_rcvPirParams_done [of P ?s2 ?g "[]"] P d by simp
  then show ?thesis unfolding ps_client_driven_def crypto by simp
qed

text \<open>The client loads the descriptor and sends its key, with the descriptor when it chose it.\<close>

lemma processCryptoParams_driven:
  assumes L: "load_crypto (env_invert env) (env_client_key env) (lwe_descriptor sb k A) = Done L" "lwe_setup L k A"
      "getSerializedParams L False = lwe_descriptor sb k A"
    and c: "exchange_method c = CLIENT_DRIVEN" "crypto_params (pc_params c) = lwe_descriptor sb k A"
    and key: "8 * 2 ^ k \<le> 136 + length (env_beyond env)"
  shows "\<exists>key. length key = 8 \<and> processCryptoParams env c w =
    Some (c \<lparr> pc_crypto := L \<rparr>, pc_write (put_string 4 (lwe_descriptor sb k A) @ put_uint 4 8 @ key) w)"
  using pc_sendCryptoParams_some [of "c \<lparr> pc_crypto := L \<rparr>" k A "env_beyond env" True w] assms
  by (auto simp: processCryptoParams_def getCryptoMethod_def Let_def)

lemma processCryptoParams_server:
  assumes L: "load_crypto (env_invert env) (env_client_key env) (lwe_descriptor sb k A) = Done L" "lwe_setup L k A"
    and c: "exchange_method c = SERVER_DRIVEN" and desc: "sb < 2 ^ 32" "k \<le> 13" "A \<le> 57"
    and w: "to_client w = put_string 4 (lwe_descriptor sb k A) @ later"
    and key: "8 * 2 ^ k \<le> 136 + length (env_beyond env)"
  shows "\<exists>key. length key = 8 \<and> processCryptoParams env c w =
    Some (c \<lparr> pc_params := (pc_params c) \<lparr> crypto_params := lwe_descriptor sb k A \<rparr>, pc_crypto := L \<rparr>,
      pc_write (put_uint 4 8 @ key) (w \<lparr> to_client := later \<rparr>))"
proof -
  note D = lwe_descriptor_wire [OF desc]
  let ?c = "c \<lparr> pc_params := (pc_params c) \<lparr> crypto_params := lwe_descriptor sb k A \<rparr> \<rparr>"
  have r: "pc_rcvCryptoParams c w = Some (?c, w \<lparr> to_client := later \<rparr>)"
    unfolding pc_rcvCryptoParams_def client_take_string [OF w D(1)] by (simp add: D(2))
  show ?thesis
    using pc_sendCryptoParams_some [of "?c \<lparr> pc_crypto := L \<rparr>" k A "env_beyond env" False "w \<lparr> to_client := later \<rparr>"] assms r
    by (auto simp: processCryptoParams_def getCryptoMethod_def Let_def CLIENT_DRIVEN_def SERVER_DRIVEN_def)
qed

text \<open>The greeting is taken apart by the client.\<close>

definition greeted :: "(string \<Rightarrow> u8 list) \<Rightarrow> directory_processor \<Rightarrow> bool \<Rightarrow> pir_client \<Rightarrow> pir_client" where
  "greeted fs D driven c = c \<lparr> pc_catalog := directory_menu fs D, exchange_method := (if driven then CLIENT_DRIVEN else SERVER_DRIVEN) \<rparr>"

lemma greet_parts:
  assumes D: "listed fs D" and c: "pc_catalog c = DESC" and s: "ps_net s = idle" "ps_db s = directory_handler fs ch D"
  shows "Option.bind (client_part downloadCatalog (c, ps_greet opt s)) (\<lambda>st. Option.bind (client_part rcvPIRParamsExchangeMethod st) f) =
    f (greeted fs D (driven_mode opt) c, s)"
proof -
  let ?m = "if driven_mode opt then CLIENT_DRIVEN else SERVER_DRIVEN"
  have cat: "sendCatalog s = ps_write (put_string 8 (getCatalog fs D True)) s"
    using D s(2) by (simp add: sendCatalog_def directory_handler_def listed_def getNbStream_def)
  have net: "ps_net (ps_greet opt s) = \<lparr> to_server = [], to_client = put_string 8 (getCatalog fs D True) @ put_uint 2 ?m \<rparr>"
    using s(1) by (simp add: ps_greet_def cat sendPIRParamsExchangeMethod_def ps_write_def idle_def)
  have keep: "ps_greet opt s \<lparr> ps_net := idle \<rparr> = s"
    using s(1) by (simp add: ps_greet_def cat sendPIRParamsExchangeMethod_def ps_write_def)
  have m: "?m < 256 ^ 2" by (simp add: CLIENT_DRIVEN_def SERVER_DRIVEN_def)
  have a: "client_part downloadCatalog (c, ps_greet opt s) = Some (c \<lparr> pc_catalog := directory_menu fs D \<rparr>,
      ps_greet opt s \<lparr> ps_net := \<lparr> to_server = [], to_client = put_uint 2 ?m \<rparr> \<rparr>)"
    using downloadCatalog_some [OF D c, of "ps_net (ps_greet opt s)" "put_uint 2 ?m"] by (simp add: client_part_def net)
  have "client_take (read_uint 2) \<lparr> to_server = [], to_client = put_uint 2 ?m \<rparr> = Some (?m, idle)"
    using client_take_uint [of "\<lparr> to_server = [], to_client = put_uint 2 ?m \<rparr>" 2 ?m "[]"] m by (simp add: idle_def)
  then have b: "client_part rcvPIRParamsExchangeMethod (c \<lparr> pc_catalog := directory_menu fs D \<rparr>,
      ps_greet opt s \<lparr> ps_net := \<lparr> to_server = [], to_client = put_uint 2 ?m \<rparr> \<rparr>) = Some (greeted fs D (driven_mode opt) c, s)"
    unfolding client_part_def rcvPIRParamsExchangeMethod_def greeted_def by (simp add: keep)
  show ?thesis unfolding a bind.bind_lunit b ..
qed

text \<open>Client-driven.\<close>

lemma handshake_driven:
  fixes env opt c s P
  defines "db \<equiv> ps_db s"
  assumes D: "listed fs D" "db = directory_handler fs ch D" and mode: "driven_mode opt"
    and desc: "sb < 2 ^ 32" "k \<le> 13" "1 \<le> A" "A \<le> 57" "64 dvd 2 ^ k * A" and key: "8 * 2 ^ k \<le> 136 + length (env_beyond env)"
    and P: "wire_params P" "crypto_params P = lwe_descriptor sb k A" "length (pir_n (ps_params s)) = 10"
    and choice: "P = env_choice env (length (file_list D), db_getmaxFileBytesize db * 8 mod 2 ^ 64) (map (cost_file (env_costs env)) (env_names env))"
    and names: "\<forall>name \<in> set (env_names env). cost_request (env_costs env) name" "db_getmaxFileBytesize db < 2 ^ 64"
    and c: "pc_catalog c = DESC" and s: "ps_net s = idle" "\<not> handmadeExceptionRaised s"
  shows "\<exists>c' s'. handshake env opt (c, ps_greet opt s) = Some (c', s') \<and> agreed k A P (c', s') \<and>
    pc_catalog c' = directory_menu fs D \<and> pc_writer c' = pc_writer c \<and> ps_db s' = db \<and> ps_maxFileBytesize s' = ps_maxFileBytesize s"
proof -
  obtain L K where L: "load_crypto (env_invert env) (env_client_key env) (lwe_descriptor sb k A) = Done L" "lwe_setup L k A"
    "getSerializedParams L False = lwe_descriptor sb k A"
    "load_crypto (env_invert env) (env_server_key env) (lwe_descriptor sb k A) = Done (rekey K L)" "lwe_setup (rekey K L) k A"
    using load_same_key [OF desc(2-5), of "env_invert env" "env_client_key env" sb "env_server_key env"] by blast
  let ?c1 = "greeted fs D True c" and ?c2 = "(greeted fs D True c) \<lparr> pc_params := P \<rparr>" and ?c3 = "(greeted fs D True c) \<lparr> pc_params := P, pc_crypto := L \<rparr>"
  have greet: "Option.bind (client_part downloadCatalog (c, ps_greet opt s)) (\<lambda>st. Option.bind (client_part rcvPIRParamsExchangeMethod st) f) =
      f (?c1, s)" for f
    using greet_parts [OF D(1) c s(1), of ch opt f] D(2) mode by (simp add: db_def)
  have n: "db_getNbStream db = length (file_list D)" using D(2) by (simp add: directory_handler_def getNbStream_def)
  have small: "length (file_list D) < 2 ^ 64" using D(1) by (simp add: listed_def)
  have "optimizer_exchange (env_costs env) db (env_names env) idle =
      Some ((length (file_list D), db_getmaxFileBytesize db * 8 mod 2 ^ 64), map (cost_file (env_costs env)) (env_names env), idle)"
    using optimizer_exchange_in_step [OF names(1), of db] names(2) small n by simp
  then have opt: "optimize_part env (?c1, s) = Some (?c2, s)"
    using s(1) by (simp add: optimize_part_def greeted_def db_def choice)
  obtain key where key8: "length key = 8" and cp: "processCryptoParams env ?c2 idle =
      Some (?c3, pc_write (put_string 4 (lwe_descriptor sb k A) @ put_uint 4 8 @ key) idle)"
    using processCryptoParams_driven [OF L(1-3), of ?c2 idle] key P(2) by (auto simp: greeted_def)
  let ?w = "\<lparr> to_server = put_string 4 (lwe_descriptor sb k A) @ put_uint 4 8 @ key @ put_pir_params P, to_client = [] \<rparr>"
  have cp': "client_part (processCryptoParams env) (?c2, s) = Some (?c3, s \<lparr> ps_net := pc_write (put_string 4 (lwe_descriptor sb k A) @ put_uint 4 8 @ key) idle \<rparr>)"
    using cp s(1) by (simp add: client_part_def)
  have pp: "client_part processPIRParams (?c3, s \<lparr> ps_net := pc_write (put_string 4 (lwe_descriptor sb k A) @ put_uint 4 8 @ key) idle \<rparr>) =
      Some (?c3, s \<lparr> ps_net := ?w \<rparr>)"
    using P(1) by (simp add: client_part_def processPIRParams_def greeted_def wire_params_def pc_write_def idle_def)
  let ?Q = "closed (take_params P (ps_params s))"
  let ?s' = "s \<lparr> ps_net := idle, ps_crypto := Some (rekey K L), ps_params := ?Q, ps_unlocked := False,
      ps_generator := Some (setPirParams ?Q (setCryptoMethod (rekey K L) (PIRReplyGeneratorNFL (ps_params s) (ps_db s)))) \<rparr>"
  have sp: "server_part (ps_client_driven (env_invert env) (env_server_key env)) (?c3, s \<lparr> ps_net := ?w \<rparr>) = Some (?c3, ?s')"
    using ps_client_driven_done [OF L(4) desc(1,2,4) P(1), of "s \<lparr> ps_net := ?w \<rparr>" key] P(3) key8
    by (simp add: server_part_def idle_def)
  have run: "handshake env opt (c, ps_greet opt s) = Some (?c3, ?s')"
    unfolding handshake_def greet opt bind.bind_lunit if_P [OF mode] cp' pp sp ..
  have "same_layout P ?Q" by (intro same_layout_closed same_layout_take P(1,3))
  then have "agreed k A P (?c3, ?s')"
    using L(2,5) same_layout_refl [OF P(1)] s(2) by (auto simp: agreed_def new_generator intro!: exI [of _ K])
  then show ?thesis using run by (intro exI [of _ ?c3] exI [of _ ?s'] conjI) (simp_all add: greeted_def db_def)
qed

text \<open>Server-driven.\<close>

lemma handshake_server:
  fixes env opt c s
  defines "db \<equiv> ps_db s" and "P \<equiv> ps_params s"
  assumes D: "listed fs D" "db = directory_handler fs ch D" and mode: "\<not> driven_mode opt"
    and desc: "sb < 2 ^ 32" "k \<le> 13" "1 \<le> A" "A \<le> 57" "64 dvd 2 ^ k * A" and key: "8 * 2 ^ k \<le> 136 + length (env_beyond env)"
    and P: "wire_params P" "crypto_params P = lwe_descriptor sb k A" "length (pir_n (pc_params c)) = 10"
    and c: "pc_catalog c = DESC" and s: "ps_net s = idle" "\<not> handmadeExceptionRaised s"
  shows "\<exists>c' s'. handshake env opt (c, ps_greet opt s) = Some (c', s') \<and> agreed k A P (c', s') \<and>
    pc_catalog c' = directory_menu fs D \<and> pc_writer c' = pc_writer c \<and> ps_db s' = db \<and> ps_maxFileBytesize s' = ps_maxFileBytesize s"
proof -
  obtain L K where L: "load_crypto (env_invert env) (env_client_key env) (lwe_descriptor sb k A) = Done L" "lwe_setup L k A"
    "load_crypto (env_invert env) (env_server_key env) (lwe_descriptor sb k A) = Done (rekey K L)" "lwe_setup (rekey K L) k A"
    using load_same_key [OF desc(2-5), of "env_invert env" "env_client_key env" sb "env_server_key env"] by blast
  let ?d = "lwe_descriptor sb k A" and ?c1 = "greeted fs D False c"
  let ?c2 = "?c1 \<lparr> pc_params := (pc_params c) \<lparr> crypto_params := ?d \<rparr>, pc_crypto := L \<rparr>"
  let ?g = "setCryptoMethod (rekey K L) (PIRReplyGeneratorNFL P db)"
  let ?s1 = "s \<lparr> ps_crypto := Some (rekey K L), ps_generator := Some ?g, ps_unlocked := False \<rparr>"
  have greet: "Option.bind (client_part downloadCatalog (c, ps_greet opt s)) (\<lambda>st. Option.bind (client_part rcvPIRParamsExchangeMethod st) f) =
      f (?c1, s)" for f
    using greet_parts [OF D(1) c s(1), of ch opt f] D(2) mode by (simp add: db_def)
  have opt: "optimize_part env (?c1, s) = Some (?c1, s)" by (simp add: optimize_part_def greeted_def CLIENT_DRIVEN_def SERVER_DRIVEN_def)
  have off: "server_part (ps_offer (env_invert env) (env_server_key env)) (?c1, s) =
      Some (?c1, ?s1 \<lparr> ps_net := \<lparr> to_server = [], to_client = put_string 4 ?d \<rparr> \<rparr>)"
    using make_generator_done [OF L(3), of s] P(2) s(1)
    by (simp add: server_part_def ps_offer_def ps_sendCryptoParams_def ps_write_def P_def db_def idle_def)
  obtain key where key8: "length key = 8" and cp: "processCryptoParams env ?c1 \<lparr> to_server = [], to_client = put_string 4 ?d \<rparr> =
      Some (?c2, pc_write (put_uint 4 8 @ key) idle)"
    using processCryptoParams_server [OF L(1,2) _ desc(1,2,4), of ?c1 "\<lparr> to_server = [], to_client = put_string 4 ?d \<rparr>" "[]"] key
    by (auto simp: greeted_def idle_def)
  have cp': "client_part (processCryptoParams env) (?c1, ?s1 \<lparr> ps_net := \<lparr> to_server = [], to_client = put_string 4 ?d \<rparr> \<rparr>) =
      Some (?c2, ?s1 \<lparr> ps_net := pc_write (put_uint 4 8 @ key) idle \<rparr>)"
    using cp by (simp add: client_part_def)
  let ?s2 = "?s1 \<lparr> ps_net := pc_write (put_uint 4 8 @ key) idle \<rparr>"
  have "receive_key ?s2 = Done (?s1 \<lparr> ps_net := idle \<rparr>)"
    using receive_key_done [of ?s2 key "[]"] key8 by (simp add: pc_write_def idle_def)
  then have rk: "ps_rcvCryptoParams (\<lambda>_ _. 0) [] False ?s2 = Done (?s1 \<lparr> ps_net := idle \<rparr>)" by (simp add: ps_rcvCryptoParams_def)
  let ?s3 = "?s1 \<lparr> ps_net := \<lparr> to_server = [], to_client = put_pir_params P \<rparr>, ps_params := closed P, ps_generator := Some (setPirParams (closed P) ?g) \<rparr>"
  have "ps_sendPirParams (?s1 \<lparr> ps_net := idle \<rparr>) = Done ?s3"
    using close_params_done [of "?s1 \<lparr> ps_net := idle \<rparr>" ?g] P(1) by (simp add: P_def idle_def)
  then have sp: "server_part ps_server_driven (?c2, ?s2) = Some (?c2, ?s3)"
    unfolding server_part_def ps_server_driven_def Let_def split_conv rk by simp
  let ?c3 = "?c2 \<lparr> pc_params := take_params P ((pc_params c) \<lparr> crypto_params := ?d \<rparr>) \<rparr>" and ?s' = "?s3 \<lparr> ps_net := idle \<rparr>"
  have "pc_rcvPirParams ?c2 \<lparr> to_server = [], to_client = put_pir_params P \<rparr> = Some (?c3, idle)"
    using pc_rcvPirParams_some [OF P(1), of ?c2 "\<lparr> to_server = [], to_client = put_pir_params P \<rparr>" "[]"] P(3) by (simp add: idle_def)
  then have pp: "client_part processPIRParams (?c2, ?s3) = Some (?c3, ?s')"
    by (simp add: client_part_def processPIRParams_def greeted_def CLIENT_DRIVEN_def SERVER_DRIVEN_def)
  have run: "handshake env opt (c, ps_greet opt s) = Some (?c3, ?s')"
    unfolding handshake_def greet opt bind.bind_lunit if_not_P [OF mode] off cp' sp pp ..
  have "same_layout P (closed P)" by (intro same_layout_closed same_layout_refl P(1))
  moreover have "same_layout P (pc_params ?c3)" using same_layout_take [OF P(1), of "(pc_params c) \<lparr> crypto_params := ?d \<rparr>"] P(3) by simp
  ultimately have "agreed k A P (?c3, ?s')"
    using L(2,4) s(2) by (auto simp: agreed_def new_generator db_def intro!: exI [of _ K])
  then show ?thesis using run by (intro exI [of _ ?c3] exI [of _ ?s'] conjI) (simp_all add: greeted_def db_def)
qed

section \<open>From the query to the file\<close>

lemma layoutD:
  assumes "same_layout P Q" "pir_d P \<le> 10"
  shows "pir_d Q = pir_d P" "pir_alpha Q = pir_alpha P" "dims Q = dims P" "pir_d Q \<le> length (pir_n Q)"
    "product_from 0 Q = prod_list (dims P)" "map ((!) (pir_n Q)) [0..<pir_d P] = dims P"
    "\<And>j. j < pir_d P \<Longrightarrow> pir_n Q ! j = pir_n P ! j"
proof -
  show e: "pir_d Q = pir_d P" "pir_alpha Q = pir_alpha P" "dims Q = dims P" "pir_d Q \<le> length (pir_n Q)" using assms by (simp_all add: same_layout_def)
  show "map ((!) (pir_n Q)) [0..<pir_d P] = dims P" using dims_map [OF e(4)] e by simp
  show "pir_n Q ! j = pir_n P ! j" if "j < pir_d P" for j using dims_nth [of j Q] dims_nth [of j P] that e by simp
  show "product_from 0 Q = prod_list (dims P)" using \<open>map ((!) (pir_n Q)) [0..<pir_d P] = dims P\<close> product_from_prod [of Q] e by simp
qed

context database
begin

lemma answers_client:
  fixes c :: pir_client and s :: pir_session and P env opt x k A nb
  defines "M \<equiv> db_getmaxFileBytesize db" and "alpha \<equiv> pir_alpha P" and "d \<equiv> pir_d P" and "L \<equiv> pc_crypto c"
  defines "N \<equiv> level_polys k A (element_polys k A (alpha * M))"
  assumes ag: "agreed k A P (c, s)" and s: "ps_db s = db" "ps_maxFileBytesize s = M" and opt: "\<not> got_preimported_database opt"
    and P: "0 < d" "d < 10" "\<forall>n \<in> set (dims P). 0 < n \<and> n \<le> 5"
    and dbs: "db_getNbStream db = nb * alpha" "0 < nb" "nb \<le> prod_list (dims P)"
    and sz: "8 \<le> alpha * M" "alpha * M < 2 ^ 24"
    and big: "alpha = 1 \<and> d = 1 \<Longrightarrow> 8 * db_getNbStream db * (M + block_bytes k A) \<le> env_memory env"
    and room: "sum_list (dims P) \<le> env_room env"
  shows "\<exists>s' r. Option.bind (client_part (\<lambda>c k. map_option (\<lambda>k. (c \<lparr> pc_chosen := x \<rparr>, k)) (pc_startProcessQuery env (c \<lparr> pc_chosen := x \<rparr>) k)) (c, s))
      (server_part (ps_answer (env_memory env) opt)) = Some (c \<lparr> pc_chosen := x \<rparr>, s') \<and>
    ps_net s' = \<lparr> to_server = [], to_client = concat (map cipher_bytes r) \<rparr> \<and> ps_finished s' \<and>
    length r = N (d - 1) \<and> (\<forall>c \<in> set r. cipher_shape L c) \<and>
    client_proper (\<lambda>i. lwe_proper L k A (N i)) (\<lambda>i. read_reply L k A) (\<lambda>i. parse_reply L k (N i)) 0 (d - 1) r \<and>
    client_levels (\<lambda>i. read_reply L k A) (\<lambda>i. parse_reply L k (N i)) 0 (d - 1) r =
      element_bytes (N 0 * block_bytes k A) (group_bytes content alpha 0 M) nb (x mod prod_list (dims P))"
proof -
  let ?ns = "dims P" and ?cs = "coordinates (dims P) x"
  have u: "lwe_setup L k A" and net: "ps_net s = idle" "\<not> handmadeExceptionRaised s" "\<not> ps_unlocked s"
    and lay: "same_layout P (pc_params c)" "same_layout P (ps_params s)" using ag by (simp_all add: agreed_def L_def)
  obtain K g where us: "lwe_setup (rekey K L) k A" and g: "ps_crypto s = Some (rekey K L)" "ps_generator s = Some g" "rg_crypto g = rekey K L" "rg_params g = ps_params s"
    "rg_db g = db" "repliesArray g = None" using ag s(1) by (auto simp: agreed_def L_def)
  have ten: "pir_d P \<le> 10" using P(2) by (simp add: d_def)
  note lc = layoutD [OF lay(1) ten] and ls = layoutD [OF lay(2) ten]
  have len: "length ?ns = d" using ls(1,3,4) length_dims [of "ps_params s"] by (simp add: d_def)
  have pos: "\<forall>n \<in> set ?ns. 0 < n" using P(3) by blast
  let ?e = "query_cipher L (env_query env) ?cs" and ?c = "c \<lparr> pc_chosen := x \<rparr>"
  let ?w = "query_wire L (env_query env) ?ns ?cs"
  have query: "pc_startProcessQuery env ?c idle = Some \<lparr> to_server = ?w, to_client = [] \<rparr>"
    using pc_startProcessQuery_some [of ?c k A env idle] u lc pos room by (simp add: L_def pc_write_def idle_def)
  let ?s1 = "s \<lparr> ps_net := \<lparr> to_server = ?w, to_client = [] \<rparr> \<rparr>"
  let ?buf = "query_rows (rekey K L) ?e ?ns"
  let ?s2 = "s \<lparr> ps_net := idle, ps_generator := Some (g \<lparr> queriesBuf := Some ?buf \<rparr>), ps_unlocked := True \<rparr>"
  have shape: "\<forall>j i. cipher_shape (rekey K L) (?e j i)"
    using query_cipher_shape [OF u, of "env_query env" ?cs] by (simp add: cipher_shape_def)
  have down: "ps_downloadWorker ?s1 = Done ?s2"
    using ps_downloadWorker_done [OF us, of ?s1 g ?e "[]"] g ls shape len by (simp add: query_wire_def d_def idle_def)
  let ?gc = "g \<lparr> rg_crypto := L, queriesBuf := Some (query_rows L ?e ?ns) \<rparr>"
  have gc: "g \<lparr> queriesBuf := Some ?buf \<rparr> = rekeyed K ?gc"
    using g(3) by (simp add: rekeyed_def query_rows_def query_pair_def)
  have loaded: "query_loaded ?gc k A ?cs"
    by (rule query_rows_loaded [where c = ?e and rb = "\<lambda>j i. fst (env_query env j i)" and ra = "\<lambda>j i. snd (env_query env j i)"])
      (use u g ls P(3) pos len coordinates_less [OF pos] in \<open>simp_all add: query_cipher_def d_def\<close>)
  have mi: "mixed_index (map ((!) (pir_n (ps_params s))) [0..<d]) ?cs = x mod prod_list ?ns"
    using mixed_index_coordinates [OF pos] ls(6) by (simp add: d_def)
  obtain s' r where ans: "ps_startProcessResult (env_memory env) opt ?s2 = Done s'"
    "ps_net s' = \<lparr> to_server = [], to_client = concat (map cipher_bytes r) \<rparr>" "length r = N (d - 1)" "\<forall>c \<in> set r. cipher_shape L c"
    "client_proper (\<lambda>i. lwe_proper L k A (N i)) (\<lambda>i. read_reply L k A) (\<lambda>i. parse_reply L k (N i)) 0 (d - 1) r"
    "client_levels (\<lambda>i. read_reply L k A) (\<lambda>i. parse_reply L k (N i)) 0 (d - 1) r =
      element_bytes (N 0 * block_bytes k A) (group_bytes content alpha 0 M) nb (x mod prod_list ?ns)"
    using server_answers [of ?gc k A ?s2 K opt ?cs nb "env_memory env"] u g s opt gc loaded dbs P(1) sz big ls mi net(1)
    by (auto simp: M_def alpha_def d_def N_def idle_def)
  have "ps_answer (env_memory env) opt ?s1 = Done (s' \<lparr> ps_finished := True \<rparr>)"
    using net(2) down ans(1) by (simp add: ps_answer_def)
  then have "Option.bind (client_part (\<lambda>c k. map_option (\<lambda>k. (c \<lparr> pc_chosen := x \<rparr>, k)) (pc_startProcessQuery env (c \<lparr> pc_chosen := x \<rparr>) k)) (c, s))
      (server_part (ps_answer (env_memory env) opt)) = Some (?c, s' \<lparr> ps_finished := True \<rparr>)"
    using query net(1) by (simp add: client_part_def server_part_def)
  then show ?thesis using ans(2-6) by (intro exI [of _ "s' \<lparr> ps_finished := True \<rparr>"] exI [of _ r] conjI) simp_all
qed

end

section \<open>The whole session\<close>

text \<open>One file of an aggregate.\<close>

lemma concat_nth_block:
  assumes "\<forall>i < n. length (f i) = m" "t < n" "z \<le> m"
  shows "take z (drop (t * m) (concat (map f [0..<n]) @ later)) = take z (f t)"
proof -
  have split: "[0..<n] = [0..<t] @ t # [Suc t..<n]"
    using assms(2) upt_add_eq_append [of 0 t "n - t"] by (simp add: upt_conv_Cons)
  have "length (concat (map f [0..<t])) = t * m"
    using length_concat_const [of "map f [0..<t]" m] assms(1,2) by auto
  then show ?thesis unfolding split using assms by simp
qed

context database
begin

lemma aggregate_file:
  assumes "t < alpha" "z \<le> db_getmaxFileBytesize db" "v < nb"
  shows "take z (drop (t * db_getmaxFileBytesize db) (element_bytes n (group_bytes content alpha 0 (db_getmaxFileBytesize db)) nb v)) =
    take z (content (v * alpha + t))"
proof -
  let ?M = "db_getmaxFileBytesize db"
  have "group_bytes content alpha 0 ?M v = concat (map (\<lambda>i. content (v * alpha + i)) [0..<alpha])"
    by (simp add: group_bytes_def length_content)
  moreover have "take z (drop (t * ?M) (concat (map (\<lambda>i. content (v * alpha + i)) [0..<alpha]) @ later)) = take z (content (v * alpha + t))" for later
    by (rule concat_nth_block) (use assms length_content in simp_all)
  ultimately show ?thesis using assms(3) unfolding element_bytes_def pad_to_def by (simp only: if_True)
qed

end

text \<open>
  What a session needs: a directory that is sent with its names and has not changed since it was read,
  a cryptosystem the library is correct for, and dimensions that hold the database.
\<close>

definition served :: "(string \<Rightarrow> u8 list) \<Rightarrow> directory_processor \<Rightarrow> bool" where
  "served fs D \<longleftrightarrow> listed fs D \<and> [] \<notin> set (file_list D) \<and> \<not> filesSplitting D \<and>
     fold max (map (file_size fs D) (file_list D)) 0 = maxFileBytesize D"

definition usable :: "environment \<Rightarrow> nat \<Rightarrow> nat \<Rightarrow> nat \<Rightarrow> nat \<Rightarrow> nat \<Rightarrow> pir_parameters \<Rightarrow> bool" where
  "usable env sb k A n M P \<longleftrightarrow>
     sb < 2 ^ 32 \<and> k \<le> 13 \<and> 1 \<le> A \<and> A \<le> 57 \<and> 64 dvd 2 ^ k * A \<and> 8 * 2 ^ k \<le> 136 + length (env_beyond env) \<and>
     wire_params P \<and> crypto_params P = lwe_descriptor sb k A \<and> (\<forall>m \<in> set (dims P). 0 < m \<and> m \<le> 5) \<and>
     pir_alpha P dvd n \<and> n \<le> pir_alpha P * prod_list (dims P) \<and> 8 \<le> pir_alpha P * M \<and> pir_alpha P * M < 2 ^ 24 \<and>
     (\<forall>l < pir_d P. level_polys k A (element_polys k A (pir_alpha P * M)) l < 2 ^ 17) \<and> 2 ^ 17 \<le> env_room env \<and>
     sum_list (dims P) \<le> env_room env \<and> (pir_alpha P = 1 \<and> pir_d P = 1 \<longrightarrow> 8 * n * (M + block_bytes k A) \<le> env_memory env)"

text \<open>In client-driven mode the optimizer has chosen the parameters, in server-driven mode they are the server's.\<close>

definition chosen_by_mode :: "environment \<Rightarrow> session_option \<Rightarrow> nat \<Rightarrow> nat \<Rightarrow> pir_parameters \<Rightarrow> pir_parameters \<Rightarrow> bool" where
  "chosen_by_mode env opt n M PS P \<longleftrightarrow>
     (if driven_mode opt
      then P = env_choice env (n, M * 8 mod 2 ^ 64) (map (cost_file (env_costs env)) (env_names env)) \<and>
        (\<forall>name \<in> set (env_names env). cost_request (env_costs env) name) \<and> M < 2 ^ 64
      else P = PS)"

lemma start_of_session:
  "rcvIsClient ((PIRSession db PS (pc_connect idle)) \<lparr> ps_maxFileBytesize := m \<rparr>) = Some (True, (PIRSession db PS idle) \<lparr> ps_maxFileBytesize := m \<rparr>)"
proof -
  have "read_uint 4 (put_uint 4 1) = Some (1, [])" by (rule uint.reads_exactly) simp
  then show ?thesis by (simp add: rcvIsClient_def PIRSession_def pc_connect_def pc_write_def idle_def)
qed

lemma network_session_unfold:
  "network_session env opt resist autochoice choice db PS PC disk =
    Option.bind (handshake env opt (PIRClient PC False (env_room env), ps_greet opt ((PIRSession db PS idle) \<lparr> ps_maxFileBytesize := db_getmaxFileBytesize db \<rparr>)))
      (retrieval env opt resist autochoice choice disk)"
  unfolding network_session_def Let_def start_of_session by simp

lemma handshake_both:
  assumes D: "served fs D" "db = directory_handler fs ch D" and P: "usable env sb k A (length (file_list D)) (maxFileBytesize D) P"
    and mode: "chosen_by_mode env opt (length (file_list D)) (maxFileBytesize D) PS P" and ten: "length (pir_n PS) = 10" "length (pir_n PC) = 10"
  shows "\<exists>c s. handshake env opt (PIRClient PC False room, ps_greet opt ((PIRSession db PS idle) \<lparr> ps_maxFileBytesize := m \<rparr>)) = Some (c, s) \<and>
    agreed k A P (c, s) \<and> pc_catalog c = directory_menu fs D \<and> pc_writer c = pc_writer (PIRClient PC False room) \<and> ps_db s = db \<and>
    ps_maxFileBytesize s = m"
proof -
  let ?c = "PIRClient PC False room" and ?s = "(PIRSession db PS idle) \<lparr> ps_maxFileBytesize := m \<rparr>"
  have c: "pc_catalog ?c = DESC" "pc_params ?c = PC" by (simp_all add: PIRClient_def)
  have s: "ps_net ?s = idle" "\<not> handmadeExceptionRaised ?s" "ps_db ?s = db" "ps_params ?s = PS" "ps_maxFileBytesize ?s = m"
    by (simp_all add: PIRSession_def)
  have M: "db_getmaxFileBytesize db = maxFileBytesize D" using D(2) by (simp add: directory_handler_def getmaxFileBytesize_def)
  show ?thesis
  proof (cases "driven_mode opt")
    case True
    then show ?thesis
      using handshake_driven [of fs D ?s ch opt sb k A env P ?c] D P mode ten c s M by (auto simp: served_def usable_def chosen_by_mode_def)
  next
    case False
    then show ?thesis
      using handshake_server [of fs D ?s ch opt sb k A env ?c] D P mode ten c s by (auto simp: served_def usable_def chosen_by_mode_def)
  qed
qed

lemma fold_max_ge:
  fixes m :: nat
  shows "y \<in> set ys \<or> y \<le> m \<Longrightarrow> y \<le> fold max ys m"
proof (induction ys arbitrary: m)
  case (Cons a ys)
  have "y \<in> set ys \<or> y \<le> max a m" using Cons.prems by (simp only: list.set insert_iff le_max_iff_disj) blast
  then show ?case using Cons.IH [of "max a m"] by simp
qed simp

lemma file_size_bounded:
  assumes "f \<in> set (file_list D)"
  shows "file_size fs D f \<le> fold max (map (file_size fs D) (file_list D)) 0"
  by (rule fold_max_ge) (use assms in simp)

text \<open>The file that a session writes, whatever the aggregation is.\<close>

lemma session_writes:
  fixes fs avail env opt D P k A choice autochoice
  defines "db \<equiv> directory_handler fs (\<lambda>r. Suc (avail r)) D" and "n \<equiv> length (file_list D)" and "M \<equiv> maxFileBytesize D"
    and "alpha \<equiv> pir_alpha P" and "x \<equiv> if autochoice then 0 else choice"
  defines "v \<equiv> x mod prod_list (dims P)" and "path \<equiv> ''reception/'' @ file_list D ! x"
  assumes D: "served fs D" and P: "usable env sb k A n M P" and mode: "chosen_by_mode env opt n M PS P"
    and ten: "length (pir_n PS) = 10" "length (pir_n PC) = 10" and opt: "\<not> got_preimported_database opt"
    and x: "x < n" "v < n div alpha" and disk: "fs_writable disk path"
  shows "\<exists>c s. network_session env opt False autochoice choice db PS PC disk = Some (c, s, disk \<lparr> fs_files := (fs_files disk)(path \<mapsto>
      take (file_size fs D (file_list D ! x)) (directory_content fs D (v * alpha + x mod alpha))) \<rparr>) \<and> ps_finished s \<and> ps_net s = idle"
proof -
  let ?room = "env_room env" and ?N = "level_polys k A (element_polys k A (alpha * M))" and ?z = "file_size fs D (file_list D ! x)"
  have M: "db_getmaxFileBytesize db = M" "db_getNbStream db = n"
    by (simp_all add: db_def M_def n_def directory_handler_def getmaxFileBytesize_def getNbStream_def)
  have P': "0 < pir_d P" "pir_d P < 10" "\<forall>n \<in> set (dims P). 0 < n \<and> n \<le> 5" "alpha dvd n" "n \<le> alpha * prod_list (dims P)"
    "8 \<le> alpha * M" "alpha * M < 2 ^ 24" "\<forall>l < pir_d P. ?N l < 2 ^ 17" "2 ^ 17 \<le> ?room" "sum_list (dims P) \<le> ?room"
    "alpha = 1 \<and> pir_d P = 1 \<Longrightarrow> 8 * n * (M + block_bytes k A) \<le> env_memory env"
    using P by (auto simp: usable_def wire_params_def alpha_def)
  have al: "0 < alpha" "0 < M" using P'(6) by (auto intro: Nat.gr0I)
  have groups: "n = (n div alpha) * alpha" using P'(4) by simp
  then have "(n div alpha) * alpha \<le> prod_list (dims P) * alpha" using P'(5) by (simp add: mult.commute)
  then have nb: "n div alpha \<le> prod_list (dims P)" "0 < n div alpha" using al(1) x(2) by simp_all
  obtain c s where hs: "handshake env opt (PIRClient PC False ?room, ps_greet opt ((PIRSession db PS idle) \<lparr> ps_maxFileBytesize := db_getmaxFileBytesize db \<rparr>)) = Some (c, s)"
    "agreed k A P (c, s)" "pc_catalog c = directory_menu fs D" "pc_writer c = pc_writer (PIRClient PC False ?room)" "ps_db s = db" "ps_maxFileBytesize s = M"
    using handshake_both [where db = db and ch = "\<lambda>r. Suc (avail r)" and room = ?room and m = "db_getmaxFileBytesize db",
        OF D db_def [THEN meta_eq_to_obj_eq] P [unfolded n_def M_def] mode [unfolded n_def M_def] ten] M(1) by blast
  let ?c = "c \<lparr> pc_chosen := x \<rparr>"
  have lay: "same_layout P (pc_params c)" and u: "lwe_setup (pc_crypto c) k A" using hs(2) by (simp_all add: agreed_def)
  note lc = layoutD [OF lay]
  have pc: "pir_d (pc_params c) = pir_d P" "pir_alpha (pc_params c) = alpha" using lc(1,2) P'(2) by (simp_all add: alpha_def)
  obtain s' r where r: "Option.bind (client_part (\<lambda>c k. map_option (\<lambda>k. (c \<lparr> pc_chosen := x \<rparr>, k)) (pc_startProcessQuery env (c \<lparr> pc_chosen := x \<rparr>) k)) (c, s))
      (server_part (ps_answer (env_memory env) opt)) = Some (?c, s')"
    "ps_net s' = \<lparr> to_server = [], to_client = concat (map cipher_bytes r) \<rparr>" "ps_finished s'"
    "length r = ?N (pir_d P - 1)" "\<forall>c' \<in> set r. cipher_shape (pc_crypto c) c'"
    "client_proper (\<lambda>i. lwe_proper (pc_crypto c) k A (?N i)) (\<lambda>i. read_reply (pc_crypto c) k A) (\<lambda>i. parse_reply (pc_crypto c) k (?N i)) 0 (pir_d P - 1) r"
    "client_levels (\<lambda>i. read_reply (pc_crypto c) k A) (\<lambda>i. parse_reply (pc_crypto c) k (?N i)) 0 (pir_d P - 1) r =
      element_bytes (?N 0 * block_bytes k A) (group_bytes (directory_content fs D) alpha 0 M) (n div alpha) v"
    using directory.answers_client [OF hs(2), of fs avail D opt "n div alpha" env x] hs(5,6) opt P' nb groups M
    by (auto simp: db_def alpha_def v_def)
  have name_in: "file_list D ! x \<in> set (file_list D)" using x(1) by (simp add: n_def)
  have "[] \<notin> set (file_list D)" using D by (simp add: served_def)
  then have names: "file_list D ! x \<in> set (file_list D)" "file_list D ! x \<noteq> []" using name_in by (blast, metis)
  have z: "?z \<le> M" "?z < 2 ^ 31" using file_size_bounded [OF names(1), of fs] D names(1) by (auto simp: served_def listed_def M_def)
  have cat: "desc_getFileName x (directory_menu fs D) = file_list D ! x" "unat (desc_getFileSize x (directory_menu fs D)) = ?z"
    "unat (getMaxFileSize (directory_menu fs D)) = M"
    using directory_menu_simps [of x D fs] x(1) z(2) directory_menu_max [of fs D] D
    by (simp_all add: n_def served_def M_def unat_of_nat take_bit_nat_eq_self)
  have w: "\<not> dontWrite (pc_writer c)" "rw_chunks (pc_writer c) = shared_queue_new ?room" "path_of (pc_writer c) x (directory_menu fs D) = path"
    using hs(4) cat(1) by (simp_all add: PIRClient_def PIRReplyWriter_def setdontWrite_def path_of_def kDefaultFolder_def path_def)
  have "?N 0 < 2 ^ 17" "?N (pir_d P - 1) < 2 ^ 17" using P'(1,8) by (blast, simp)
  then have room: "?N 0 \<le> ?room" "?N (pir_d P - 1) \<le> ?room" using P'(9) by linarith+
  obtain w' where "pc_startProcessResult env False ?c (ps_net s') disk = Some (?c \<lparr> pc_writer := w' \<rparr>, (ps_net s') \<lparr> to_client := [] \<rparr>,
      disk \<lparr> fs_files := (fs_files disk)(path \<mapsto> take ?z (drop (x mod alpha * M)
        (element_bytes (?N 0 * block_bytes k A) (group_bytes (directory_content fs D) alpha 0 M) (n div alpha) v))) \<rparr>)"
    using pc_startProcessResult_some [of ?c k A env disk r "ps_net s'" "[]"] u P' al room w cat z names(2) r(2,4-7) disk pc hs(3)
    by auto
  moreover have "take ?z (drop (x mod alpha * M) (element_bytes (?N 0 * block_bytes k A) (group_bytes (directory_content fs D) alpha 0 M) (n div alpha) v)) =
      take ?z (directory_content fs D (v * alpha + x mod alpha))"
    using directory.aggregate_file [of "x mod alpha" alpha ?z fs avail D v "n div alpha"] al(1) x(2) z(1) M(1) by (simp add: db_def)
  ultimately have "retrieval env opt False autochoice choice disk (c, s) = Some (?c \<lparr> pc_writer := w' \<rparr>, s' \<lparr> ps_net := idle \<rparr>,
      disk \<lparr> fs_files := (fs_files disk)(path \<mapsto> take ?z (directory_content fs D (v * alpha + x mod alpha))) \<rparr>)"
    unfolding retrieval_def chooseFile_def x_def [symmetric] using r(1,2)
    by (cases "client_part (\<lambda>c k. map_option (\<lambda>k. (c \<lparr> pc_chosen := x \<rparr>, k)) (pc_startProcessQuery env (c \<lparr> pc_chosen := x \<rparr>) k)) (c, s)")
      (simp_all add: idle_def)
  then show ?thesis unfolding network_session_unfold hs(1) using r(3) by simp
qed

section \<open>A client that leaves\<close>

text \<open>The query elements that are still to come, all of the same size.\<close>

lemma outcome_each_concat: "outcome_each (\<lambda>j. outcome_each (f j) (g j)) js s = outcome_each (\<lambda>(j, i). f j i) (concat (map (\<lambda>j. map (Pair j) (g j)) js)) s"
proof (induction js arbitrary: s)
  case (Cons j js)
  have "outcome_each (f j) xs s = outcome_each (\<lambda>(j, i). f j i) (map (Pair j) xs) s" for xs s
  proof (induction xs arbitrary: s)
    case (Cons x xs)
    then have "outcome_each (f j) xs = outcome_each (\<lambda>(j, i). f j i) (map (Pair j) xs)" by auto
    then show ?case by simp
  qed simp
  moreover have "outcome_each (\<lambda>j. outcome_each (f j) (g j)) js = outcome_each (\<lambda>(j, i). f j i) (concat (map (\<lambda>j. map (Pair j) (g j)) js))"
    using Cons.IH by auto
  ultimately show ?case by (simp add: outcome_each_append)
qed simp

text \<open>The places of a query that the server has room for.\<close>

definition receiving :: "nat \<Rightarrow> lwe \<Rightarrow> (nat \<times> nat) list \<Rightarrow> pir_session \<Rightarrow> bool" where
  "receiving k L places s \<longleftrightarrow> ps_crypto s = Some L \<and> (\<exists>g buf. ps_generator s = Some g \<and> rg_crypto g = L \<and> queriesBuf g = Some buf \<and>
     (\<forall>(j, i) \<in> set places. j < length buf \<and> i < length (buf ! j)))"

lemma receive_element_short:
  assumes u: "lwe_setup L k A" and r: "receiving k L ((j, i) # places) s"
  shows "(if length (to_server (ps_net s)) < 16 * 2 ^ k then \<exists>s'. receive_element j i s = Thrown s' \<and> ps_unlocked s' = ps_unlocked s \<and> ps_generator s' = ps_generator s
    else \<exists>s'. receive_element j i s = Done s' \<and> receiving k L places s' \<and> ps_unlocked s' = ps_unlocked s \<and>
      length (to_server (ps_net s')) = length (to_server (ps_net s)) - 16 * 2 ^ k)"
proof -
  obtain g buf where g: "ps_crypto s = Some L" "ps_generator s = Some g" "rg_crypto g = L" "queriesBuf g = Some buf"
    "j < length buf" "i < length (buf ! j)" "\<forall>(j, i) \<in> set places. j < length buf \<and> i < length (buf ! j)"
    using r by (auto simp: receiving_def)
  let ?n = "16 * 2 ^ k"
  have n: "getQuerySizeFromRecLvl L (Suc j) div 8 = ?n" using query_bits [OF u, of "Suc j"] by (simp add: kBitsPerByte_def)
  show ?thesis
  proof (cases "length (to_server (ps_net s)) < ?n")
    case True
    then have "read_bytes ?n (to_server (ps_net s)) = None" by (simp add: read_bytes_def)
    then show ?thesis using True g(1,2) by (simp add: receive_element_def n ps_read_def)
  next
    case False
    let ?bs = "take ?n (to_server (ps_net s))"
    have read: "read_bytes ?n (to_server (ps_net s)) = Some (?bs, drop ?n (to_server (ps_net s)))" using False by (simp add: read_bytes_def)
    have "length ?bs = ?n" using False by simp
    then obtain c where c: "chartocipher L ?bs = Some c" using lwe_setupD(12) [OF u] by (auto simp: chartocipher_def Let_def)
    let ?buf = "buf[j := (buf ! j)[i := Some (query_pair L c)]]"
    have p: "pushQuery_at ?bs j i g = Some (g \<lparr> queriesBuf := Some ?buf \<rparr>)" using g c by (simp add: pushQuery_at_def query_pair_def)
    let ?s' = "s \<lparr> ps_net := (ps_net s) \<lparr> to_server := drop ?n (to_server (ps_net s)) \<rparr>, ps_generator := Some (g \<lparr> queriesBuf := Some ?buf \<rparr>) \<rparr>"
    have "receive_element j i s = Done ?s'" using g(1,2) read p by (simp add: receive_element_def n ps_read_def)
    moreover have "\<forall>(j', i') \<in> set places. j' < length ?buf \<and> i' < length (?buf ! j')"
    proof (intro ballI, clarify)
      fix a b assume "(a, b) \<in> set places"
      then have "a < length buf" "b < length (buf ! a)" using g(7) by auto
      then show "a < length ?buf \<and> b < length (?buf ! a)" by (cases "a = j") simp_all
    qed
    then have "receiving k L places ?s'" using g(1,3) by (simp add: receiving_def)
    ultimately show ?thesis using False by simp
  qed
qed

lemma receive_short:
  assumes u: "lwe_setup L k A"
  shows "receiving k L places s \<Longrightarrow> length (to_server (ps_net s)) < 16 * 2 ^ k * length places \<Longrightarrow>
    \<exists>s'. outcome_each (\<lambda>(j, i). receive_element j i) places s = Thrown s' \<and> ps_unlocked s' = ps_unlocked s \<and> ps_generator s' \<noteq> None"
proof (induction places arbitrary: s)
  case (Cons p places)
  obtain j i where p: "p = (j, i)" by (cases p)
  have gen: "ps_generator s \<noteq> None" using Cons.prems(1) by (auto simp: receiving_def)
  show ?case
  proof (cases "length (to_server (ps_net s)) < 16 * 2 ^ k")
    case True
    then show ?thesis using receive_element_short [OF u Cons.prems(1) [unfolded p]] gen by (auto simp: p)
  next
    case False
    then obtain s' where s': "receive_element j i s = Done s'" "receiving k L places s'" "ps_unlocked s' = ps_unlocked s"
      "length (to_server (ps_net s')) = length (to_server (ps_net s)) - 16 * 2 ^ k"
      using receive_element_short [OF u Cons.prems(1) [unfolded p]] by auto
    have "length (to_server (ps_net s')) < 16 * 2 ^ k * length places" using s'(4) False Cons.prems(2) by simp
    from Cons.IH [OF s'(2) this] show ?thesis using s'(1,3) by (simp add: p)
  qed
qed simp

lemma length_places: "length (concat (map (\<lambda>j. map (Pair j) [0..<f j]) js)) = sum_list (map f js)"
  by (induction js) simp_all

lemma downloadWorker_short:
  assumes u: "lwe_setup L k A" and g: "ps_crypto s = Some L" "ps_generator s = Some g" "rg_crypto g = L" "rg_params g = ps_params s"
    and d: "pir_d (ps_params s) \<le> length (pir_n (ps_params s))" and short: "length (to_server (ps_net s)) < 16 * 2 ^ k * sum_list (dims (ps_params s))"
  shows "\<exists>s'. ps_downloadWorker s = Done s' \<and> ps_unlocked s' = ps_unlocked s \<and> ps_generator s' \<noteq> None"
proof -
  let ?P = "ps_params s" and ?s = "s \<lparr> ps_generator := Some (initQueriesBuffer g) \<rparr>"
  let ?places = "concat (map (\<lambda>j. map (Pair j) [0..<pir_n ?P ! j]) [0..<pir_d ?P])"
  have "receiving k L ?places ?s" using g by (auto simp: receiving_def initQueriesBuffer_def)
  moreover have "length ?places = sum_list (dims ?P)" unfolding length_places dims_map [OF d] ..
  ultimately obtain s' where s': "outcome_each (\<lambda>(j, i). receive_element j i) ?places ?s = Thrown s'" "ps_unlocked s' = ps_unlocked ?s" "ps_generator s' \<noteq> None"
    using receive_short [OF u, of ?places ?s] short by auto
  have "outcome_each (\<lambda>j. outcome_each (receive_element j) [0..<pir_n ?P ! j]) [0..<pir_d ?P] ?s = Thrown s'"
    unfolding outcome_each_concat s'(1) ..
  then show ?thesis using g(2) s'(2,3) by (simp add: ps_downloadWorker_def exitWithErrorMessage_def)
qed

section \<open>Properties\<close>

text \<open>
  C3: The exchange of the parameters, in the client-driven and in the server-driven mode, ends with
  nothing left on the way: the client has the catalog of the directory, both sides have the same
  dimensions and aggregation (those of the optimizer or those of the server), and the server has a
  generator for the client's cryptosystem, with a key of its own, and is not yet allowed to answer.
\<close>
theorem handshake_agrees:
  assumes "served fs D" "usable env sb k A (length (file_list D)) (maxFileBytesize D) P"
    and "chosen_by_mode env opt (length (file_list D)) (maxFileBytesize D) PS P" "length (pir_n PS) = 10" "length (pir_n PC) = 10"
  shows "\<exists>c s. handshake env opt (PIRClient PC False room, ps_greet opt (PIRSession (directory_handler fs avail D) PS idle)) = Some (c, s) \<and>
    agreed k A P (c, s) \<and> getFilesNum (pc_catalog c) = length (file_list D) \<and>
    (\<forall>i < length (file_list D). desc_getFileName i (pc_catalog c) = file_list D ! i)"
proof -
  obtain c s where "handshake env opt (PIRClient PC False room, ps_greet opt (PIRSession (directory_handler fs avail D) PS idle)) = Some (c, s)"
    "agreed k A P (c, s)" "pc_catalog c = directory_menu fs D"
    using handshake_both [where ch = avail and room = room and m = 0, OF assms(1) refl assms(2-5)] by (auto simp: PIRSession_def)
  moreover have "0 < length (file_list D)" using assms(1) by (simp add: served_def listed_def)
  ultimately show ?thesis using directory_menu_simps(1) directory_menu_simps(3) [of 0 D fs] by auto
qed




section \<open>A session of four files\<close>

definition example_net_params :: "nat \<Rightarrow> nat list \<Rightarrow> pir_parameters" where
  "example_net_params alpha ns = \<lparr> pir_alpha = alpha, pir_d = length ns, pir_n = ns @ replicate (10 - length ns) 0, crypto_params = lwe_descriptor 80 4 20 \<rparr>"

definition example_env :: "pir_parameters \<Rightarrow> environment" where
  "example_env P = \<lparr> env_invert = euclid_invert, env_server_key = [3], env_client_key = [4], env_query = (\<lambda>j i. ([5], [7])), env_memory = 0,
     env_beyond = [], env_room = 2 ^ 17, env_costs = (\<lambda>_. Some ''1''), env_names = [''LWE''], env_choice = (\<lambda>_ _. P) \<rparr>"

definition example_options :: "bool \<Rightarrow> session_option" where
  "example_options driven = \<lparr> driven_mode = driven, keep_database = False, got_preimported_database = False, so_data = empty_database \<rparr>"

lemma example_served: "served example_session_fs example_session_dir"
proof -
  have "map (file_size example_session_fs example_session_dir) (file_list example_session_dir) = [3, 9, 1, 2]"
    unfolding example_session_dir by code_simp
  moreover have "\<not> filesSplitting example_session_dir" by code_simp
  ultimately show ?thesis
    by (simp add: served_def listed_def example_session_dir line_name_def FILENAME_MAX_BYTE_SIZE_def)
qed

lemma example_dir_size: "length (file_list example_session_dir) = 4"
  by (simp add: example_session_dir)

lemma example_usable:
  assumes "(alpha, ns) \<in> {(1, [2, 2]), (2, [2])}"
  shows "usable (example_env (example_net_params alpha ns)) 80 4 20 (length (file_list example_session_dir)) (maxFileBytesize example_session_dir)
    (example_net_params alpha ns)"
proof -
  have "element_polys 4 20 9 = 1" "element_polys 4 20 18 = 1" "poly_number 2048 1 20 16 < 2 ^ 17"
    by (simp_all add: element_polys_def poly_number_def ceil_div_def)
  then show ?thesis
    using assms unfolding example_dir_size example_session_dir(2)
    by (auto simp: usable_def example_env_def example_net_params_def wire_params_def dims_def less_Suc_eq)
qed

lemma example_mode: "chosen_by_mode (example_env P) (example_options driven) n 9 P P"
  by (simp add: chosen_by_mode_def example_env_def example_options_def cost_request_def cost_file_def readEntireFile_def)

theorem handshake_agrees_witness:
  "\<exists>c s. handshake (example_env (example_net_params 1 [2, 2])) (example_options True)
      (PIRClient (example_net_params 1 [2, 2]) False 5, ps_greet (example_options True)
        (PIRSession (directory_handler example_session_fs (\<lambda>r. r) example_session_dir) (example_net_params 1 [2, 2]) idle)) = Some (c, s) \<and>
    agreed 4 20 (example_net_params 1 [2, 2]) (c, s) \<and> getFilesNum (pc_catalog c) = 4 \<and> desc_getFileName 1 (pc_catalog c) = ''2''"
proof -
  let ?P = "example_net_params 1 [2, 2]" and ?D = example_session_dir
  have P: "length (pir_n ?P) = 10" by (simp add: example_net_params_def)
  have u: "usable (example_env ?P) 80 4 20 (length (file_list ?D)) (maxFileBytesize ?D) ?P"
    using example_usable [of 1 "[2, 2]"] by simp
  obtain c s where "handshake (example_env ?P) (example_options True)
      (PIRClient ?P False 5, ps_greet (example_options True) (PIRSession (directory_handler example_session_fs (\<lambda>r. r) ?D) ?P idle)) = Some (c, s)"
    "agreed 4 20 ?P (c, s)" "getFilesNum (pc_catalog c) = length (file_list ?D)"
    "\<forall>i < length (file_list ?D). desc_getFileName i (pc_catalog c) = file_list ?D ! i"
    using handshake_agrees [OF example_served u example_mode [where driven = True, folded example_session_dir(2)] P P] by blast
  then show ?thesis by (auto simp: example_session_dir)
qed




end
