(* ===== verification/LWEParams.thy ===== *)
theory LWEParams
  imports NetServer "HOL-Library.Char_ord" "HOL-Library.List_Lexorder"
begin

text \<open>
  The parameter sets that the lattice cryptosystem offers for a level of security (\<open>getCryptoParams\<close>,
  \<open>findMaxModulusBitsize\<close>, \<open>estimateSecurity\<close> of \<open>crypto/NFLLWE.cpp\<close>). The estimate of an attack
  (\<open>checkParamsSecure\<close>, an expression with powers and logarithms in floating point) is an argument; the
  loops stop at the first size, and at the first level, for which it holds.
\<close>

section \<open>The parameter sets\<close>

text \<open>Both loops go on until the test holds; their counters wrap around.\<close>

partial_function (option) first_that :: "(nat \<Rightarrow> bool) \<Rightarrow> nat \<Rightarrow> nat option" where
  "first_that P n = (if P n then Some n else first_that P ((n + 1) mod 2 ^ 32))"

definition findMaxModulusBitsize :: "(nat \<Rightarrow> nat \<Rightarrow> nat \<Rightarrow> bool) \<Rightarrow> nat \<Rightarrow> nat \<Rightarrow> nat option" where
  "findMaxModulusBitsize checkParamsSecure k n =
     map_option (\<lambda>p_size. (p_size + (2 ^ 32 - 1)) mod 2 ^ 32) (first_that (\<lambda>p_size. checkParamsSecure k n p_size) 10)"

definition estimateSecurity :: "(nat \<Rightarrow> nat \<Rightarrow> nat \<Rightarrow> bool) \<Rightarrow> nat \<Rightarrow> nat \<Rightarrow> nat option" where
  "estimateSecurity checkParamsSecure n p_size =
     map_option (\<lambda>estimated_k. (estimated_k + (2 ^ 32 - 1)) mod 2 ^ 32) (first_that (\<lambda>estimated_k. checkParamsSecure estimated_k n p_size) 5)"

text \<open>A \<open>set<string>\<close> is a sorted list; \<open>insert\<close> tells whether the string is new.\<close>

definition set_insert :: "string \<Rightarrow> string list \<Rightarrow> bool \<times> string list" where
  "set_insert p ps = (if p \<in> set ps then (False, ps) else (True, insort p ps))"

definition offered_degrees :: "nat list" where
  "offered_degrees = takeWhile (\<lambda>degree. degree \<le> kMaxPolyDegree) (map (\<lambda>j. kMinPolyDegree * 2 ^ j) [0..<23])"

text \<open>The sizes of one degree: a margin of one bit for each modulus, at most four moduli.\<close>

primrec offer_sizes ::
  "(nat \<Rightarrow> nat \<Rightarrow> nat \<Rightarrow> bool) \<Rightarrow> nat \<Rightarrow> nat list \<Rightarrow> nat \<times> string list \<Rightarrow> (nat \<times> string list) option" where
  "offer_sizes checkParamsSecure degree [] st = Some st"
| "offer_sizes checkParamsSecure degree (i # is) st =
     (case estimateSecurity checkParamsSecure degree (i * kModulusBitsize) of
        None \<Rightarrow> None
      | Some e \<Rightarrow>
          (let (params_nbr, offered) = st;
               param = join_with (CHR '':'') [''LWE'', to_string e, to_string degree, to_string (i * kModulusBitsize)];
               (fresh, offered) = set_insert param offered
           in offer_sizes checkParamsSecure degree is (if fresh then params_nbr + 1 else params_nbr, offered)))"

primrec offer_degrees ::
  "(nat \<Rightarrow> nat \<Rightarrow> nat \<Rightarrow> bool) \<Rightarrow> nat \<Rightarrow> nat list \<Rightarrow> nat \<times> string list \<Rightarrow> (nat \<times> string list) option" where
  "offer_degrees checkParamsSecure k [] st = Some st"
| "offer_degrees checkParamsSecure k (degree # degrees) st =
     (case findMaxModulusBitsize checkParamsSecure k degree of
        None \<Rightarrow> None
      | Some p_size \<Rightarrow>
          (case offer_sizes checkParamsSecure degree (takeWhile (\<lambda>i. i * 59 \<le> p_size \<and> i * 60 \<le> 240) [1..<6]) st of
             None \<Rightarrow> None
           | Some st \<Rightarrow> offer_degrees checkParamsSecure k degrees st))"

definition getCryptoParams ::
  "(nat \<Rightarrow> nat \<Rightarrow> nat \<Rightarrow> bool) \<Rightarrow> nat \<Rightarrow> string list \<Rightarrow> (nat \<times> string list) option" where
  "getCryptoParams checkParamsSecure k offered = offer_degrees checkParamsSecure k offered_degrees (0, offered)"

definition getAllCryptoParams :: "(nat \<Rightarrow> nat \<Rightarrow> nat \<Rightarrow> bool) \<Rightarrow> string list \<Rightarrow> (nat \<times> string list) option" where
  "getAllCryptoParams checkParamsSecure offered =
     fold (\<lambda>k r. case r of None \<Rightarrow> None | Some (params_nbr, offered) \<Rightarrow>
         map_option (\<lambda>(m, offered). (params_nbr + m, offered)) (getCryptoParams checkParamsSecure k offered))
       [80, 100, 128, 192, 256] (Some (0, offered))"

section \<open>What is offered\<close>

lemma first_that_Some:
  assumes "P m" "n \<le> m" "m < 2 ^ 32"
  shows "\<exists>z. first_that P n = Some z \<and> n \<le> z \<and> z \<le> m \<and> P z \<and> (\<forall>y. n \<le> y \<and> y < z \<longrightarrow> \<not> P y)"
  using assms
proof (induction "m - n" arbitrary: n)
  case 0
  then have "m = n" by simp
  then show ?case using 0 by (subst first_that.simps) auto
next
  case (Suc d)
  show ?case
  proof (cases "P n")
    case True
    then show ?thesis using Suc.prems by (subst first_that.simps) auto
  next
    case False
    then have n: "n < m" using Suc.prems by (metis le_neq_implies_less)
    then obtain z where z: "first_that P (n + 1) = Some z" "n + 1 \<le> z" "z \<le> m" "P z" "\<forall>y. n + 1 \<le> y \<and> y < z \<longrightarrow> \<not> P y"
      using Suc.hyps(1) [of "n + 1", OF _ Suc.prems(1) _ Suc.prems(3)] Suc.hyps(2) by force
    have "first_that P n = Some z" using False n Suc.prems(3) z(1) by (subst first_that.simps) simp
    moreover have "\<not> P y" if "n \<le> y" "y < z" for y using z(5) False that by (cases "y = n") auto
    ultimately show ?thesis using z by (intro exI [of _ z]) auto
  qed
qed

text \<open>An attack that is estimated to succeed for every level and degree from some size below \<open>2^32\<close> on.\<close>

definition attack_found :: "(nat \<Rightarrow> nat \<Rightarrow> nat \<Rightarrow> bool) \<Rightarrow> bool" where
  "attack_found check \<longleftrightarrow> (\<forall>k n. \<exists>p. 10 \<le> p \<and> p < 2 ^ 32 \<and> check k n p) \<and> (\<forall>n p. \<exists>k. 5 \<le> k \<and> k < 2 ^ 32 \<and> check k n p)"

lemma findMaxModulusBitsize_Some:
  assumes "attack_found check"
  shows "\<exists>p. findMaxModulusBitsize check k n = Some p \<and> (\<forall>y. 10 \<le> y \<and> y \<le> p \<longrightarrow> \<not> check k n y)"
proof -
  obtain m where "check k n m" "10 \<le> m" "m < 2 ^ 32" using assms unfolding attack_found_def by blast
  from first_that_Some [of "check k n", OF this] obtain z where z: "first_that (check k n) 10 = Some z" "10 \<le> z" "z \<le> m" "\<forall>y. 10 \<le> y \<and> y < z \<longrightarrow> \<not> check k n y"
    by blast
  have "z + (2 ^ 32 - 1) = (z - 1) + 2 ^ 32" "z - 1 < 2 ^ 32" using z(2,3) \<open>m < 2 ^ 32\<close> by simp_all
  then have "(z + (2 ^ 32 - 1)) mod 2 ^ 32 = z - 1" by (simp only: mod_add_self2 mod_less)
  then show ?thesis using z by (auto simp: findMaxModulusBitsize_def)
qed

lemma estimateSecurity_Some:
  assumes "attack_found check"
  shows "\<exists>e. estimateSecurity check n p = Some e \<and> e < 2 ^ 32 \<and> (\<forall>y. 5 \<le> y \<and> y \<le> e \<longrightarrow> \<not> check y n p)"
proof -
  obtain m where "check m n p" "5 \<le> m" "m < 2 ^ 32" using assms unfolding attack_found_def by blast
  from first_that_Some [of "\<lambda>k. check k n p", OF this] obtain z where z: "first_that (\<lambda>k. check k n p) 5 = Some z" "5 \<le> z" "z \<le> m" "\<forall>y. 5 \<le> y \<and> y < z \<longrightarrow> \<not> check y n p"
    by blast
  have "z + (2 ^ 32 - 1) = (z - 1) + 2 ^ 32" "z - 1 < 2 ^ 32" using z(2,3) \<open>m < 2 ^ 32\<close> by simp_all
  then have "(z + (2 ^ 32 - 1)) mod 2 ^ 32 = z - 1" by (simp only: mod_add_self2 mod_less)
  then show ?thesis using z \<open>m < 2 ^ 32\<close> by (auto simp: estimateSecurity_def)
qed

text \<open>A descriptor of a degree and a number of moduli that resist: neither the sizes up to the margin at level
  \<open>k\<close>, nor the levels up to the one it names, are estimated to be attacked.\<close>

definition resists :: "(nat \<Rightarrow> nat \<Rightarrow> nat \<Rightarrow> bool) \<Rightarrow> nat \<Rightarrow> nat \<Rightarrow> nat \<Rightarrow> nat \<Rightarrow> bool" where
  "resists check k j i e \<longleftrightarrow> e < 2 ^ 32 \<and>
     (\<forall>y. 10 \<le> y \<and> y \<le> i * 59 \<longrightarrow> \<not> check k (2 ^ j) y) \<and> (\<forall>y. 5 \<le> y \<and> y \<le> e \<longrightarrow> \<not> check y (2 ^ j) (i * 60))"

definition lwe_params :: "nat \<Rightarrow> nat \<Rightarrow> nat \<Rightarrow> string" where
  "lwe_params e degree bits = join_with (CHR '':'') [''LWE'', to_string e, to_string degree, to_string bits]"

definition offer_ok :: "(nat \<Rightarrow> nat \<Rightarrow> nat \<Rightarrow> bool) \<Rightarrow> nat \<Rightarrow> string \<Rightarrow> bool" where
  "offer_ok check k p \<longleftrightarrow> (\<exists>j i e. 9 \<le> j \<and> j \<le> 13 \<and> 1 \<le> i \<and> i \<le> 4 \<and> p = lwe_params e (2 ^ j) (i * 60) \<and> resists check k j i e)"

text \<open>The strings that are there after a step: sorted, those before it or good offers, counted when new.\<close>

definition offers :: "(nat \<Rightarrow> nat \<Rightarrow> nat \<Rightarrow> bool) \<Rightarrow> nat \<Rightarrow> nat \<times> string list \<Rightarrow> nat \<times> string list \<Rightarrow> bool" where
  "offers check k st st' \<longleftrightarrow> (sorted (snd st) \<and> distinct (snd st) \<longrightarrow> sorted (snd st') \<and> distinct (snd st')) \<and>
     (\<forall>p \<in> set (snd st'). p \<in> set (snd st) \<or> offer_ok check k p) \<and> fst st' + length (snd st) = fst st + length (snd st')"

lemma offers_refl: "offers check k st st"
  by (simp add: offers_def)

lemma offers_trans: "offers check k a b \<Longrightarrow> offers check k b c \<Longrightarrow> offers check k a c"
  unfolding offers_def by (intro conjI) auto

lemma offers_insert:
  assumes "offer_ok check k p" "set_insert p ps = (fresh, ps')"
  shows "offers check k (n, ps) (if fresh then n + 1 else n, ps')"
proof (cases "p \<in> set ps")
  case True
  then show ?thesis using assms(2) by (simp add: set_insert_def offers_def)
next
  case False
  then have e: "fresh" "ps' = insort p ps" using assms(2) by (simp_all add: set_insert_def)
  show ?thesis using False assms(1) unfolding e(2) by (simp add: e(1) offers_def set_insort_key sorted_insort distinct_insort)
qed

lemma offer_sizes_ok:
  assumes "attack_found check" "9 \<le> j" "j \<le> 13"
    "\<forall>i \<in> set is. 1 \<le> i \<and> i \<le> 4 \<and> (\<forall>y. 10 \<le> y \<and> y \<le> i * 59 \<longrightarrow> \<not> check k (2 ^ j) y)"
  shows "\<exists>st'. offer_sizes check (2 ^ j) is st = Some st' \<and> offers check k st st'"
  using assms(4)
proof (induction "is" arbitrary: st)
  case Nil
  then show ?case by (simp add: offers_refl)
next
  case (Cons i "is")
  obtain e where e: "estimateSecurity check (2 ^ j) (i * kModulusBitsize) = Some e" "e < 2 ^ 32"
    "\<forall>y. 5 \<le> y \<and> y \<le> e \<longrightarrow> \<not> check y (2 ^ j) (i * kModulusBitsize)"
    using estimateSecurity_Some [OF assms(1)] by blast
  obtain n ps where st: "st = (n, ps)" by (cases st)
  obtain fresh ps' where ins: "set_insert (lwe_params e (2 ^ j) (i * kModulusBitsize)) ps = (fresh, ps')" by (cases "set_insert (lwe_params e (2 ^ j) (i * kModulusBitsize)) ps")
  have "offer_ok check k (lwe_params e (2 ^ j) (i * kModulusBitsize))"
    unfolding offer_ok_def resists_def using assms(2,3) Cons.prems e(2,3) by (intro exI [of _ j] exI [of _ i] exI [of _ e]) (simp add: kModulusBitsize_def)
  from offers_insert [OF this ins] have step: "offers check k st (if fresh then n + 1 else n, ps')" by (simp add: st)
  have "\<forall>i \<in> set is. 1 \<le> i \<and> i \<le> 4 \<and> (\<forall>y. 10 \<le> y \<and> y \<le> i * 59 \<longrightarrow> \<not> check k (2 ^ j) y)"
    using Cons.prems by (simp only: list.set insert_iff ball_simps) (erule conjunct2)
  from Cons.IH [OF this] obtain st' where "offer_sizes check (2 ^ j) is (if fresh then n + 1 else n, ps') = Some st'"
    and o: "offers check k (if fresh then n + 1 else n, ps') st'" by blast
  moreover have "offer_sizes check (2 ^ j) (i # is) st = offer_sizes check (2 ^ j) is (if fresh then n + 1 else n, ps')"
    unfolding offer_sizes.simps e(1) option.case st Let_def prod.case ins [unfolded lwe_params_def] ..
  ultimately have "offer_sizes check (2 ^ j) (i # is) st = Some st'" by (simp only:)
  with offers_trans [OF step o] show ?case by (intro exI [of _ st'] conjI)
qed

lemma offered_degrees_eq: "offered_degrees = map ((^) 2) [9, 10, 11, 12, 13]"
  by (simp add: offered_degrees_def kMaxPolyDegree_def kMinPolyDegree_def upt_rec)

lemma offer_degrees_ok:
  assumes "attack_found check" "\<forall>j \<in> set js. 9 \<le> j \<and> j \<le> 13"
  shows "\<exists>st'. offer_degrees check k (map ((^) 2) js) st = Some st' \<and> offers check k st st'"
  using assms(2)
proof (induction js arbitrary: st)
  case Nil
  then show ?case by (simp add: offers_refl)
next
  case (Cons j js)
  obtain p where p: "findMaxModulusBitsize check k (2 ^ j) = Some p" "\<forall>y. 10 \<le> y \<and> y \<le> p \<longrightarrow> \<not> check k (2 ^ j) y"
    using findMaxModulusBitsize_Some [OF assms(1)] by blast
  have j: "9 \<le> j" "j \<le> 13" using Cons.prems by simp_all
  have "\<forall>i \<in> set (takeWhile (\<lambda>i. i * 59 \<le> p \<and> i * 60 \<le> 240) [1..<6]). 1 \<le> i \<and> i \<le> 4 \<and> (\<forall>y. 10 \<le> y \<and> y \<le> i * 59 \<longrightarrow> \<not> check k (2 ^ j) y)"
  proof
    fix i assume "i \<in> set (takeWhile (\<lambda>i. i * 59 \<le> p \<and> i * 60 \<le> 240) [1..<6])"
    then have "i \<in> {1..<6}" "i * 59 \<le> p" "i * 60 \<le> 240" using set_takeWhileD by fastforce+
    then show "1 \<le> i \<and> i \<le> 4 \<and> (\<forall>y. 10 \<le> y \<and> y \<le> i * 59 \<longrightarrow> \<not> check k (2 ^ j) y)" using p(2) by auto
  qed
  from offer_sizes_ok [OF assms(1) j this] obtain st1 where 1: "offer_sizes check (2 ^ j) (takeWhile (\<lambda>i. i * 59 \<le> p \<and> i * 60 \<le> 240) [1..<6]) st = Some st1" "offers check k st st1"
    by blast
  have "\<forall>j \<in> set js. 9 \<le> j \<and> j \<le> 13" using Cons.prems by simp
  from Cons.IH [OF this, of st1] obtain st' where "offer_degrees check k (map ((^) 2) js) st1 = Some st'" and o: "offers check k st1 st'" by blast
  moreover have "offer_degrees check k (map ((^) 2) (j # js)) st = offer_degrees check k (map ((^) 2) js) st1"
    unfolding list.map offer_degrees.simps p(1) 1(1) option.case ..
  ultimately have "offer_degrees check k (map ((^) 2) (j # js)) st = Some st'" by (simp only:)
  with offers_trans [OF 1(2) o] show ?case by (intro exI [of _ st'] conjI)
qed

lemma getCryptoParams_Some:
  assumes "attack_found check"
  shows "\<exists>n new. getCryptoParams check k old = Some (n, new) \<and> offers check k (0, old) (n, new)"
  using offer_degrees_ok [OF assms, of "[9, 10, 11, 12, 13]" k "(0, old)"] by (auto simp: getCryptoParams_def offered_degrees_eq)

text \<open>A descriptor with a degree and a size of the modulus that the code knows is accepted.\<close>

lemma set_lwe_params:
  assumes "j \<le> 13" "1 \<le> i" "i \<le> 4"
  shows "\<exists>L'. lwe_setNewParameters_str invert rnd (lwe_params e (2 ^ j) (i * 60)) L = Inr L' \<and> lwe_polyDegree L' = 2 ^ j \<and>
    lwe_nbModuli L' = i \<and> securityBits L' = e"
proof -
  have split: "split_on (CHR '':'') (lwe_params e (2 ^ j) (i * 60)) = [''LWE'', to_string e, to_string (2 ^ j), to_string (i * 60)]"
    unfolding lwe_params_def by (rule split_join) simp_all
  obtain L' where L': "lwe_setNewParameters invert rnd (2 ^ j) (i * 60) (- 1) (L \<lparr> securityBits := e \<rparr>) = Inr L'" "lwe_ok L' j"
    "lwe_nbModuli L' = i" "securityBits L' = e"
    using lwe_setNewParameters_ok [of j "i * 60" invert rnd "- 1" "L \<lparr> securityBits := e \<rparr>"] assms by auto
  have "nat (int i * 60) = i * 60" by simp
  then have "lwe_setNewParameters_str invert rnd (lwe_params e (2 ^ j) (i * 60)) L = Inr L'"
    using L'(1) by (simp add: nat_power_eq lwe_setNewParameters_str_def split Let_def)
  then show ?thesis using L'(2,3,4) lwe_okD(2) [of L' j] by auto
qed

lemma offer_accepted: "offer_ok check k p \<Longrightarrow> \<exists>L'. lwe_setNewParameters_str invert rnd p L = Inr L'"
  using set_lwe_params by (auto simp: offer_ok_def) blast


text \<open>An attack on every modulus of 100 bits and at every level from 200 on.\<close>

definition example_check :: "nat \<Rightarrow> nat \<Rightarrow> nat \<Rightarrow> bool" where
  "example_check k n p \<longleftrightarrow> 100 \<le> p \<or> 200 \<le> k"

lemma example_attack: "attack_found example_check"
  unfolding attack_found_def example_check_def by (intro conjI allI exI [of _ 200]) simp_all


end
