(* ===== verification/Optimizer.thy ===== *)
theory Optimizer
  imports OptimWire LWEParams
begin

text \<open>
  The search of the optimizer (\<open>apps/optim/PIROptimizer.cpp\<close>): the sizes of the dimensions for a number
  of elements, and the aggregation and the number of dimensions with the least cost. The cost of a choice,
  which the program estimates from measured times, and the power function of the C library are arguments.
\<close>

section \<open>The sizes of the dimensions\<close>

text \<open>Arithmetic of \<open>unsigned int\<close>.\<close>

abbreviation wrap32 :: "nat \<Rightarrow> nat" where
  "wrap32 n \<equiv> n mod 2 ^ 32"

function grow_dims :: "nat \<Rightarrow> nat \<Rightarrow> nat \<Rightarrow> nat list \<Rightarrow> nat list" where
  "grow_dims new_n j product factors =
     (if product < new_n \<and> j < length factors
      then let factors = factors[j := wrap32 (factors ! j + 1)]
           in grow_dims new_n (j + 1) (fold (\<lambda>f p. wrap32 (p * f)) factors 1) factors
      else factors)"
  by pat_completeness auto
termination
  by (relation "measure (\<lambda>(_, j, _, factors). length factors - j)") auto

declare grow_dims.simps [simp del]

text \<open>\<open>pow_root n d\<close> is \<open>pow(n, 1./d)\<close>.\<close>

definition getDimSize :: "(nat \<Rightarrow> nat \<Rightarrow> rat) \<Rightarrow> nat \<Rightarrow> nat \<Rightarrow> nat \<Rightarrow> nat list option" where
  "getDimSize pow_root n alpha d =
     (if alpha = 0 \<or> d = 0 then None
      else let new_n = ceil_div n alpha; factors = replicate d (nat \<lfloor>pow_root new_n d\<rfloor>)
           in Some (if of_nat (factors ! 0) \<noteq> pow_root new_n d then grow_dims new_n 0 1 factors else factors))"

text \<open>
  What the search for the dimensions needs of \<open>pow\<close>: the pow_root is not too small by one or more, an integral
  pow_root is exact, and the pow_root of 1 is 1.
\<close>

definition pow_ok :: "(nat \<Rightarrow> nat \<Rightarrow> rat) \<Rightarrow> bool" where
  "pow_ok pow_root \<longleftrightarrow> (\<forall>n d. 0 < d \<longrightarrow> n \<le> (nat \<lfloor>pow_root n d\<rfloor> + 1) ^ d \<and> pow_root 1 d = 1 \<and>
     (of_nat (nat \<lfloor>pow_root n d\<rfloor>) = pow_root n d \<longrightarrow> n \<le> nat \<lfloor>pow_root n d\<rfloor> ^ d))"

lemma fold_u32:
  assumes "b * prod_list fs < 2 ^ 32" "0 \<notin> set fs"
  shows "fold (\<lambda>f p. wrap32 (p * f)) fs b = b * prod_list fs"
  using assms
proof (induction fs arbitrary: b)
  case Nil
  then show ?case by simp
next
  case (Cons f fs)
  have "0 < prod_list fs" using Cons.prems(2) by (induction fs) auto
  then have "1 \<le> prod_list fs" by simp
  then have "b * f * 1 \<le> b * f * prod_list fs" by (rule mult_le_mono2)
  moreover have "b * prod_list (f # fs) = b * f * prod_list fs" by (simp add: mult.assoc)
  ultimately have "b * f < 2 ^ 32" using Cons.prems(1) by linarith
  then show ?case using Cons.IH [of "b * f"] Cons.prems by (simp add: mult.assoc)
qed

text \<open>The factors after \<open>j\<close> rounds.\<close>

definition grown :: "nat \<Rightarrow> nat \<Rightarrow> nat \<Rightarrow> nat list" where
  "grown r d j = replicate j (r + 1) @ replicate (d - j) r"

lemma grown_step: "j < d \<Longrightarrow> (grown r d j)[j := r + 1] = grown r d (Suc j)"
proof -
  assume "j < d"
  then have "replicate (d - j) r = r # replicate (d - Suc j) r" by (metis Suc_diff_Suc replicate_Suc)
  then show ?thesis by (simp add: grown_def list_update_append replicate_app_Cons_same)
qed

lemma grown_nth: "j < d \<Longrightarrow> grown r d j ! j = r"
  by (simp add: grown_def nth_append)

lemma grown_prod: "j \<le> d \<Longrightarrow> prod_list (grown r d j) = (r + 1) ^ j * r ^ (d - j)"
  by (simp add: grown_def)

lemma grown_prod_le: "j \<le> d \<Longrightarrow> prod_list (grown r d j) \<le> (r + 1) ^ d"
proof -
  assume j: "j \<le> d"
  have "(r + 1) ^ j * r ^ (d - j) \<le> (r + 1) ^ j * (r + 1) ^ (d - j)" by (intro mult_le_mono2 power_mono) simp_all
  then show ?thesis using j by (simp add: grown_prod flip: power_add)
qed

lemma grow_dims_grown:
  assumes "(r + 1) ^ d < 2 ^ 32" "0 < r" "m \<le> (r + 1) ^ d" "j \<le> d" "0 < j \<Longrightarrow> p = prod_list (grown r d j)"
  shows "\<exists>i. j \<le> i \<and> i \<le> d \<and> grow_dims m j p (grown r d j) = grown r d i \<and> (m \<le> prod_list (grown r d i) \<or> i = 0 \<and> m \<le> p)"
  using assms(4,5)
proof (induction "d - j" arbitrary: j p)
  case 0
  then have "j = d" by simp
  then show ?case using assms(3) by (subst grow_dims.simps) (auto simp: grown_def intro!: exI [of _ d])
next
  case (Suc z)
  then have j: "j < d" by simp
  show ?case
  proof (cases "p < m")
    case False
    then show ?thesis using Suc.prems j by (subst grow_dims.simps) (cases "j = 0"; auto intro!: exI [of _ j])
  next
    case True
    have r: "r + 1 < 2 ^ 32"
      using assms(1) self_le_power [of "r + 1" d] j by linarith
    have len: "length (grown r d j) = d" using j by (simp add: grown_def)
    have up: "(grown r d j)[j := wrap32 (grown r d j ! j + 1)] = grown r d (Suc j)"
      using grown_step [OF j] grown_nth [OF j] r by simp
    have "prod_list (grown r d (Suc j)) < 2 ^ 32" using grown_prod_le [of "Suc j" d r] j assms(1) by simp
    then have pr: "fold (\<lambda>f p. wrap32 (p * f)) (grown r d (Suc j)) 1 = prod_list (grown r d (Suc j))"
      using fold_u32 [of 1 "grown r d (Suc j)"] assms(2) by (auto simp: grown_def)
    have step: "grow_dims m j p (grown r d j) = grow_dims m (Suc j) (prod_list (grown r d (Suc j))) (grown r d (Suc j))"
      using True j len by (subst grow_dims.simps) (simp only: Let_def up simp_thms if_True, simp only: Suc_eq_plus1 [symmetric] pr)
    obtain i where "Suc j \<le> i" "i \<le> d" "grow_dims m (Suc j) (prod_list (grown r d (Suc j))) (grown r d (Suc j)) = grown r d i"
      "m \<le> prod_list (grown r d i)"
      using Suc.hyps(1) [of "Suc j" "prod_list (grown r d (Suc j))"] Suc.hyps(2) j by fastforce
    then show ?thesis unfolding step by (intro exI [of _ i]) simp
  qed
qed

text \<open>C37: The sizes of the dimensions are \<open>d\<close> numbers whose product is at least the number of
  elements after the aggregation, so that every element has coordinates. Nothing overflows when the next
  \<open>d\<close>-th power fits 32 bits.\<close>

theorem getDimSize_covers:
  assumes pw: "pow_ok pow_root" and a: "0 < alpha" "0 < d" and fits: "(nat \<lfloor>pow_root (ceil_div n alpha) d\<rfloor> + 1) ^ d < 2 ^ 32"
  shows "\<exists>ns. getDimSize pow_root n alpha d = Some ns \<and> length ns = d \<and> n \<le> alpha * prod_list ns"
proof -
  let ?m = "ceil_div n alpha"
  define r where "r = nat \<lfloor>pow_root ?m d\<rfloor>"
  have m: "?m \<le> (r + 1) ^ d" using pw a(2) by (simp add: pow_ok_def r_def)
  have n: "n \<le> alpha * ?m" using ceil_div_mult_ge [of alpha n] a(1) by (simp add: mult.commute)
  have hd: "replicate d r ! 0 = r" using a(2) by simp
  have covered: "n \<le> alpha * q" if "?m \<le> q" for q
    using n that mult_le_mono2 [of ?m q alpha] by linarith
  show ?thesis
  proof (cases "of_nat r = pow_root ?m d")
    case True
    then have "?m \<le> r ^ d" using pw a(2) by (simp add: pow_ok_def r_def)
    then show ?thesis using a True hd covered by (simp add: getDimSize_def Let_def flip: r_def)
  next
    case False
    have gd: "getDimSize pow_root n alpha d = Some (grow_dims ?m 0 1 (grown r d 0))"
      using a False hd by (simp add: getDimSize_def Let_def grown_def flip: r_def)
    show ?thesis
    proof (cases "?m = 0")
      case True
      then show ?thesis using gd covered [of 0] by (subst (asm) grow_dims.simps) (simp add: grown_def)
    next
      case nonzero: False
      have "?m \<noteq> 1"
      proof
        assume one: "?m = 1"
        then have "pow_root ?m d = 1" using pw a(2) by (simp add: pow_ok_def)
        then show False using False by (simp add: r_def)
      qed
      then have "1 < ?m" using nonzero by linarith
      then have r: "0 < r" using m by (cases r) auto
      obtain i where "grow_dims ?m 0 1 (grown r d 0) = grown r d i" "?m \<le> prod_list (grown r d i)" "i \<le> d"
        using grow_dims_grown [OF fits [folded r_def] r m, of 0 1] \<open>1 < ?m\<close> by auto
      then show ?thesis using gd covered by (auto simp: grown_def)
    qed
  qed
qed

section \<open>The estimated costs\<close>

text \<open>
  Arithmetic on \<open>double\<close> and \<open>long double\<close> is exact arithmetic followed by a rounding; the two roundings
  and \<open>pow(n, 1./d)\<close> are arguments. Infinite values are \<open>None\<close>.
\<close>

record fpu =
  fl :: "rat \<Rightarrow> rat"
  fl_long :: "rat \<Rightarrow> rat"
  fpu_root :: "nat \<Rightarrow> nat \<Rightarrow> rat"

datatype fitness = FIT_SUM | FIT_MAX | FIT_CLOUD

text \<open>\<open>manual_crypto_params\<close> is the empty string or a regular expression, here what it matches.\<close>

record fixed_vars =
  fv_n :: nat
  fv_l :: nat
  fv_Tupc :: rat
  fv_Tups :: rat
  fv_Tdoc :: rat
  fv_Tdos :: rat
  fv_manual :: "(string \<Rightarrow> bool) option"
  fv_k :: nat
  fv_dMin :: nat
  fv_dMax :: nat
  fv_alphaMax :: nat
  fv_fitness :: fitness

record optim_vars =
  GenQ :: rat
  SendQ :: rat
  GenR :: rat
  SendR :: rat
  DecR :: rat
  ov_fitness :: fitness
  ov_fixed :: fixed_vars
  ov_alpha :: nat
  ov_d :: nat
  ov_params :: string

definition kSecondsInHour :: rat where "kSecondsInHour = 3600"
definition kOneHourComputingCost :: rat where "kOneHourComputingCost = 266 / 1000"
definition kOneByteUploadCost :: rat where "kOneByteUploadCost = 5 / 10 ^ 11"

definition getValue :: "fpu \<Rightarrow> optim_vars \<Rightarrow> rat" where
  "getValue M v =
     (case ov_fitness v of
        FIT_SUM \<Rightarrow> fl M (fl M (GenQ v + SendQ v) + fl M (fl M (GenR v + SendR v) + DecR v))
      | FIT_MAX \<Rightarrow> fl M (max (GenQ v) (SendQ v) + max (max (GenR v) (SendR v)) (DecR v))
      | FIT_CLOUD \<Rightarrow> fl M (fl_long M (fl M (GenR v * fl M (fl M kOneHourComputingCost / kSecondsInHour)) +
          fl_long M (fl M (SendR v * min (fv_Tups (ov_fixed v)) (fv_Tdoc (ov_fixed v))) * fl M kOneByteUploadCost))))"

text \<open>
  A cryptosystem, with its public parameters, as the optimizer sees it: the virtual methods on its state.
  \<open>crypto_sets\<close> is \<open>getCryptoParams\<close> (\<open>None\<close> when it does not return), \<open>crypto_compute\<close> is
  \<open>computeNewParameters\<close> (\<open>None\<close> when it ends the process), \<open>crypto_set_abs\<close> is
  \<open>setandgetAbsBitPerCiphertext\<close>, \<open>crypto_short\<close> and \<open>crypto_long\<close> are the serialised parameters.
\<close>

record 'c crypto_methods =
  crypto_name :: string
  crypto_sets :: "nat \<Rightarrow> string list option"
  crypto_compute :: "string \<Rightarrow> 'c \<Rightarrow> 'c option"
  crypto_set_abs :: "nat \<Rightarrow> 'c \<Rightarrow> 'c"
  crypto_abs :: "'c \<Rightarrow> nat"
  crypto_abs_rec :: "'c \<Rightarrow> nat \<Rightarrow> nat"
  crypto_ciph_rec :: "'c \<Rightarrow> nat \<Rightarrow> nat"
  crypto_ciph :: "'c \<Rightarrow> nat"
  crypto_short :: "'c \<Rightarrow> string"
  crypto_long :: "'c \<Rightarrow> string"

record cost_caches =
  encrypt_cache :: "string \<Rightarrow> rat option"
  decrypt_cache :: "string \<Rightarrow> rat option"
  abs_cache :: "string \<Rightarrow> rat option"
  precompute_cache :: "string \<Rightarrow> rat option"

record 'c optimizer =
  op_fpu :: fpu
  op_fixed :: fixed_vars
  op_crypto :: "'c crypto_methods"
  op_caches :: cost_caches

text \<open>\<open>operator[]\<close> of a \<open>map\<close> gives 0 for a missing key.\<close>

definition cached :: "(string \<Rightarrow> rat option) \<Rightarrow> string \<Rightarrow> rat" where
  "cached m k = (case m k of None \<Rightarrow> 0 | Some t \<Rightarrow> t)"

definition getGenQueryCost :: "'c optimizer \<Rightarrow> 'c \<Rightarrow> nat list \<Rightarrow> rat" where
  "getGenQueryCost Op c dn =
     (let M = op_fpu Op; t = cached (encrypt_cache (op_caches Op)) (crypto_short (op_crypto Op) c)
      in fold (\<lambda>n GenQ. fl M (GenQ + fl M (of_nat n * t))) dn 0)"

definition getSendCost :: "'c optimizer \<Rightarrow> 'c \<Rightarrow> rat \<Rightarrow> rat \<Rightarrow> nat \<Rightarrow> nat list \<Rightarrow> rat" where
  "getSendCost Op c Tupc Tdos nbc dn =
     (let M = op_fpu Op; min_throughput = min Tupc (fl M (Tdos / of_nat nbc))
      in fold (\<lambda>i SenQ. fl M (SenQ + fl M (fl M (of_nat (dn ! i) * of_nat (crypto_ciph_rec (op_crypto Op) c (i + 1))) / min_throughput)))
           [0..<length dn] 0)"

fun eltSize :: "'c optimizer \<Rightarrow> 'c \<Rightarrow> nat \<Rightarrow> nat \<Rightarrow> rat" where
  "eltSize Op c alpha 0 = fl (op_fpu Op) (of_nat ((fv_l (op_fixed Op) * alpha) mod 2 ^ 64))"
| "eltSize Op c alpha (Suc i) =
     fl (op_fpu Op) (of_int \<lceil>fl (op_fpu Op) (eltSize Op c alpha i / of_nat (crypto_abs_rec (op_crypto Op) c i))\<rceil> *
       of_nat (crypto_ciph_rec (op_crypto Op) c (i + 1)))"

text \<open>\<open>INITIAL_PRECOMPUTATION_DONE\<close> is false: every level pays the precomputation.\<close>

definition getReplyGenCost :: "'c optimizer \<Rightarrow> 'c \<Rightarrow> nat \<Rightarrow> nat list \<Rightarrow> rat" where
  "getReplyGenCost Op c alpha dn =
     (let M = op_fpu Op; O' = op_crypto Op; K = op_caches Op; lo = fl_long M;
          level = (\<lambda>i GenR.
            let product = fold (\<lambda>n p. lo (p * of_nat n)) (drop i dn) 1;
                post = nat \<lceil>fl M (eltSize Op c alpha i / of_nat (crypto_abs_rec O' c i))\<rceil>;
                pre = nat \<lceil>fl M (fl M (eltSize Op c alpha i / of_nat (crypto_ciph O' c)) / 2)\<rceil>;
                GenR = lo (GenR + lo (lo (product * of_nat post) * cached (abs_cache K) (crypto_short O' c)))
            in lo (GenR + lo (lo (product * of_nat pre) * cached (precompute_cache K) (crypto_short O' c))))
      in fl M (fold level [0..<length dn] 0))"

definition getReceiveCost :: "'c optimizer \<Rightarrow> 'c \<Rightarrow> nat \<Rightarrow> rat \<Rightarrow> rat \<Rightarrow> nat \<Rightarrow> nat \<Rightarrow> rat" where
  "getReceiveCost Op c alpha Tups Tdoc nbc d =
     (let M = op_fpu Op in fl M (eltSize Op c alpha d / min (fl M (Tups / of_nat nbc)) Tdoc))"

definition getDecryptCost :: "'c optimizer \<Rightarrow> 'c \<Rightarrow> nat \<Rightarrow> nat \<Rightarrow> rat" where
  "getDecryptCost Op c alpha d =
     (let M = op_fpu Op; O' = op_crypto Op; t = cached (decrypt_cache (op_caches Op)) (crypto_short O' c)
      in fold (\<lambda>i DecR. fl M (fl_long M (DecR + fl_long M (of_int \<lceil>fl M (eltSize Op c alpha (i + 1) / of_nat (crypto_ciph_rec O' c (i + 1)))\<rceil> * t))))
           [0..<d] 0)"

section \<open>The search\<close>

text \<open>The state of the search: the cryptosystem and the best choice since the last reset, if any.\<close>

record 'c search_state =
  ss_crypto :: 'c
  ss_optimum :: "optim_vars option"

definition value_of :: "fpu \<Rightarrow> optim_vars option \<Rightarrow> rat option" where
  "value_of M v = map_option (getValue M) v"

fun cost_le :: "rat option \<Rightarrow> rat option \<Rightarrow> bool" where
  "cost_le _ None = True"
| "cost_le None (Some _) = False"
| "cost_le (Some a) (Some b) = (a \<le> b)"

definition cost_less :: "rat option \<Rightarrow> rat option \<Rightarrow> bool" where
  "cost_less a b = (\<not> cost_le b a)"

definition analyseResult :: "'c optimizer \<Rightarrow> optim_vars option \<Rightarrow> 'c search_state \<Rightarrow> 'c search_state" where
  "analyseResult Op vars s =
     (let M = op_fpu Op
      in if cost_less (value_of M vars) (value_of M (ss_optimum s))
         then s \<lparr> ss_optimum := map_option (\<lambda>v. v \<lparr> ov_params := crypto_long (op_crypto Op) (ss_crypto s) \<rparr>) vars \<rparr>
         else s)"

text \<open>
  The estimate of one choice. A level of the recursion at which nothing is absorbed divides by zero: the size
  of the reply, and with it the value, is then infinite.
\<close>

definition estimate :: "'c optimizer \<Rightarrow> 'c \<Rightarrow> nat \<Rightarrow> nat \<Rightarrow> nat list \<Rightarrow> optim_vars option" where
  "estimate Op c alpha d dn =
     (let F = op_fixed Op in
      if \<exists>i \<in> set [0..<d]. crypto_abs_rec (op_crypto Op) c i = 0 then None
      else Some \<lparr> GenQ = getGenQueryCost Op c dn, SendQ = getSendCost Op c (fv_Tupc F) (fv_Tdos F) 1 dn,
        GenR = getReplyGenCost Op c alpha dn, SendR = getReceiveCost Op c alpha (fv_Tups F) (fv_Tdoc F) 1 d,
        DecR = getDecryptCost Op c alpha d, ov_fitness = fv_fitness F, ov_fixed = F, ov_alpha = alpha, ov_d = d,
        ov_params = [] \<rparr>)"

definition computeOptimVars :: "'c optimizer \<Rightarrow> nat \<Rightarrow> nat \<Rightarrow> 'c search_state \<Rightarrow> (rat option \<times> 'c search_state) option" where
  "computeOptimVars Op alpha d s =
     (let alpha = (if alpha = 0 then 1 else alpha) in
      case getDimSize (fpu_root (op_fpu Op)) (wrap32 (fv_n (op_fixed Op))) alpha d of
        None \<Rightarrow> None
      | Some dn \<Rightarrow>
          (let c = crypto_set_abs (op_crypto Op) (dn ! 0) (ss_crypto s); vars = estimate Op c alpha d dn
           in Some (value_of (op_fpu Op) vars, analyseResult Op vars (s \<lparr> ss_crypto := c \<rparr>))))"

text \<open>With files of no size the natural aggregation is as large as possible.\<close>

definition getMinAlpha :: "'c optimizer \<Rightarrow> 'c \<Rightarrow> nat" where
  "getMinAlpha Op c =
     (let F = op_fixed Op; M = op_fpu Op; Tp0 = of_nat (crypto_abs_rec (op_crypto Op) c 0);
          r = (if fv_l F = 0 then of_nat (fv_n F) else of_int \<lceil>fl M (Tp0 / fl M (of_nat (fv_l F)))\<rceil>);
          r = (if r > fl M (of_nat (fv_n F)) then fl M (of_nat (fv_n F)) else r);
          ret = (if r < 1 then 1 else nat \<lfloor>r\<rfloor>)
      in if fv_alphaMax F = 0 then ret else min ret (fv_alphaMax F))"

definition getMaxAlpha :: "fixed_vars \<Rightarrow> nat" where
  "getMaxAlpha F = (if fv_alphaMax F = 0 \<or> fv_n F < fv_alphaMax F then wrap32 (fv_n F) else fv_alphaMax F)"

text \<open>The loop ends when the counter, which wraps around, has passed the limit.\<close>

partial_function (option) findAlpha_from ::
  "'c optimizer \<Rightarrow> nat \<Rightarrow> nat \<Rightarrow> nat \<Rightarrow> nat \<Rightarrow> 'c search_state \<Rightarrow> 'c search_state option" where
  "findAlpha_from Op d step current_alpha alpha_max s =
     (if current_alpha \<le> alpha_max
      then (case computeOptimVars Op current_alpha d s of
              None \<Rightarrow> None
            | Some (_, s) \<Rightarrow>
                if crypto_abs (op_crypto Op) (ss_crypto s) = 0 then Some s
                else findAlpha_from Op d step (wrap32 (current_alpha + step)) alpha_max s)
      else Some s)"

definition findAlpha :: "'c optimizer \<Rightarrow> nat \<Rightarrow> nat \<Rightarrow> nat \<Rightarrow> 'c search_state \<Rightarrow> 'c search_state option" where
  "findAlpha Op d alpha_min alpha_max s = findAlpha_from Op d (getMinAlpha Op (ss_crypto s)) alpha_min alpha_max s"

text \<open>Differences of \<open>unsigned int\<close>.\<close>

definition minus32 :: "nat \<Rightarrow> nat \<Rightarrow> nat" where
  "minus32 a b = nat ((int a - int b) mod 2 ^ 32)"

text \<open>The least value among the choices of a list, the last one winning a tie.\<close>

primrec least_value :: "'c optimizer \<Rightarrow> nat \<Rightarrow> rat option \<Rightarrow> nat list \<Rightarrow> 'c search_state \<Rightarrow> (rat option \<times> 'c search_state) option" where
  "least_value Op d v [] s = Some (v, s)"
| "least_value Op d v (alpha # alphas) s =
     (case computeOptimVars Op alpha d s of
        None \<Rightarrow> None
      | Some (vtmp, s) \<Rightarrow> least_value Op d (if cost_le vtmp v then vtmp else v) alphas s)"

definition slop :: "'c optimizer \<Rightarrow> nat \<Rightarrow> nat \<Rightarrow> nat \<Rightarrow> nat \<Rightarrow> 'c search_state \<Rightarrow> (int \<times> 'c search_state) option" where
  "slop Op alphaMul lower upper d s =
     (let M = op_fpu Op; minalpha = getMinAlpha Op (ss_crypto s);
          deltaright = minus32 upper (1 + alphaMul) div 10; deltaleft = minus32 alphaMul (lower + 1) div 10;
          right = (\<lambda>i. wrap32 ((alphaMul + 1 + i * deltaright) * minalpha));
          left = (\<lambda>i. wrap32 (minus32 alphaMul (1 + i * deltaleft) * minalpha)) in
      case computeOptimVars Op (right 0) d s of None \<Rightarrow> None | Some (v, s) \<Rightarrow>
      (case least_value Op d v (map right [1..<11]) s of None \<Rightarrow> None | Some (vright, s) \<Rightarrow>
       (case computeOptimVars Op (left 0) d s of None \<Rightarrow> None | Some (v, s) \<Rightarrow>
        (case least_value Op d v (map left [1..<11]) s of None \<Rightarrow> None | Some (vleft, s) \<Rightarrow>
           Some (if cost_less vright (map_option (\<lambda>v. fl M (v - fl M (1 / 10 ^ 7))) vleft) then - 1 else 1, s)))))"

lemma minus32_half:
  assumes "100 < minus32 b a"
  shows "minus32 (wrap32 (a + minus32 b a div 2)) a < minus32 b a" "minus32 b (wrap32 (a + minus32 b a div 2)) < minus32 b a"
proof -
  define D where "D = minus32 b a"
  have D: "int D = (int b - int a) mod 2 ^ 32" by (simp add: D_def minus32_def)
  then have lt: "int D < 2 ^ 32" by simp
  have "(int (wrap32 (a + D div 2)) - int a) mod 2 ^ 32 = int (D div 2) mod 2 ^ 32"
    by (simp add: zmod_int mod_diff_left_eq)
  then have "minus32 (wrap32 (a + D div 2)) a = D div 2" using lt by (simp add: minus32_def zdiv_int)
  then show "minus32 (wrap32 (a + minus32 b a div 2)) a < minus32 b a" using assms by (simp add: D_def)
  have "(int b - int (wrap32 (a + D div 2))) mod 2 ^ 32 = (int b - (int a + int (D div 2))) mod 2 ^ 32"
    by (simp add: zmod_int mod_diff_right_eq)
  also have "\<dots> = ((int b - int a) mod 2 ^ 32 - int (D div 2)) mod 2 ^ 32"
    by (simp add: mod_diff_left_eq diff_diff_eq)
  also have "\<dots> = int (D - D div 2) mod 2 ^ 32" unfolding D [symmetric] by (simp add: of_nat_diff zdiv_int)
  also have "\<dots> = int (D - D div 2)" using lt by simp
  finally have "minus32 b (wrap32 (a + D div 2)) = D - D div 2" unfolding minus32_def by simp
  then show "minus32 b (wrap32 (a + minus32 b a div 2)) < minus32 b a" using assms by (simp flip: D_def)
qed

definition kalphaBound :: nat where
  "kalphaBound = 100"

function findAlphaDicho :: "'c optimizer \<Rightarrow> nat \<Rightarrow> nat \<Rightarrow> nat \<Rightarrow> 'c search_state \<Rightarrow> 'c search_state option" where
  "findAlphaDicho Op lower upper d s =
     (let F = op_fixed Op; min_alpha = getMinAlpha Op (ss_crypto s) in
      if minus32 upper lower \<le> 100
      then (let max_alpha_bound =
              (if fv_n F < wrap32 (upper * min_alpha) then wrap32 (fv_n F)
               else min (fv_alphaMax F) (max kalphaBound (wrap32 (upper * min_alpha))))
            in findAlpha Op d (wrap32 (lower * min_alpha)) max_alpha_bound s)
      else (let alpha_bound = wrap32 (lower + minus32 upper lower div 2) in
            case slop Op alpha_bound lower upper d s of
              None \<Rightarrow> None
            | Some (v, s) \<Rightarrow>
                if v = - 1 then findAlphaDicho Op alpha_bound upper d s else findAlphaDicho Op lower alpha_bound d s))"
  by pat_completeness auto

termination
  by (relation "measure (\<lambda>(_, lower, upper, _, _). minus32 upper lower)") (simp_all only: wf_measure in_measure prod.case not_le minus32_half)

declare findAlphaDicho.simps [simp del]

text \<open>A loop over a list whose rounds may not return.\<close>

primrec each_some :: "('a \<Rightarrow> 's \<Rightarrow> 's option) \<Rightarrow> 'a list \<Rightarrow> 's \<Rightarrow> 's option" where
  "each_some f [] s = Some s"
| "each_some f (x # xs) s = (case f x s of None \<Rightarrow> None | Some s \<Rightarrow> each_some f xs s)"

text \<open>The choices for one set of parameters and one number of dimensions: no aggregation first.\<close>

definition search_alpha :: "'c optimizer \<Rightarrow> nat \<Rightarrow> 'c search_state \<Rightarrow> 'c search_state option" where
  "search_alpha Op d s =
     (case findAlpha Op d 1 1 s of
        None \<Rightarrow> None
      | Some s \<Rightarrow> findAlphaDicho Op 0 (getMaxAlpha (op_fixed Op)) d s)"

definition noCryptoSystemOptim :: "fpu \<Rightarrow> fixed_vars \<Rightarrow> fitness \<Rightarrow> optim_vars" where
  "noCryptoSystemOptim M F fitness =
     \<lparr> GenQ = 0, SendQ = 0, GenR = 0, SendR = fl M (fl M (of_nat ((fv_l F * fv_n F) mod 2 ^ 64)) / fv_Tdoc F), DecR = 0,
       ov_fitness = fitness, ov_fixed = F, ov_alpha = wrap32 (fv_n F), ov_d = 1, ov_params = ''NoCryptography'' \<rparr>"

text \<open>The best choice for one cryptosystem, with the costs that were measured for it.\<close>

definition optimize_system :: "fpu \<Rightarrow> fixed_vars \<Rightarrow> 'c crypto_methods \<times> cost_caches \<times> 'c \<Rightarrow> optim_vars option \<Rightarrow> optim_vars option option" where
  "optimize_system M F system global_optimum =
     (case system of (crypto, caches, c) \<Rightarrow>
        let Op = \<lparr> op_fpu = M, op_fixed = F, op_crypto = crypto, op_caches = caches \<rparr> in
        case crypto_sets crypto (fv_k F) of None \<Rightarrow> None | Some offered \<Rightarrow>
        (let params = filter (\<lambda>p. case fv_manual F of None \<Rightarrow> True | Some cp_rex \<Rightarrow> cp_rex p) offered
         in if fv_manual F \<noteq> None \<and> params = [] then Some global_optimum
            else (case each_some (\<lambda>p s. case crypto_compute crypto p (ss_crypto s) of None \<Rightarrow> None
                       | Some c \<Rightarrow> each_some (search_alpha Op) [fv_dMin F..<fv_dMax F + 1] (s \<lparr> ss_crypto := c \<rparr>))
                      params \<lparr> ss_crypto = c, ss_optimum = None \<rparr> of
                    None \<Rightarrow> None
                  | Some s \<Rightarrow> Some (if cost_less (value_of M (ss_optimum s)) (value_of M global_optimum)
                                   then ss_optimum s else global_optimum))))"

text \<open>
  The whole search, for the cryptosystems of the factory in their order; \<open>fitness\<close> is the method the
  object was constructed with. \<open>Some None\<close> is the exit when nothing was found.
\<close>

definition optimize :: "fpu \<Rightarrow> fitness \<Rightarrow> fixed_vars \<Rightarrow> ('c crypto_methods \<times> cost_caches \<times> 'c) list \<Rightarrow> optim_vars option option" where
  "optimize M fitness F systems =
     each_some (optimize_system M F) systems
       (if (case fv_manual F of None \<Rightarrow> True | Some cp_rex \<Rightarrow> cp_rex ''NoCryptography'')
        then Some (noCryptoSystemOptim M F fitness) else None)"

section \<open>The search ends and keeps the best\<close>

lemma cost_le_refl [simp]: "cost_le a a"
  by (cases a) simp_all

lemma cost_le_trans [trans]: "cost_le a b \<Longrightarrow> cost_le b c \<Longrightarrow> cost_le a c"
  by (cases a; cases b; cases c) simp_all

lemma cost_le_total: "cost_le a b \<or> cost_le b a"
  by (cases a; cases b) auto

lemma cost_less_le: "cost_less a b \<Longrightarrow> cost_le a b"
  using cost_le_total [of a b] by (auto simp: cost_less_def)

lemma cost_less_None [simp]: "\<not> cost_less None b"
  by (simp add: cost_less_def)

text \<open>The costs do not depend on the name of the parameters.\<close>

lemma getValue_params [simp]: "getValue M (v \<lparr> ov_params := p \<rparr>) = getValue M v"
  by (cases "ov_fitness v") (simp_all add: getValue_def)

text \<open>The best choice only improves, and what replaces it has \<open>d\<close> dimensions and a positive aggregation.\<close>

definition improves :: "'c optimizer \<Rightarrow> nat \<Rightarrow> 'c search_state \<Rightarrow> 'c search_state \<Rightarrow> bool" where
  "improves Op d s s' \<longleftrightarrow>
     cost_le (value_of (op_fpu Op) (ss_optimum s')) (value_of (op_fpu Op) (ss_optimum s)) \<and>
     (ss_optimum s' = ss_optimum s \<or>
      (\<exists>v. ss_optimum s' = Some v \<and> ov_d v = d \<and> 0 < ov_alpha v \<and> ov_fitness v = fv_fitness (op_fixed Op)))"

lemma improves_refl [simp]: "improves Op d s s"
  by (simp add: improves_def)

lemma improves_trans: "improves Op d s s' \<Longrightarrow> improves Op d s' s'' \<Longrightarrow> improves Op d s s''"
  unfolding improves_def by (elim conjE, intro conjI, erule (1) cost_le_trans) auto

lemma getDimSize_defined: "alpha \<noteq> 0 \<Longrightarrow> d \<noteq> 0 \<Longrightarrow> \<exists>dn. getDimSize pow_root n alpha d = Some dn"
  by (simp add: getDimSize_def Let_def)

lemma computeOptimVars_total:
  assumes "0 < d"
  obtains v s' where "computeOptimVars Op alpha d s = Some (v, s')" "improves Op d s s'" "cost_le (value_of (op_fpu Op) (ss_optimum s')) v"
proof -
  let ?a = "if alpha = 0 then 1 else alpha"
  obtain dn where dn: "getDimSize (fpu_root (op_fpu Op)) (wrap32 (fv_n (op_fixed Op))) ?a d = Some dn"
    using getDimSize_defined [of ?a d] assms by (metis less_numeral_extra(3) zero_neq_one)
  let ?c = "crypto_set_abs (op_crypto Op) (dn ! 0) (ss_crypto s)"
  define vars where "vars = estimate Op ?c ?a d dn"
  have r: "computeOptimVars Op alpha d s = Some (value_of (op_fpu Op) vars, analyseResult Op vars (s \<lparr> ss_crypto := ?c \<rparr>))"
    unfolding computeOptimVars_def Let_def dn vars_def by simp
  have vars: "vars = None \<or> (\<exists>v. vars = Some v \<and> ov_d v = d \<and> 0 < ov_alpha v \<and> ov_fitness v = fv_fitness (op_fixed Op))"
    by (simp add: vars_def estimate_def Let_def)
  show thesis
  proof (rule that [OF r])
    show "improves Op d s (analyseResult Op vars (s \<lparr> ss_crypto := ?c \<rparr>))"
      using vars cost_less_le [of "value_of (op_fpu Op) vars"]
      by (auto simp: improves_def analyseResult_def value_of_def Let_def option.map_comp comp_def)
    show "cost_le (value_of (op_fpu Op) (ss_optimum (analyseResult Op vars (s \<lparr> ss_crypto := ?c \<rparr>)))) (value_of (op_fpu Op) vars)"
      by (auto simp: analyseResult_def value_of_def Let_def option.map_comp comp_def cost_less_def)
  qed
qed


lemma least_value_total:
  assumes "0 < d"
  shows "\<exists>v' s'. least_value Op d v alphas s = Some (v', s') \<and> improves Op d s s'"
proof (induction alphas arbitrary: v s)
  case (Cons alpha alphas)
  obtain v1 s1 where 1: "computeOptimVars Op alpha d s = Some (v1, s1)" "improves Op d s s1"
    using computeOptimVars_total [OF assms] .
  then show ?case using Cons.IH [of "if cost_le v1 v then v1 else v" s1] improves_trans [OF 1(2)] by auto
qed simp

lemma slop_total:
  assumes "0 < d"
  shows "\<exists>v s'. slop Op alphaMul lower upper d s = Some (v, s') \<and> improves Op d s s'"
proof -
  let ?m = "getMinAlpha Op (ss_crypto s)"
  let ?r = "\<lambda>i. wrap32 ((alphaMul + 1 + i * (minus32 upper (1 + alphaMul) div 10)) * ?m)"
  let ?l = "\<lambda>i. wrap32 (minus32 alphaMul (1 + i * (minus32 alphaMul (lower + 1) div 10)) * ?m)"
  obtain v1 s1 where 1: "computeOptimVars Op (?r 0) d s = Some (v1, s1)" "improves Op d s s1"
    using computeOptimVars_total [OF assms] .
  obtain v2 s2 where 2: "least_value Op d v1 (map ?r [1..<11]) s1 = Some (v2, s2)" "improves Op d s1 s2"
    using least_value_total [OF assms] by blast
  obtain v3 s3 where 3: "computeOptimVars Op (?l 0) d s2 = Some (v3, s3)" "improves Op d s2 s3"
    using computeOptimVars_total [OF assms] .
  obtain v4 s4 where 4: "least_value Op d v3 (map ?l [1..<11]) s3 = Some (v4, s4)" "improves Op d s3 s4"
    using least_value_total [OF assms] by blast
  have "improves Op d s s4" using 1(2) 2(2) 3(2) 4(2) by (blast intro: improves_trans)
  then show ?thesis unfolding slop_def Let_def 1(1) prod.case option.case 2(1) 3(1) 4(1) by blast
qed

lemma findAlpha_from_total:
  assumes "0 < d" "0 < step" "alpha_max + step < 2 ^ 32"
  shows "\<exists>s'. findAlpha_from Op d step alpha alpha_max s = Some s' \<and> improves Op d s s'"
proof (induction "alpha_max + step - alpha" arbitrary: alpha s rule: less_induct)
  case less
  show ?case
  proof (cases "alpha \<le> alpha_max")
    case True
    obtain v1 s1 where 1: "computeOptimVars Op alpha d s = Some (v1, s1)" "improves Op d s s1"
      using computeOptimVars_total [OF assms(1)] .
    show ?thesis
    proof (cases "crypto_abs (op_crypto Op) (ss_crypto s1) = 0")
      case True
      then show ?thesis using 1 \<open>alpha \<le> alpha_max\<close> by (subst findAlpha_from.simps) simp
    next
      case False
      have w: "wrap32 (alpha + step) = alpha + step" using True assms(3) by simp
      have "alpha_max + step - (alpha + step) < alpha_max + step - alpha" using True assms(2) by simp
      then obtain s' where "findAlpha_from Op d step (alpha + step) alpha_max s1 = Some s'" "improves Op d s1 s'"
        using less.hyps [of "alpha + step" s1] True by auto
      then show ?thesis using 1 True False w improves_trans by (subst findAlpha_from.simps) auto
    qed
  next
    case False
    then show ?thesis by (subst findAlpha_from.simps) simp
  qed
qed

lemma getMinAlpha_bounds:
  assumes "fl (op_fpu Op) (of_nat (fv_n (op_fixed Op))) = of_nat (fv_n (op_fixed Op))"
  shows "0 < getMinAlpha Op c" "getMinAlpha Op c \<le> max 1 (fv_n (op_fixed Op))"
proof -
  let ?n = "fv_n (op_fixed Op)"
  define r :: rat where "r = (if fv_l (op_fixed Op) = 0 then of_nat ?n
    else of_int \<lceil>fl (op_fpu Op) (of_nat (crypto_abs_rec (op_crypto Op) c 0) / fl (op_fpu Op) (of_nat (fv_l (op_fixed Op))))\<rceil>)"
  define r' :: rat where "r' = (if r > of_nat ?n then of_nat ?n else r)"
  have e: "getMinAlpha Op c = (if fv_alphaMax (op_fixed Op) = 0 then if r' < 1 then 1 else nat \<lfloor>r'\<rfloor>
      else min (if r' < 1 then 1 else nat \<lfloor>r'\<rfloor>) (fv_alphaMax (op_fixed Op)))"
    unfolding getMinAlpha_def Let_def assms r'_def r_def ..
  have "r' \<le> of_nat ?n" by (simp add: r'_def)
  then have "nat \<lfloor>r'\<rfloor> \<le> ?n" by (simp add: floor_le_iff nat_le_iff)
  moreover have "\<not> r' < 1 \<Longrightarrow> 0 < nat \<lfloor>r'\<rfloor>" by simp
  ultimately show "0 < getMinAlpha Op c" "getMinAlpha Op c \<le> max 1 ?n" unfolding e by auto
qed

text \<open>
  What the search needs of the values that were fixed: the number of files is exact as a \<open>double\<close>, and the
  loop over the aggregations does not wrap around.
\<close>

definition search_fits :: "fpu \<Rightarrow> fixed_vars \<Rightarrow> bool" where
  "search_fits M F \<longleftrightarrow> fl M (of_nat (fv_n F)) = of_nat (fv_n F) \<and> fv_n F < 2 ^ 31 \<and> fv_alphaMax F < 2 ^ 31"

lemma findAlpha_total:
  assumes "0 < d" "search_fits (op_fpu Op) (op_fixed Op)" "alpha_max < 2 ^ 31"
  shows "\<exists>s'. findAlpha Op d alpha_min alpha_max s = Some s' \<and> improves Op d s s'"
proof -
  have "0 < getMinAlpha Op (ss_crypto s)" "getMinAlpha Op (ss_crypto s) \<le> 2 ^ 31"
    using assms(2) getMinAlpha_bounds [of Op "ss_crypto s"] by (auto simp: search_fits_def)
  then show ?thesis unfolding findAlpha_def using assms by (intro findAlpha_from_total) simp_all
qed

lemma findAlphaDicho_total:
  assumes "0 < d" "search_fits (op_fpu Op) (op_fixed Op)"
  shows "\<exists>s'. findAlphaDicho Op lower upper d s = Some s' \<and> improves Op d s s'"
  using assms
proof (induction Op lower upper d s rule: findAlphaDicho.induct)
  case (1 Op lower upper d s)
  let ?m = "getMinAlpha Op (ss_crypto s)" and ?F = "op_fixed Op"
  show ?case
  proof (cases "minus32 upper lower \<le> 100")
    case True
    let ?b = "if fv_n ?F < wrap32 (upper * ?m) then wrap32 (fv_n ?F) else min (fv_alphaMax ?F) (max kalphaBound (wrap32 (upper * ?m)))"
    have "?b < 2 ^ 31" using "1.prems"(2) by (auto simp: search_fits_def)
    from findAlpha_total [OF "1.prems" this] show ?thesis using True by (subst findAlphaDicho.simps) (simp add: Let_def)
  next
    case False
    let ?ab = "wrap32 (lower + minus32 upper lower div 2)"
    obtain v s1 where sl: "slop Op ?ab lower upper d s = Some (v, s1)" "improves Op d s s1"
      using slop_total [OF "1.prems"(1)] by blast
    show ?thesis
    proof (cases "v = - 1")
      case True
      from "1.IH"(1) [OF refl refl False refl sl(1) refl True "1.prems"] sl False True show ?thesis
        by (subst findAlphaDicho.simps) (auto simp: Let_def intro: improves_trans)
    next
      case neq: False
      from "1.IH"(2) [OF refl refl False refl sl(1) refl neq "1.prems"] sl False neq show ?thesis
        by (subst findAlphaDicho.simps) (auto simp: Let_def intro: improves_trans)
    qed
  qed
qed



text \<open>A loop whose rounds return and keep a relation to the state before.\<close>

lemma each_some_total:
  assumes "\<And>x s. x \<in> set xs \<Longrightarrow> \<exists>s'. f x s = Some s' \<and> R s s'" "\<And>s. R s s" "\<And>a b c. R a b \<Longrightarrow> R b c \<Longrightarrow> R a c"
  shows "\<exists>s'. each_some f xs s = Some s' \<and> R s s'"
  using assms(1)
proof (induction xs arbitrary: s)
  case Nil
  then show ?case by (simp add: assms(2))
next
  case (Cons x xs)
  obtain s1 where 1: "f x s = Some s1" "R s s1" using Cons.prems [of x s] by auto
  obtain s2 where "each_some f xs s1 = Some s2" "R s1 s2" using Cons.IH [of s1] Cons.prems by auto
  then show ?case using 1 assms(3) by auto
qed

text \<open>A choice that the search may return for the values that were fixed.\<close>

definition allowed :: "fixed_vars \<Rightarrow> optim_vars \<Rightarrow> bool" where
  "allowed F v \<longleftrightarrow> fv_dMin F \<le> ov_d v \<and> ov_d v \<le> fv_dMax F \<and> 0 < ov_alpha v \<and> ov_fitness v = fv_fitness F"

definition no_worse :: "fpu \<Rightarrow> fixed_vars \<Rightarrow> optim_vars option \<Rightarrow> optim_vars option \<Rightarrow> bool" where
  "no_worse M F a b \<longleftrightarrow> cost_le (value_of M b) (value_of M a) \<and> (b = a \<or> (\<exists>v. b = Some v \<and> allowed F v))"

lemma no_worse_refl: "no_worse M F a a"
  by (simp add: no_worse_def)

lemma no_worse_trans: "no_worse M F a b \<Longrightarrow> no_worse M F b c \<Longrightarrow> no_worse M F a c"
  unfolding no_worse_def by (elim conjE, intro conjI, erule (1) cost_le_trans) auto

lemma search_alpha_total:
  assumes "0 < d" "search_fits (op_fpu Op) (op_fixed Op)"
  shows "\<exists>s'. search_alpha Op d s = Some s' \<and> improves Op d s s'"
proof -
  obtain t where "findAlpha Op d 1 1 s = Some t" "improves Op d s t" using findAlpha_total [OF assms, of 1 1] by auto
  moreover obtain s' where "findAlphaDicho Op 0 (getMaxAlpha (op_fixed Op)) d t = Some s'" "improves Op d t s'"
    using findAlphaDicho_total [OF assms] by blast
  ultimately show ?thesis using improves_trans by (auto simp: search_alpha_def)
qed

text \<open>A cryptosystem that offers sets of parameters and accepts them.\<close>

definition accepts_its_sets :: "'c crypto_methods \<Rightarrow> bool" where
  "accepts_its_sets crypto \<longleftrightarrow> (\<forall>k. \<exists>ps. crypto_sets crypto k = Some ps \<and> (\<forall>p \<in> set ps. \<forall>c. crypto_compute crypto p c \<noteq> None))"

lemma optimize_system_total:
  assumes "0 < fv_dMin F" "search_fits M F" and ok: "accepts_its_sets (fst system)"
  shows "\<exists>b. optimize_system M F system a = Some b \<and> no_worse M F a b"
proof -
  obtain crypto caches c where sys: "system = (crypto, caches, c)" by (cases system)
  define Op where "Op = \<lparr> op_fpu = M, op_fixed = F, op_crypto = crypto, op_caches = caches \<rparr>"
  have Op: "op_fpu Op = M" "op_fixed Op = F" by (simp_all add: Op_def)
  let ?R = "\<lambda>s s'. no_worse M F (ss_optimum s) (ss_optimum s')"
  have dims: "\<exists>s'. each_some (search_alpha Op) [fv_dMin F..<fv_dMax F + 1] s = Some s' \<and> ?R s s'" for s
  proof (rule each_some_total)
    show "\<exists>s'. search_alpha Op d s = Some s' \<and> ?R s s'" if "d \<in> set [fv_dMin F..<fv_dMax F + 1]" for d s
    proof -
      have d: "0 < d" "fv_dMin F \<le> d" "d \<le> fv_dMax F" using that assms(1) by auto
      obtain s' where "search_alpha Op d s = Some s'" "improves Op d s s'" using search_alpha_total [of d Op s] d(1) assms(2) Op by auto
      then show ?thesis using d Op by (auto simp: improves_def no_worse_def allowed_def)
    qed
  qed (auto intro: no_worse_refl no_worse_trans)
  obtain offered where off: "crypto_sets crypto (fv_k F) = Some offered" "\<forall>p \<in> set offered. \<forall>c. crypto_compute crypto p c \<noteq> None"
    using ok unfolding sys fst_conv accepts_its_sets_def by blast
  let ?f = "\<lambda>p s. case crypto_compute crypto p (ss_crypto s) of None \<Rightarrow> None
    | Some c \<Rightarrow> each_some (search_alpha Op) [fv_dMin F..<fv_dMax F + 1] (s \<lparr> ss_crypto := c \<rparr>)"
  define ps where "ps = filter (\<lambda>p. case fv_manual F of None \<Rightarrow> True | Some cp_rex \<Rightarrow> cp_rex p) offered"
  let ?s = "\<lparr> ss_crypto = c, ss_optimum = None \<rparr>"
  have "\<exists>s'. each_some ?f ps ?s = Some s' \<and> ?R ?s s'"
  proof (rule each_some_total)
    show "\<exists>s'. ?f p s = Some s' \<and> ?R s s'" if mem: "p \<in> set ps" for p s
    proof -
      obtain c' where "crypto_compute crypto p (ss_crypto s) = Some c'" using off(2) mem unfolding ps_def by fastforce
      then show ?thesis using dims [of "s \<lparr> ss_crypto := c' \<rparr>"] by simp
    qed
  qed (auto intro: no_worse_refl no_worse_trans)
  then obtain s' where s': "each_some ?f ps ?s = Some s'" "no_worse M F None (ss_optimum s')" by auto
  have e: "optimize_system M F system a = (if fv_manual F \<noteq> None \<and> ps = [] then Some a
      else Some (if cost_less (value_of M (ss_optimum s')) (value_of M a) then ss_optimum s' else a))"
    unfolding optimize_system_def sys prod.case Let_def off(1) option.case Op_def [symmetric] ps_def [symmetric] s'(1) ..
  have "no_worse M F a (ss_optimum s')" if c: "cost_less (value_of M (ss_optimum s')) (value_of M a)"
  proof -
    have "ss_optimum s' \<noteq> None" using c by (cases "ss_optimum s'") (auto simp: value_of_def)
    then show ?thesis using s'(2) cost_less_le [OF c] by (auto simp: no_worse_def)
  qed
  then show ?thesis unfolding e by (auto intro: no_worse_refl)
qed


text \<open>With no limit on the aggregation (\<open>alphaMax = 0\<close>), the last step of the search, which is to test every
  aggregation between its bounds, tests none unless the upper bound exceeds the number of files: the limit of
  the loop is the least of 0 and another number.\<close>

theorem no_limit_tests_nothing:
  assumes "fv_alphaMax (op_fixed Op) = 0" "minus32 upper lower \<le> 100"
    "wrap32 (upper * getMinAlpha Op (ss_crypto s)) \<le> fv_n (op_fixed Op)" "0 < wrap32 (lower * getMinAlpha Op (ss_crypto s))"
  shows "findAlphaDicho Op lower upper d s = Some s"
  using assms by (subst findAlphaDicho.simps) (simp add: Let_def findAlpha_def findAlpha_from.simps)

section \<open>The lattice cryptosystem\<close>

definition lwe_system :: "(int \<Rightarrow> int \<Rightarrow> int) \<Rightarrow> u64 list \<Rightarrow> (nat \<Rightarrow> nat \<Rightarrow> nat \<Rightarrow> bool) \<Rightarrow> lwe crypto_methods" where
  "lwe_system mpz_invert rnd checkParamsSecure =
     \<lparr> crypto_name = ''LWE'',
       crypto_sets = (\<lambda>k. map_option snd (getCryptoParams checkParamsSecure k [])),
       crypto_compute = (\<lambda>p L. case lwe_setNewParameters_str mpz_invert rnd p L of Inl _ \<Rightarrow> None | Inr L \<Rightarrow> Some L),
       crypto_set_abs = (\<lambda>n L. snd (setandgetAbsBitPerCiphertext n L)),
       crypto_abs = getAbsorptionBitsize,
       crypto_abs_rec = (\<lambda>L i. getAbsorptionBitsize L),
       crypto_ciph_rec = getCiphBitsizeFromRecLvl,
       crypto_ciph = getCiphertextBitsize,
       crypto_short = (\<lambda>L. getSerializedParams L True),
       crypto_long = (\<lambda>L. getSerializedParams L False) \<rparr>"

lemma lwe_accepts_its_sets:
  assumes "attack_found check"
  shows "accepts_its_sets (lwe_system mpz_invert rnd check)"
  unfolding accepts_its_sets_def
proof
  fix k
  obtain n new where st: "getCryptoParams check k [] = Some (n, new)" "offers check k (0, []) (n, new)"
    using getCryptoParams_Some [OF assms] by blast
  have "crypto_compute (lwe_system mpz_invert rnd check) p L \<noteq> None" if "p \<in> set new" for p L
    using st(2) that offer_accepted [of check k p mpz_invert rnd L] by (auto simp: offers_def lwe_system_def)
  then show "\<exists>ps. crypto_sets (lwe_system mpz_invert rnd check) k = Some ps \<and> (\<forall>p \<in> set ps. \<forall>c. crypto_compute (lwe_system mpz_invert rnd check) p c \<noteq> None)"
    using st(1) by (intro exI [of _ new]) (simp add: lwe_system_def)
qed

section \<open>Examples\<close>

text \<open>A power function whose inexact roots are half an integer, and exact arithmetic.\<close>

definition half_root :: "nat \<Rightarrow> nat \<Rightarrow> rat" where
  "half_root n d = (let r = length (filter (\<lambda>r. r ^ d \<le> n) [1..<Suc n]) in if r ^ d = n then of_nat r else of_nat r + 1 / 2)"

lemma half_root_ok: "pow_ok half_root"
proof -
  define r where "r n d = length (filter (\<lambda>r. r ^ d \<le> n) [1..<Suc n])" for n d :: nat
  have root: "half_root n d = (if r n d ^ d = n then of_nat (r n d) else of_nat (r n d) + 1 / 2)" for n d
    by (simp add: half_root_def r_def Let_def)
  have "\<lfloor>1 / 2 :: rat\<rfloor> = 0" by (simp add: floor_eq_iff)
  then have fl: "nat \<lfloor>half_root n d\<rfloor> = r n d" for n d by (simp add: root)
  have "n \<le> (r n d + 1) ^ d" if "0 < d" for n d
  proof (rule ccontr)
    assume "\<not> n \<le> (r n d + 1) ^ d"
    then have big: "(r n d + 1) ^ d < n" by simp
    have small: "k ^ d \<le> n \<and> k \<le> n" if "k \<le> r n d + 1" for k
    proof -
      have "k ^ d \<le> (r n d + 1) ^ d" using that by (rule power_mono) simp
      moreover have "k \<le> k ^ d" using \<open>0 < d\<close> by (cases "k = 0") (auto intro: self_le_power)
      ultimately show ?thesis using big by linarith
    qed
    have "{1..r n d + 1} \<subseteq> set (filter (\<lambda>r. r ^ d \<le> n) [1..<Suc n])"
    proof
      fix k assume "k \<in> {1..r n d + 1}"
      then show "k \<in> set (filter (\<lambda>r. r ^ d \<le> n) [1..<Suc n])" using small [of k] by (simp del: upt_Suc add: less_Suc_eq_le)
    qed
    from card_mono [OF _ this] card_length [of "filter (\<lambda>r. r ^ d \<le> n) [1..<Suc n]"] show False by (simp add: r_def)
  qed
  moreover have "half_root 1 d = 1" for d by (simp add: half_root_def)
  moreover have "n \<le> r n d ^ d" if "of_nat (r n d) = half_root n d" for n d using that by (simp add: root split: if_splits)
  ultimately show ?thesis unfolding pow_ok_def fl by blast
qed

definition exact_fpu :: fpu where
  "exact_fpu = \<lparr> fl = (\<lambda>x. x), fl_long = (\<lambda>x. x), fpu_root = half_root \<rparr>"

definition example_fixed :: fixed_vars where
  "example_fixed = \<lparr> fv_n = 1000, fv_l = 8000, fv_Tupc = 10 ^ 8, fv_Tups = 10 ^ 8, fv_Tdoc = 10 ^ 8, fv_Tdos = 10 ^ 8,
     fv_manual = None, fv_k = 80, fv_dMin = 1, fv_dMax = 2, fv_alphaMax = 0, fv_fitness = FIT_MAX \<rparr>"

definition no_caches :: cost_caches where
  "no_caches = \<lparr> encrypt_cache = (\<lambda>_. None), decrypt_cache = (\<lambda>_. None), abs_cache = (\<lambda>_. None), precompute_cache = (\<lambda>_. None) \<rparr>"

definition example_lwe_system :: "lwe crypto_methods" where
  "example_lwe_system = lwe_system euclid_invert [3, 5, 7, 11] example_check"

definition example_optimizer :: "lwe optimizer" where
  "example_optimizer = \<lparr> op_fpu = exact_fpu, op_fixed = example_fixed, op_crypto = example_lwe_system, op_caches = no_caches \<rparr>"

lemma example_fits: "search_fits exact_fpu example_fixed"
  by (simp add: search_fits_def exact_fpu_def example_fixed_def)

theorem getDimSize_covers_witness:
  "\<exists>ns. getDimSize half_root 20 3 2 = Some ns \<and> length ns = 2 \<and> 20 \<le> 3 * prod_list ns"
proof -
  have "nat \<lfloor>half_root (ceil_div 20 3) 2\<rfloor> = 2" by code_simp
  then have "(nat \<lfloor>half_root (ceil_div 20 3) 2\<rfloor> + 1) ^ 2 < (2 :: nat) ^ 32" by simp
  from getDimSize_covers [OF half_root_ok _ _ this] show ?thesis by simp
qed



theorem no_limit_tests_nothing_witness:
  "findAlphaDicho example_optimizer 50 150 1 \<lparr> ss_crypto = NFLLWE_new, ss_optimum = None \<rparr> =
     Some \<lparr> ss_crypto = NFLLWE_new, ss_optimum = None \<rparr>"
proof -
  have "getMinAlpha example_optimizer NFLLWE_new = 1"
    by (simp add: getMinAlpha_def example_optimizer_def example_lwe_system_def lwe_system_def exact_fpu_def example_fixed_def
        getAbsorptionBitsize_def NFLLWE_new_def)
  then show ?thesis
    by (intro no_limit_tests_nothing) (simp_all add: example_optimizer_def example_fixed_def minus32_def)
qed

end
