(* ===== verification/Spec2Isabelle.thy ===== *)
theory Spec2Isabelle
  imports NetSession Optimizer
begin

text \<open>
  Verification development of XPIR (single-server private information retrieval, C++ sources under
  \<open>src/crypto\<close>, \<open>src/pir\<close> and \<open>src/apps\<close>). A client wants one element of a database without
  telling the server which: it sends, per dimension of a hypercube, encrypted selection bits, all
  zero but one; the server multiplies each element by its encrypted bit and adds up; the client
  decrypts. The cryptosystem modelled is \<open>NFLLWE\<close> (Ring-LWE on the polynomial library \<open>NFLlib_old\<close>).

  \<^bold>\<open>Parts of the program and their theories\<close>, in the order of the calls:

  \<^item> \<open>XPrelude\<close>: machine types (\<open>u64\<close>, \<open>u128\<close>, bytes), the congruence \<open>modeq\<close>, facts on words and
    lists. \<open>CStrings\<close>: \<open>std::to_string\<close>, \<open>atoi\<close>, \<open>boost::algorithm::split\<close>. \<open>FloatCount\<close>: the
    divisions in \<open>float\<close> with 24-bit rounding.
  \<^item> \<open>crypto/NFLlib_old.hpp\<close>, \<open>NFLlib_old.cpp\<close>, \<open>NFLParams.cpp\<close>: \<open>NFLArith\<close> (modular operations on
    words with lazy reduction), \<open>NFLPoly\<close> (polynomials), \<open>NTT\<close> and \<open>NTTCorrect\<close> (the transforms and
    the discrete Fourier transform they compute), \<open>NFLConfig\<close>, \<open>NFLConstants\<close>, \<open>NFLTransform\<close>
    (set-up: the object as the record \<open>NFLlib\<close>, its tables, negacyclic products), \<open>NFLCrt\<close> (lifting by
    the Chinese remainder theorem), \<open>NFLRandom\<close> (bounded random polynomials), \<open>BitSplit\<close> (bytes into
    coefficients) and \<open>Serialize\<close> (coefficients into bytes).
  \<^item> \<open>crypto/NFLLWE.cpp\<close>, \<open>NFLLWEPublicParameters.cpp\<close>: \<open>NFLLWE\<close> (the record \<open>lwe\<close>: parameters,
    keys, encryption, decryption, homomorphic operations) and \<open>NFLLWECorrect\<close> (the invariant
    \<open>lwe_ok\<close>, the relation \<open>encrypts\<close> between a ciphertext and a plaintext with its noise).
  \<^item> \<open>pir/shared_queue.hpp\<close>: \<open>SharedQueue\<close> (the blocking queue as atomic steps of any number of
    threads; the locale \<open>fifo_buffer\<close> is its sequential face). \<open>PIRTypes\<close>: \<open>PIRParameters\<close>, the
    virtual methods of a cryptosystem (record \<open>crypto\<close>), loops that may fail.
  \<^item> \<open>pir/dbhandlers\<close>: \<open>DBHandlers\<close>. \<open>pir/queryGen\<close>: \<open>QueryGen\<close>. \<open>pir/replyGenerator\<close>:
    \<open>PIRRecursion\<close> (the locale \<open>private_retrieval\<close>: the contract of one level, retrieval through all
    levels), \<open>ReplyGenNFL\<close> (the record \<open>nfl_generator\<close> and every operation), \<open>ReplyGenCorrect\<close>,
    \<open>ReplyGeneric\<close>. \<open>pir/replyExtraction\<close>: \<open>ReplyExtraction\<close>, \<open>ReplyWriter\<close>.
  \<^item> \<open>pir/libpir.cpp\<close>, \<open>apps/simplepir\<close>: \<open>LibPIR\<close>, and \<open>RingPIR\<close>, where all of this meets: the
    session retrieves the wanted element. \<open>apps/client/DESC.cpp\<close>: \<open>Catalog\<close>.
  \<^item> The programs over the network: \<open>Wire\<close> (the socket as two byte streams, the locale \<open>message\<close> of
    what is written by one side and read by the other, the results of code that throws, the
    factories), \<open>OptimWire\<close> (the messages of the optimizer, both sides), \<open>NetServer\<close>
    (\<open>apps/server/PIRSession.cpp\<close>: the record \<open>pir_session\<close>, a function per method, exceptions
    included), \<open>NetClient\<close> (\<open>apps/client/PIRClient.cpp\<close> in the order of its \<open>main.cpp\<close>: the record
    \<open>pir_client\<close>, and \<open>network_session\<close>, the two programs in turns), \<open>NetAnswer\<close> (the server's own
    key does not matter) and \<open>NetSession\<close>: the specification \<open>agreed\<close> of the exchange of parameters,
    which both modes meet, and from there to the file that the client writes.
  \<^item> The choice of the parameters: \<open>LWEParams\<close> (the sets that \<open>NFLLWE.cpp\<close> offers for a level of security;
    they are descriptors the cryptosystem accepts) and \<open>Optimizer\<close> (\<open>apps/optim/PIROptimizer.cpp\<close>,
    \<open>pir/optim/OptimVars.cpp\<close>: the sizes of the dimensions, the costs with every rounding, the search for the
    aggregation by dichotomy; it ends and keeps the least cost it has seen).

  \<^bold>\<open>What the lemmas show.\<close> The arithmetic agrees with arithmetic modulo \<open>p\<close> as long as the lazy
  values stay below their bounds, and the bounds are computed; the transforms are inverse to each
  other and turn cell-wise products into negacyclic ones; encryption followed by any selection sum
  and by decryption gives back the selected plaintext while the noise is below a stated bound, and
  loses it above. Importing and packing are inverse to each other. The queue is first in first out
  under every interleaving and does not deadlock. \<open>private_retrieval\<close> is interpreted on the
  generator, so one lemma on recursion serves every dimension. Theorems whose name says so
  (\<open>..._loses_...\<close>, \<open>..._stuck\<close>, \<open>..._wrong\<close>, \<open>..._differ\<close>) prove what the code does where it does
  not do what its comments or its purpose say.

  \<^bold>\<open>Conventions.\<close> \<open>None\<close> is undefined behaviour (an access outside an array, a null pointer followed,
  a division by zero), a call that blocks for ever, or a loop that does not end; so \<open>Some\<close> in a
  conclusion includes that the code returns. Every \<open>while\<close> loop is either structural or a
  \<open>partial_function (option)\<close>, and where it ends a theorem says so; no fuel is used, except in the
  step relation of the queue, whose liveness theorem speaks of all runs. Fixed-width integers are
  words where they may wrap; sizes that the code keeps in \<open>uint64_t\<close> and that no input makes
  large are natural numbers, with the bound as a hypothesis.

  \<^bold>\<open>Parameters.\<close> GMP's \<open>mpz_invert\<close> (locale \<open>mpz_inversion\<close>, interpreted on the extended Euclidean
  algorithm), the random bytes of the generator \<open>crypto/prng\<close> (assembly), the file system, and the
  free memory of the machine are arguments.

  The network session is the one without pipelining; in the pipelined one the same functions run in
  threads, and as every read waits for its bytes and the queues are the blocking ones of \<open>SharedQueue\<close>,
  each side sends the same bytes in the same order.

  \<^bold>\<open>Not modelled.\<close> \<open>crypto/NFLFV\<close>, \<open>FV2048_124\<close>, \<open>FVobject\<close> and the generator \<open>PIRReplyGeneratorNFLFV\<close> (they call
  the external library NFLlib, which is not in the repository), the copy of the bit splitter in
  \<open>crypto/Bitsplit.cpp\<close>, Paillier with its generator \<open>PIRReplyGeneratorGMP\<close>, \<open>NoCryptography\<close> with its
  generator, the measurement of the times that the optimizer compares and their files
  (\<open>computeOptimData\<close>, \<open>OptimService\<close>; the times are arguments of its search, and its choice is an argument of
  the session), the estimate of an attack in \<open>NFLLWE.cpp\<close> (\<open>checkParamsSecure\<close>, transcendental functions in
  \<open>double\<close>, an argument of \<open>LWEParams\<close>), the server's accept loop and its files
  (\<open>PIRServer\<close>, \<open>ServerService\<close>), the command lines, views and events, \<open>apps/XPIR-hash\<close>, and the assembly
  of the random generator.
\<close>

end
